(* ===== verification/Prelude_CStr.thy ===== *)
theory Prelude_CStr
  imports Main "HOL-Library.Sublist"
begin

text \<open>
  Shared vocabulary of the development: bytes, C strings and the functions of the C
  library that the modelled code calls.

  A C string is a \<^typ>\<open>string\<close>, the list of its bytes before the terminating NUL (which is
  not stored); a pointer into a string is the suffix it points to, and \<open>*p = NUL\<close> is the empty
  suffix. \<open>strcmp\<close> and its relatives compare bytes as unsigned numbers, as the C standard
  asks; only the sign of their result is used by the code. The case-insensitive functions fold
  the ASCII letters, which is what they do in the \<^verbatim>\<open>C\<close> locale the daemons run in.
\<close>

section \<open>Collections\<close>

named_theorems cstr_simps \<open>equations of the C string library\<close>

section \<open>Bytes\<close>

abbreviation byte :: "char \<Rightarrow> nat" where
  "byte c \<equiv> of_char c"

abbreviation NUL :: char where
  "NUL \<equiv> CHR 0x00"

text \<open>The NUL byte never occurs inside a C string.\<close>

definition c_string :: "string \<Rightarrow> bool" where
  "c_string s \<longleftrightarrow> NUL \<notin> set s"

text \<open>Reading through a pointer: the byte it points to, NUL at the end of the string.\<close>

fun deref :: "string \<Rightarrow> char" where
  "deref [] = NUL"
| "deref (c # _) = c"

definition c_isdigit :: "char \<Rightarrow> bool" where
  "c_isdigit c \<longleftrightarrow> 48 \<le> byte c \<and> byte c \<le> 57"

definition digit_val :: "char \<Rightarrow> nat" where
  "digit_val c = byte c - 48"

definition c_tolower :: "char \<Rightarrow> char" where
  "c_tolower c = (if 65 \<le> byte c \<and> byte c \<le> 90 then char_of (byte c + 32) else c)"

lemma byte_less_256 [simp]: "byte c < (256::nat)"
  by (metis of_char_mod_256 mod_less_divisor zero_less_numeral)

lemma byte_eq_iff: "byte c = byte d \<longleftrightarrow> c = d"
  by simp

lemma byte_char_of [simp]: "n < 256 \<Longrightarrow> byte (char_of n) = n"
  by simp

lemma c_string_simps [simp]:
  "c_string []"
  "c_string (c # s) \<longleftrightarrow> c \<noteq> NUL \<and> c_string s"
  "c_string (s @ t) \<longleftrightarrow> c_string s \<and> c_string t"
  by (auto simp: c_string_def)

lemma c_tolower_idem [simp]: "c_tolower (c_tolower c) = c_tolower c"
  by (auto simp: c_tolower_def)

section \<open>The string library\<close>

fun strcmp :: "string \<Rightarrow> string \<Rightarrow> int" where
  "strcmp [] [] = 0"
| "strcmp [] (d # t) = - int (byte d)"
| "strcmp (c # s) [] = int (byte c)"
| "strcmp (c # s) (d # t) = (if c = d then strcmp s t else int (byte c) - int (byte d))"

fun strncmp :: "string \<Rightarrow> string \<Rightarrow> nat \<Rightarrow> int" where
  "strncmp s t 0 = 0"
| "strncmp [] [] (Suc n) = 0"
| "strncmp [] (d # t) (Suc n) = - int (byte d)"
| "strncmp (c # s) [] (Suc n) = int (byte c)"
| "strncmp (c # s) (d # t) (Suc n) =
     (if c = d then strncmp s t n else int (byte c) - int (byte d))"

definition strcasecmp :: "string \<Rightarrow> string \<Rightarrow> int" where
  "strcasecmp s t = strcmp (map c_tolower s) (map c_tolower t)"

definition strncasecmp :: "string \<Rightarrow> string \<Rightarrow> nat \<Rightarrow> int" where
  "strncasecmp s t n = strncmp (map c_tolower s) (map c_tolower t) n"

text \<open>\<open>strchr\<close> returns the suffix that starts at the first occurrence.\<close>

fun strchr :: "string \<Rightarrow> char \<Rightarrow> string option" where
  "strchr [] c = None"
| "strchr (d # s) c = (if d = c then Some (d # s) else strchr s c)"

text \<open>\<open>strstr\<close> returns the offset of the first occurrence.\<close>

fun strstr :: "string \<Rightarrow> string \<Rightarrow> nat option" where
  "strstr [] p = (if p = [] then Some 0 else None)"
| "strstr (c # s) p = (if prefix p (c # s) then Some 0 else map_option Suc (strstr s p))"

text \<open>\<open>atoi\<close> skips white space, reads a sign and the digits that follow.\<close>

definition c_isspace :: "char \<Rightarrow> bool" where
  "c_isspace c \<longleftrightarrow> byte c = 32 \<or> (9 \<le> byte c \<and> byte c \<le> 13)"

fun digits_val :: "nat \<Rightarrow> string \<Rightarrow> nat" where
  "digits_val acc [] = acc"
| "digits_val acc (c # s) =
     (if c_isdigit c then digits_val (10 * acc + digit_val c) s else acc)"

definition atoi :: "string \<Rightarrow> int" where
  "atoi s = (case dropWhile c_isspace s of
       [] \<Rightarrow> 0
     | c # t \<Rightarrow> if c = CHR ''-'' then - int (digits_val 0 t)
               else if c = CHR ''+'' then int (digits_val 0 t)
               else int (digits_val 0 (c # t)))"

subsection \<open>Their laws\<close>

lemma byte_pos [simp]: "0 < byte c \<longleftrightarrow> c \<noteq> NUL"
proof -
  have "byte c = 0 \<longleftrightarrow> byte c = byte NUL" by simp
  then show ?thesis by (simp only: byte_eq_iff neq0_conv [symmetric])
qed

lemma strcmp_refl [simp]: "strcmp s s = 0"
  by (induction s) auto

lemma strcmp_eq_0:
  "c_string s \<Longrightarrow> c_string t \<Longrightarrow> strcmp s t = 0 \<longleftrightarrow> s = t"
  by (induction s t rule: strcmp.induct) auto

lemma strcmp_swap: "strcmp t s = - strcmp s t"
  by (induction s t rule: strcmp.induct) auto

lemma strcmp_less_trans:
  "c_string s \<Longrightarrow> c_string t \<Longrightarrow> c_string u \<Longrightarrow> strcmp s t < 0 \<Longrightarrow> strcmp t u < 0 \<Longrightarrow> strcmp s u < 0"
proof (induction s t arbitrary: u rule: strcmp.induct)
  case (4 c s d t)
  then show ?case by (cases u) (auto split: if_splits)
next
  case (2 d t)
  then show ?case by (cases u) (auto split: if_splits)
qed auto

lemma strncmp_eq_0:
  "c_string s \<Longrightarrow> c_string t \<Longrightarrow> strncmp s t n = 0 \<longleftrightarrow> take n s = take n t"
  by (induction s t n rule: strncmp.induct) auto

lemma strncmp_take:
  "strncmp s t n = strcmp (take n s) (take n t)"
  by (induction s t n rule: strncmp.induct) auto

lemma strncmp_prefix:
  "c_string s \<Longrightarrow> c_string t \<Longrightarrow> strncmp s t (length s) = 0 \<longleftrightarrow> prefix s t"
  by (simp add: strncmp_eq_0) (metis append_eq_conv_conj prefix_def take_is_prefix)

lemma byte_c_tolower:
  "byte (c_tolower c) = (if 65 \<le> byte c \<and> byte c \<le> 90 then byte c + 32 else (byte c :: nat))"
  by (simp add: c_tolower_def)

lemma c_tolower_NUL [simp]: "c_tolower c = NUL \<longleftrightarrow> c = NUL"
proof -
  have "0 < byte (c_tolower c) \<longleftrightarrow> 0 < byte c"
    by (auto simp only: byte_c_tolower split: if_splits)
  then show ?thesis by simp
qed

lemma c_string_map_tolower [simp]: "c_string (map c_tolower s) \<longleftrightarrow> c_string s"
  by (induction s) auto

lemma c_string_take [simp]: "c_string s \<Longrightarrow> c_string (take n s)"
  by (auto simp: c_string_def dest: in_set_takeD)

lemma c_string_drop [simp]: "c_string s \<Longrightarrow> c_string (drop n s)"
  by (auto simp: c_string_def dest: in_set_dropD)

lemma strcasecmp_eq_0:
  "c_string s \<Longrightarrow> c_string t \<Longrightarrow> strcasecmp s t = 0 \<longleftrightarrow> map c_tolower s = map c_tolower t"
  by (simp add: strcasecmp_def strcmp_eq_0)

lemma strncasecmp_eq_0:
  "c_string s \<Longrightarrow> c_string t \<Longrightarrow>
   strncasecmp s t n = 0 \<longleftrightarrow> take n (map c_tolower s) = take n (map c_tolower t)"
  by (simp add: strncasecmp_def strncmp_eq_0)

lemma strncasecmp_prefix:
  "c_string s \<Longrightarrow> c_string t \<Longrightarrow>
   strncasecmp s t (length s) = 0 \<longleftrightarrow> prefix (map c_tolower s) (map c_tolower t)"
  using strncmp_prefix [of "map c_tolower s" "map c_tolower t"]
  by (simp add: strncasecmp_def)

lemma strchr_None [simp]: "strchr s c = None \<longleftrightarrow> c \<notin> set s"
  by (induction s) auto

lemma strchr_Some: "strchr s c = Some u \<longleftrightarrow> (\<exists>p. s = p @ u \<and> c \<notin> set p \<and> (\<exists>v. u = c # v))"
proof (induction s)
  case Nil
  then show ?case by auto
next
  case (Cons d s)
  then show ?case by (auto simp: Cons_eq_append_conv)
qed

lemma strchr_append: "c \<notin> set p \<Longrightarrow> strchr (p @ c # v) c = Some (c # v)"
  by (induction p) auto

lemma strstr_None: "strstr s p = None \<longleftrightarrow> \<not> sublist p s"
  by (induction s) (auto simp: sublist_Cons_right)

lemma strstr_Some:
  "strstr s p = Some i \<Longrightarrow> i \<le> length s \<and> prefix p (drop i s) \<and> (\<forall>j<i. \<not> prefix p (drop j s))"
proof (induction s arbitrary: i)
  case Nil
  then show ?case by (auto split: if_splits)
next
  case (Cons c s)
  show ?case
  proof (cases "prefix p (c # s)")
    case True
    with Cons.prems show ?thesis by auto
  next
    case False
    with Cons.prems obtain k where k: "strstr s p = Some k" "i = Suc k" by auto
    from Cons.IH [OF k(1)] have IH: "k \<le> length s" "prefix p (drop k s)"
      "\<forall>j<k. \<not> prefix p (drop j s)" by auto
    have "\<not> prefix p (drop j (c # s))" if "j < i" for j
      using that False IH(3) k(2) by (cases j) auto
    with IH k(2) show ?thesis by auto
  qed
qed

section \<open>Splitting at a separator\<close>

text \<open>The fields of a string between the occurrences of a separator; always at least one.\<close>

fun split_on :: "'a \<Rightarrow> 'a list \<Rightarrow> 'a list list" where
  "split_on d [] = [[]]"
| "split_on d (c # s) =
     (if c = d then [] # split_on d s
      else (c # hd (split_on d s)) # tl (split_on d s))"

lemma split_on_ne [simp]: "split_on d s \<noteq> []"
  by (cases s) auto

lemma split_on_no_sep [simp]: "d \<notin> set s \<Longrightarrow> split_on d s = [s]"
  by (induction s) auto

lemma split_on_append_sep: "d \<notin> set p \<Longrightarrow> split_on d (p @ d # s) = p # split_on d s"
  by (induction p) auto

lemma split_on_fields: "f \<in> set (split_on d s) \<Longrightarrow> d \<notin> set f"
proof (induction s arbitrary: f)
  case (Cons c s)
  have "hd (split_on d s) \<in> set (split_on d s)" by simp
  with Cons show ?case
    by (auto split: if_splits dest: list.set_sel(2) [OF split_on_ne])
qed simp

lemma length_split_on: "length (split_on d s) = Suc (count_list s d)"
  by (induction s) auto

text \<open>The fields put back together.\<close>

fun join_with :: "'a \<Rightarrow> 'a list list \<Rightarrow> 'a list" where
  "join_with d [] = []"
| "join_with d [f] = f"
| "join_with d (f # g # fs) = f @ d # join_with d (g # fs)"

lemma join_with_snoc:
  "fs \<noteq> [] \<Longrightarrow> join_with d (fs @ [g]) = join_with d fs @ d # g"
  by (induction fs rule: join_with.induct) auto

lemma join_with_last_append:
  "join_with d (fs @ [g @ h]) = join_with d (fs @ [g]) @ h"
  by (cases "fs = []") (auto simp: join_with_snoc)

lemma join_with_Cons: "fs \<noteq> [] \<Longrightarrow> join_with d (f # fs) = f @ d # join_with d fs"
  by (cases fs) auto

lemma join_split_on [simp]: "join_with d (split_on d s) = s"
proof (induction s)
  case (Cons c s)
  obtain h t where "split_on d s = h # t" by (cases "split_on d s") auto
  with Cons show ?case
    by (cases t) (auto simp: join_with_Cons)
qed simp

section \<open>Decimal numbers\<close>

text \<open>What \<open>printf\<close> writes for \<open>%d\<close> and \<open>%ld\<close>.\<close>

fun dec_nat :: "nat \<Rightarrow> string" where
  "dec_nat n =
     (if n < 10 then [char_of (48 + n)] else dec_nat (n div 10) @ [char_of (48 + n mod 10)])"

declare dec_nat.simps [simp del]

definition dec_int :: "int \<Rightarrow> string" where
  "dec_int i = (if i < 0 then CHR ''-'' # dec_nat (nat (- i)) else dec_nat (nat i))"

lemma digits_val_snoc:
  "\<forall>c\<in>set s. c_isdigit c \<Longrightarrow> c_isdigit c \<Longrightarrow>
   digits_val acc (s @ [c]) = 10 * digits_val acc s + digit_val c"
  by (induction s arbitrary: acc) auto

lemma digit_char:
  "n < 10 \<Longrightarrow> c_isdigit (char_of (48 + n)) \<and> digit_val (char_of (48 + n)) = n"
  by (simp add: c_isdigit_def digit_val_def)

lemma dec_nat_digits: "(\<forall>c\<in>set (dec_nat n). c_isdigit c) \<and> digits_val 0 (dec_nat n) = n"
proof (induction n rule: dec_nat.induct)
  case (1 n)
  show ?case
  proof (cases "n < 10")
    case True
    then show ?thesis using digit_char [of n] by (simp add: dec_nat.simps [of n])
  next
    case False
    have m: "n mod 10 < 10" by simp
    show ?thesis
      using 1 [OF False] False digit_char [OF m]
      by (auto simp: dec_nat.simps [of n] digits_val_snoc)
  qed
qed

lemma dec_nat_no_space: "CHR '' '' \<notin> set (dec_nat n)"
  using dec_nat_digits [of n] by (auto simp: c_isdigit_def)

section \<open>Lines\<close>

abbreviation "NL \<equiv> CHR 0x0A"

text \<open>\<open>fgets\<close> with room for \<open>n\<close> characters; what it read and what is left.\<close>

fun fgets :: "nat \<Rightarrow> string \<Rightarrow> string \<times> string" where
  "fgets 0 s = ([], s)"
| "fgets (Suc n) [] = ([], [])"
| "fgets (Suc n) (c # s) = (if c = NL then ([c], s) else let (l, r) = fgets n s in (c # l, r))"

lemma fgets_length: "fgets n s = (l, r) \<Longrightarrow> length l + length r = length s"
  by (induction n s arbitrary: l r rule: fgets.induct) (auto split: if_splits prod.splits)

lemma fgets_rest: "s \<noteq> [] \<Longrightarrow> 0 < n \<Longrightarrow> length (snd (fgets n s)) < length s"
proof -
  assume "s \<noteq> []" "0 < n"
  then have "fst (fgets n s) \<noteq> []"
    by (cases n; cases s) (auto split: prod.splits)
  moreover have "length (fst (fgets n s)) + length (snd (fgets n s)) = length s"
    by (rule fgets_length) simp
  ultimately show ?thesis by (cases "fst (fgets n s)") simp_all
qed

lemma fgets_less: "(l, r) = fgets n s \<Longrightarrow> s \<noteq> [] \<Longrightarrow> 0 < n \<Longrightarrow> length r < length s"
  using fgets_rest [of s n] by (cases "fgets n s") simp

lemma fgets_short: "NL \<notin> set k \<Longrightarrow> length k < n \<Longrightarrow> fgets n (k @ NL # r) = (k @ [NL], r)"
proof (induction k arbitrary: n)
  case Nil
  then show ?case by (cases n) auto
next
  case (Cons c k)
  then show ?case by (cases n) auto
qed

lemma fgets_exact: "NL \<notin> set k \<Longrightarrow> fgets (length k) (k @ r) = (k, r)"
  by (induction k) auto

section \<open>Memory errors\<close>

text \<open>
  An access outside an object is undefined behaviour in C. Where the code can make one, its
  model returns this error instead of an invented value.
\<close>

datatype mem_error = OutOfBounds

lemmas cstr_laws = strcmp_eq_0 strncmp_eq_0 strcasecmp_eq_0 strncasecmp_eq_0

end
