(* ===== verification/Analysis_Types.thy ===== *)
theory Analysis_Types
  imports Prelude_CStr "HOL-Library.Word"
begin

unbundle bit_operations_syntax

text \<open>
  The data the analysis engine works on: \<open>OSDecoderInfo\<close> (\<^verbatim>\<open>analysisd/decoders/decoder.h\<close>),
  \<open>Eventinfo\<close> (\<^verbatim>\<open>analysisd/eventinfo.h\<close>) and \<open>RuleInfo\<close> (\<^verbatim>\<open>analysisd/rules.h\<close>) with the fields that
  matching and correlation read or write; the prefixes \<open>di_\<close>, \<open>lf_\<close> and \<open>r_\<close> keep the three name
  spaces apart. A \<open>char *\<close> that may be NULL is a \<open>string option\<close>. Events and rules are shared
  through pointers and updated in place, so the engine's functions take stores from addresses to
  records. The type variable \<open>'m\<close> is the type of compiled patterns (\<open>OSMatch\<close>, \<open>OSRegex\<close>, \<open>OSPcre2\<close>),
  whose matcher is the PCRE2 library, not part of the repository.
\<close>

section \<open>Option bits\<close>

text \<open>\<open>alert_opts\<close> and \<open>context_opts\<close> are \<open>u_int16_t\<close>.\<close>

abbreviation "DO_FTS \<equiv> (0x001 :: 16 word)"
abbreviation "DO_MAILALERT \<equiv> (0x002 :: 16 word)"
abbreviation "DO_LOGALERT \<equiv> (0x004 :: 16 word)"
abbreviation "NO_AR \<equiv> (0x008 :: 16 word)"
abbreviation "NO_ALERT \<equiv> (0x010 :: 16 word)"
abbreviation "DO_OVERWRITE \<equiv> (0x020 :: 16 word)"
abbreviation "DO_PACKETINFO \<equiv> (0x040 :: 16 word)"
abbreviation "DO_EXTRAINFO \<equiv> (0x100 :: 16 word)"
abbreviation "SAME_EXTRAINFO \<equiv> (0x200 :: 16 word)"

abbreviation "SAME_USER \<equiv> (0x001 :: 16 word)"
abbreviation "SAME_SRCIP \<equiv> (0x002 :: 16 word)"
abbreviation "SAME_ID \<equiv> (0x004 :: 16 word)"
abbreviation "SAME_LOCATION \<equiv> (0x008 :: 16 word)"
abbreviation "DIFFERENT_URL \<equiv> (0x010 :: 16 word)"
abbreviation "DIFFERENT_SRCGEOIP \<equiv> (0x400 :: 16 word)"
abbreviation "SAME_SRCPORT \<equiv> (0x020 :: 16 word)"
abbreviation "SAME_DSTPORT \<equiv> (0x040 :: 16 word)"
abbreviation "SAME_DODIFF \<equiv> (0x100 :: 16 word)"

definition has_bit :: "16 word \<Rightarrow> 16 word \<Rightarrow> bool" where
  "has_bit opts b \<longleftrightarrow> opts AND b \<noteq> 0"

text \<open>The fields a first-time-seen or ignore key is made of (\<^verbatim>\<open>analysisd/eventinfo.h\<close>).\<close>

abbreviation "FTS_NAME \<equiv> (0x200 :: nat)"
abbreviation "FTS_SRCUSER \<equiv> (0x400 :: nat)"
abbreviation "FTS_DSTUSER \<equiv> (0x800 :: nat)"
abbreviation "FTS_SRCIP \<equiv> (0x040 :: nat)"
abbreviation "FTS_DSTIP \<equiv> (0x080 :: nat)"
abbreviation "FTS_LOCATION \<equiv> (0x100 :: nat)"
abbreviation "FTS_ID \<equiv> (0x008 :: nat)"
abbreviation "FTS_DATA \<equiv> (0x010 :: nat)"
abbreviation "FTS_SYSTEMNAME \<equiv> (0x020 :: nat)"

definition FTS_DONE :: nat where
  "FTS_DONE = 0x1000"

definition MAX_LAST_EVENTS :: nat where
  "MAX_LAST_EVENTS = 11"

section \<open>Decoders, events, rules\<close>

record OSDecoderInfo =
  di_name :: "string option"
  di_id :: nat
  di_type :: nat
  di_fts :: nat
  di_accumulate :: int
  di_fields :: "string option list option"

record Eventinfo =
  lf_log :: string
  lf_full_log :: string
  lf_location :: "string option"
  lf_hostname :: "string option"
  lf_agent_name :: "string option"
  lf_program_name :: "string option"
  lf_srcip :: "string option"
  lf_srcgeoip :: "string option"
  lf_src_country :: "string option"
  lf_srcasn :: "string option"
  lf_dstip :: "string option"
  lf_dstgeoip :: "string option"
  lf_srcport :: "string option"
  lf_dstport :: "string option"
  lf_protocol :: "string option"
  lf_action :: "string option"
  lf_srcuser :: "string option"
  lf_dstuser :: "string option"
  lf_id :: "string option"
  lf_status :: "string option"
  lf_url :: "string option"
  lf_data :: "string option"
  lf_systemname :: "string option"
  lf_fields :: "string option list"
  lf_generated_rule :: "nat option"
  lf_alert_last_events :: "string option list option"
  lf_decoder_info :: OSDecoderInfo
  lf_size :: nat
  lf_list_retained :: bool
  lf_matched :: int
  lf_time :: int
  lf_hour :: string
  lf_p_name_size :: nat
  lf_day :: int
  lf_year :: int
  lf_mon :: string
  lf_filename :: "string option"
  lf_alert_id :: nat

text \<open>A \<open><list>\<close> condition: the field to look up; the rest belongs to the list module.\<close>

datatype list_field =
  RULE_SRCIP | RULE_SRCPORT | RULE_DSTIP | RULE_DSTPORT | RULE_USER | RULE_URL | RULE_ID |
  RULE_HOSTNAME | RULE_PROGRAM_NAME | RULE_STATUS | RULE_ACTION | RULE_SYSTEM_NAME | RULE_OTHER

text \<open>
  An active response with what its command expects (\<^verbatim>\<open>analysisd/active-response.h\<close>,
  \<^verbatim>\<open>headers/ar.h\<close>); \<open>int_bit\<close> tests a flag of an \<open>int\<close>.
\<close>

record active_response =
  ar_name :: string
  ar_location :: nat
  ar_agent_id :: "string option"
  ar_expect :: nat

definition int_bit :: "nat \<Rightarrow> nat \<Rightarrow> bool" where
  "int_bit n b \<longleftrightarrow> n AND b \<noteq> 0"

lemma int_bit_or [simp]: "int_bit (a OR b) f \<longleftrightarrow> int_bit a f \<or> int_bit b f"
proof -
  have "(a OR b) AND f = (a AND f) OR (b AND f)" by (auto simp: bit_eq_iff bit_simps)
  moreover have "x OR y = 0 \<longleftrightarrow> x = 0 \<and> y = 0" for x y :: nat by (auto simp: bit_eq_iff bit_simps)
  ultimately show ?thesis by (simp add: int_bit_def)
qed

abbreviation "ALL_AGENTS \<equiv> (1 :: nat)"
abbreviation "REMOTE_AGENT \<equiv> (2 :: nat)"
abbreviation "SPECIFIC_AGENT \<equiv> (4 :: nat)"
abbreviation "AS_ONLY \<equiv> (8 :: nat)"
abbreviation "REMOTE_AR \<equiv> (1 :: nat)"
abbreviation "LOCAL_AR \<equiv> (2 :: nat)"
abbreviation "AR_USERNAME \<equiv> (1 :: nat)"
abbreviation "AR_SRCIP \<equiv> (4 :: nat)"
abbreviation "AR_FILENAME \<equiv> (8 :: nat)"

text \<open>The function pointer \<open>event_search\<close>: one of the three searches, or NULL.\<close>

datatype event_search = LastEvents | LastSids | LastGroups

record ('m, 'l) RuleInfo =
  r_sigid :: int
  r_level :: int
  r_maxsize :: nat
  r_frequency :: int
  r_timeframe :: int
  r_context :: nat
  r_firedtimes :: nat
  r_time_ignored :: int
  r_ignore_time :: int
  r_ignore :: nat
  r_ckignore :: nat
  r_cur_frequency :: int
  r_last_events :: "string option list option"
  r_last_events_copied :: bool
  r_alert_opts :: "16 word"
  r_context_opts :: "16 word"
  r_category :: nat
  r_decoded_as :: nat
  r_sid_prev_matched :: "nat option"
  r_sid_search :: "nat option"
  r_group_prev_matched :: "nat list"
  r_group_search :: "nat option"
  r_event_search :: "event_search option"
  r_group :: string
  r_match :: "'m option"
  r_match_pcre2 :: "'m option"
  r_regex :: "'m option"
  r_pcre2 :: "'m option"
  r_day_time :: "string option"
  r_week_day :: "string option"
  r_srcip :: "string list option"
  r_dstip :: "string list option"
  r_srcgeoip :: "'m option"
  r_src_country :: "'m option"
  r_srcasn :: "'m option"
  r_dstgeoip :: "'m option"
  r_srcport :: "'m option"
  r_dstport :: "'m option"
  r_user :: "'m option"
  r_url :: "'m option"
  r_id :: "'m option"
  r_status :: "'m option"
  r_hostname :: "'m option"
  r_agent_name :: "'m option"
  r_location :: "'m option"
  r_program_name :: "'m option"
  r_extra_data :: "'m option"
  r_fields :: "(string \<times> 'm) list"
  r_srcgeoip_pcre2 :: "'m option"
  r_src_country_pcre2 :: "'m option"
  r_srcasn_pcre2 :: "'m option"
  r_dstgeoip_pcre2 :: "'m option"
  r_srcport_pcre2 :: "'m option"
  r_dstport_pcre2 :: "'m option"
  r_user_pcre2 :: "'m option"
  r_url_pcre2 :: "'m option"
  r_id_pcre2 :: "'m option"
  r_status_pcre2 :: "'m option"
  r_hostname_pcre2 :: "'m option"
  r_agent_name_pcre2 :: "'m option"
  r_location_pcre2 :: "'m option"
  r_program_name_pcre2 :: "'m option"
  r_extra_data_pcre2 :: "'m option"
  r_action :: "string option"
  r_lists :: "(list_field \<times> 'l) list"
  r_if_sid :: "string option"
  r_if_level :: "string option"
  r_if_group :: "string option"
  r_if_matched_regex :: "'m option"
  r_if_matched_group :: "'m option"
  r_if_matched_sid :: int
  r_compiled_rule :: "nat option"
  r_ar :: "active_response list"

text \<open>An event with nothing decoded (\<open>Zero_Eventinfo\<close>), and a rule as \<open>calloc\<close> leaves it.\<close>

definition zero_event :: Eventinfo where
  "zero_event = \<lparr>
     lf_log = [], lf_full_log = [], lf_location = None, lf_hostname = None, lf_agent_name = None,
     lf_program_name = None, lf_srcip = None, lf_srcgeoip = None, lf_src_country = None,
     lf_srcasn = None, lf_dstip = None, lf_dstgeoip = None, lf_srcport = None, lf_dstport = None,
     lf_protocol = None, lf_action = None, lf_srcuser = None, lf_dstuser = None, lf_id = None,
     lf_status = None, lf_url = None, lf_data = None, lf_systemname = None, lf_fields = [],
     lf_generated_rule = None, lf_alert_last_events = None,
     lf_decoder_info = \<lparr>di_name = None, di_id = 0, di_type = 0, di_fts = 0, di_accumulate = 0, di_fields = None\<rparr>,
     lf_size = 0, lf_list_retained = False, lf_matched = 0, lf_time = 0, lf_hour = [], lf_p_name_size = 0,
     lf_day = 0, lf_year = 0, lf_mon = [], lf_filename = None, lf_alert_id = 0\<rparr>"

definition zero_rule :: "('m, 'l) RuleInfo" where
  "zero_rule = \<lparr>
     r_sigid = 0, r_level = 0, r_maxsize = 0, r_frequency = 0, r_timeframe = 0, r_context = 0,
     r_firedtimes = 0, r_time_ignored = 0, r_ignore_time = 0, r_ignore = 0, r_ckignore = 0,
     r_cur_frequency = 0, r_last_events = None, r_last_events_copied = False, r_alert_opts = 0,
     r_context_opts = 0, r_category = 0, r_decoded_as = 0, r_sid_prev_matched = None,
     r_sid_search = None, r_group_prev_matched = [], r_group_search = None, r_event_search = None,
     r_group = [], r_match = None, r_match_pcre2 = None, r_regex = None, r_pcre2 = None,
     r_day_time = None, r_week_day = None, r_srcip = None, r_dstip = None, r_srcgeoip = None,
     r_src_country = None, r_srcasn = None, r_dstgeoip = None, r_srcport = None, r_dstport = None,
     r_user = None, r_url = None, r_id = None, r_status = None, r_hostname = None,
     r_agent_name = None, r_location = None, r_program_name = None, r_extra_data = None,
     r_fields = [], r_srcgeoip_pcre2 = None, r_src_country_pcre2 = None, r_srcasn_pcre2 = None,
     r_dstgeoip_pcre2 = None, r_srcport_pcre2 = None, r_dstport_pcre2 = None, r_user_pcre2 = None,
     r_url_pcre2 = None, r_id_pcre2 = None, r_status_pcre2 = None, r_hostname_pcre2 = None,
     r_agent_name_pcre2 = None, r_location_pcre2 = None, r_program_name_pcre2 = None,
     r_extra_data_pcre2 = None, r_action = None, r_lists = [], r_if_sid = None, r_if_level = None,
     r_if_group = None, r_if_matched_regex = None, r_if_matched_group = None, r_if_matched_sid = 0,
     r_compiled_rule = None, r_ar = []\<rparr>"

end
