(* ===== verification/Decoders.thy ===== *)
theory Decoders
  imports Analysis_Types
begin

text \<open>
  The decoders: \<^verbatim>\<open>analysisd/decoders/decoders_list.c\<close> (the two lists of decoders with their children)
  and \<^verbatim>\<open>analysisd/decoders/decoder.c\<close> (\<open>DecodeEvent\<close> and the functions that set a field). An
  \<open>OSDecoderInfo\<close> is shared: a decoder whose parent's name occurs several times is a child of each,
  and \<open>get_next\<close> is set through all of them; so the infos live in a store and the lists hold their
  addresses. The engines that match patterns are parameters of type \<open>'m\<close>; they take the string that
  may be NULL, and yield the rest of the string after the match and the captured groups. \<open>None\<close> is
  the dereference of a NULL pointer, \<open>Inl\<close> the end of the daemon by \<open>ErrorExit\<close>.
\<close>

section \<open>Decoders\<close>

abbreviation "AFTER_PARENT \<equiv> (0x001 :: nat)"
abbreviation "AFTER_PREMATCH \<equiv> (0x002 :: nat)"
abbreviation "AFTER_PREVREGEX \<equiv> (0x004 :: nat)"
abbreviation "AFTER_ERROR \<equiv> (0x010 :: nat)"

type_synonym field_fp = "Eventinfo \<Rightarrow> string \<Rightarrow> nat \<Rightarrow> Eventinfo"

record 'm decoder = OSDecoderInfo +
  di_get_next :: bool
  di_use_own_name :: bool
  di_regex_offset :: nat
  di_prematch_offset :: nat
  di_parent :: "string option"
  di_regex :: "'m option"
  di_prematch :: "'m option"
  di_program_name :: "'m option"
  di_pcre2 :: "'m option"
  di_prematch_pcre2 :: "'m option"
  di_program_name_pcre2 :: "'m option"
  di_plugindecoder :: "(Eventinfo \<Rightarrow> Eventinfo) option"
  di_order :: "field_fp option list option"

text \<open>A node is the address of its info and those of its children.\<close>

type_synonym decoder_node = "nat \<times> nat list"

record 'm decoders =
  dc_info :: "nat \<Rightarrow> 'm decoder"
  dc_forpname :: "decoder_node list"
  dc_nopname :: "decoder_node list"

record 'm engines =
  OSMatch_Execute :: "string \<Rightarrow> nat \<Rightarrow> 'm \<Rightarrow> bool"
  OSRegex_Execute :: "string option \<Rightarrow> 'm \<Rightarrow> (string \<times> string list) option"
  OSPcre2_Execute :: "string option \<Rightarrow> 'm \<Rightarrow> (string \<times> string list) option"

section \<open>The lists\<close>

definition OS_CreateOSDecoderList :: "'m decoders \<Rightarrow> 'm decoders" where
  "OS_CreateOSDecoderList st = st\<lparr>dc_forpname := [], dc_nopname := []\<rparr>"

definition OS_GetFirstOSDecoder :: "'m decoders \<Rightarrow> string option \<Rightarrow> decoder_node list" where
  "OS_GetFirstOSDecoder st p_name = (if p_name \<noteq> None then dc_forpname st else dc_nopname st)"

text \<open>The name of a decoder; every decoder of a list has one.\<close>

definition name_of :: "'m decoders \<Rightarrow> nat \<Rightarrow> string" where
  "name_of st i = (case di_name (dc_info st i) of Some n \<Rightarrow> n | None \<Rightarrow> [])"

definition set_info :: "nat \<Rightarrow> ('m decoder \<Rightarrow> 'm decoder) \<Rightarrow> 'm decoders \<Rightarrow> 'm decoders" where
  "set_info i f st = st\<lparr>dc_info := (dc_info st)(i := f (dc_info st i))\<rparr>"

text \<open>
  The walk to the last node, \<open>tmp_node\<close> over the infos of the list: \<open>None\<close> is \<open>goto error\<close>, after
  which what was set in the earlier nodes stays.
\<close>

fun common_names :: "nat list \<Rightarrow> nat \<Rightarrow> bool \<Rightarrow> 'm decoders \<Rightarrow> bool option \<times> 'm decoders" where
  "common_names [] pi rm_f st = (Some rm_f, st)"
| "common_names (t # ts) pi rm_f st =
     (let d = dc_info st t; p = dc_info st pi in
      if strcmp (name_of st t) (name_of st pi) = 0 \<and> di_parent p \<noteq> None
      then
        let rm = rm_f \<or> (di_prematch d \<noteq> None \<or> di_regex d \<noteq> None \<or> di_prematch_pcre2 d \<noteq> None \<or> di_pcre2 d \<noteq> None) \<and>
              di_regex_offset p \<noteq> 0 in
        if di_prematch p \<noteq> None \<or> di_prematch_pcre2 p \<noteq> None then (None, st)
        else if di_fts p \<noteq> 0 then (None, st)
        else if di_regex d \<noteq> None \<and> di_regex p \<noteq> None \<or> di_pcre2 d \<noteq> None \<and> di_pcre2 p \<noteq> None
        then common_names ts pi rm (set_info t (\<lambda>d. d\<lparr>di_get_next := True\<rparr>) st)
        else (None, st)
      else common_names ts pi rm_f st)"

text \<open>Whether \<open>pi\<close> may stand at the end of a list; the caller appends it.\<close>

definition AddOSDecoder_end :: "nat list \<Rightarrow> nat \<Rightarrow> 'm decoders \<Rightarrow> bool \<times> 'm decoders" where
  "AddOSDecoder_end s_node pi st =
     (let prev = int_bit (di_regex_offset (dc_info st pi)) AFTER_PREVREGEX in
      if s_node = [] then (\<not> prev, st)
      else (case common_names s_node pi False st of
              (None, st1) \<Rightarrow> (False, st1)
            | (Some rm_f, st1) \<Rightarrow> (rm_f \<or> \<not> prev, st1)))"

text \<open>
  To every node of a list with the name of the parent. The result is the list, whether the decoder
  was added somewhere (\<open>None\<close>: a node refused it and lost its children), and the store.
\<close>

fun add_children :: "decoder_node list \<Rightarrow> string \<Rightarrow> nat \<Rightarrow> bool \<Rightarrow> 'm decoders \<Rightarrow>
  decoder_node list \<times> bool option \<times> 'm decoders" where
  "add_children [] parent pi added st = ([], Some added, st)"
| "add_children ((r, ch) # nodes) parent pi added st =
     (if strcmp (name_of st r) parent = 0
      then (case AddOSDecoder_end ch pi st of
              (False, st1) \<Rightarrow> ((r, []) # nodes, None, st1)
            | (True, st1) \<Rightarrow>
                (case add_children nodes parent pi True st1 of
                   (nodes', res, st2) \<Rightarrow> ((r, ch @ [pi]) # nodes', res, st2)))
      else (case add_children nodes parent pi added st of (nodes', res, st1) \<Rightarrow> ((r, ch) # nodes', res, st1)))"

definition with_pname :: "'m decoder \<Rightarrow> bool" where
  "with_pname d \<longleftrightarrow> di_program_name d \<noteq> None \<or> di_program_name_pcre2 d \<noteq> None"

definition OS_AddOSDecoder :: "nat \<Rightarrow> 'm decoders \<Rightarrow> bool \<times> 'm decoders" where
  "OS_AddOSDecoder pi st =
     (case di_parent (dc_info st pi) of
        Some parent \<Rightarrow>
          (case add_children (dc_forpname st) parent pi False st of
             (fs, None, st1) \<Rightarrow> (False, st1\<lparr>dc_forpname := fs\<rparr>)
           | (fs, Some added, st1) \<Rightarrow>
               (case add_children (dc_nopname st1) parent pi added (st1\<lparr>dc_forpname := fs\<rparr>) of
                  (ns, None, st2) \<Rightarrow> (False, st2\<lparr>dc_nopname := ns\<rparr>)
                | (ns, Some added2, st2) \<Rightarrow> (added2, st2\<lparr>dc_nopname := ns\<rparr>)))
      | None \<Rightarrow>
          (let p = with_pname (dc_info st pi); s_node = (if p then dc_forpname st else dc_nopname st) in
           case AddOSDecoder_end (map fst s_node) pi st of
             (False, st1) \<Rightarrow> (False, st1)
           | (True, st1) \<Rightarrow>
               (True, if p then st1\<lparr>dc_forpname := s_node @ [(pi, [])]\<rparr> else st1\<lparr>dc_nopname := s_node @ [(pi, [])]\<rparr>)))"

section \<open>Fields\<close>

definition DstUser_FP :: field_fp where "DstUser_FP lf field order = lf\<lparr>lf_dstuser := Some field\<rparr>"
definition SrcUser_FP :: field_fp where "SrcUser_FP lf field order = lf\<lparr>lf_srcuser := Some field\<rparr>"
definition SrcIP_FP :: field_fp where "SrcIP_FP lf field order = lf\<lparr>lf_srcip := Some field\<rparr>"
definition DstIP_FP :: field_fp where "DstIP_FP lf field order = lf\<lparr>lf_dstip := Some field\<rparr>"
definition SrcPort_FP :: field_fp where "SrcPort_FP lf field order = lf\<lparr>lf_srcport := Some field\<rparr>"
definition DstPort_FP :: field_fp where "DstPort_FP lf field order = lf\<lparr>lf_dstport := Some field\<rparr>"
definition Protocol_FP :: field_fp where "Protocol_FP lf field order = lf\<lparr>lf_protocol := Some field\<rparr>"
definition Action_FP :: field_fp where "Action_FP lf field order = lf\<lparr>lf_action := Some field\<rparr>"
definition ID_FP :: field_fp where "ID_FP lf field order = lf\<lparr>lf_id := Some field\<rparr>"
definition Url_FP :: field_fp where "Url_FP lf field order = lf\<lparr>lf_url := Some field\<rparr>"
definition Data_FP :: field_fp where "Data_FP lf field order = lf\<lparr>lf_data := Some field\<rparr>"
definition Status_FP :: field_fp where "Status_FP lf field order = lf\<lparr>lf_status := Some field\<rparr>"
definition SystemName_FP :: field_fp where "SystemName_FP lf field order = lf\<lparr>lf_systemname := Some field\<rparr>"
definition FileName_FP :: field_fp where "FileName_FP lf field order = lf\<lparr>lf_filename := Some field\<rparr>"
definition DynamicField_FP :: field_fp where
  "DynamicField_FP lf field order = lf\<lparr>lf_fields := (lf_fields lf)[order := Some field]\<rparr>"
definition None_FP :: field_fp where "None_FP lf field order = lf"

section \<open>Decoding\<close>

datatype decode_stop = TooManyGroups

text \<open>The loop over the captured strings; \<open>i\<close> is the number of the next one.\<close>

fun store_captures :: "nat \<Rightarrow> field_fp option list option \<Rightarrow> string list \<Rightarrow> nat \<Rightarrow> Eventinfo \<Rightarrow>
  (decode_stop + Eventinfo) option" where
  "store_captures order_size order [] i lf = Some (Inr lf)"
| "store_captures order_size order (s # ss) i lf =
     (if i \<ge> order_size then Some (Inl TooManyGroups)
      else case order of
        None \<Rightarrow> None
      | Some fps \<Rightarrow>
          if i < length fps
          then store_captures order_size order ss (i + 1) (case fps ! i of Some f \<Rightarrow> f lf s i | None \<Rightarrow> lf)
          else None)"

text \<open>
  Where a regex is matched: after the parent's match, the prematch, the regex before it, or in the
  whole log. \<open>llog\<close> keeps its value when the offset has none of the three bits.
\<close>

definition regex_from :: "nat \<Rightarrow> Eventinfo \<Rightarrow> string option \<Rightarrow> string option \<Rightarrow> string option \<Rightarrow> string option \<Rightarrow>
  string option" where
  "regex_from off lf pmatch cmatch regex_prev llog =
     (if off \<noteq> 0
      then if int_bit off AFTER_PARENT then pmatch
           else if int_bit off AFTER_PREMATCH then cmatch
           else if int_bit off AFTER_PREVREGEX then (if regex_prev = None then cmatch else regex_prev)
           else llog
      else Some (lf_log lf))"

text \<open>The regexes from a node on; with \<open>get_next\<close> the next node is dereferenced without a test.\<close>

fun regex_chain :: "'m engines \<Rightarrow> 'm decoders \<Rightarrow> nat \<Rightarrow> nat list \<Rightarrow> string option \<Rightarrow> string option \<Rightarrow>
  string option \<Rightarrow> string option \<Rightarrow> Eventinfo \<Rightarrow> (decode_stop + Eventinfo) option" where
  "regex_chain eng st order_size [] pmatch cmatch regex_prev llog lf = None"
| "regex_chain eng st order_size (n # ns) pmatch cmatch regex_prev llog lf =
     (let d = dc_info st n; llog1 = regex_from (di_regex_offset d) lf pmatch cmatch regex_prev llog;
          run = (case di_regex d of
                   Some m \<Rightarrow> Some (OSRegex_Execute eng llog1 m)
                 | None \<Rightarrow> (case di_pcre2 d of
                     Some m \<Rightarrow> Some (OSPcre2_Execute eng llog1 m)
                   | None \<Rightarrow> None))
      in case run of
        None \<Rightarrow> Some (Inr lf)
      | Some None \<Rightarrow>
          if di_get_next d then regex_chain eng st order_size ns pmatch cmatch None llog1 lf
          else Some (Inr lf)
      | Some (Some (rest, captures)) \<Rightarrow>
          (case store_captures order_size (di_order d) captures 0
                  (lf\<lparr>lf_decoder_info := OSDecoderInfo.truncate d\<rparr>) of
             None \<Rightarrow> None
           | Some (Inl e) \<Rightarrow> Some (Inl e)
           | Some (Inr lf1) \<Rightarrow>
               if di_get_next d then regex_chain eng st order_size ns pmatch cmatch (Some rest) llog1 lf1
               else Some (Inr lf1)))"

text \<open>
  The search among the children: the nodes from the chosen one on with \<open>cmatch\<close>, or \<open>None\<close> when the
  list ends. A child with \<open>get_next\<close> that does not match takes the whole group with it.
\<close>

function find_child :: "'m engines \<Rightarrow> 'm decoders \<Rightarrow> nat list \<Rightarrow> string option \<Rightarrow> Eventinfo \<Rightarrow>
  (nat list \<times> string option \<times> Eventinfo) option" where
  "find_child eng st [] pmatch lf = None"
| "find_child eng st (n # ns) pmatch lf =
     (let d = dc_info st n;
          llog2 = (if int_bit (di_prematch_offset d) AFTER_PARENT then pmatch else Some (lf_log lf));
          next = (if di_get_next d
                  then find_child eng st (tl (dropWhile (\<lambda>k. di_get_next (dc_info st k)) ns)) pmatch lf
                  else find_child eng st ns pmatch lf)
      in case di_prematch d of
        Some m \<Rightarrow>
          (case OSRegex_Execute eng llog2 m of
             Some (rest, _) \<Rightarrow> Some (n # ns, Some rest, lf\<lparr>lf_decoder_info := OSDecoderInfo.truncate d\<rparr>)
           | None \<Rightarrow> next)
      | None \<Rightarrow>
          (case di_prematch_pcre2 d of
             Some m \<Rightarrow>
               (case OSPcre2_Execute eng llog2 m of
                  Some (rest, _) \<Rightarrow> Some (n # ns, Some rest, lf\<lparr>lf_decoder_info := OSDecoderInfo.truncate d\<rparr>)
                | None \<Rightarrow> next)
           | None \<Rightarrow> Some (n # ns, pmatch, lf)))"
  by pat_completeness auto
termination find_child
proof (relation "measure (\<lambda>(_, _, ns, _). length ns)", goal_cases)
  case (2 eng st n ns)
  have "length (dropWhile (\<lambda>k. di_get_next (dc_info st k)) ns) \<le> length ns" by (rule length_dropWhile_le)
  then show ?case by (simp add: le_imp_less_Suc)
qed auto

text \<open>The plugin or the regexes of the decoder that was found.\<close>

definition run_decoder :: "'m engines \<Rightarrow> 'm decoders \<Rightarrow> nat \<Rightarrow> nat list \<Rightarrow> string option \<Rightarrow> string option \<Rightarrow>
  Eventinfo \<Rightarrow> (decode_stop + Eventinfo) option" where
  "run_decoder eng st order_size chain pmatch cmatch lf =
     (case chain of
        [] \<Rightarrow> Some (Inr lf)
      | n # _ \<Rightarrow>
          (case di_plugindecoder (dc_info st n) of
             Some plugin \<Rightarrow> Some (Inr (plugin lf))
           | None \<Rightarrow> regex_chain eng st order_size chain pmatch cmatch None None lf))"

text \<open>
  Program name and prematch of a node: \<open>None\<close> is \<open>continue\<close>, with the new value of \<open>pmatch\<close> either
  way.
\<close>

definition root_pname :: "'m engines \<Rightarrow> 'm decoder \<Rightarrow> string option \<Rightarrow> Eventinfo \<Rightarrow> bool \<times> string option" where
  "root_pname eng d pmatch lf =
     (case lf_program_name lf of
        None \<Rightarrow> (True, pmatch)
      | Some p \<Rightarrow>
          (case di_program_name d of
             Some m \<Rightarrow> if OSMatch_Execute eng p (lf_p_name_size lf) m then (True, Some (lf_log lf)) else (False, pmatch)
           | None \<Rightarrow>
               (case di_program_name_pcre2 d of
                  Some m \<Rightarrow> if OSPcre2_Execute eng (Some p) m \<noteq> None then (True, Some (lf_log lf)) else (False, pmatch)
                | None \<Rightarrow> (True, pmatch))))"

definition root_match :: "'m engines \<Rightarrow> 'm decoder \<Rightarrow> string option \<Rightarrow> Eventinfo \<Rightarrow> bool \<times> string option" where
  "root_match eng d pmatch lf =
     (case root_pname eng d pmatch lf of
        (False, pm) \<Rightarrow> (False, pm)
      | (True, pm) \<Rightarrow>
          (case di_prematch d of
             Some m \<Rightarrow> (case OSRegex_Execute eng (Some (lf_log lf)) m of
                 Some (rest, _) \<Rightarrow> (True, Some rest) | None \<Rightarrow> (False, None))
           | None \<Rightarrow>
               (case di_prematch_pcre2 d of
                  Some m \<Rightarrow> (case OSPcre2_Execute eng (Some (lf_log lf)) m of
                      Some (rest, _) \<Rightarrow> (True, Some rest) | None \<Rightarrow> (False, None))
                | None \<Rightarrow> (True, pm))))"

fun decode_nodes :: "'m engines \<Rightarrow> 'm decoders \<Rightarrow> nat \<Rightarrow> decoder_node list \<Rightarrow> string option \<Rightarrow> Eventinfo \<Rightarrow>
  (decode_stop + Eventinfo) option" where
  "decode_nodes eng st order_size [] pmatch lf = Some (Inr lf)"
| "decode_nodes eng st order_size ((r, ch) # nodes) pmatch lf =
     (case root_match eng (dc_info st r) pmatch lf of
        (False, pm) \<Rightarrow> decode_nodes eng st order_size nodes pm lf
      | (True, pm) \<Rightarrow>
          (let lf1 = lf\<lparr>lf_decoder_info := OSDecoderInfo.truncate (dc_info st r)\<rparr> in
           if ch = [] then run_decoder eng st order_size (r # map fst nodes) pm None lf1
           else (case find_child eng st ch pm lf1 of
                   None \<Rightarrow> Some (Inr lf1)
                 | Some (chain, cm, lf2) \<Rightarrow> run_decoder eng st order_size chain pm cm lf2)))"

definition DecodeEvent :: "'m engines \<Rightarrow> 'm decoders \<Rightarrow> nat \<Rightarrow> Eventinfo \<Rightarrow> (decode_stop + Eventinfo) option" where
  "DecodeEvent eng st order_size lf =
     decode_nodes eng st order_size (OS_GetFirstOSDecoder st (lf_program_name lf)) None lf"

end
