(* ===== verification/Store_Op.thy ===== *)
theory Store_Op
  imports Prelude_CStr
begin

text \<open>
  \<^verbatim>\<open>shared/store_op.c\<close>: the ordered store, a linked list of keys with data in which every search
  stops at the first key that is not smaller. The chain of nodes is the list of its entries, from
  \<open>first_node\<close> on; \<open>cur_node\<close> is the variable of the loops, and what a call leaves in it no other
  call reads. \<open>OSStore_Sort\<close>, which nothing calls, and the release of memory are left out.
\<close>

section \<open>The store\<close>

record 'd OSStore =
  st_nodes :: "(string \<times> 'd) list"
  st_currently_size :: nat
  st_max_size :: int

definition OSStore_Create :: "'d OSStore" where
  "OSStore_Create = \<lparr>st_nodes = [], st_currently_size = 0, st_max_size = 0\<rparr>"

definition OSStore_SetMaxSize :: "'d OSStore \<Rightarrow> int \<Rightarrow> nat \<times> 'd OSStore" where
  "OSStore_SetMaxSize lst max_size = (if max_size \<le> 1 then (0, lst) else (1, lst\<lparr>st_max_size := max_size\<rparr>))"

definition OSStore_GetFirstNode :: "'d OSStore \<Rightarrow> (string \<times> 'd) option" where
  "OSStore_GetFirstNode lst = (case st_nodes lst of [] \<Rightarrow> None | n # _ \<Rightarrow> Some n)"

text \<open>The search loop: the entry with the key, if the keys before it are all smaller.\<close>

fun store_find :: "(string \<times> 'd) list \<Rightarrow> string \<Rightarrow> nat \<Rightarrow> (nat \<times> 'd) option" where
  "store_find [] key pos = None"
| "store_find ((k, d) # nodes) key pos =
     (if strcmp k key \<ge> 0 then if strcmp k key = 0 then Some (pos, d) else None
      else store_find nodes key (pos + 1))"

definition OSStore_GetPosition :: "'d OSStore \<Rightarrow> string \<Rightarrow> nat" where
  "OSStore_GetPosition lst key = (case store_find (st_nodes lst) key 1 of Some (pos, _) \<Rightarrow> pos | None \<Rightarrow> 0)"

definition OSStore_Get :: "'d OSStore \<Rightarrow> string \<Rightarrow> 'd option" where
  "OSStore_Get lst key = map_option snd (store_find (st_nodes lst) key 1)"

definition OSStore_Check :: "'d OSStore \<Rightarrow> string \<Rightarrow> nat" where
  "OSStore_Check lst key = (case store_find (st_nodes lst) key 1 of Some _ \<Rightarrow> 1 | None \<Rightarrow> 0)"

fun ncheck_loop :: "(string \<times> 'd) list \<Rightarrow> string \<Rightarrow> nat" where
  "ncheck_loop [] key = 0"
| "ncheck_loop ((k, d) # nodes) key =
     (if strncmp k key (length k) \<ge> 0 then if strncmp k key (length k) = 0 then 1 else 0
      else ncheck_loop nodes key)"

definition OSStore_NCheck :: "'d OSStore \<Rightarrow> string \<Rightarrow> nat" where
  "OSStore_NCheck lst key = ncheck_loop (st_nodes lst) key"

fun ncasecheck_loop :: "(string \<times> 'd) list \<Rightarrow> string \<Rightarrow> nat" where
  "ncasecheck_loop [] key = 0"
| "ncasecheck_loop ((k, d) # nodes) key =
     (if strncasecmp k key (length k) = 0 then 1 else ncasecheck_loop nodes key)"

definition OSStore_NCaseCheck :: "'d OSStore \<Rightarrow> string \<Rightarrow> nat" where
  "OSStore_NCaseCheck lst key = ncasecheck_loop (st_nodes lst) key"

text \<open>\<open>None\<close>: the key is there already.\<close>

fun put_loop :: "(string \<times> 'd) list \<Rightarrow> string \<Rightarrow> 'd \<Rightarrow> (string \<times> 'd) list option" where
  "put_loop [] key d = Some [(key, d)]"
| "put_loop ((k, e) # nodes) key d =
     (if strcmp k key \<ge> 0 then if strcmp k key = 0 then None else Some ((key, d) # (k, e) # nodes)
      else map_option ((#) (k, e)) (put_loop nodes key d))"

definition OSStore_Put :: "'d OSStore \<Rightarrow> string \<Rightarrow> 'd \<Rightarrow> nat \<times> 'd OSStore" where
  "OSStore_Put lst key d =
     (case put_loop (st_nodes lst) key d of
        None \<Rightarrow> (1, lst)
      | Some nodes \<Rightarrow> (1, lst\<lparr>st_nodes := nodes, st_currently_size := st_currently_size lst + 1\<rparr>))"

section \<open>The order\<close>

definition keys_ok :: "(string \<times> 'd) list \<Rightarrow> bool" where
  "keys_ok nodes \<longleftrightarrow> sorted_wrt (\<lambda>a b. strcmp (fst a) (fst b) < 0) nodes \<and> (\<forall>n\<in>set nodes. c_string (fst n))"

definition store_ok :: "'d OSStore \<Rightarrow> bool" where
  "store_ok lst \<longleftrightarrow> keys_ok (st_nodes lst) \<and> st_currently_size lst = length (st_nodes lst)"

lemma keys_ok_simps [simp]:
  "keys_ok []"
  "keys_ok ((k, d) # nodes) \<longleftrightarrow> c_string k \<and> (\<forall>n\<in>set nodes. strcmp k (fst n) < 0) \<and> keys_ok nodes"
  by (auto simp: keys_ok_def)

lemma keys_ok_c_string: "keys_ok nodes \<Longrightarrow> n \<in> set nodes \<Longrightarrow> c_string (fst n)"
  by (simp add: keys_ok_def)

lemma keys_ok_distinct: "keys_ok nodes \<Longrightarrow> distinct (map fst nodes)"
proof (induction nodes)
  case (Cons n nodes)
  then show ?case by (cases n) force
qed simp

lemma bigger_not_in:
  "c_string key \<Longrightarrow> keys_ok nodes \<Longrightarrow> c_string k \<Longrightarrow> \<forall>n\<in>set nodes. strcmp k (fst n) < 0 \<Longrightarrow> strcmp k key \<ge> 0 \<Longrightarrow>
   map_of nodes key = None"
proof -
  assume a: "c_string key" "keys_ok nodes" "c_string k" "\<forall>n\<in>set nodes. strcmp k (fst n) < 0" "strcmp k key \<ge> 0"
  have "fst n \<noteq> key" if "n \<in> set nodes" for n using a(4,5) that by force
  then show ?thesis by (auto simp: map_of_eq_None_iff)
qed

lemma store_find_map:
  "keys_ok nodes \<Longrightarrow> c_string key \<Longrightarrow>
   store_find nodes key p =
     map_option (\<lambda>d. (p + length (filter (\<lambda>n. strcmp (fst n) key < 0) nodes), d)) (map_of nodes key)"
proof (induction nodes key p rule: store_find.induct)
  case (2 k d nodes key pos)
  show ?case
  proof (cases "strcmp k key < 0")
    case True
    then have "k \<noteq> key" by auto
    with 2 True show ?thesis by (auto simp: option.map_comp comp_def)
  next
    case False
    then have none: "map_of nodes key = None" using 2 by (intro bigger_not_in [of key nodes k]) auto
    have "strcmp (fst n) key \<ge> 0" if "n \<in> set nodes" for n
    proof (rule ccontr)
      assume "\<not> strcmp (fst n) key \<ge> 0"
      moreover have "strcmp k (fst n) < 0" using 2(2) that by simp
      ultimately have "strcmp k key < 0"
        using 2(2,3) that by (intro strcmp_less_trans [of k "fst n" key]) (auto intro: keys_ok_c_string)
      with False show False by simp
    qed
    then have "filter (\<lambda>n. strcmp (fst n) key < 0) nodes = []" by (auto simp: filter_empty_conv not_less)
    moreover have "strcmp k key = 0 \<longleftrightarrow> k = key" using 2(2,3) by (simp add: strcmp_eq_0)
    ultimately show ?thesis using False none by auto
  qed
qed simp

lemma put_loop_map:
  "keys_ok nodes \<Longrightarrow> c_string key \<Longrightarrow>
   (case put_loop nodes key d of
      None \<Rightarrow> map_of nodes key \<noteq> None
    | Some nodes' \<Rightarrow> map_of nodes key = None \<and> map_of nodes' = (map_of nodes)(key \<mapsto> d) \<and>
        set nodes' = insert (key, d) (set nodes) \<and> length nodes' = Suc (length nodes) \<and> keys_ok nodes')"
proof (induction nodes key d rule: put_loop.induct)
  case (2 k e nodes key d)
  show ?case
  proof (cases "strcmp k key < 0")
    case True
    then have "k \<noteq> key" by auto
    with 2 True show ?thesis by (auto split: option.splits)
  next
    case False
    then have none: "map_of nodes key = None" using 2 by (intro bigger_not_in [of key nodes k]) auto
    have eq: "strcmp k key = 0 \<longleftrightarrow> k = key" using 2(2,3) by (simp add: strcmp_eq_0)
    have less: "strcmp key k < 0" if "k \<noteq> key"
      using False that eq strcmp_swap [of k key] by simp
    have "strcmp key (fst n) < 0" if "k \<noteq> key" "n \<in> set nodes" for n
      using less [OF that(1)] 2(2,3) that(2)
      by (intro strcmp_less_trans [of key k "fst n"]) (auto intro: keys_ok_c_string)
    with False none eq less 2(2,3) show ?thesis by auto
  qed
qed auto

section \<open>The contract\<close>

text \<open>
  What the clients of the store rely on: a map in which the first data of a key stay, and that
  numbers its keys by their rank.
\<close>

locale ordered_store =
  fixes invar :: "'s \<Rightarrow> bool"
    and contents :: "'s \<Rightarrow> string \<Rightarrow> 'd option"
    and put :: "'s \<Rightarrow> string \<Rightarrow> 'd \<Rightarrow> 's"
    and position :: "'s \<Rightarrow> string \<Rightarrow> nat"
  assumes put_ok: "invar s \<Longrightarrow> c_string k \<Longrightarrow> invar (put s k d)"
    and put_contents: "invar s \<Longrightarrow> c_string k \<Longrightarrow>
      contents (put s k d) = (if contents s k = None then (contents s)(k \<mapsto> d) else contents s)"
    and position_0: "invar s \<Longrightarrow> c_string k \<Longrightarrow> position s k = 0 \<longleftrightarrow> contents s k = None"
    and position_inj: "invar s \<Longrightarrow> c_string k \<Longrightarrow> c_string l \<Longrightarrow> position s k = position s l \<Longrightarrow>
      contents s k \<noteq> None \<Longrightarrow> k = l"
begin

lemma put_all_ok: "invar s \<Longrightarrow> \<forall>kd\<in>set kds. c_string (fst kd) \<Longrightarrow> invar (fold (\<lambda>(k, d) s. put s k d) kds s)"
  by (induction kds arbitrary: s) (auto simp: put_ok)

lemma put_all_contents:
  "invar s \<Longrightarrow> \<forall>kd\<in>set kds. c_string (fst kd) \<Longrightarrow>
   contents (fold (\<lambda>(k, d) s. put s k d) kds s) k = (case contents s k of Some d \<Rightarrow> Some d | None \<Rightarrow> map_of kds k)"
  by (induction kds arbitrary: s) (auto simp: put_ok put_contents split: option.splits)

text \<open>Every name that was put has a number of its own.\<close>

lemma put_all_numbered:
  assumes "invar s" "\<forall>kd\<in>set kds. c_string (fst kd)" "k \<in> fst ` set kds"
  shows "position (fold (\<lambda>(k, d) s. put s k d) kds s) k \<noteq> 0"
proof -
  have "map_of kds k \<noteq> None" using assms(3) by (simp add: map_of_eq_None_iff)
  then have "contents (fold (\<lambda>(k, d) s. put s k d) kds s) k \<noteq> None"
    by (simp add: put_all_contents [OF assms(1,2)] split: option.splits)
  moreover have "c_string k" using assms(2,3) by auto
  ultimately show ?thesis by (simp add: position_0 put_all_ok assms(1,2))
qed

lemma put_all_distinct:
  assumes "invar s" "\<forall>kd\<in>set kds. c_string (fst kd)" "k \<in> fst ` set kds" "l \<in> fst ` set kds"
    and "position (fold (\<lambda>(k, d) s. put s k d) kds s) k = position (fold (\<lambda>(k, d) s. put s k d) kds s) l"
  shows "k = l"
proof (rule position_inj [OF put_all_ok [OF assms(1,2)] _ _ assms(5)])
  show "c_string k" "c_string l" using assms(2-4) by auto
  have "map_of kds k \<noteq> None" using assms(3) by (simp add: map_of_eq_None_iff)
  then show "contents (fold (\<lambda>(k, d) s. put s k d) kds s) k \<noteq> None"
    by (simp add: put_all_contents [OF assms(1,2)] split: option.splits)
qed

end

definition store_map :: "'d OSStore \<Rightarrow> string \<Rightarrow> 'd option" where
  "store_map lst = map_of (st_nodes lst)"

lemma OSStore_Put_cases:
  assumes "store_ok lst" "c_string key"
  shows "store_ok (snd (OSStore_Put lst key d)) \<and>
    store_map (snd (OSStore_Put lst key d)) =
      (if store_map lst key = None then (store_map lst)(key \<mapsto> d) else store_map lst)"
  using put_loop_map [of "st_nodes lst" key d] assms
  by (auto simp: OSStore_Put_def store_ok_def store_map_def split: option.splits)

lemma OSStore_GetPosition_rank:
  assumes "store_ok lst" "c_string key"
  shows "OSStore_GetPosition lst key =
    (if store_map lst key = None then 0 else Suc (card {k. store_map lst k \<noteq> None \<and> strcmp k key < 0}))"
proof -
  let ?small = "filter (\<lambda>n. strcmp (fst n) key < 0) (st_nodes lst)"
  have "distinct (map fst ?small)"
    using assms(1) by (intro distinct_map_filter keys_ok_distinct) (simp add: store_ok_def)
  then have "length ?small = card (fst ` set ?small)" using distinct_card [of "map fst ?small"] by simp
  moreover have "fst ` set ?small = {k. store_map lst k \<noteq> None \<and> strcmp k key < 0}"
    by (auto simp: store_map_def map_of_eq_None_iff image_iff)
  ultimately have "length ?small = card {k. store_map lst k \<noteq> None \<and> strcmp k key < 0}" by simp
  with store_find_map [of "st_nodes lst" key 1] assms show ?thesis
    by (cases "map_of (st_nodes lst) key") (simp_all add: OSStore_GetPosition_def store_ok_def store_map_def)
qed


lemma rank_inj:
  assumes "c_string k" "c_string l" "store_ok lst" "store_map lst k \<noteq> None"
    and "OSStore_GetPosition lst k = OSStore_GetPosition lst l"
  shows "k = l"
proof -
  let ?below = "\<lambda>k. {m. store_map lst m \<noteq> None \<and> strcmp m k < 0}"
  have fin: "finite (?below k)" for k
  proof (rule finite_subset)
    show "?below k \<subseteq> fst ` set (st_nodes lst)" by (force simp: store_map_def dest: map_of_SomeD)
  qed simp
  have cs: "c_string m" if "store_map lst m \<noteq> None" for m
    using that assms(3) by (auto simp: store_map_def store_ok_def dest!: map_of_SomeD keys_ok_c_string)
  have mono: "card (?below m) < card (?below n)"
    if "strcmp m n < 0" "store_map lst m \<noteq> None" "c_string n" for m n
  proof (intro psubset_card_mono fin psubsetI subsetI)
    show "x \<in> ?below n" if "x \<in> ?below m" for x
      using that \<open>strcmp m n < 0\<close> \<open>store_map lst m \<noteq> None\<close> \<open>c_string n\<close> by (auto intro: strcmp_less_trans cs)
    have "m \<in> ?below n" "m \<notin> ?below m" using that by auto
    then show "?below m \<noteq> ?below n" by blast
  qed
  have l: "store_map lst l \<noteq> None"
    using assms by (auto simp: OSStore_GetPosition_rank split: if_splits)
  with assms(4,5) have "card (?below k) = card (?below l)"
    by (simp add: OSStore_GetPosition_rank assms(1-3) del: not_None_eq)
  then have "\<not> strcmp k l < 0" "\<not> strcmp l k < 0" using mono [of k l] mono [of l k] assms(1,2,4) l by auto
  then have "strcmp k l = 0" using strcmp_swap [of k l] by simp
  then show ?thesis using assms(1,2) by (simp add: strcmp_eq_0)
qed

interpretation names: ordered_store store_ok store_map "\<lambda>s k d. snd (OSStore_Put s k d)" OSStore_GetPosition
proof unfold_locales
  fix s :: "'a OSStore" and k l d
  show "store_ok s \<Longrightarrow> c_string k \<Longrightarrow> store_ok (snd (OSStore_Put s k d))"
    using OSStore_Put_cases [of s k d] by simp
  show "store_ok s \<Longrightarrow> c_string k \<Longrightarrow> store_map (snd (OSStore_Put s k d)) =
      (if store_map s k = None then (store_map s)(k \<mapsto> d) else store_map s)"
    using OSStore_Put_cases [of s k d] by simp
  show "store_ok s \<Longrightarrow> c_string k \<Longrightarrow> (OSStore_GetPosition s k = 0) = (store_map s k = None)"
    by (simp add: OSStore_GetPosition_rank)
  show "store_ok s \<Longrightarrow> c_string k \<Longrightarrow> c_string l \<Longrightarrow> OSStore_GetPosition s k = OSStore_GetPosition s l \<Longrightarrow>
      store_map s k \<noteq> None \<Longrightarrow> k = l"
    by (rule rank_inj [of k l s])
qed

section \<open>Searches\<close>

lemma OSStore_Get_map: "store_ok lst \<Longrightarrow> c_string key \<Longrightarrow> OSStore_Get lst key = store_map lst key"
  using store_find_map [of "st_nodes lst" key 1]
  by (simp add: OSStore_Get_def store_ok_def store_map_def option.map_comp comp_def option.map_ident)

lemma OSStore_Check_map: "store_ok lst \<Longrightarrow> c_string key \<Longrightarrow> OSStore_Check lst key = (if store_map lst key = None then 0 else 1)"
  using store_find_map [of "st_nodes lst" key 1]
  by (auto simp: OSStore_Check_def store_ok_def store_map_def split: option.splits)

text \<open>The search by prefixes may stop early, too: no later key is a prefix then.\<close>

lemma strncmp_length_prefix: "c_string k \<Longrightarrow> c_string s \<Longrightarrow> strncmp k s (length k) = 0 \<longleftrightarrow> prefix k s"
  by (auto simp: strncmp_eq_0 prefix_def) (metis append_take_drop_id)

lemma prefix_strcmp: "prefix k s \<Longrightarrow> strcmp k s \<le> 0"
proof (induction k arbitrary: s)
  case Nil
  then show ?case by (cases s) auto
next
  case (Cons c k)
  then show ?case by (cases s) auto
qed

lemma strncmp_pos: "strncmp k s (length k) > 0 \<Longrightarrow> strcmp k s > 0"
  by (induction k s "length k" rule: strncmp.induct) (auto split: if_splits)

lemma ncheck_prefix:
  "keys_ok nodes \<Longrightarrow> c_string key \<Longrightarrow> ncheck_loop nodes key = (if \<exists>n\<in>set nodes. prefix (fst n) key then 1 else 0)"
proof (induction nodes key rule: ncheck_loop.induct)
  case (2 k d nodes key)
  have c: "c_string k" using 2(2) by simp
  consider (less) "strncmp k key (length k) < 0" | (eq) "strncmp k key (length k) = 0" | (more) "strncmp k key (length k) > 0"
    by linarith
  then show ?case
  proof cases
    case less
    then have "\<not> prefix k key" using strncmp_length_prefix [OF c 2(3)] by simp
    with 2 less show ?thesis by simp
  next
    case eq
    then show ?thesis using strncmp_length_prefix [OF c 2(3)] by simp
  next
    case more
    then have k: "\<not> prefix k key" "strcmp k key > 0"
      using strncmp_length_prefix [OF c 2(3)] strncmp_pos by auto
    have "\<not> prefix (fst n) key" if n: "n \<in> set nodes" for n
    proof
      assume "prefix (fst n) key"
      then have "strcmp (fst n) key \<le> 0" by (rule prefix_strcmp)
      moreover have "strcmp k (fst n) < 0" "c_string (fst n)" using 2(2) n by (auto intro: keys_ok_c_string)
      ultimately have "strcmp k key < 0 \<or> fst n = key"
        using strcmp_less_trans [of k "fst n" key] c 2(3) strcmp_eq_0 [of "fst n" key] by linarith
      with k(2) \<open>strcmp k (fst n) < 0\<close> show False by auto
    qed
    with more k(1) show ?thesis by auto
  qed
qed simp

text \<open>
  C32. The ordered store is a map that keeps its keys sorted: after any series of insertions the
  chain is strictly sorted, the data found under a key are those of its first insertion, every key
  inserted has a position, two keys never have the same one, and the search by prefix (which gives
  up at the first key that is not smaller) finds a prefix exactly when one was inserted.
\<close>

theorem OSStore_Put_Get:
  fixes kds :: "(string \<times> 'd) list"
  assumes "\<forall>kd\<in>set kds. c_string (fst kd)" "c_string key" "lst = fold (\<lambda>(k, d) s. snd (OSStore_Put s k d)) kds (OSStore_Create :: 'd OSStore)"
  shows "store_ok lst \<and> OSStore_Get lst key = map_of kds key \<and>
    OSStore_GetPosition lst key = (if map_of kds key = None then 0 else Suc (card {k. map_of kds k \<noteq> None \<and> strcmp k key < 0})) \<and>
    (OSStore_NCheck lst key = 1 \<longleftrightarrow> (\<exists>k\<in>fst ` set kds. prefix k key))"
proof -
  have e: "store_ok (OSStore_Create :: 'd OSStore)" "store_map (OSStore_Create :: 'd OSStore) k = None" for k
    by (auto simp: OSStore_Create_def store_ok_def store_map_def)
  have ok: "store_ok lst" using names.put_all_ok [OF e(1) assms(1)] by (simp add: assms(3))
  have m: "store_map lst k = map_of kds k" for k
    using names.put_all_contents [OF e(1) assms(1), of k] by (simp add: assms(3) e(2))
  then have "dom (map_of (st_nodes lst)) = dom (map_of kds)" by (auto simp: store_map_def dom_def)
  then have "fst ` set (st_nodes lst) = fst ` set kds" by (simp only: dom_map_of_conv_image_fst)
  moreover have "(\<exists>n\<in>set (st_nodes lst). prefix (fst n) key) = (\<exists>k\<in>fst ` set (st_nodes lst). prefix k key)"
    by simp
  ultimately have "OSStore_NCheck lst key = 1 \<longleftrightarrow> (\<exists>k\<in>fst ` set kds. prefix k key)"
    using ok ncheck_prefix [of "st_nodes lst" key] assms(2)
    unfolding OSStore_NCheck_def store_ok_def by (auto split: if_splits)
  with ok m show ?thesis by (simp add: OSStore_Get_map OSStore_GetPosition_rank assms(2))
qed

lemma OSStore_Put_Get_witness:
  "OSStore_Get (fold (\<lambda>(k, d) s. snd (OSStore_Put s k d)) [(''sshd'', 1::nat), (''pam'', 2), (''sshd'', 3)] OSStore_Create) ''sshd'' = Some 1"
  using OSStore_Put_Get [of "[(''sshd'', 1::nat), (''pam'', 2), (''sshd'', 3)]" "''sshd''"] by simp

end
