(* ===== verification/Str_Utils.thy ===== *)
theory Str_Utils
  imports Prelude_CStr
begin

text \<open>
  The small string helpers of \<^verbatim>\<open>os_regex/\<close>: \<open>OS_StrBreak\<close> (\<^verbatim>\<open>os_regex_strbreak.c\<close>),
  \<open>OS_StrIsNum\<close> and \<open>OS_StrHowClosedMatch\<close> (\<^verbatim>\<open>os_regex_str.c\<close>) and \<open>OS_StrStartsWith\<close>
  (\<^verbatim>\<open>os_regex_startswith.c\<close>). A NULL argument is \<^term>\<open>None\<close>; a NULL-terminated array of
  strings is the list of its strings; memory allocation is taken to succeed.
\<close>

section \<open>OS_StrBreak\<close>

text \<open>
  \<open>size - 1\<close> on \<open>size_t\<close>, which wraps for \<open>size = 0\<close>.
\<close>

definition size_t_pred :: "nat \<Rightarrow> nat" where
  "size_t_pred n = (if n = 0 then 2 ^ 64 - 1 else n - 1)"

text \<open>
  The \<open>while (*str != NUL)\<close> loop: \<open>ret\<close> are the pieces stored so far (\<open>count\<close> is their
  number), \<open>cur\<close> the bytes from \<open>tmp_str\<close> to \<open>str\<close>. The array has \<open>size + 1\<close> slots.
\<close>

fun StrBreak_loop ::
  "char \<Rightarrow> nat \<Rightarrow> string list \<Rightarrow> string \<Rightarrow> string \<Rightarrow> mem_error + string list \<times> string" where
  "StrBreak_loop match sz ret cur [] = Inr (ret, cur)"
| "StrBreak_loop match sz ret cur (c # str) =
     (if length ret < size_t_pred sz \<and> c = match then
        if length ret > sz then Inl OutOfBounds
        else StrBreak_loop match sz (ret @ [cur]) [] str
      else StrBreak_loop match sz ret (cur @ [c]) str)"

definition OS_StrBreak :: "char \<Rightarrow> string option \<Rightarrow> nat \<Rightarrow> mem_error + string list option" where
  "OS_StrBreak match str sz =
     (case str of
        None \<Rightarrow> Inr None
      | Some s \<Rightarrow>
          (case StrBreak_loop match sz [] [] s of
             Inl e \<Rightarrow> Inl e
           | Inr (ret, cur) \<Rightarrow>
               if length ret < sz then Inr (Some (ret @ [cur])) else Inr None))"

lemma StrBreak_loop_inv:
  assumes "0 < sz" "length ret < sz" "\<forall>p\<in>set ret. m \<notin> set p"
    "m \<notin> set cur \<or> Suc (length ret) = sz"
  shows "\<exists>ret' cur'. StrBreak_loop m sz ret cur s = Inr (ret', cur') \<and> length ret' < sz \<and>
    (\<forall>p\<in>set ret'. m \<notin> set p) \<and> (m \<notin> set cur' \<or> Suc (length ret') = sz) \<and>
    join_with m (ret' @ [cur']) = join_with m (ret @ [cur]) @ s"
  using assms
proof (induction s arbitrary: ret cur)
  case Nil
  then show ?case by auto
next
  case (Cons c s)
  show ?case
  proof (cases "length ret < sz - 1 \<and> c = m")
    case True
    with Cons.prems have "m \<notin> set cur" by auto
    with True Cons.prems
    have "\<exists>ret' cur'. StrBreak_loop m sz (ret @ [cur]) [] s = Inr (ret', cur') \<and>
      length ret' < sz \<and> (\<forall>p\<in>set ret'. m \<notin> set p) \<and> (m \<notin> set cur' \<or> Suc (length ret') = sz) \<and>
      join_with m (ret' @ [cur']) = join_with m (((ret @ [cur]) @ [[]])) @ s"
      by (intro Cons.IH) auto
    moreover have "join_with m ((ret @ [cur]) @ [[]]) @ s = join_with m (ret @ [cur]) @ m # s"
      by (subst join_with_snoc) simp_all
    ultimately show ?thesis using True Cons.prems
      by (simp add: size_t_pred_def)
  next
    case False
    with Cons.prems
    have "\<exists>ret' cur'. StrBreak_loop m sz ret (cur @ [c]) s = Inr (ret', cur') \<and>
      length ret' < sz \<and> (\<forall>p\<in>set ret'. m \<notin> set p) \<and> (m \<notin> set cur' \<or> Suc (length ret') = sz) \<and>
      join_with m (ret' @ [cur']) = join_with m (ret @ [cur @ [c]]) @ s"
      by (intro Cons.IH) auto
    with False Cons.prems show ?thesis
      by (auto simp: size_t_pred_def join_with_last_append)
  qed
qed

text \<open>
  C37. \<open>OS_StrBreak\<close> splits losslessly: for a positive \<open>size\<close> it always returns an array of at most
  \<open>size\<close> pieces, which joined with the separator give the string back; only the last piece may
  still hold separators, and only when the array is full. It makes no access outside the array.
\<close>

theorem OS_StrBreak_splits:
  assumes "0 < sz"
  shows "\<exists>pieces last_piece. OS_StrBreak match (Some str) sz = Inr (Some (pieces @ [last_piece])) \<and>
    length (pieces @ [last_piece]) \<le> sz \<and>
    join_with match (pieces @ [last_piece]) = str \<and>
    (\<forall>p\<in>set pieces. match \<notin> set p) \<and>
    (match \<notin> set last_piece \<or> length (pieces @ [last_piece]) = sz)"
  using StrBreak_loop_inv [of sz "[]" match "[]" str] assms
  by (auto simp: OS_StrBreak_def Suc_le_eq)

theorem OS_StrBreak_splits_witness:
  "\<exists>pieces last_piece. OS_StrBreak (CHR '':'') (Some ''a:b:c'') 2 = Inr (Some (pieces @ [last_piece])) \<and>
    length (pieces @ [last_piece]) \<le> 2 \<and>
    join_with (CHR '':'') (pieces @ [last_piece]) = ''a:b:c'' \<and>
    (\<forall>p\<in>set pieces. CHR '':'' \<notin> set p) \<and>
    (CHR '':'' \<notin> set last_piece \<or> length (pieces @ [last_piece]) = 2)"
  by (rule OS_StrBreak_splits) simp

lemma OS_StrBreak_example:
  "OS_StrBreak (CHR '':'') (Some ''a:b:c'') 2 = Inr (Some [''a'', ''b:c''])"
  by (simp add: OS_StrBreak_def size_t_pred_def)

section \<open>OS_StrIsNum\<close>

fun StrIsNum_loop :: "string \<Rightarrow> bool" where
  "StrIsNum_loop [] = True"
| "StrIsNum_loop (c # str) = (if \<not> c_isdigit c then False else StrIsNum_loop str)"

definition OS_StrIsNum :: "string option \<Rightarrow> bool" where
  "OS_StrIsNum str = (case str of None \<Rightarrow> False | Some s \<Rightarrow> StrIsNum_loop s)"

lemma OS_StrIsNum_iff: "OS_StrIsNum (Some s) \<longleftrightarrow> (\<forall>c\<in>set s. c_isdigit c)"
  unfolding OS_StrIsNum_def by (simp, induction s) auto

section \<open>OS_StrStartsWith\<close>

fun OS_StrStartsWith :: "string \<Rightarrow> string \<Rightarrow> bool" where
  "OS_StrStartsWith str [] = True"
| "OS_StrStartsWith str (p # pattern) =
     (if p \<noteq> deref str then False else OS_StrStartsWith (tl str) pattern)"

lemma OS_StrStartsWith_prefix:
  "c_string pattern \<Longrightarrow> OS_StrStartsWith str pattern \<longleftrightarrow> prefix pattern str"
  by (induction str pattern rule: OS_StrStartsWith.induct) (case_tac str; auto)+

section \<open>OS_StrHowClosedMatch\<close>

text \<open>
  The \<open>do ... while\<close> loop compares before it looks for the end, so on two equal strings that
  are both at their end it reads the byte after the terminator.
\<close>

fun HowClosed_loop :: "nat \<Rightarrow> string \<Rightarrow> string \<Rightarrow> mem_error + nat" where
  "HowClosed_loop count [] [] = Inl OutOfBounds"
| "HowClosed_loop count [] (d # t) = Inr count"
| "HowClosed_loop count (c # s) [] = Inr count"
| "HowClosed_loop count (c # s) (d # t) =
     (if c \<noteq> d then Inr count
      else if deref s \<noteq> NUL \<and> deref t \<noteq> NUL then HowClosed_loop (Suc count) s t
      else Inr (Suc count))"

definition OS_StrHowClosedMatch :: "string option \<Rightarrow> string option \<Rightarrow> mem_error + nat" where
  "OS_StrHowClosedMatch str1 str2 =
     (case (str1, str2) of (Some s, Some t) \<Rightarrow> HowClosed_loop 0 s t | _ \<Rightarrow> Inr 0)"

lemma HowClosed_loop_lcp:
  "c_string s \<Longrightarrow> c_string t \<Longrightarrow> s \<noteq> [] \<or> t \<noteq> [] \<Longrightarrow>
   HowClosed_loop n s t = Inr (n + length (longest_common_prefix s t))"
proof (induction n s t rule: HowClosed_loop.induct)
  case (4 n c s d t)
  then show ?case by (cases s; cases t) auto
qed auto

text \<open>
  C38. \<open>OS_StrHowClosedMatch\<close> returns the length of the longest common prefix of two strings as
  soon as one of them is not empty; for two empty strings it reads past their terminators.
\<close>

theorem OS_StrHowClosedMatch_lcp:
  assumes "c_string s" "c_string t"
  shows "OS_StrHowClosedMatch (Some s) (Some t) =
    (if s = [] \<and> t = [] then Inl OutOfBounds else Inr (length (longest_common_prefix s t)))"
  using HowClosed_loop_lcp [OF assms, of 0]
  by (auto simp: OS_StrHowClosedMatch_def)

theorem OS_StrHowClosedMatch_lcp_witness:
  "OS_StrHowClosedMatch (Some ''sshd: a'') (Some ''sshd: b'') = Inr 6 \<and>
   OS_StrHowClosedMatch (Some []) (Some []) = Inl OutOfBounds"
  using OS_StrHowClosedMatch_lcp [of "''sshd: a''" "''sshd: b''"]
    OS_StrHowClosedMatch_lcp [of "[]" "[]"] by simp

end
