(* ===== verification/Decode_Xml.thy ===== *)
theory Decode_Xml
  imports Decoders Store_Op Str_Utils
begin

text \<open>
  \<^verbatim>\<open>analysisd/decoders/decode-xml.c\<close>: from the elements of a decoder file to the decoders. The
  input is what \<open>os_xml\<close> gives: an element has a name, a content, and the parallel arrays of its
  attributes and values. The compilers of patterns and the table of plugin decoders are parameters.
  A function that ends the loading returns \<open>Inl Refused\<close> (\<open>return (0)\<close>) or \<open>Inl Exits\<close>
  (\<open>ErrorExit\<close>); \<open>None\<close> is the dereference of a NULL pointer.
\<close>

section \<open>Input and state\<close>

record xml_elem =
  xe_element :: "string option"
  xe_content :: "string option"
  xe_attributes :: "string list option"
  xe_values :: "string list option"

datatype load_stop = Refused | Exits

record 'm compilers =
  OSRegex_Compile :: "string \<Rightarrow> 'm option"
  OSMatch_Compile :: "string \<Rightarrow> 'm option"
  OSPcre2_Compile :: "string \<Rightarrow> 'm option"
  sub_strings :: "'m \<Rightarrow> bool"
  plugin_decoders :: "(string \<times> (Eventinfo \<Rightarrow> Eventinfo)) list"
  decoder_order_size :: nat

record 'm loader =
  ld_decoders :: "'m decoders"
  ld_store :: "unit OSStore option"
  ld_next :: nat
  ld_null :: "'m decoder option"

text \<open>A decoder in the making, with the patterns read so far.\<close>

record 'm raw =
  rw_pi :: "'m decoder"
  rw_regex :: "string option"
  rw_prematch :: "string option"
  rw_p_name :: "string option"
  rw_pcre2 :: "string option"
  rw_prematch_pcre2 :: "string option"
  rw_p_name_pcre2 :: "string option"

abbreviation "SYSLOG \<equiv> (1 :: nat)"
abbreviation "IDS \<equiv> (2 :: nat)"
abbreviation "FIREWALL \<equiv> (3 :: nat)"
abbreviation "WEBLOG \<equiv> (7 :: nat)"
abbreviation "SQUID \<equiv> (8 :: nat)"
abbreviation "DECODER_WINDOWS \<equiv> (9 :: nat)"
abbreviation "HOST_INFO \<equiv> (10 :: nat)"
abbreviation "OSSEC_RL \<equiv> (11 :: nat)"

definition zero_decoder :: "'m decoder" where
  "zero_decoder = \<lparr>di_name = None, di_id = 0, di_type = SYSLOG, di_fts = 0, di_accumulate = 0, di_fields = None,
     di_get_next = False, di_use_own_name = False, di_regex_offset = 0, di_prematch_offset = 0, di_parent = None,
     di_regex = None, di_prematch = None, di_program_name = None, di_pcre2 = None, di_prematch_pcre2 = None,
     di_program_name_pcre2 = None, di_plugindecoder = None, di_order = None\<rparr>"

definition new_raw :: "string \<Rightarrow> 'm raw" where
  "new_raw name = \<lparr>rw_pi = zero_decoder\<lparr>di_name := Some name\<rparr>, rw_regex = None, rw_prematch = None, rw_p_name = None,
     rw_pcre2 = None, rw_prematch_pcre2 = None, rw_p_name_pcre2 = None\<rparr>"

section \<open>The names of the decoders\<close>

definition getDecoderfromlist :: "string \<Rightarrow> unit OSStore option \<Rightarrow> nat" where
  "getDecoderfromlist name store = (case store of Some s \<Rightarrow> OSStore_GetPosition s name | None \<Rightarrow> 0)"

definition addDecoder2list :: "string \<Rightarrow> unit OSStore option \<Rightarrow> nat \<times> unit OSStore option" where
  "addDecoder2list name store =
     (let s = (case store of Some s \<Rightarrow> s | None \<Rightarrow> OSStore_Create); (ok, s1) = OSStore_Put s name () in (ok, Some s1))"

text \<open>\<open>id\<close> is \<open>u_int16_t\<close>.\<close>

fun set_children_ids :: "nat \<Rightarrow> string option \<Rightarrow> unit OSStore option \<Rightarrow> nat list \<Rightarrow> 'm decoders \<Rightarrow> bool \<times> 'm decoders" where
  "set_children_ids p_id tmp_name store [] st = (True, st)"
| "set_children_ids p_id tmp_name store (c # cs) st =
     (let d = dc_info st c;
          d1 = (if di_use_own_name d then d\<lparr>di_id := getDecoderfromlist (name_of st c) store mod 65536\<rparr>
                else d\<lparr>di_id := p_id, di_name := tmp_name\<rparr>);
          st1 = set_info c (\<lambda>_. d1) st
      in if di_id d1 = 0 then (False, st1) else set_children_ids p_id tmp_name store cs st1)"

fun setdecoderids_loop :: "unit OSStore option \<Rightarrow> decoder_node list \<Rightarrow> 'm decoders \<Rightarrow> bool \<times> 'm decoders" where
  "setdecoderids_loop store [] st = (True, st)"
| "setdecoderids_loop store ((r, ch) # nodes) st =
     (let n = getDecoderfromlist (name_of st r) store mod 65536; st1 = set_info r (\<lambda>d. d\<lparr>di_id := n\<rparr>) st in
      if n = 0 then (False, st1)
      else (case set_children_ids n (di_name (dc_info st1 r)) store ch st1 of
              (False, st2) \<Rightarrow> (False, st2)
            | (True, st2) \<Rightarrow> setdecoderids_loop store nodes st2))"

definition os_setdecoderids :: "string option \<Rightarrow> unit OSStore option \<Rightarrow> 'm decoders \<Rightarrow> bool \<times> 'm decoders" where
  "os_setdecoderids p_name store st =
     (let nodes = OS_GetFirstOSDecoder st p_name in
      if nodes = [] then (False, st) else setdecoderids_loop store nodes st)"

section \<open>Attributes and contents\<close>

definition ReadDecodeAttrs :: "string list option \<Rightarrow> string list option \<Rightarrow> nat" where
  "ReadDecodeAttrs names values =
     (case (names, values) of
        (Some (n # _), Some (v # _)) \<Rightarrow>
          (if strcmp n ''offset'' = 0
           then (if strcmp v ''after_parent'' = 0 then AFTER_PARENT
                 else if strcmp v ''after_prematch'' = 0 then AFTER_PREMATCH
                 else if strcmp v ''after_regex'' = 0 then AFTER_PREVREGEX
                 else AFTER_ERROR)
           else AFTER_ERROR)
      | _ \<Rightarrow> 0)"

definition loadmemory :: "string option \<Rightarrow> string \<Rightarrow> string option" where
  "loadmemory at str =
     (case at of
        None \<Rightarrow> if length str < 8192 then Some str else None
      | Some a \<Rightarrow> if length a + length str + 1 > 8192 then None else Some (a @ str))"

text \<open>One field of \<open><order>\<close>: the word, and what the buffer holds once the word is ended.\<close>

definition order_word :: "string \<Rightarrow> string \<times> string" where
  "order_word norder =
     (let word = takeWhile (\<lambda>c. c \<noteq> CHR '' '') (dropWhile (\<lambda>c. c = CHR '' '') norder)
      in (word, takeWhile (\<lambda>c. c = CHR '' '') norder @ word))"

definition order_fp :: "string \<Rightarrow> string \<Rightarrow> field_fp \<times> string option" where
  "order_fp word norder =
     (if strcmp word ''dstuser'' = 0 then (DstUser_FP, None)
      else if strcmp word ''srcuser'' = 0 then (SrcUser_FP, None)
      else if strcmp word ''user'' = 0 then (DstUser_FP, None)
      else if strcmp word ''srcip'' = 0 then (SrcIP_FP, None)
      else if strcmp word ''dstip'' = 0 then (DstIP_FP, None)
      else if strcmp word ''srcport'' = 0 then (SrcPort_FP, None)
      else if strcmp word ''dstport'' = 0 then (DstPort_FP, None)
      else if strcmp word ''protocol'' = 0 then (Protocol_FP, None)
      else if strcmp word ''action'' = 0 then (Action_FP, None)
      else if strcmp word ''id'' = 0 then (ID_FP, None)
      else if strcmp word ''url'' = 0 then (Url_FP, None)
      else if strcmp word ''data'' = 0 then (Data_FP, None)
      else if strcmp word ''extra_data'' = 0 then (Data_FP, None)
      else if strcmp word ''status'' = 0 then (Status_FP, None)
      else if strcmp word ''system_name'' = 0 then (SystemName_FP, None)
      else if strstr norder ''filename'' \<noteq> None then (FileName_FP, None)
      else (DynamicField_FP, Some (if deref norder = CHR '' '' then drop 1 norder else norder)))"

fun read_order :: "nat \<Rightarrow> string list \<Rightarrow> nat \<Rightarrow> field_fp option list \<Rightarrow> string option list \<Rightarrow>
  load_stop + field_fp option list \<times> string option list" where
  "read_order order_size [] i fps flds = Inr (fps, flds)"
| "read_order order_size (norder # rest) i fps flds =
     (if i \<ge> order_size then Inl Exits
      else let (word, norder1) = order_word norder in
        if word = [] then Inl Exits
        else let (fp, field) = order_fp word norder1 in
          read_order order_size rest (i + 1) (fps[i := Some fp]) (if field = None then flds else flds[i := field]))"

text \<open>The fields of \<open><fts>\<close>.\<close>

definition fts_bit :: "string \<Rightarrow> nat option" where
  "fts_bit s =
     (let has = (\<lambda>w. strstr s w \<noteq> None); d = (if has ''dstuser'' then FTS_DSTUSER else 0) in
      if has ''user'' then Some (d OR FTS_DSTUSER)
      else if has ''srcuser'' then Some (d OR FTS_SRCUSER)
      else if has ''srcip'' then Some (d OR FTS_SRCIP)
      else if has ''dstip'' then Some (d OR FTS_DSTIP)
      else if has ''id'' then Some (d OR FTS_ID)
      else if has ''location'' then Some (d OR FTS_LOCATION)
      else if has ''data'' then Some (d OR FTS_DATA)
      else if has ''extra_data'' then Some (d OR FTS_DATA)
      else if has ''system_name'' then Some (d OR FTS_SYSTEMNAME)
      else if has ''name'' then Some (d OR FTS_NAME)
      else None)"

fun read_fts :: "string list \<Rightarrow> nat \<Rightarrow> load_stop + nat" where
  "read_fts [] fts = Inr fts"
| "read_fts (norder # rest) fts =
     (case fts_bit norder of None \<Rightarrow> Inl Exits | Some b \<Rightarrow> read_fts rest (fts OR b))"

definition decoder_type :: "string \<Rightarrow> nat option" where
  "decoder_type content =
     (if strcmp content ''firewall'' = 0 then Some FIREWALL
      else if strcmp content ''ids'' = 0 then Some IDS
      else if strcmp content ''web-log'' = 0 then Some WEBLOG
      else if strcmp content ''syslog'' = 0 then Some SYSLOG
      else if strcmp content ''squid'' = 0 then Some SQUID
      else if strcmp content ''windows'' = 0 then Some DECODER_WINDOWS
      else if strcmp content ''host-information'' = 0 then Some HOST_INFO
      else if strcmp content ''ossec'' = 0 then Some OSSEC_RL
      else None)"

section \<open>One element\<close>

abbreviation upd_pi :: "('m decoder \<Rightarrow> 'm decoder) \<Rightarrow> 'm raw \<Rightarrow> 'm raw" where
  "upd_pi f rw \<equiv> rw\<lparr>rw_pi := f (rw_pi rw)\<rparr>"

text \<open>
  The offset of a pattern: \<open>old\<close> is the pattern read before, of which only the first may have an
  offset.
\<close>

definition pattern_offset :: "string option \<Rightarrow> xml_elem \<Rightarrow> load_stop \<Rightarrow> load_stop + nat" where
  "pattern_offset old e stop =
     (let r_offset = ReadDecodeAttrs (xe_attributes e) (xe_values e) in
      if int_bit r_offset AFTER_ERROR then Inl stop
      else if old \<noteq> None \<and> r_offset \<noteq> 0 then Inl stop
      else Inr r_offset)"

definition decode_element :: "'m compilers \<Rightarrow> 'm raw \<Rightarrow> xml_elem \<Rightarrow> (load_stop + 'm raw) option" where
  "decode_element env rw e =
     (case (xe_element e, xe_content e) of
        (None, _) \<Rightarrow> Some (Inl Refused)
      | (Some el, None) \<Rightarrow> Some (Inl Refused)
      | (Some el, Some content) \<Rightarrow>
          if strcasecmp el ''parent'' = 0
          then Some (Inr (upd_pi (\<lambda>pi. pi\<lparr>di_parent := loadmemory (di_parent pi) content\<rparr>) rw))
          else if strcasecmp el ''regex'' = 0
          then Some (case pattern_offset (rw_regex rw) e Refused of
              Inl x \<Rightarrow> Inl x
            | Inr off \<Rightarrow> Inr ((upd_pi (\<lambda>pi. if off \<noteq> 0 then pi\<lparr>di_regex_offset := off\<rparr> else pi) rw)
                \<lparr>rw_regex := loadmemory (rw_regex rw) content\<rparr>))
          else if strcasecmp el ''pcre2'' = 0
          then Some (case pattern_offset (rw_pcre2 rw) e Refused of
              Inl x \<Rightarrow> Inl x
            | Inr off \<Rightarrow> Inr ((upd_pi (\<lambda>pi. if off \<noteq> 0 then pi\<lparr>di_regex_offset := off\<rparr> else pi) rw)
                \<lparr>rw_pcre2 := loadmemory (rw_pcre2 rw) content\<rparr>))
          else if strcasecmp el ''prematch'' = 0
          then Some (case pattern_offset (rw_prematch rw) e Exits of
              Inl x \<Rightarrow> Inl x
            | Inr off \<Rightarrow> Inr ((upd_pi (\<lambda>pi. if off \<noteq> 0 then pi\<lparr>di_prematch_offset := off\<rparr> else pi) rw)
                \<lparr>rw_prematch := loadmemory (rw_prematch rw) content\<rparr>))
          else if strcasecmp el ''prematch_pcre2'' = 0
          then Some (case pattern_offset (rw_prematch_pcre2 rw) e Exits of
              Inl x \<Rightarrow> Inl x
            | Inr off \<Rightarrow> Inr ((upd_pi (\<lambda>pi. if off \<noteq> 0 then pi\<lparr>di_prematch_offset := off\<rparr> else pi) rw)
                \<lparr>rw_prematch_pcre2 := loadmemory (rw_prematch_pcre2 rw) content\<rparr>))
          else if strcasecmp el ''program_name'' = 0
          then Some (Inr (rw\<lparr>rw_p_name := loadmemory (rw_p_name rw) content\<rparr>))
          else if strcasecmp el ''program_name_pcre2'' = 0
          then Some (Inr (rw\<lparr>rw_p_name_pcre2 := loadmemory (rw_p_name_pcre2 rw) content\<rparr>))
          else if strcasecmp el ''ftscomment'' = 0 then Some (Inr rw)
          else if strcasecmp el ''use_own_name'' = 0
          then Some (Inr (if strcmp content ''true'' = 0 then upd_pi (\<lambda>pi. pi\<lparr>di_use_own_name := True\<rparr>) rw else rw))
          else if strcasecmp el ''plugin_decoder'' = 0
          then let rw1 = (case map_of (plugin_decoders env) content of
                   Some f \<Rightarrow> upd_pi (\<lambda>pi. pi\<lparr>di_plugindecoder := Some f\<rparr>) rw | None \<Rightarrow> rw)
            in Some (if di_plugindecoder (rw_pi rw1) = None then Inl Refused else Inr rw1)
          else if strcmp el ''type'' = 0
          then Some (case decoder_type content of
              None \<Rightarrow> Inl Refused
            | Some t \<Rightarrow> Inr (upd_pi (\<lambda>pi. pi\<lparr>di_type := t\<rparr>) rw))
          else if strcasecmp el ''order'' = 0
          then (case OS_StrBreak CHR '','' (Some content) 1024 of
              Inr (Some norder) \<Rightarrow>
                Some (case read_order (decoder_order_size env) norder 0
                        (replicate (decoder_order_size env) None) (replicate (decoder_order_size env) None) of
                   Inl x \<Rightarrow> Inl x
                 | Inr (fps, flds) \<Rightarrow> Inr (upd_pi (\<lambda>pi. pi\<lparr>di_order := Some fps, di_fields := Some flds\<rparr>) rw))
            | _ \<Rightarrow> None)
          else if strcasecmp el ''accumulate'' = 0
          then Some (Inr (upd_pi (\<lambda>pi. pi\<lparr>di_accumulate := 1\<rparr>) rw))
          else if strcasecmp el ''fts'' = 0
          then (case OS_StrBreak CHR '','' (Some content) 8 of
              Inr (Some norder) \<Rightarrow>
                Some (case read_fts norder (di_fts (rw_pi rw)) of
                   Inl x \<Rightarrow> Inl x
                 | Inr b \<Rightarrow> Inr (upd_pi (\<lambda>pi. pi\<lparr>di_fts := b\<rparr>) rw))
            | Inr None \<Rightarrow> Some (Inl Exits)
            | Inl _ \<Rightarrow> None)
          else Some (Inl Refused))"

fun decode_elements :: "'m compilers \<Rightarrow> xml_elem list \<Rightarrow> 'm raw \<Rightarrow> (load_stop + 'm raw) option" where
  "decode_elements env [] rw = Some (Inr rw)"
| "decode_elements env (e # es) rw =
     (case decode_element env rw e of
        Some (Inr rw1) \<Rightarrow> decode_elements env es rw1
      | r \<Rightarrow> r)"

section \<open>One decoder\<close>

text \<open>The checks once all elements are read; \<open>after_prematch\<close> without a parent becomes \<open>after_parent\<close>.\<close>

definition check_decoder :: "'m raw \<Rightarrow> load_stop + 'm raw" where
  "check_decoder rw =
     (let pi = rw_pi rw; prematch = (rw_prematch rw \<noteq> None \<or> rw_prematch_pcre2 rw \<noteq> None);
          regex = (rw_regex rw \<noteq> None \<or> rw_pcre2 rw \<noteq> None); noparent = (di_parent pi = None) in
      if \<not> prematch \<and> noparent \<and> \<not> (rw_p_name rw \<noteq> None \<or> rw_p_name_pcre2 rw \<noteq> None) then Inl Refused
      else if \<not> regex \<and> (di_fts pi \<noteq> 0 \<or> di_order pi \<noteq> None) \<or> regex \<and> di_order pi = None then Inl Refused
      else if int_bit (di_regex_offset pi) AFTER_PARENT \<and> noparent then Inl Refused
      else if int_bit (di_regex_offset pi) AFTER_PREMATCH \<and> \<not> noparent \<and> \<not> prematch then Inl Refused
      else let off = (if int_bit (di_regex_offset pi) AFTER_PREMATCH \<and> noparent then AFTER_PARENT
                      else di_regex_offset pi) in
        if int_bit off AFTER_PREVREGEX \<and> (noparent \<or> \<not> regex) then Inl Refused
        else if di_prematch_offset pi \<noteq> 0 \<and> (\<not> int_bit (di_prematch_offset pi) AFTER_PARENT \<or> noparent) then Inl Refused
        else Inr (upd_pi (\<lambda>pi. pi\<lparr>di_regex_offset := off\<rparr>) rw))"

text \<open>Two patterns for the same thing: the second is compiled only when the first is not given.\<close>

definition compile_either :: "(string \<Rightarrow> 'm option) \<Rightarrow> (string \<Rightarrow> 'm option) \<Rightarrow> string option \<Rightarrow> string option \<Rightarrow>
  load_stop + 'm option \<times> 'm option" where
  "compile_either f g a b =
     (case a of
        Some s \<Rightarrow> (case f s of None \<Rightarrow> Inl Refused | Some m \<Rightarrow> Inr (Some m, None))
      | None \<Rightarrow>
          (case b of
             Some s \<Rightarrow> (case g s of None \<Rightarrow> Inl Refused | Some m \<Rightarrow> Inr (None, Some m))
           | None \<Rightarrow> Inr (None, None)))"

definition compile_decoder :: "'m compilers \<Rightarrow> 'm raw \<Rightarrow> load_stop + 'm decoder" where
  "compile_decoder env rw =
     (case compile_either (OSRegex_Compile env) (OSPcre2_Compile env) (rw_prematch rw) (rw_prematch_pcre2 rw) of
        Inl x \<Rightarrow> Inl x
      | Inr (pre, pre2) \<Rightarrow>
        (case compile_either (OSMatch_Compile env) (OSPcre2_Compile env) (rw_p_name rw) (rw_p_name_pcre2 rw) of
           Inl x \<Rightarrow> Inl x
         | Inr (pn, pn2) \<Rightarrow>
           (case compile_either (OSRegex_Compile env) (OSPcre2_Compile env) (rw_regex rw) (rw_pcre2 rw) of
              Inl x \<Rightarrow> Inl x
            | Inr (re, re2) \<Rightarrow>
                if (case re of Some m \<Rightarrow> \<not> sub_strings env m | None \<Rightarrow> False) then Inl Refused
                else let pi = (rw_pi rw)\<lparr>di_prematch := pre, di_prematch_pcre2 := pre2, di_program_name := pn,
                       di_program_name_pcre2 := pn2, di_regex := re, di_pcre2 := re2\<rparr> in
                  if di_plugindecoder pi \<noteq> None \<and> (di_regex pi \<noteq> None \<or> di_order pi \<noteq> None) then Inl Refused
                  else Inr pi)))"

definition nth_opt :: "'a list \<Rightarrow> nat \<Rightarrow> 'a option" where
  "nth_opt xs i = (if i < length xs then Some (xs ! i) else None)"

text \<open>The name of the decoder, from the attributes of its element.\<close>

definition node_name :: "xml_elem \<Rightarrow> load_stop + string" where
  "node_name e =
     (case (xe_element e, xe_attributes e, xe_values e) of
        (Some el, Some as, Some vs) \<Rightarrow>
          if strcasecmp el ''decoder'' \<noteq> 0 then Inl Refused
          else (case (nth_opt vs 0, nth_opt as 0) of
            (Some v, Some a) \<Rightarrow>
              if strcasecmp a ''name'' \<noteq> 0 then Inl Refused
              else if nth_opt as 1 \<noteq> None \<and> nth_opt vs 1 \<noteq> None \<and>
                      (strcasecmp a ''status'' \<noteq> 0 \<or> nth_opt as 2 \<noteq> None) then Inl Refused
              else Inr v
          | _ \<Rightarrow> Inl Refused)
      | _ \<Rightarrow> Inl Refused)"

definition read_decoder :: "'m compilers \<Rightarrow> xml_elem \<times> xml_elem list option \<Rightarrow> 'm loader \<Rightarrow>
  (load_stop + unit) option \<times> 'm loader" where
  "read_decoder env node ld =
     (case node_name (fst node) of
        Inl x \<Rightarrow> (Some (Inl x), ld)
      | Inr name \<Rightarrow>
          (case snd node of
             None \<Rightarrow> (Some (Inl Refused), ld)
           | Some elements \<Rightarrow>
               (let ld1 = ld\<lparr>ld_store := snd (addDecoder2list name (ld_store ld))\<rparr> in
                case decode_elements env elements (new_raw name) of
                  None \<Rightarrow> (None, ld1)
                | Some (Inl x) \<Rightarrow> (Some (Inl x), ld1)
                | Some (Inr rw) \<Rightarrow>
                    (case check_decoder rw of
                       Inl x \<Rightarrow> (Some (Inl x), ld1)
                     | Inr rw1 \<Rightarrow>
                         (case compile_decoder env rw1 of
                            Inl x \<Rightarrow> (Some (Inl x), ld1)
                          | Inr pi \<Rightarrow>
                              (case OS_AddOSDecoder (ld_next ld1) (set_info (ld_next ld1) (\<lambda>_. pi) (ld_decoders ld1)) of
                                 (ok, st) \<Rightarrow>
                                   (Some (if ok then Inr () else Inl Refused),
                                    ld1\<lparr>ld_decoders := st, ld_next := ld_next ld1 + 1\<rparr>)))))))"

section \<open>One file\<close>

fun read_decoders :: "'m compilers \<Rightarrow> (xml_elem \<times> xml_elem list option) list \<Rightarrow> 'm loader \<Rightarrow>
  (load_stop + unit) option \<times> 'm loader" where
  "read_decoders env [] ld = (Some (Inr ()), ld)"
| "read_decoders env (n # ns) ld =
     (case read_decoder env n ld of
        (Some (Inr u), ld1) \<Rightarrow> read_decoders env ns ld1
      | r \<Rightarrow> r)"

text \<open>
  What \<open>OS_ReadXML\<close>, \<open>OS_ApplyVariables\<close> and \<open>OS_GetElementsbyNode\<close> give for a file: an error with
  its number, or the elements of the root (\<open>None\<close> for NULL). \<open>is_local\<close>: the file is the local one,
  which may be missing or empty (result \<open>-2\<close>).
\<close>

datatype xml_file = ReadError int | VariableError | Elements "(xml_elem \<times> xml_elem list option) list option"

definition ReadDecodeXML :: "'m compilers \<Rightarrow> bool \<Rightarrow> xml_file \<Rightarrow> 'm loader \<Rightarrow> (load_stop + int) option \<times> 'm loader" where
  "ReadDecodeXML env is_local file ld =
     (case file of
        ReadError i \<Rightarrow> (Some (Inr (if i = -2 \<and> is_local then -2 else 0)), ld)
      | VariableError \<Rightarrow> (Some (Inr 0), ld)
      | Elements None \<Rightarrow> (Some (Inr (if is_local then -2 else 0)), ld)
      | Elements (Some nodes) \<Rightarrow>
          (let ld1 = ld\<lparr>ld_null := (case ld_null ld of Some d \<Rightarrow> Some d | None \<Rightarrow> Some zero_decoder)\<rparr> in
           case read_decoders env nodes ld1 of
             (None, ld2) \<Rightarrow> (None, ld2)
           | (Some (Inl Refused), ld2) \<Rightarrow> (Some (Inr 0), ld2)
           | (Some (Inl Exits), ld2) \<Rightarrow> (Some (Inl Exits), ld2)
           | (Some (Inr u), ld2) \<Rightarrow> (Some (Inr 1), ld2)))"

definition builtin_decoders :: "string list" where
  "builtin_decoders = [''rootcheck'', ''syscheck_integrity_changed'', ''syscheck_integrity_changed_2nd'',
     ''syscheck_integrity_changed_3rd'', ''syscheck_new_entry'', ''syscheck_deleted'', ''hostinfo_new'',
     ''hostinfo_modified'']"

definition SetDecodeXML :: "'m loader \<Rightarrow> nat \<times> 'm loader" where
  "SetDecodeXML ld =
     (let store = fold (\<lambda>n s. snd (addDecoder2list n s)) builtin_decoders (ld_store ld);
          (ok1, st1) = os_setdecoderids None store (ld_decoders ld);
          ld1 = ld\<lparr>ld_store := store, ld_decoders := st1\<rparr>
      in if \<not> ok1 then (0, ld1)
         else let (ok2, st2) = os_setdecoderids (Some ''ossec-analysisd'') store st1 in
           (if ok2 then 1 else 0, ld1\<lparr>ld_decoders := st2\<rparr>))"

definition new_loader :: "'m loader" where
  "new_loader = \<lparr>ld_decoders = \<lparr>dc_info = (\<lambda>_. zero_decoder), dc_forpname = [], dc_nopname = []\<rparr>, ld_store = None,
     ld_next = 0, ld_null = None\<rparr>"

end
