(* ===== verification/Decode_Safe.thy ===== *)
theory Decode_Safe
  imports Decode_Xml
begin

text \<open>
  What the loader guarantees and the decoding relies on. \<open>DecodeEvent\<close> dereferences the next child
  without a test and hands positions in the log to the engines that may never have been set; both
  are safe because of what \<open>ReadDecodeXML\<close> checks and how \<open>OS_AddOSDecoder\<close> sets \<open>get_next\<close>. The
  invariant \<open>decoders_ok\<close> of the lists says so, \<open>loader_ok\<close> is the stronger one of the loading.
\<close>

section \<open>Well-formed decoders\<close>

text \<open>A function of an order sets a field; it leaves the log, its place and the decoder alone.\<close>

definition setter :: "field_fp \<Rightarrow> bool" where
  "setter f \<longleftrightarrow> (\<forall>lf s i. lf_decoder_info (f lf s i) = lf_decoder_info lf \<and> lf_log (f lf s i) = lf_log lf \<and>
     lf_full_log (f lf s i) = lf_full_log lf \<and> lf_location (f lf s i) = lf_location lf)"

definition fps_ok :: "nat \<Rightarrow> field_fp option list \<Rightarrow> bool" where
  "fps_ok order_size fps \<longleftrightarrow> length fps = order_size \<and> (\<forall>f. Some f \<in> set fps \<longrightarrow> setter f)"

definition order_ok :: "nat \<Rightarrow> 'm decoder \<Rightarrow> bool" where
  "order_ok order_size d \<longleftrightarrow>
     (di_regex d \<noteq> None \<or> di_pcre2 d \<noteq> None \<longrightarrow> (\<exists>fps. di_order d = Some fps \<and> fps_ok order_size fps))"

text \<open>A decoder without parent has something to match before its regex, which may follow only that.\<close>

definition root_ok :: "nat \<Rightarrow> 'm decoder \<Rightarrow> bool" where
  "root_ok order_size d \<longleftrightarrow> order_ok order_size d \<and> \<not> di_get_next d \<and> di_parent d = None \<and>
     (with_pname d \<or> di_prematch d \<noteq> None \<or> di_prematch_pcre2 d \<noteq> None) \<and> di_regex_offset d \<in> {0, AFTER_PARENT}"

definition child_ok :: "nat \<Rightarrow> 'm decoder \<Rightarrow> bool" where
  "child_ok order_size d \<longleftrightarrow> order_ok order_size d \<and> di_parent d \<noteq> None \<and>
     di_regex_offset d \<in> {0, AFTER_PARENT, AFTER_PREMATCH, AFTER_PREVREGEX}"

text \<open>\<open>get_next\<close> is never set in the last child.\<close>

definition node_ok :: "nat \<Rightarrow> 'm decoders \<Rightarrow> decoder_node \<Rightarrow> bool" where
  "node_ok order_size st n \<longleftrightarrow> (case n of (r, ch) \<Rightarrow>
     root_ok order_size (dc_info st r) \<and> (\<forall>c\<in>set ch. child_ok order_size (dc_info st c)) \<and>
     (ch \<noteq> [] \<longrightarrow> \<not> di_get_next (dc_info st (last ch))))"

definition decoders_ok :: "nat \<Rightarrow> 'm decoders \<Rightarrow> bool" where
  "decoders_ok order_size st \<longleftrightarrow>
     (\<forall>n\<in>set (dc_forpname st). node_ok order_size st n \<and> with_pname (dc_info st (fst n))) \<and>
     (\<forall>n\<in>set (dc_nopname st). node_ok order_size st n \<and> \<not> with_pname (dc_info st (fst n)))"

section \<open>Decoding is safe\<close>

lemma store_captures_safe:
  "length fps = order_size \<Longrightarrow> store_captures order_size (Some fps) ss i lf \<noteq> None"
  by (induction ss arbitrary: i lf) auto

text \<open>The engines are asked for positions that were set: what they do with NULL does not matter.\<close>

definition same_engines :: "'m engines \<Rightarrow> 'm engines \<Rightarrow> bool" where
  "same_engines e1 e2 \<longleftrightarrow> OSMatch_Execute e1 = OSMatch_Execute e2 \<and>
     (\<forall>s m. OSRegex_Execute e1 (Some s) m = OSRegex_Execute e2 (Some s) m) \<and>
     (\<forall>s m. OSPcre2_Execute e1 (Some s) m = OSPcre2_Execute e2 (Some s) m)"

lemma offset_bits [simp]:
  "int_bit 0 b = False" "int_bit AFTER_PARENT AFTER_PARENT" "\<not> int_bit AFTER_PREMATCH AFTER_PARENT"
  "int_bit AFTER_PREMATCH AFTER_PREMATCH" "\<not> int_bit AFTER_PREVREGEX AFTER_PARENT"
  "\<not> int_bit AFTER_PREVREGEX AFTER_PREMATCH" "int_bit AFTER_PREVREGEX AFTER_PREVREGEX"
  "\<not> int_bit AFTER_PARENT AFTER_PREMATCH" "\<not> int_bit AFTER_PARENT AFTER_PREVREGEX"
  "\<not> int_bit AFTER_PREMATCH AFTER_PREVREGEX" "int_bit AFTER_ERROR AFTER_ERROR"
  "\<not> int_bit AFTER_PARENT AFTER_ERROR" "\<not> int_bit AFTER_PREMATCH AFTER_ERROR" "\<not> int_bit AFTER_PREVREGEX AFTER_ERROR"
  by (simp_all add: int_bit_def)

lemmas offset_bits_Suc [simp] = offset_bits [unfolded One_nat_def]

lemma regex_from_set:
  "off \<in> {0, AFTER_PARENT, AFTER_PREMATCH, AFTER_PREVREGEX} \<Longrightarrow> pm \<noteq> None \<Longrightarrow> cm \<noteq> None \<Longrightarrow>
   regex_from off lf pm cm rp llog \<noteq> None"
  by (auto simp: regex_from_def)

lemma regex_chain_children:
  assumes "same_engines eng eng'"
  shows "\<forall>c\<in>set ns. child_ok order_size (dc_info st c) \<Longrightarrow> ns \<noteq> [] \<Longrightarrow> \<not> di_get_next (dc_info st (last ns)) \<Longrightarrow>
    pm \<noteq> None \<Longrightarrow> cm \<noteq> None \<Longrightarrow>
    \<exists>r. regex_chain eng st order_size ns pm cm rp llog lf = Some r \<and>
      regex_chain eng' st order_size ns pm cm rp llog lf = Some r"
proof (induction ns arbitrary: rp llog lf)
  case (Cons n ns)
  let ?d = "dc_info st n"
  let ?l = "regex_from (di_regex_offset ?d) lf pm cm rp llog"
  have c: "child_ok order_size ?d" using Cons.prems(1) by simp
  then obtain l where l: "?l = Some l"
    using regex_from_set [of "di_regex_offset ?d" pm cm lf rp llog] Cons.prems(4,5) by (auto simp: child_ok_def)
  have nxt: "\<exists>r. regex_chain eng st order_size ns pm cm rp' llog' lf' = Some r \<and>
      regex_chain eng' st order_size ns pm cm rp' llog' lf' = Some r"
    if "di_get_next ?d" for rp' llog' lf'
    using Cons.IH [of rp' llog' lf'] Cons.prems that by (cases "ns = []") simp_all
  have caps: "di_regex ?d \<noteq> None \<or> di_pcre2 ?d \<noteq> None \<Longrightarrow> store_captures order_size (di_order ?d) ss i lf' = None \<longleftrightarrow> False"
    for ss i lf'
    using c store_captures_safe by (auto simp: child_ok_def order_ok_def fps_ok_def)
  show ?case
    using assms nxt
    by (auto simp: l Let_def same_engines_def caps split: option.split sum.split)
qed simp


lemma run_decoder_children:
  assumes "same_engines eng eng'" "\<forall>c\<in>set ns. child_ok order_size (dc_info st c)"
    "ns \<noteq> [] \<longrightarrow> \<not> di_get_next (dc_info st (last ns))" "pm \<noteq> None" "cm \<noteq> None"
  shows "\<exists>r. run_decoder eng st order_size ns pm cm lf = Some r \<and> run_decoder eng' st order_size ns pm cm lf = Some r"
  using regex_chain_children [OF assms(1,2) _ _ assms(4,5), of None None lf] assms(3)
  by (cases ns) (auto simp: run_decoder_def split: option.splits)

lemma run_decoder_root:
  assumes "same_engines eng eng'" "root_ok order_size (dc_info st r)" "pm \<noteq> None"
  shows "\<exists>x. run_decoder eng st order_size (r # ns) pm None lf = Some x \<and> run_decoder eng' st order_size (r # ns) pm None lf = Some x"
proof -
  let ?d = "dc_info st r"
  obtain l where l: "regex_from (di_regex_offset ?d) lf pm None None None = Some l"
    using assms(2,3) by (auto simp: root_ok_def regex_from_def)
  have caps: "di_regex ?d \<noteq> None \<or> di_pcre2 ?d \<noteq> None \<Longrightarrow> store_captures order_size (di_order ?d) ss i lf' = None \<longleftrightarrow> False"
    for ss i lf'
    using assms(2) store_captures_safe by (auto simp: root_ok_def order_ok_def fps_ok_def)
  show ?thesis
    using assms(1,2)
    by (auto simp: run_decoder_def l Let_def same_engines_def root_ok_def caps split: option.split sum.split)
qed

lemma suffix_tl_dropWhile: "suffix (tl (dropWhile P xs)) xs"
  by (metis suffix_dropWhile suffix_order.order_trans suffix_tl)

lemma find_child_suffix:
  "find_child eng st ns pm lf = Some (chain, cm, lf1) \<Longrightarrow> suffix chain ns \<and> chain \<noteq> [] \<and> (pm \<noteq> None \<longrightarrow> cm \<noteq> None)"
proof (induction eng st ns pm lf rule: find_child.induct)
  case (2 eng st n ns pm lf)
  have "suffix chain ns' \<Longrightarrow> suffix ns' ns \<Longrightarrow> suffix chain (n # ns)" for ns'
    by (metis suffix_ConsI suffix_order.order_trans)
  with 2 suffix_tl_dropWhile [of _ ns] show ?case
    by (auto simp: Let_def split: option.splits if_splits)
qed simp

lemma find_child_engines:
  assumes "same_engines eng eng'" "pm \<noteq> None"
  shows "find_child eng st ns pm lf = find_child eng' st ns pm lf"
proof (induction ns rule: measure_induct_rule [where f = length])
  case (less ns)
  show ?case
  proof (cases ns)
    case (Cons n ms)
    have "length (tl (dropWhile P ms)) < length ns" for P
      using length_dropWhile_le [of P ms] Cons by simp
    then have "find_child eng st (tl (dropWhile P ms)) pm lf = find_child eng' st (tl (dropWhile P ms)) pm lf"
        "find_child eng st ms pm lf = find_child eng' st ms pm lf" for P
      using less.IH Cons by auto
    moreover obtain p where "pm = Some p" using assms(2) by auto
    ultimately show ?thesis
      using assms(1) Cons by (auto simp: Let_def same_engines_def split: option.split)
  qed simp
qed

lemma root_pname_engines: "same_engines eng eng' \<Longrightarrow> root_pname eng d pm lf = root_pname eng' d pm lf"
  by (simp add: root_pname_def same_engines_def split: option.split)

lemma root_match_engines: "same_engines eng eng' \<Longrightarrow> root_match eng d pm lf = root_match eng' d pm lf"
  using root_pname_engines [of eng eng' d pm lf] by (auto simp: root_match_def same_engines_def split: prod.split option.split)

text \<open>A decoder that was reached has a match.\<close>

lemma root_match_set:
  assumes "root_match eng d pm lf = (True, pm')" "root_ok order_size d" "with_pname d \<longleftrightarrow> lf_program_name lf \<noteq> None"
  shows "pm' \<noteq> None"
  using assms
  by (auto simp: root_match_def root_pname_def root_ok_def with_pname_def split: option.splits if_splits)

lemma decode_nodes_safe:
  assumes "same_engines eng eng'"
  shows "\<forall>n\<in>set nodes. node_ok order_size st n \<and> (with_pname (dc_info st (fst n)) \<longleftrightarrow> lf_program_name lf \<noteq> None) \<Longrightarrow>
    \<exists>x. decode_nodes eng st order_size nodes pm lf = Some x \<and> decode_nodes eng' st order_size nodes pm lf = Some x"
proof (induction nodes arbitrary: pm)
  case (Cons n nodes)
  obtain r ch where n: "n = (r, ch)" by (cases n)
  have ok: "root_ok order_size (dc_info st r)" "\<forall>c\<in>set ch. child_ok order_size (dc_info st c)"
      "ch \<noteq> [] \<Longrightarrow> \<not> di_get_next (dc_info st (last ch))" "with_pname (dc_info st r) \<longleftrightarrow> lf_program_name lf \<noteq> None"
    using Cons.prems by (auto simp: n node_ok_def)
  obtain m pm' where rm: "root_match eng' (dc_info st r) pm lf = (m, pm')" by fastforce
  then have rm': "root_match eng (dc_info st r) pm lf = (m, pm')" using root_match_engines [OF assms] by metis
  show ?case
  proof (cases m)
    case False
    with rm rm' Cons show ?thesis by (simp add: n)
  next
    case True
    then have pm: "pm' \<noteq> None" using root_match_set [OF _ ok(1,4)] rm by simp
    let ?lf = "lf\<lparr>lf_decoder_info := OSDecoderInfo.truncate (dc_info st r)\<rparr>"
    show ?thesis
    proof (cases "ch = []")
      case True
      with \<open>m\<close> rm rm' run_decoder_root [OF assms ok(1) pm] show ?thesis by (simp add: n Let_def)
    next
      case False
      show ?thesis
      proof (cases "find_child eng' st ch pm' ?lf")
        case None
        with \<open>m\<close> False rm rm' find_child_engines [OF assms pm] show ?thesis by (simp add: n Let_def)
      next
        case (Some f)
        obtain chain cm lf2 where f: "f = (chain, cm, lf2)" by (cases f)
        with find_child_suffix Some have s: "suffix chain ch" "chain \<noteq> []" "cm \<noteq> None" using pm by blast+
        then have "last chain = last ch" "set chain \<subseteq> set ch" by (auto simp: suffix_def)
        with ok(2,3) False s(2,3) run_decoder_children [OF assms, of chain order_size st pm' cm lf2] pm
        have "\<exists>x. run_decoder eng st order_size chain pm' cm lf2 = Some x \<and> run_decoder eng' st order_size chain pm' cm lf2 = Some x"
          by auto
        with \<open>m\<close> False Some f rm rm' find_child_engines [OF assms pm] show ?thesis by (simp add: n Let_def)
      qed
    qed
  qed
qed simp

lemma DecodeEvent_engines:
  assumes "decoders_ok order_size st" "same_engines eng eng'"
  shows "\<exists>x. DecodeEvent eng st order_size lf = Some x \<and> DecodeEvent eng' st order_size lf = Some x"
  unfolding DecodeEvent_def
  using assms(1) by (intro decode_nodes_safe [OF assms(2)]) (auto simp: decoders_ok_def OS_GetFirstOSDecoder_def)

end
