(* ===== verification/Decode_Load.thy ===== *)
theory Decode_Load
  imports Decode_Safe
begin

text \<open>
  What the reader of the decoder files establishes: the checks of one decoder, the insertion into
  the lists, the files and the numbering, down to the safety of the decoding with the decoders of
  any configuration that was accepted.
\<close>

section \<open>Reading one decoder\<close>

definition offset_ok :: "nat \<Rightarrow> bool" where
  "offset_ok off \<longleftrightarrow> off \<in> {0, AFTER_PARENT, AFTER_PREMATCH, AFTER_PREVREGEX}"

definition raw_ok :: "'m compilers \<Rightarrow> 'm raw \<Rightarrow> bool" where
  "raw_ok env rw \<longleftrightarrow>
     (let pi = rw_pi rw in
      offset_ok (di_regex_offset pi) \<and> \<not> di_get_next pi \<and>
      (\<forall>fps. di_order pi = Some fps \<longrightarrow> fps_ok (decoder_order_size env) fps) \<and>
      (\<exists>n. di_name pi = Some n \<and> c_string n) \<and> (\<forall>p. di_parent pi = Some p \<longrightarrow> c_string p))"

definition elem_ok :: "xml_elem \<Rightarrow> bool" where
  "elem_ok e \<longleftrightarrow> (\<forall>c. xe_content e = Some c \<longrightarrow> c_string c) \<and> (\<forall>vs. xe_values e = Some vs \<longrightarrow> (\<forall>v\<in>set vs. c_string v))"

lemma pattern_offset_ok: "pattern_offset old e stop = Inr off \<Longrightarrow> offset_ok off"
  by (auto simp: pattern_offset_def ReadDecodeAttrs_def Let_def offset_ok_def split: if_splits option.splits list.splits)

lemma order_fp_setter: "setter (fst (order_fp word norder))"
  by (simp add: order_fp_def setter_def DstUser_FP_def SrcUser_FP_def SrcIP_FP_def DstIP_FP_def SrcPort_FP_def
      DstPort_FP_def Protocol_FP_def Action_FP_def ID_FP_def Url_FP_def Data_FP_def Status_FP_def SystemName_FP_def
      FileName_FP_def DynamicField_FP_def)

lemma fps_ok_upd: "fps_ok n fps \<Longrightarrow> setter f \<Longrightarrow> fps_ok n (fps[i := Some f])"
  by (auto simp: fps_ok_def dest!: set_update_subset_insert [THEN subsetD])

lemma read_order_ok:
  "read_order n ws i fps flds = Inr (fps', flds') \<Longrightarrow> fps_ok m fps \<Longrightarrow> fps_ok m fps'"
proof (induction n ws i fps flds rule: read_order.induct)
  case (2 n norder rest i fps flds)
  obtain word norder1 where w: "order_word norder = (word, norder1)" by fastforce
  obtain fp fld where f: "order_fp word norder1 = (fp, fld)" by fastforce
  with order_fp_setter [of word norder1] have "fps_ok m (fps[i := Some fp])"
    using 2(3) by (intro fps_ok_upd) simp_all
  with 2 w f show ?case by (auto simp: Let_def split: if_splits)
qed simp

lemma loadmemory_c_string:
  "loadmemory at s = Some t \<Longrightarrow> c_string s \<Longrightarrow> (\<And>a. at = Some a \<Longrightarrow> c_string a) \<Longrightarrow> c_string t"
  by (auto simp: loadmemory_def split: option.splits if_splits)

lemma OS_StrBreak_some: "0 < n \<Longrightarrow> \<exists>ps. OS_StrBreak c (Some s) n = Inr (Some ps)"
  using StrBreak_loop_inv [of n "[]" c "[]" s] by (auto simp: OS_StrBreak_def)

text \<open>A result of the reader: not a crash, and well-formed when it is one.\<close>

definition result_ok :: "'m compilers \<Rightarrow> (load_stop + 'm raw) option \<Rightarrow> bool" where
  "result_ok env r \<longleftrightarrow> (\<exists>x. r = Some x \<and> (\<forall>rw. x = Inr rw \<longrightarrow> raw_ok env rw))"

lemma result_ok_simps [simp]:
  "result_ok env (Some (Inl x))" "result_ok env (Some (Inr rw)) \<longleftrightarrow> raw_ok env rw" "\<not> result_ok env None"
  by (simp_all add: result_ok_def)

lemma result_ok_if: "result_ok env a \<Longrightarrow> result_ok env b \<Longrightarrow> result_ok env (if P then a else b)"
  by simp

lemma result_ok_offset:
  "(\<And>off. offset_ok off \<Longrightarrow> raw_ok env (f off)) \<Longrightarrow>
   result_ok env (Some (case pattern_offset old e stop of Inl x \<Rightarrow> Inl x | Inr off \<Rightarrow> Inr (f off)))"
  using pattern_offset_ok [of old e stop] by (auto split: sum.split)

lemma decode_element_ok:
  assumes "raw_ok env rw" "elem_ok e"
  shows "result_ok env (decode_element env rw e)"
proof -
  consider (some) el content where "xe_element e = Some el" "xe_content e = Some content"
    | (none) "xe_element e = None \<or> xe_content e = None" by (cases "xe_element e"; cases "xe_content e") auto
  then show ?thesis
  proof cases
    case some
    have br: "\<exists>ps. OS_StrBreak CHR '','' (Some content) 1024 = Inr (Some ps)"
        "\<exists>ps. OS_StrBreak CHR '','' (Some content) 8 = Inr (Some ps)"
      by (rule OS_StrBreak_some, simp)+
    have c: "c_string content" using assms(2) some by (simp add: elem_ok_def)
    have par: "c_string p" if "loadmemory (di_parent (rw_pi rw)) content = Some p" for p
      using assms(1) by (intro loadmemory_c_string [OF that c]) (auto simp: raw_ok_def Let_def)
    have ord: "result_ok env (Some (case read_order n norder 0 (replicate n None) (replicate n None) of
        Inl x \<Rightarrow> Inl x
      | Inr (fps, flds) \<Rightarrow> Inr (upd_pi (\<lambda>pi. pi\<lparr>di_order := Some fps, di_fields := Some flds\<rparr>) rw)))"
      if "n = decoder_order_size env" for n norder
    proof -
      have "fps_ok n (replicate n None)" by (auto simp: fps_ok_def)
      then show ?thesis
        using assms(1) that read_order_ok [of n norder 0 "replicate n None" "replicate n None" _ _ n]
        by (auto simp: raw_ok_def Let_def split: sum.split)
    qed
    show ?thesis
      unfolding decode_element_def some prod.case option.case Let_def
      using assms(1)
      apply (intro result_ok_if result_ok_offset)
      subgoal by (simp add: raw_ok_def Let_def par)
      subgoal by (simp add: raw_ok_def Let_def)
      subgoal by (simp add: raw_ok_def Let_def)
      subgoal by (simp add: raw_ok_def Let_def)
      subgoal by (simp add: raw_ok_def Let_def)
      subgoal by (simp add: raw_ok_def Let_def)
      subgoal by (simp add: raw_ok_def Let_def)
      subgoal by simp
      subgoal by (simp add: raw_ok_def Let_def)
      subgoal by (auto simp: raw_ok_def Let_def split: option.split)
      subgoal by (auto simp: raw_ok_def Let_def split: option.split)
      subgoal using br(1) ord [OF refl] by auto
      subgoal by (simp add: raw_ok_def Let_def)
      subgoal using br(2) by (auto simp: raw_ok_def Let_def split: sum.split)
      subgoal by simp
      done
  next
    case none
    show ?thesis
    proof (cases "xe_element e")
      case (Some el)
      with none have "xe_content e = None" by simp
      with Some show ?thesis by (simp add: decode_element_def)
    qed (simp add: decode_element_def)
  qed
qed

lemma decode_elements_ok:
  "raw_ok env rw \<Longrightarrow> \<forall>e\<in>set es. elem_ok e \<Longrightarrow>
   result_ok env (decode_elements env es rw)"
proof (induction es arbitrary: rw)
  case (Cons e es)
  obtain r where r: "decode_element env rw e = Some r" "\<forall>rw1. r = Inr rw1 \<longrightarrow> raw_ok env rw1"
    using decode_element_ok [of env rw e] Cons.prems by (auto simp: result_ok_def)
  with Cons show ?case by (cases r) auto
qed simp

text \<open>A decoder that is ready to be added.\<close>

definition info_ok :: "nat \<Rightarrow> 'm decoder \<Rightarrow> bool" where
  "info_ok order_size d \<longleftrightarrow> \<not> di_get_next d \<and> (\<exists>n. di_name d = Some n \<and> c_string n) \<and>
     (case di_parent d of None \<Rightarrow> root_ok order_size d | Some p \<Rightarrow> c_string p \<and> child_ok order_size d)"

lemma compile_either_cases:
  "compile_either f g a b = Inr (x, y) \<Longrightarrow> (x \<noteq> None \<or> y \<noteq> None \<longleftrightarrow> a \<noteq> None \<or> b \<noteq> None)"
  by (cases a; cases b; auto simp: compile_either_def split: option.split_asm; metis)

definition fixed_offset :: "'m decoder \<Rightarrow> nat" where
  "fixed_offset pi =
     (if int_bit (di_regex_offset pi) AFTER_PREMATCH \<and> di_parent pi = None then AFTER_PARENT else di_regex_offset pi)"

lemma if_Inl: "(if P then Inl a else r) = Inr x \<longleftrightarrow> \<not> P \<and> r = Inr x"
  by simp

lemma check_decoder_conditions:
  assumes "check_decoder rw = Inr rw1"
  shows "rw_prematch rw \<noteq> None \<or> rw_prematch_pcre2 rw \<noteq> None \<or> di_parent (rw_pi rw) \<noteq> None \<or>
      rw_p_name rw \<noteq> None \<or> rw_p_name_pcre2 rw \<noteq> None"
    "rw_regex rw \<noteq> None \<or> rw_pcre2 rw \<noteq> None \<Longrightarrow> di_order (rw_pi rw) \<noteq> None"
    "\<not> (int_bit (fixed_offset (rw_pi rw)) AFTER_PREVREGEX \<and> di_parent (rw_pi rw) = None)"
    "rw1 = upd_pi (\<lambda>pi. pi\<lparr>di_regex_offset := fixed_offset (rw_pi rw)\<rparr>) rw"
proof -
  note c = assms [unfolded check_decoder_def Let_def if_Inl fixed_offset_def [symmetric]]
  show "rw_prematch rw \<noteq> None \<or> rw_prematch_pcre2 rw \<noteq> None \<or> di_parent (rw_pi rw) \<noteq> None \<or>
      rw_p_name rw \<noteq> None \<or> rw_p_name_pcre2 rw \<noteq> None" using conjunct1 [OF c] by argo
  show "di_order (rw_pi rw) \<noteq> None" if "rw_regex rw \<noteq> None \<or> rw_pcre2 rw \<noteq> None" using c [THEN conjunct2, THEN conjunct1] that by argo
  show "\<not> (int_bit (fixed_offset (rw_pi rw)) AFTER_PREVREGEX \<and> di_parent (rw_pi rw) = None)"
    using c [THEN conjunct2, THEN conjunct2, THEN conjunct2, THEN conjunct2, THEN conjunct1] by argo
  show "rw1 = upd_pi (\<lambda>pi. pi\<lparr>di_regex_offset := fixed_offset (rw_pi rw)\<rparr>) rw" using c by simp
qed

lemma fixed_offset_ok:
  assumes "offset_ok (di_regex_offset pi)"
  shows "offset_ok (fixed_offset pi)"
    "di_parent pi = None \<Longrightarrow> \<not> (int_bit (fixed_offset pi) AFTER_PREVREGEX \<and> di_parent pi = None) \<Longrightarrow>
     fixed_offset pi \<in> {0, AFTER_PARENT}"
  using assms by (auto simp: fixed_offset_def offset_ok_def)

lemma compile_decoder_ok:
  assumes "raw_ok env rw" "check_decoder rw = Inr rw1" "compile_decoder env rw1 = Inr pi"
  shows "info_ok (decoder_order_size env) pi"
proof -
  obtain pre pre2 pn pn2 re re2 where c:
    "compile_either (OSRegex_Compile env) (OSPcre2_Compile env) (rw_prematch rw1) (rw_prematch_pcre2 rw1) = Inr (pre, pre2)"
    "compile_either (OSMatch_Compile env) (OSPcre2_Compile env) (rw_p_name rw1) (rw_p_name_pcre2 rw1) = Inr (pn, pn2)"
    "compile_either (OSRegex_Compile env) (OSPcre2_Compile env) (rw_regex rw1) (rw_pcre2 rw1) = Inr (re, re2)"
    and pi: "pi = (rw_pi rw1)\<lparr>di_prematch := pre, di_prematch_pcre2 := pre2, di_program_name := pn,
                       di_program_name_pcre2 := pn2, di_regex := re, di_pcre2 := re2\<rparr>"
    using assms(3) by (auto simp: compile_decoder_def Let_def split: sum.split_asm prod.split_asm if_split_asm)
  have o: "offset_ok (di_regex_offset (rw_pi rw))" using assms(1) by (simp add: raw_ok_def Let_def)
  note off = check_decoder_conditions [OF assms(2)] fixed_offset_ok [OF o]
  have k: "pre \<noteq> None \<or> pre2 \<noteq> None \<longleftrightarrow> rw_prematch rw \<noteq> None \<or> rw_prematch_pcre2 rw \<noteq> None"
    "pn \<noteq> None \<or> pn2 \<noteq> None \<longleftrightarrow> rw_p_name rw \<noteq> None \<or> rw_p_name_pcre2 rw \<noteq> None"
    "re \<noteq> None \<or> re2 \<noteq> None \<longleftrightarrow> rw_regex rw \<noteq> None \<or> rw_pcre2 rw \<noteq> None"
    using compile_either_cases [OF c(1)] compile_either_cases [OF c(2)] compile_either_cases [OF c(3)]
    unfolding off(4) by simp_all
  have ord: "order_ok (decoder_order_size env) pi"
    using off(2) k(3) assms(1) unfolding order_ok_def pi off(4) raw_ok_def Let_def by auto
  have sel: "di_parent pi = di_parent (rw_pi rw)" "di_regex_offset pi = fixed_offset (rw_pi rw)"
    "di_get_next pi = di_get_next (rw_pi rw)" "di_name pi = di_name (rw_pi rw)"
    by (simp_all add: pi off(4))
  have raw: "\<not> di_get_next (rw_pi rw)" "\<exists>n. di_name (rw_pi rw) = Some n \<and> c_string n"
    "\<And>p. di_parent (rw_pi rw) = Some p \<Longrightarrow> c_string p"
    using assms(1) by (auto simp: raw_ok_def Let_def)
  show ?thesis
  proof (cases "di_parent (rw_pi rw)")
    case None
    then have "with_pname pi \<or> di_prematch pi \<noteq> None \<or> di_prematch_pcre2 pi \<noteq> None"
      using off(1) k(1,2) by (simp add: with_pname_def pi) blast
    with None off(3,6) ord raw show ?thesis unfolding info_ok_def root_ok_def sel by simp
  next
    case (Some p)
    with off(5) ord raw show ?thesis unfolding info_ok_def child_ok_def sel by (simp add: offset_ok_def)
  qed
qed


section \<open>Adding a decoder\<close>

text \<open>The infos of \<open>S\<close> may have got a next decoder; nothing else changed.\<close>

definition got_next :: "nat set \<Rightarrow> 'm decoders \<Rightarrow> 'm decoders \<Rightarrow> bool" where
  "got_next S st st' \<longleftrightarrow> dc_forpname st' = dc_forpname st \<and> dc_nopname st' = dc_nopname st \<and>
     (\<forall>i. dc_info st' i = dc_info st i \<or> i \<in> S \<and> dc_info st' i = (dc_info st i)\<lparr>di_get_next := True\<rparr>)"

lemma got_next_refl [simp]: "got_next S st st"
  by (simp add: got_next_def)

lemma got_next_trans: "got_next S st st' \<Longrightarrow> got_next S st' st'' \<Longrightarrow> got_next S st st''"
proof -
  assume a: "got_next S st st'" and b: "got_next S st' st''"
  have "dc_info st'' i = dc_info st i \<or> i \<in> S \<and> dc_info st'' i = (dc_info st i)\<lparr>di_get_next := True\<rparr>" for i
  proof -
    have "dc_info st' i = dc_info st i \<or> i \<in> S \<and> dc_info st' i = (dc_info st i)\<lparr>di_get_next := True\<rparr>"
      "dc_info st'' i = dc_info st' i \<or> i \<in> S \<and> dc_info st'' i = (dc_info st' i)\<lparr>di_get_next := True\<rparr>"
      using a b by (auto simp: got_next_def)
    then show ?thesis by (elim disjE) simp_all
  qed
  with a b show ?thesis by (simp add: got_next_def)
qed

lemma got_next_mono: "got_next S st st' \<Longrightarrow> S \<subseteq> T \<Longrightarrow> got_next T st st'"
  by (auto simp: got_next_def)

lemma got_next_set: "t \<in> S \<Longrightarrow> got_next S st (set_info t (\<lambda>d. d\<lparr>di_get_next := True\<rparr>) st)"
  by (simp add: got_next_def set_info_def)

lemma got_next_name: "got_next S st st' \<Longrightarrow> name_of st' i = name_of st i"
proof -
  assume "got_next S st st'"
  then have "dc_info st' i = dc_info st i \<or> dc_info st' i = (dc_info st i)\<lparr>di_get_next := True\<rparr>"
    by (auto simp: got_next_def)
  then have "di_name (dc_info st' i) = di_name (dc_info st i)" by (elim disjE) simp_all
  then show ?thesis by (simp add: name_of_def)
qed

lemma common_names_got:
  "common_names ts pi rm_f st = (res, st') \<Longrightarrow> got_next (set ts) st st'"
proof (induction ts pi rm_f st rule: common_names.induct)
  case (2 t ts pi rm_f st)
  let ?st1 = "set_info t (\<lambda>d. d\<lparr>di_get_next := True\<rparr>) st"
  have sub: "set ts \<subseteq> set (t # ts)" by auto
  have one: "got_next (set (t # ts)) st ?st1" by (rule got_next_set) simp
  have a: "got_next (set ts) ?st1 st' \<Longrightarrow> got_next (set (t # ts)) st st'"
    by (rule got_next_trans [OF one got_next_mono [OF _ sub]])
  have b: "got_next (set ts) st st' \<Longrightarrow> got_next (set (t # ts)) st st'"
    by (rule got_next_mono [OF _ sub])
  show ?case
    using "2.prems" "2.IH"(1) [OF refl refl] "2.IH"(2) [OF refl refl] a b
    by (auto simp: Let_def split: if_split_asm)
qed simp

lemma AddOSDecoder_end_got: "AddOSDecoder_end s_node pi st = (ok, st') \<Longrightarrow> got_next (set s_node) st st'"
  by (auto simp: AddOSDecoder_end_def Let_def dest: common_names_got split: if_splits prod.splits option.splits)

definition is_parent :: "'m decoders \<Rightarrow> string \<Rightarrow> decoder_node \<Rightarrow> bool" where
  "is_parent st parent n \<longleftrightarrow> strcmp (name_of st (fst n)) parent = 0"

definition children_of :: "'m decoders \<Rightarrow> string \<Rightarrow> decoder_node list \<Rightarrow> nat set" where
  "children_of st parent nodes = (\<Union>n\<in>{n\<in>set nodes. is_parent st parent n}. set (snd n))"

lemma add_children_got:
  "add_children nodes parent pi added st = (nodes', Some b, st') \<Longrightarrow>
   nodes' = map (\<lambda>n. (fst n, if is_parent st parent n then snd n @ [pi] else snd n)) nodes \<and>
   got_next (children_of st parent nodes) st st'"
proof (induction nodes parent pi added st arbitrary: nodes' b st' rule: add_children.induct)
  case (2 r ch nodes parent pi added st)
  have sub: "children_of st parent nodes \<subseteq> children_of st parent ((r, ch) # nodes)"
    by (auto simp: children_of_def)
  show ?case
  proof (cases "strcmp (name_of st r) parent = 0")
    case True
    obtain ok st1 where e: "AddOSDecoder_end ch pi st = (ok, st1)" by fastforce
    with 2(3) True have ok by (cases ok) auto
    then obtain ns st2 where a: "add_children nodes parent pi True st1 = (ns, Some b, st2)"
        "nodes' = (r, ch @ [pi]) # ns" "st' = st2"
      using 2(3) True e by (auto split: prod.splits)
    have g: "got_next (set ch) st st1" using e by (rule AddOSDecoder_end_got)
    have p: "is_parent st1 parent n = is_parent st parent n" for n
      by (simp add: is_parent_def got_next_name [OF g])
    then have c: "children_of st1 parent nodes = children_of st parent nodes" by (simp add: children_of_def)
    have ih: "ns = map (\<lambda>n. (fst n, if is_parent st1 parent n then snd n @ [pi] else snd n)) nodes \<and>
        got_next (children_of st1 parent nodes) st1 st2"
      using 2(1) [OF True e [symmetric]] \<open>ok\<close> a(1) by simp
    have "set ch \<subseteq> children_of st parent ((r, ch) # nodes)" using True by (auto simp: children_of_def is_parent_def)
    then have "got_next (children_of st parent ((r, ch) # nodes)) st st'"
      using got_next_trans [OF got_next_mono [OF g] got_next_mono [OF _ sub]] ih a(3) c by simp
    with ih p True a(2) show ?thesis by (simp add: is_parent_def)
  next
    case False
    then obtain ns where a: "add_children nodes parent pi added st = (ns, Some b, st')" "nodes' = (r, ch) # ns"
      using 2(3) by (auto split: prod.splits)
    from 2(2) [OF False a(1)] a(2) False got_next_mono [OF _ sub] show ?thesis by (auto simp: is_parent_def)
  qed
qed simp

text \<open>The invariant of the loading: \<open>nxt\<close> is the next free address.\<close>

definition linked :: "'m decoders \<Rightarrow> decoder_node \<Rightarrow> bool" where
  "linked st n \<longleftrightarrow> (\<exists>nm. di_name (dc_info st (fst n)) = Some nm \<and> c_string nm \<and>
     (\<forall>c\<in>set (snd n). di_parent (dc_info st c) = Some nm))"

definition lists_ok :: "nat \<Rightarrow> nat \<Rightarrow> 'm decoders \<Rightarrow> bool" where
  "lists_ok order_size nxt st \<longleftrightarrow> decoders_ok order_size st \<and>
     (\<forall>n\<in>set (dc_forpname st) \<union> set (dc_nopname st). linked st n \<and> fst n < nxt \<and> (\<forall>c\<in>set (snd n). c < nxt))"

lemma is_parent_linked: "linked st n \<Longrightarrow> c_string p \<Longrightarrow> is_parent st p n \<longleftrightarrow> di_name (dc_info st (fst n)) = Some p"
  by (auto simp: linked_def is_parent_def name_of_def strcmp_eq_0)

text \<open>A node stays well-formed when the decoder \<open>pi\<close> is added to the nodes with the name of its parent.\<close>

lemma node_added:
  assumes ok: "\<forall>n\<in>set nodes. node_ok sz st n \<and> linked st n"
    and g: "got_next (children_of st parent nodes) st st'" and "n \<in> set nodes" "c_string parent"
    and pi: "child_ok sz (dc_info st pi)" "\<not> di_get_next (dc_info st pi)" "di_parent (dc_info st pi) = Some parent"
      "pi \<notin> children_of st parent nodes"
    and n': "n' = (fst n, if is_parent st parent n then snd n @ [pi] else snd n)"
  shows "node_ok sz st' n' \<and> linked st' n' \<and> with_pname (dc_info st' (fst n)) = with_pname (dc_info st (fst n))"
proof -
  let ?S = "children_of st parent nodes"
  have i: "dc_info st' i = dc_info st i \<or> i \<in> ?S \<and> dc_info st' i = (dc_info st i)\<lparr>di_get_next := True\<rparr>" for i
    using g by (auto simp: got_next_def)
  have sel: "di_name (dc_info st' i) = di_name (dc_info st i)" "di_parent (dc_info st' i) = di_parent (dc_info st i)"
    "child_ok sz (dc_info st' i) = child_ok sz (dc_info st i)" "with_pname (dc_info st' i) = with_pname (dc_info st i)" for i
    using i [of i] by (auto simp: child_ok_def order_ok_def with_pname_def)
  have S: "di_parent (dc_info st i) = Some parent" if "i \<in> ?S" for i
  proof -
    from that obtain m where m: "m \<in> set nodes" "is_parent st parent m" "i \<in> set (snd m)"
      by (auto simp: children_of_def)
    with ok have "linked st m" by blast
    with m assms(4) show ?thesis using is_parent_linked by (force simp: linked_def)
  qed
  have no: "dc_info st' i = dc_info st i" if "di_parent (dc_info st i) \<noteq> Some parent" for i
    using i [of i] S [of i] that by auto
  have pi': "dc_info st' pi = dc_info st pi" using i [of pi] pi(4) by auto
  from assms(3) ok have k: "node_ok sz st n" "linked st n" by auto
  then have root: "root_ok sz (dc_info st' (fst n))"
    using no [of "fst n"] by (cases n) (simp add: node_ok_def root_ok_def)
  have lnk: "linked st' n'"
    using k(2) pi(3) assms(4) is_parent_linked [OF k(2) assms(4)] by (auto simp: linked_def sel n')
  show ?thesis
  proof (cases "is_parent st parent n")
    case True
    with lnk have "linked st' (fst n, snd n @ [pi])" by (simp add: n')
    with True k(1) pi root show ?thesis
      by (cases n) (auto simp: node_ok_def n' sel pi')
  next
    case False
    have "\<not> di_get_next (dc_info st' (last (snd n)))" if "snd n \<noteq> []"
    proof -
      from that k(2) have "di_parent (dc_info st (last (snd n))) = di_name (dc_info st (fst n))"
        by (auto simp: linked_def)
      with False is_parent_linked [OF k(2) assms(4)] have "di_parent (dc_info st (last (snd n))) \<noteq> Some parent" by simp
      then have "dc_info st' (last (snd n)) = dc_info st (last (snd n))" by (rule no)
      with k(1) that show ?thesis by (cases n) (auto simp: node_ok_def)
    qed
    moreover from False lnk have "linked st' (fst n, snd n)" by (simp add: n')
    ultimately show ?thesis using False k(1) root
      by (cases n) (auto simp: node_ok_def n' sel)
  qed
qed


lemma lists_ok_fresh:
  assumes "lists_ok sz nxt st"
  shows "lists_ok sz (Suc nxt) (set_info nxt (\<lambda>_. pi) st)"
proof -
  have i: "dc_info (set_info nxt (\<lambda>_. pi) st) k = dc_info st k" if "k < nxt" for k
    using that by (simp add: set_info_def)
  have l: "dc_forpname (set_info nxt (\<lambda>_. pi) st) = dc_forpname st" "dc_nopname (set_info nxt (\<lambda>_. pi) st) = dc_nopname st"
    by (simp_all add: set_info_def)
  have n: "node_ok sz (set_info nxt (\<lambda>_. pi) st) n = node_ok sz st n" "linked (set_info nxt (\<lambda>_. pi) st) n = linked st n"
    "with_pname (dc_info (set_info nxt (\<lambda>_. pi) st) (fst n)) = with_pname (dc_info st (fst n))"
    if "fst n < nxt" "\<forall>c\<in>set (snd n). c < nxt" for n
    using that i by (auto simp: node_ok_def linked_def split: prod.split)
  show ?thesis
    unfolding lists_ok_def decoders_ok_def l
  proof (intro conjI ballI)
    fix m
    assume m: "m \<in> set (dc_forpname st)"
    with assms have b: "fst m < nxt" "\<forall>c\<in>set (snd m). c < nxt" by (auto simp: lists_ok_def)
    show "node_ok sz (set_info nxt (\<lambda>_. pi) st) m" "with_pname (dc_info (set_info nxt (\<lambda>_. pi) st) (fst m))"
      using assms m n [OF b] by (auto simp: lists_ok_def decoders_ok_def)
  next
    fix m
    assume m: "m \<in> set (dc_nopname st)"
    with assms have b: "fst m < nxt" "\<forall>c\<in>set (snd m). c < nxt" by (auto simp: lists_ok_def)
    show "node_ok sz (set_info nxt (\<lambda>_. pi) st) m" "\<not> with_pname (dc_info (set_info nxt (\<lambda>_. pi) st) (fst m))"
      using assms m n [OF b] by (auto simp: lists_ok_def decoders_ok_def)
  next
    fix m
    assume m: "m \<in> set (dc_forpname st) \<union> set (dc_nopname st)"
    with assms have b: "fst m < nxt" "\<forall>c\<in>set (snd m). c < nxt" by (auto simp: lists_ok_def)
    show "linked (set_info nxt (\<lambda>_. pi) st) m" using assms m n [OF b] by (auto simp: lists_ok_def)
    show "fst m < Suc nxt" using b by simp
    show "c < Suc nxt" if "c \<in> set (snd m)" for c using b that by (simp add: less_SucI)
  qed
qed

lemma OS_AddOSDecoder_ok:
  assumes st: "lists_ok sz nxt st" and pi: "info_ok sz pi"
    and add: "OS_AddOSDecoder nxt (set_info nxt (\<lambda>_. pi) st) = (True, st')"
  shows "lists_ok sz (Suc nxt) st'"
proof -
  let ?st = "set_info nxt (\<lambda>_. pi) st"
  let ?all = "dc_forpname ?st @ dc_nopname ?st"
  have p: "dc_info ?st nxt = pi" by (simp add: set_info_def)
  have f: "lists_ok sz (Suc nxt) ?st" using st by (rule lists_ok_fresh)
  have old: "nxt \<notin> set (snd n)" "fst n \<noteq> nxt" if "n \<in> set ?all" for n
    using st that by (auto simp: lists_ok_def set_info_def)
  have nodes: "\<forall>n\<in>set ?all. node_ok sz ?st n \<and> linked ?st n" using f by (auto simp: lists_ok_def decoders_ok_def)
  show ?thesis
  proof (cases "di_parent pi")
    case None
    have add0: "AddOSDecoder_end ts nxt ?st = (ok, st1) \<Longrightarrow> st1 = ?st" for ts ok st1
    proof -
      have "common_names ts nxt b ?st = (Some b, ?st)" for b
        by (induction ts arbitrary: b) (simp_all add: p None Let_def)
      then show "AddOSDecoder_end ts nxt ?st = (ok, st1) \<Longrightarrow> st1 = ?st"
        by (auto simp: AddOSDecoder_end_def Let_def split: if_splits)
    qed
    have r: "node_ok sz ?st (nxt, [])" "linked ?st (nxt, [])"
      using pi None by (auto simp: info_ok_def node_ok_def linked_def p)
    obtain ok st1 where e: "AddOSDecoder_end (map fst (if with_pname pi then dc_forpname ?st else dc_nopname ?st)) nxt ?st = (ok, st1)"
      by fastforce
    with add None have "st' = (if with_pname pi then ?st\<lparr>dc_forpname := dc_forpname ?st @ [(nxt, [])]\<rparr>
        else ?st\<lparr>dc_nopname := dc_nopname ?st @ [(nxt, [])]\<rparr>)"
      using add0 [OF e] by (cases ok) (auto simp: OS_AddOSDecoder_def p Let_def)
    then show ?thesis
      using f r by (auto simp: lists_ok_def decoders_ok_def p node_ok_def linked_def split: prod.splits)
  next
    case (Some parent)
    have parent: "c_string parent" and child: "child_ok sz (dc_info ?st nxt)" "\<not> di_get_next (dc_info ?st nxt)"
      "di_parent (dc_info ?st nxt) = Some parent"
      using pi Some by (auto simp: info_ok_def p)
    obtain fs added st1 where a1: "add_children (dc_forpname ?st) parent nxt False ?st = (fs, Some added, st1)"
    proof (cases "add_children (dc_forpname ?st) parent nxt False ?st")
      case (fields fs res st1)
      with add Some show ?thesis by (cases res) (auto simp: OS_AddOSDecoder_def p intro: that)
    qed
    obtain ns st2 where a2: "add_children (dc_nopname st1) parent nxt added (st1\<lparr>dc_forpname := fs\<rparr>) = (ns, Some True, st2)"
      and st': "st' = st2\<lparr>dc_nopname := ns\<rparr>"
    proof (cases "add_children (dc_nopname st1) parent nxt added (st1\<lparr>dc_forpname := fs\<rparr>)")
      case (fields ns res st2)
      with add Some a1 show ?thesis by (cases res) (auto simp: OS_AddOSDecoder_def p intro: that)
    qed
    let ?F = "\<lambda>n. (fst n, if is_parent ?st parent n then snd n @ [nxt] else snd n)"
    let ?S = "children_of ?st parent ?all"
    note g1 = add_children_got [OF a1] and g2 = add_children_got [OF a2]
    have l1: "dc_nopname st1 = dc_nopname ?st" using g1 by (simp add: got_next_def)
    have nm: "name_of (st1\<lparr>dc_forpname := fs\<rparr>) i = name_of ?st i" for i
      using got_next_name [OF conjunct2 [OF g1]] by (simp add: name_of_def)
    then have par: "is_parent (st1\<lparr>dc_forpname := fs\<rparr>) parent n = is_parent ?st parent n" for n
      by (simp add: is_parent_def)
    have ch: "children_of (st1\<lparr>dc_forpname := fs\<rparr>) parent (dc_nopname st1) = children_of ?st parent (dc_nopname ?st)"
      by (simp add: children_of_def par l1)
    have lists: "dc_forpname st' = map ?F (dc_forpname ?st)" "dc_nopname st' = map ?F (dc_nopname ?st)"
    proof -
      have "dc_forpname st' = fs" using conjunct2 [OF g2] by (simp add: st' got_next_def)
      then show "dc_forpname st' = map ?F (dc_forpname ?st)" using conjunct1 [OF g1] by simp
      have "dc_nopname st' = ns" by (simp add: st')
      also have "ns = map ?F (dc_nopname ?st)" using conjunct1 [OF g2] by (simp only: par l1)
      finally show "dc_nopname st' = map ?F (dc_nopname ?st)" .
    qed
    let ?x = "st'\<lparr>dc_forpname := dc_forpname ?st, dc_nopname := dc_nopname ?st\<rparr>"
    have s: "children_of ?st parent (dc_forpname ?st) \<subseteq> ?S" "children_of ?st parent (dc_nopname ?st) \<subseteq> ?S"
      by (auto simp: children_of_def)
    have g: "got_next ?S ?st ?x"
    proof (rule got_next_trans)
      show "got_next ?S ?st (st1\<lparr>dc_forpname := dc_forpname ?st\<rparr>)"
        using got_next_mono [OF conjunct2 [OF g1] s(1)] by (simp add: got_next_def)
      show "got_next ?S (st1\<lparr>dc_forpname := dc_forpname ?st\<rparr>) ?x"
        using got_next_mono [OF conjunct2 [OF g2] s(2) [folded ch]] by (simp add: got_next_def st' l1)
    qed
    have fresh: "nxt \<notin> ?S" using old by (auto simp: children_of_def)
    have new: "node_ok sz ?x (?F n) \<and> linked ?x (?F n) \<and> with_pname (dc_info ?x (fst n)) = with_pname (dc_info ?st (fst n))"
      if "n \<in> set ?all" for n
      by (rule node_added [OF nodes g that parent child fresh refl])
    have same: "node_ok sz ?x n = node_ok sz st' n" "linked ?x n = linked st' n" for n
      by (simp_all add: node_ok_def linked_def)
    have each: "node_ok sz st' (?F n) \<and> linked st' (?F n) \<and> fst (?F n) < Suc nxt \<and> (\<forall>c\<in>set (snd (?F n)). c < Suc nxt) \<and>
        with_pname (dc_info st' (fst (?F n))) = with_pname (dc_info ?st (fst n))" if "n \<in> set ?all" for n
    proof -
      have "fst n < Suc nxt" "\<forall>c\<in>set (snd n). c < Suc nxt" using f that by (auto simp: lists_ok_def)
      then have "fst (?F n) < Suc nxt" "\<forall>c\<in>set (snd (?F n)). c < Suc nxt" by auto
      with new [OF that] same show ?thesis by simp
    qed
    have pn: "with_pname (dc_info ?st (fst n))" if "n \<in> set (dc_forpname ?st)" for n
      using f that by (auto simp: lists_ok_def decoders_ok_def)
    have npn: "\<not> with_pname (dc_info ?st (fst n))" if "n \<in> set (dc_nopname ?st)" for n
      using f that by (auto simp: lists_ok_def decoders_ok_def)
    show ?thesis
      unfolding lists_ok_def decoders_ok_def
    proof (intro conjI ballI)
      fix m
      assume "m \<in> set (dc_forpname st')"
      then obtain n where "n \<in> set (dc_forpname ?st)" "m = ?F n" unfolding lists by auto
      with each [of n] pn [of n] show "node_ok sz st' m" "with_pname (dc_info st' (fst m))" by auto
    next
      fix m
      assume "m \<in> set (dc_nopname st')"
      then obtain n where "n \<in> set (dc_nopname ?st)" "m = ?F n" unfolding lists by auto
      with each [of n] npn [of n] show "node_ok sz st' m" "\<not> with_pname (dc_info st' (fst m))" by auto
    next
      fix m
      assume "m \<in> set (dc_forpname st') \<union> set (dc_nopname st')"
      then obtain n where "n \<in> set ?all" "m = ?F n" unfolding lists by auto
      with each [of n] show "linked st' m" "fst m < Suc nxt" "c \<in> set (snd m) \<Longrightarrow> c < Suc nxt" for c by auto
    qed
  qed
qed

section \<open>Reading the files\<close>

definition node_xml_ok :: "xml_elem \<times> xml_elem list option \<Rightarrow> bool" where
  "node_xml_ok n \<longleftrightarrow> elem_ok (fst n) \<and> (\<forall>es. snd n = Some es \<longrightarrow> (\<forall>e\<in>set es. elem_ok e))"

fun file_ok :: "xml_file \<Rightarrow> bool" where
  "file_ok (Elements (Some ns)) \<longleftrightarrow> (\<forall>n\<in>set ns. node_xml_ok n)"
| "file_ok _ \<longleftrightarrow> True"

definition loader_ok :: "'m compilers \<Rightarrow> 'm loader \<Rightarrow> bool" where
  "loader_ok env ld \<longleftrightarrow> lists_ok (decoder_order_size env) (ld_next ld) (ld_decoders ld)"

lemma new_loader_ok: "loader_ok env new_loader"
  by (simp add: loader_ok_def new_loader_def lists_ok_def decoders_ok_def)

lemma node_name_c_string: "node_name e = Inr name \<Longrightarrow> elem_ok e \<Longrightarrow> c_string name"
  by (auto simp: node_name_def elem_ok_def nth_opt_def split: option.splits if_splits)

lemma new_raw_ok: "c_string name \<Longrightarrow> raw_ok env (new_raw name)"
  by (simp add: raw_ok_def new_raw_def zero_decoder_def offset_ok_def)

lemma read_decoder_ok:
  assumes "loader_ok env ld" "node_xml_ok n"
  shows "\<exists>r ld'. read_decoder env n ld = (Some r, ld') \<and> (r = Inr () \<longrightarrow> loader_ok env ld')"
proof (cases "node_name (fst n)")
  case (Inr name)
  show ?thesis
  proof (cases "snd n")
    case (Some elements)
    have "raw_ok env (new_raw name)"
      using assms(2) Inr by (intro new_raw_ok node_name_c_string) (auto simp: node_xml_ok_def)
    then have "result_ok env (decode_elements env elements (new_raw name))"
      using assms(2) Some by (intro decode_elements_ok) (auto simp: node_xml_ok_def)
    then obtain x where x: "decode_elements env elements (new_raw name) = Some x" "\<forall>rw. x = Inr rw \<longrightarrow> raw_ok env rw"
      by (auto simp: result_ok_def)
    show ?thesis
    proof (cases "\<exists>rw rw1 pi. x = Inr rw \<and> check_decoder rw = Inr rw1 \<and> compile_decoder env rw1 = Inr pi")
      case True
      then obtain rw rw1 pi where p: "x = Inr rw" "check_decoder rw = Inr rw1" "compile_decoder env rw1 = Inr pi" by blast
      then have "info_ok (decoder_order_size env) pi" using x(2) by (intro compile_decoder_ok [of env rw rw1]) auto
      with OS_AddOSDecoder_ok [of "decoder_order_size env" "ld_next ld" "ld_decoders ld" pi] assms(1) x(1) p Inr Some
      show ?thesis
        by (auto simp: read_decoder_def Let_def loader_ok_def split: prod.split)
    next
      case False
      with x(1) Inr Some show ?thesis
        by (cases x) (auto simp: read_decoder_def Let_def split: sum.split)
    qed
  qed (simp add: read_decoder_def Inr)
qed (simp add: read_decoder_def)

lemma read_decoders_ok:
  "loader_ok env ld \<Longrightarrow> \<forall>n\<in>set ns. node_xml_ok n \<Longrightarrow>
   \<exists>r ld'. read_decoders env ns ld = (Some r, ld') \<and> (r = Inr () \<longrightarrow> loader_ok env ld')"
proof (induction ns arbitrary: ld)
  case (Cons n ns)
  obtain r ld' where r: "read_decoder env n ld = (Some r, ld')" "r = Inr () \<longrightarrow> loader_ok env ld'"
    using read_decoder_ok [of env ld n] Cons.prems by auto
  show ?case
  proof (cases r)
    case (Inr u)
    with Cons.IH [of ld'] Cons.prems r show ?thesis by simp
  qed (use r in simp)
qed simp

lemma ReadDecodeXML_ok:
  assumes "loader_ok env ld" "file_ok xf"
  shows "\<exists>r ld'. ReadDecodeXML env is_local xf ld = (Some r, ld') \<and> (\<forall>c. r = Inr c \<and> c \<noteq> 0 \<longrightarrow> loader_ok env ld')"
proof (cases xf)
  case (Elements ns)
  show ?thesis
  proof (cases ns)
    case (Some nodes)
    let ?ld = "ld\<lparr>ld_null := (case ld_null ld of Some d \<Rightarrow> Some d | None \<Rightarrow> Some zero_decoder)\<rparr>"
    have "loader_ok env ?ld" using assms(1) by (simp add: loader_ok_def)
    then obtain r ld' where r: "read_decoders env nodes ?ld = (Some r, ld')" "r = Inr () \<longrightarrow> loader_ok env ld'"
      using read_decoders_ok [of env ?ld nodes] assms(2) Elements Some by auto
    then show ?thesis
      by (cases r) (auto simp: ReadDecodeXML_def Elements Some Let_def split: load_stop.split)
  qed (use assms(1) in \<open>simp add: ReadDecodeXML_def Elements\<close>)
qed (use assms(1) in \<open>auto simp: ReadDecodeXML_def\<close>)

text \<open>
  The start of the daemon (\<^verbatim>\<open>analysisd.c\<close>): the decoder files one after the other, each with
  whether it is the local one, then the numbers. \<open>None\<close>: the daemon exits.
\<close>

fun load_decoders :: "'m compilers \<Rightarrow> (bool \<times> xml_file) list \<Rightarrow> 'm loader \<Rightarrow> 'm loader option" where
  "load_decoders env [] ld = Some ld"
| "load_decoders env ((is_local, xf) # files) ld =
     (case ReadDecodeXML env is_local xf ld of
        (Some (Inr c), ld1) \<Rightarrow> if c = 0 then None else load_decoders env files ld1
      | _ \<Rightarrow> None)"

definition start_decoders :: "'m compilers \<Rightarrow> (bool \<times> xml_file) list \<Rightarrow> 'm loader option" where
  "start_decoders env files = map_option (\<lambda>ld. snd (SetDecodeXML ld)) (load_decoders env files new_loader)"

lemma load_decoders_ok:
  "loader_ok env ld \<Longrightarrow> \<forall>f\<in>set files. file_ok (snd f) \<Longrightarrow> load_decoders env files ld = Some ld' \<Longrightarrow> loader_ok env ld'"
proof (induction files arbitrary: ld)
  case (Cons f files)
  obtain l xf where f: "f = (l, xf)" by (cases f)
  obtain r ld1 where r: "ReadDecodeXML env l xf ld = (Some r, ld1)" "\<forall>c. r = Inr c \<and> c \<noteq> 0 \<longrightarrow> loader_ok env ld1"
    using ReadDecodeXML_ok [of env ld xf l] Cons.prems f by auto
  with Cons f show ?case by (cases r) (auto split: if_splits)
qed simp

section \<open>The numbers\<close>

text \<open>Numbering changes numbers and names only.\<close>

definition renamed :: "'m decoders \<Rightarrow> 'm decoders \<Rightarrow> bool" where
  "renamed st st' \<longleftrightarrow> dc_forpname st' = dc_forpname st \<and> dc_nopname st' = dc_nopname st \<and>
     (\<forall>i. \<exists>k n. dc_info st' i = (dc_info st i)\<lparr>di_id := k, di_name := n\<rparr>)"

lemma renamed_trans: "renamed st st' \<Longrightarrow> renamed st' st'' \<Longrightarrow> renamed st st''"
proof -
  assume a: "renamed st st'" and b: "renamed st' st''"
  have "\<exists>k n. dc_info st'' i = (dc_info st i)\<lparr>di_id := k, di_name := n\<rparr>" for i
  proof -
    obtain k n where "dc_info st' i = (dc_info st i)\<lparr>di_id := k, di_name := n\<rparr>"
      using a unfolding renamed_def by blast
    moreover obtain k' n' where "dc_info st'' i = (dc_info st' i)\<lparr>di_id := k', di_name := n'\<rparr>"
      using b unfolding renamed_def by blast
    ultimately have "dc_info st'' i = (dc_info st i)\<lparr>di_id := k', di_name := n'\<rparr>" by simp
    then show ?thesis by blast
  qed
  with a b show ?thesis by (simp add: renamed_def)
qed

lemma renamed_set:
  assumes "f (dc_info st i) = (dc_info st i)\<lparr>di_id := k, di_name := n\<rparr>"
  shows "renamed st (set_info i f st)"
proof -
  have "\<exists>k n. d = d\<lparr>di_id := k, di_name := n\<rparr>" for d :: "'a decoder"
    by (intro exI [of _ "di_id d"] exI [of _ "di_name d"]) simp
  then show ?thesis using assms by (auto simp: renamed_def set_info_def)
qed

lemma renamed_refl [simp]: "renamed st st"
proof -
  have "\<exists>k n. d = d\<lparr>di_id := k, di_name := n\<rparr>" for d :: "'a decoder"
    by (intro exI [of _ "di_id d"] exI [of _ "di_name d"]) simp
  then show ?thesis by (simp add: renamed_def)
qed

lemma set_children_ids_renamed: "set_children_ids k n store cs st = (ok, st') \<Longrightarrow> renamed st st'"
proof (induction k n store cs st rule: set_children_ids.induct)
  case (2 p_id tmp_name store c cs st)
  let ?d = "dc_info st c"
  let ?d1 = "if di_use_own_name ?d then ?d\<lparr>di_id := getDecoderfromlist (name_of st c) store mod 65536\<rparr>
                else ?d\<lparr>di_id := p_id, di_name := tmp_name\<rparr>"
  have "\<exists>k n. ?d1 = ?d\<lparr>di_id := k, di_name := n\<rparr>"
  proof (cases "di_use_own_name ?d")
    case True
    then show ?thesis
      by (intro exI [of _ "getDecoderfromlist (name_of st c) store mod 65536"] exI [of _ "di_name ?d"]) simp
  qed auto
  then obtain k n where "?d1 = ?d\<lparr>di_id := k, di_name := n\<rparr>" by blast
  then have one: "renamed st (set_info c (\<lambda>_. ?d1) st)" by (rule renamed_set)
  show ?case
  proof (cases "di_id ?d1 = 0")
    case True
    with 2(2) one show ?thesis by (simp only: set_children_ids.simps Let_def if_True prod.inject) simp
  next
    case False
    with 2(2) have "set_children_ids p_id tmp_name store cs (set_info c (\<lambda>_. ?d1) st) = (ok, st')"
      by (simp only: set_children_ids.simps Let_def if_False)
    then have "renamed (set_info c (\<lambda>_. ?d1) st) st'" by (rule 2(1) [OF refl refl refl False])
    then show ?thesis by (rule renamed_trans [OF one])
  qed
qed simp

lemma setdecoderids_loop_renamed: "setdecoderids_loop store nodes st = (ok, st') \<Longrightarrow> renamed st st'"
proof (induction store nodes st rule: setdecoderids_loop.induct)
  case (2 store r ch nodes st)
  let ?n = "getDecoderfromlist (name_of st r) store mod 65536"
  let ?st1 = "set_info r (\<lambda>d. d\<lparr>di_id := ?n\<rparr>) st"
  have one: "renamed st ?st1" by (rule renamed_set [where k = ?n and n = "di_name (dc_info st r)"]) simp
  show ?case
  proof (cases "?n = 0")
    case False
    obtain ok2 st2 where c: "set_children_ids ?n (di_name (dc_info ?st1 r)) store ch ?st1 = (ok2, st2)" by fastforce
    then have two: "renamed st st2" by (rule renamed_trans [OF one set_children_ids_renamed])
    show ?thesis
    proof (cases ok2)
      case True
      with c False 2(2) have "setdecoderids_loop store nodes st2 = (ok, st')" by (simp add: Let_def)
      with 2(1) [OF refl refl False c [symmetric]] True show ?thesis using two renamed_trans by blast
    next
      case False
      with c \<open>?n \<noteq> 0\<close> 2(2) two show ?thesis by (simp add: Let_def)
    qed
  qed (use 2(2) one in \<open>simp add: Let_def\<close>)
qed simp

lemma renamed_decoders_ok:
  assumes "renamed st st'" "decoders_ok sz st"
  shows "decoders_ok sz st'"
proof -
  have s: "root_ok sz (dc_info st' i) = root_ok sz (dc_info st i)" "child_ok sz (dc_info st' i) = child_ok sz (dc_info st i)"
    "with_pname (dc_info st' i) = with_pname (dc_info st i)" "di_get_next (dc_info st' i) = di_get_next (dc_info st i)" for i
  proof -
    obtain k n where "dc_info st' i = (dc_info st i)\<lparr>di_id := k, di_name := n\<rparr>"
      using assms(1) unfolding renamed_def by blast
    then show "root_ok sz (dc_info st' i) = root_ok sz (dc_info st i)" "child_ok sz (dc_info st' i) = child_ok sz (dc_info st i)"
      "with_pname (dc_info st' i) = with_pname (dc_info st i)" "di_get_next (dc_info st' i) = di_get_next (dc_info st i)"
      by (simp_all add: root_ok_def child_ok_def order_ok_def with_pname_def)
  qed
  have l: "dc_forpname st' = dc_forpname st" "dc_nopname st' = dc_nopname st" using assms(1) by (simp_all add: renamed_def)
  from assms(2) show ?thesis by (simp add: decoders_ok_def node_ok_def s l)
qed

lemma SetDecodeXML_ok: "decoders_ok sz (ld_decoders ld) \<Longrightarrow> decoders_ok sz (ld_decoders (snd (SetDecodeXML ld)))"
  by (auto simp: SetDecodeXML_def os_setdecoderids_def Let_def split: prod.split
      dest!: setdecoderids_loop_renamed intro: renamed_decoders_ok)

lemma start_decoders_ok:
  "\<forall>f\<in>set files. file_ok (snd f) \<Longrightarrow> start_decoders env files = Some ld \<Longrightarrow>
   decoders_ok (decoder_order_size env) (ld_decoders ld)"
  using load_decoders_ok [OF new_loader_ok]
  by (auto simp: start_decoders_def loader_ok_def lists_ok_def intro!: SetDecodeXML_ok)


section \<open>The properties\<close>

definition no_engines :: "string engines" where
  "no_engines = \<lparr>OSMatch_Execute = (\<lambda>s n m. prefix m s),
     OSRegex_Execute = (\<lambda>s m. case s of None \<Rightarrow> None | Some t \<Rightarrow> if prefix m t then Some (drop (length m) t, [drop (length m) t]) else None),
     OSPcre2_Execute = (\<lambda>s m. None)\<rparr>"

definition no_compilers :: "string compilers" where
  "no_compilers = \<lparr>OSRegex_Compile = Some, OSMatch_Compile = Some, OSPcre2_Compile = Some, sub_strings = (\<lambda>_. True),
     plugin_decoders = [], decoder_order_size = 2\<rparr>"

definition elem :: "string \<Rightarrow> string \<Rightarrow> xml_elem" where
  "elem el c = \<lparr>xe_element = Some el, xe_content = Some c, xe_attributes = None, xe_values = None\<rparr>"

definition offset_elem :: "string \<Rightarrow> string \<Rightarrow> string \<Rightarrow> xml_elem" where
  "offset_elem el off c = \<lparr>xe_element = Some el, xe_content = Some c, xe_attributes = Some [''offset''], xe_values = Some [off]\<rparr>"

definition decoder_elem :: "string \<Rightarrow> xml_elem" where
  "decoder_elem name = \<lparr>xe_element = Some ''decoder'', xe_content = None, xe_attributes = Some [''name''], xe_values = Some [name]\<rparr>"

definition sshd_file :: xml_file where
  "sshd_file = Elements (Some
     [(decoder_elem ''sshd'', Some [elem ''program_name'' ''sshd'']),
      (decoder_elem ''sshd-fail'', Some [elem ''parent'' ''sshd'', elem ''prematch'' ''failed '',
         offset_elem ''regex'' ''after_prematch'' ''from '', elem ''order'' ''srcip''])])"

end
