(* ===== verification/Decode_First.thy ===== *)
theory Decode_First
  imports Decode_Load
begin

text \<open>
  What the decoding means: the first decoder of the list whose program name and prematch match the
  event decides, and the event gets that decoder or one of its children; with the two properties of
  the decoders of an accepted configuration.
\<close>

section \<open>The first decoder that matches\<close>

definition root_holds :: "'m engines \<Rightarrow> 'm decoder \<Rightarrow> Eventinfo \<Rightarrow> bool" where
  "root_holds eng d lf \<longleftrightarrow>
     (\<forall>p. lf_program_name lf = Some p \<longrightarrow>
        (case di_program_name d of
           Some m \<Rightarrow> OSMatch_Execute eng p (lf_p_name_size lf) m
         | None \<Rightarrow> (case di_program_name_pcre2 d of Some m \<Rightarrow> OSPcre2_Execute eng (Some p) m \<noteq> None | None \<Rightarrow> True))) \<and>
     (case di_prematch d of
        Some m \<Rightarrow> OSRegex_Execute eng (Some (lf_log lf)) m \<noteq> None
      | None \<Rightarrow> (case di_prematch_pcre2 d of Some m \<Rightarrow> OSPcre2_Execute eng (Some (lf_log lf)) m \<noteq> None | None \<Rightarrow> True))"

lemma root_match_holds: "fst (root_match eng d pm lf) = root_holds eng d lf"
  by (auto simp: root_match_def root_pname_def root_holds_def split: option.split)

text \<open>What decoding leaves alone, and the decoders it may assign.\<close>

definition decoded_by :: "'m decoders \<Rightarrow> nat set \<Rightarrow> Eventinfo \<Rightarrow> Eventinfo \<Rightarrow> bool" where
  "decoded_by st ds lf lf' \<longleftrightarrow>
     lf_decoder_info lf' \<in> insert (lf_decoder_info lf) ((\<lambda>i. OSDecoderInfo.truncate (dc_info st i)) ` ds) \<and>
     lf_log lf' = lf_log lf \<and> lf_full_log lf' = lf_full_log lf \<and> lf_location lf' = lf_location lf"

lemma decoded_by_refl [simp]: "decoded_by st ds lf lf"
  by (simp add: decoded_by_def)

lemma decoded_by_trans: "decoded_by st ds lf lf' \<Longrightarrow> decoded_by st ds lf' lf'' \<Longrightarrow> decoded_by st ds lf lf''"
  by (auto simp: decoded_by_def)

lemma decoded_by_mono: "decoded_by st ds lf lf' \<Longrightarrow> ds \<subseteq> ds' \<Longrightarrow> decoded_by st ds' lf lf'"
  by (auto simp: decoded_by_def)

lemma decoded_by_set: "d \<in> ds \<Longrightarrow> decoded_by st ds lf (lf\<lparr>lf_decoder_info := OSDecoderInfo.truncate (dc_info st d)\<rparr>)"
  by (simp add: decoded_by_def)

lemma store_captures_decoded:
  "fps_ok n fps \<Longrightarrow> store_captures n (Some fps) ss i lf = Some (Inr lf') \<Longrightarrow> decoded_by st {} lf lf'"
proof (induction ss arbitrary: i lf)
  case (Cons s ss)
  from Cons.prems have i: "i < n" "i < length fps" by (auto split: if_splits)
  let ?lf = "case fps ! i of Some f \<Rightarrow> f lf s i | None \<Rightarrow> lf"
  have "decoded_by st {} lf ?lf"
  proof (cases "fps ! i")
    case (Some f)
    with Cons.prems(1) i(2) have "setter f" by (metis fps_ok_def nth_mem)
    with Some show ?thesis by (simp add: decoded_by_def setter_def)
  qed simp
  with Cons i show ?case by (auto intro: decoded_by_trans)
qed simp

lemma regex_chain_decoded:
  "\<forall>c\<in>set ns. order_ok n (dc_info st c) \<Longrightarrow> regex_chain eng st n ns pm cm rp llog lf = Some (Inr lf') \<Longrightarrow>
   decoded_by st (set ns) lf lf'"
proof (induction ns arbitrary: rp llog lf)
  case (Cons k ns)
  let ?d = "dc_info st k"
  have sub: "set ns \<subseteq> set (k # ns)" by auto
  note ih = Cons.IH [THEN decoded_by_mono [OF _ sub]]
  let ?lf = "lf\<lparr>lf_decoder_info := OSDecoderInfo.truncate ?d\<rparr>"
  have one: "decoded_by st (set (k # ns)) lf ?lf" by (rule decoded_by_set) simp
  have caps: "decoded_by st (set (k # ns)) lf lf1"
    if "store_captures n (di_order ?d) ss 0 ?lf = Some (Inr lf1)" "di_regex ?d \<noteq> None \<or> di_pcre2 ?d \<noteq> None" for ss lf1
  proof -
    from that(2) Cons.prems(1) obtain fps where "di_order ?d = Some fps" "fps_ok n fps" by (auto simp: order_ok_def)
    with that(1) have "decoded_by st {} ?lf lf1" by (auto intro: store_captures_decoded)
    then have "decoded_by st (set (k # ns)) ?lf lf1" by (rule decoded_by_mono) simp
    then show ?thesis by (rule decoded_by_trans [OF one])
  qed
  have nxt: "decoded_by st (set (k # ns)) lf lf'"
    if "store_captures n (di_order ?d) ss 0 ?lf = Some (Inr lf1)" "di_regex ?d \<noteq> None \<or> di_pcre2 ?d \<noteq> None"
      "regex_chain eng st n ns pm cm rp' llog' lf1 = Some (Inr lf')" for ss lf1 rp' llog'
    using caps [OF that(1,2)] ih [OF _ that(3)] Cons.prems(1) by (auto intro: decoded_by_trans)
  show ?case
    using Cons.prems ih caps nxt
    by (auto simp: Let_def split: option.splits sum.splits if_splits)
qed simp


lemma find_child_decoded:
  "find_child eng st ns pm lf = Some (chain, cm, lf') \<Longrightarrow> decoded_by st (set ns) lf lf' \<and> set chain \<subseteq> set ns"
proof (induction ns arbitrary: lf rule: measure_induct_rule [where f = length])
  case (less ns)
  show ?case
  proof (cases ns)
    case (Cons n ms)
    let ?rest = "tl (dropWhile (\<lambda>k. di_get_next (dc_info st k)) ms)"
    have "length ?rest < length ns" using length_dropWhile_le [of "\<lambda>k. di_get_next (dc_info st k)" ms] Cons by simp
    moreover have "set ?rest \<subseteq> set ns"
      using set_mono_suffix [OF suffix_tl_dropWhile] Cons by fastforce
    ultimately have rest: "find_child eng st ?rest pm lf = Some (chain, cm, lf') \<Longrightarrow> decoded_by st (set ns) lf lf' \<and> set chain \<subseteq> set ns"
      using less.IH [of ?rest lf] by (auto intro: decoded_by_mono)
    have ms: "find_child eng st ms pm lf = Some (chain, cm, lf') \<Longrightarrow> decoded_by st (set ns) lf lf' \<and> set chain \<subseteq> set ns"
      using less.IH [of ms lf] Cons by (auto intro: decoded_by_mono)
    have one: "decoded_by st (set ns) lf (lf\<lparr>lf_decoder_info := OSDecoderInfo.truncate (dc_info st n)\<rparr>)"
      using Cons by (intro decoded_by_set) simp
    show ?thesis
      using less.prems rest ms one unfolding Cons
      by (auto simp: Let_def split: option.split_asm if_split_asm)
  qed (use less.prems in simp)
qed

lemma run_decoder_decoded:
  assumes "\<forall>c\<in>set ns. order_ok n (dc_info st c) \<and> di_plugindecoder (dc_info st c) = None"
    "run_decoder eng st n ns pm cm lf = Some (Inr lf')"
  shows "decoded_by st (set ns) lf lf'"
  using assms regex_chain_decoded [of ns n st eng pm cm None None lf lf']
  by (cases ns) (auto simp: run_decoder_def)

lemma run_root_decoded:
  assumes "root_ok n (dc_info st r)" "di_plugindecoder (dc_info st r) = None"
    "run_decoder eng st n (r # ns) pm cm lf = Some (Inr lf')"
  shows "decoded_by st {r} lf lf'"
proof -
  have "\<not> di_get_next (dc_info st r)" using assms(1) by (simp add: root_ok_def)
  then have "run_decoder eng st n (r # ns) pm cm lf = run_decoder eng st n [r] pm cm lf"
    by (auto simp: run_decoder_def Let_def split: option.split sum.split)
  with assms have "run_decoder eng st n [r] pm cm lf = Some (Inr lf')" by simp
  then show ?thesis
    using run_decoder_decoded [of "[r]" n st eng pm cm lf lf'] assms(1,2) by (simp add: root_ok_def)
qed

definition first_decides :: "'m engines \<Rightarrow> 'm decoders \<Rightarrow> decoder_node list \<Rightarrow> Eventinfo \<Rightarrow> Eventinfo \<Rightarrow> bool" where
  "first_decides eng st nodes lf lf' \<longleftrightarrow>
     (case find (\<lambda>n. root_holds eng (dc_info st (fst n)) lf) nodes of
        None \<Rightarrow> lf' = lf
      | Some (r, ch) \<Rightarrow>
          decoded_by st (insert r (set ch)) (lf\<lparr>lf_decoder_info := OSDecoderInfo.truncate (dc_info st r)\<rparr>) lf')"

lemma decode_nodes_first:
  "\<forall>n\<in>set nodes. node_ok sz st n \<Longrightarrow> \<forall>i. di_plugindecoder (dc_info st i) = None \<Longrightarrow>
   decode_nodes eng st sz nodes pm lf = Some (Inr lf') \<Longrightarrow> first_decides eng st nodes lf lf'"
proof (induction nodes arbitrary: pm)
  case (Cons n nodes)
  obtain r ch where n: "n = (r, ch)" by (cases n)
  obtain m pm' where rm: "root_match eng (dc_info st r) pm lf = (m, pm')" by fastforce
  then have m: "m = root_holds eng (dc_info st r) lf" using root_match_holds [of eng _ pm lf] by (metis fst_conv)
  have ok: "root_ok sz (dc_info st r)" "\<forall>c\<in>set ch. order_ok sz (dc_info st c)"
    using Cons.prems(1) by (auto simp: n node_ok_def child_ok_def)
  let ?lf = "lf\<lparr>lf_decoder_info := OSDecoderInfo.truncate (dc_info st r)\<rparr>"
  show ?case
  proof (cases m)
    case False
    with Cons rm m show ?thesis by (simp add: n first_decides_def)
  next
    case True
    have "decoded_by st (insert r (set ch)) ?lf lf'"
    proof (cases "ch = []")
      case True
      with Cons.prems(3) \<open>m\<close> rm have "run_decoder eng st sz (r # map fst nodes) pm' None ?lf = Some (Inr lf')"
        by (simp add: n Let_def)
      then have "decoded_by st {r} ?lf lf'" using ok(1) Cons.prems(2) by (intro run_root_decoded) auto
      then show ?thesis by (rule decoded_by_mono) simp
    next
      case False
      show ?thesis
      proof (cases "find_child eng st ch pm' ?lf")
        case None
        with Cons.prems(3) \<open>m\<close> rm False show ?thesis by (simp add: n Let_def)
      next
        case (Some f)
        obtain chain cm lf2 where f: "f = (chain, cm, lf2)" by (cases f)
        with Some have c: "decoded_by st (set ch) ?lf lf2" "set chain \<subseteq> set ch" using find_child_decoded by blast+
        from Cons.prems(3) \<open>m\<close> rm False Some f have "run_decoder eng st sz chain pm' cm lf2 = Some (Inr lf')"
          by (simp add: n Let_def)
        then have "decoded_by st (set chain) lf2 lf'"
          using ok(2) c(2) Cons.prems(2) by (intro run_decoder_decoded) auto
        then have "decoded_by st (set ch) ?lf lf'" using c decoded_by_trans decoded_by_mono by blast
        then show ?thesis by (rule decoded_by_mono) auto
      qed
    qed
    with True m show ?thesis by (simp add: n first_decides_def)
  qed
qed (simp add: first_decides_def)

lemma DecodeEvent_first:
  assumes "decoders_ok sz st" "\<forall>i. di_plugindecoder (dc_info st i) = None" "DecodeEvent eng st sz lf = Some (Inr lf')"
  shows "first_decides eng st (OS_GetFirstOSDecoder st (lf_program_name lf)) lf lf'"
  using assms
  by (intro decode_nodes_first [of _ sz]) (auto simp: DecodeEvent_def decoders_ok_def OS_GetFirstOSDecoder_def)


section \<open>The properties\<close>

lemma sshd_file_ok: "\<forall>f\<in>set [(False, sshd_file)]. file_ok (snd f)"
  by (simp add: sshd_file_def node_xml_ok_def elem_ok_def elem_def offset_elem_def decoder_elem_def)

lemma sshd_file_loads: "load_decoders no_compilers [(False, sshd_file)] new_loader \<noteq> None"
  by code_simp

text \<open>
  C4. Decoders of an accepted configuration never go wrong: whatever the decoder files hold, if the
  daemon starts with them then \<open>DecodeEvent\<close>, which follows \<open>child_node->next\<close> and \<open>order\<close> without
  tests, dereferences no NULL pointer on any event; and it never asks an engine to match a position
  that was not set, for two engines that differ only on the NULL string decode every event alike.
\<close>

theorem accepted_decoders_never_go_wrong:
  assumes "\<forall>f\<in>set files. file_ok (snd f)" "start_decoders env files = Some ld" "same_engines eng eng'"
  shows "decoders_ok (decoder_order_size env) (ld_decoders ld) \<and>
    (\<exists>x. DecodeEvent eng (ld_decoders ld) (decoder_order_size env) lf = Some x \<and>
         DecodeEvent eng' (ld_decoders ld) (decoder_order_size env) lf = Some x)"
  using start_decoders_ok [OF assms(1,2)] DecodeEvent_engines [OF start_decoders_ok [OF assms(1,2)] assms(3)] by blast

lemma accepted_decoders_never_go_wrong_witness:
  "\<exists>ld. start_decoders no_compilers [(False, sshd_file)] = Some ld \<and>
     decoders_ok 2 (ld_decoders ld) \<and> DecodeEvent no_engines (ld_decoders ld) 2 zero_event \<noteq> None"
proof -
  obtain ld where ld: "start_decoders no_compilers [(False, sshd_file)] = Some ld"
    using sshd_file_loads by (auto simp: start_decoders_def)
  have "same_engines no_engines no_engines" by (simp add: same_engines_def)
  from accepted_decoders_never_go_wrong [OF sshd_file_ok ld this, of zero_event] ld show ?thesis
    by (auto simp: no_compilers_def)
qed


definition one_decoder :: "string decoders" where
  "one_decoder = \<lparr>dc_info = (\<lambda>_. zero_decoder\<lparr>di_name := Some ''su'', di_prematch := Some ''su: ''\<rparr>),
     dc_forpname = [], dc_nopname = [(0, [])]\<rparr>"


text \<open>
  A group of children with one name need not stand together: \<open>get_next\<close> is then set in the first of
  them, and the decoding goes on with its neighbour, whose prematch it never tests. Here the child
  \<^verbatim>\<open>other\<close> sets the user although its prematch does not occur in the log.
\<close>

definition split_group :: xml_file where
  "split_group = Elements (Some
     [(decoder_elem ''app'', Some [elem ''program_name'' ''app'']),
      (decoder_elem ''part'', Some [elem ''parent'' ''app'', elem ''regex'' ''from '', elem ''order'' ''srcip'']),
      (decoder_elem ''other'', Some [elem ''parent'' ''app'', elem ''prematch'' ''login '',
         offset_elem ''regex'' ''after_parent'' ''from '', elem ''order'' ''user'']),
      (decoder_elem ''part'', Some [elem ''parent'' ''app'', elem ''regex'' ''to '', elem ''order'' ''dstip''])])"

lemma get_next_crosses:
  "map_option (\<lambda>ld. map_sum (\<lambda>x. x) lf_dstuser (the (DecodeEvent no_engines (ld_decoders ld) 2
      (zero_event\<lparr>lf_program_name := Some ''app'', lf_log := ''from x''\<rparr>))))
     (load_decoders no_compilers [(False, split_group)] new_loader) = Some (Inr (Some ''x''))"
  by code_simp

end
