(* ===== verification/Prelude_Mem.thy ===== *)
theory Prelude_Mem
  imports Prelude_CStr "HOL-Library.Monad_Syntax"
begin

text \<open>
  Buffers of bytes with positions, for the code that walks over a string with a pointer and writes
  NUL bytes into it. A buffer is the list of its bytes, the terminating NUL included; an access
  outside of it is \<open>None\<close>, so that a definition that yields \<open>Some\<close> has stayed inside. A lemma
  about such a definition is a triple: \<open>holds m Q\<close> says that \<open>m\<close> stays inside and that its result
  satisfies \<open>Q\<close>. The rules of the collection \<open>inside\<close> carry the proofs.
\<close>

section \<open>Triples\<close>

named_theorems inside \<open>triples of the buffer operations\<close>

fun holds :: "'a option \<Rightarrow> ('a \<Rightarrow> bool) \<Rightarrow> bool" where
  "holds None Q = False"
| "holds (Some x) Q = Q x"

lemma holds_iff: "holds m Q \<longleftrightarrow> (\<exists>x. m = Some x \<and> Q x)"
  by (cases m) auto

lemma holds_bind [simp]: "holds (m \<bind> f) Q \<longleftrightarrow> holds m (\<lambda>x. holds (f x) Q)"
  by (cases m) auto

lemma holds_map [simp]: "holds (map_option f m) Q \<longleftrightarrow> holds m (\<lambda>x. Q (f x))"
  by (cases m) auto

lemma holds_mono: "holds m Q \<Longrightarrow> (\<And>x. Q x \<Longrightarrow> R x) \<Longrightarrow> holds m R"
  by (cases m) auto

lemma holds_not_None: "holds m Q \<Longrightarrow> m \<noteq> None"
  by (cases m) auto

lemma holds_Some: "holds m Q \<Longrightarrow> m = Some x \<Longrightarrow> Q x"
  by simp

lemma holds_if [simp]: "holds (if b then m else n) Q \<longleftrightarrow> (if b then holds m Q else holds n Q)"
  by simp

section \<open>Reading and writing\<close>

definition rd :: "string \<Rightarrow> nat \<Rightarrow> char option" where
  "rd b p = (if p < length b then Some (b ! p) else None)"

definition wr :: "string \<Rightarrow> nat \<Rightarrow> char \<Rightarrow> string option" where
  "wr b p c = (if p < length b then Some (b[p := c]) else None)"

text \<open>The C string at a position: there has to be a NUL at or after it.\<close>

definition str_at :: "string \<Rightarrow> nat \<Rightarrow> string option" where
  "str_at b p = (if NUL \<in> set (drop p b) then Some (takeWhile (\<lambda>c. c \<noteq> NUL) (drop p b)) else None)"

definition strchr_at :: "string \<Rightarrow> nat \<Rightarrow> char \<Rightarrow> nat option option" where
  "strchr_at b p c =
     map_option (\<lambda>s. if c \<in> set s then Some (p + length (takeWhile (\<lambda>d. d \<noteq> c) s)) else None) (str_at b p)"

definition strstr_at :: "string \<Rightarrow> nat \<Rightarrow> string \<Rightarrow> nat option option" where
  "strstr_at b p pat = map_option (\<lambda>s. map_option ((+) p) (strstr s pat)) (str_at b p)"

definition strncmp_at :: "string \<Rightarrow> nat \<Rightarrow> string \<Rightarrow> bool option" where
  "strncmp_at b p t = map_option (\<lambda>s. strncmp s t (length t) = 0) (str_at b p)"

text \<open>\<open>while (P( *p)) p++\<close> and \<open>while (P( *p)) p--\<close>.\<close>

fun skip_in :: "(char \<Rightarrow> bool) \<Rightarrow> string \<Rightarrow> nat \<Rightarrow> nat option" where
  "skip_in P [] p = None"
| "skip_in P (c # s) p = (if P c then skip_in P s (Suc p) else Some p)"

definition skip :: "(char \<Rightarrow> bool) \<Rightarrow> string \<Rightarrow> nat \<Rightarrow> nat option" where
  "skip P b p = skip_in P (drop p b) p"

fun rskip :: "(char \<Rightarrow> bool) \<Rightarrow> string \<Rightarrow> nat \<Rightarrow> nat option" where
  "rskip P b p =
     (if p < length b
      then if P (b ! p) then (case p of 0 \<Rightarrow> None | Suc q \<Rightarrow> rskip P b q) else Some p
      else None)"

declare rskip.simps [simp del]

text \<open>
  \<open>P0(p[0]) && P1(p[1]) && ...\<close> and the same at chosen offsets: a byte is read only when those
  before it have passed.
\<close>

fun looking :: "string \<Rightarrow> nat \<Rightarrow> (char \<Rightarrow> bool) list \<Rightarrow> bool option" where
  "looking b p [] = Some True"
| "looking b p (P # Ps) = (rd b p \<bind> (\<lambda>c. if P c then looking b (Suc p) Ps else Some False))"

fun offsets :: "string \<Rightarrow> nat \<Rightarrow> (nat \<times> (char \<Rightarrow> bool)) list \<Rightarrow> bool option" where
  "offsets b p [] = Some True"
| "offsets b p ((k, P) # tests) = (rd b (p + k) \<bind> (\<lambda>c. if P c then offsets b p tests else Some False))"

declare looking.simps [simp del] offsets.simps [simp del]

section \<open>Their triples\<close>

definition terminated :: "string \<Rightarrow> bool" where
  "terminated b \<longleftrightarrow> b \<noteq> [] \<and> last b = NUL"

lemma terminated_last: "terminated b \<Longrightarrow> b ! (length b - 1) = NUL"
  by (auto simp: terminated_def last_conv_nth)

lemma terminated_drop: "terminated b \<Longrightarrow> p < length b \<Longrightarrow> NUL \<in> set (drop p b)"
  by (metis drop_eq_Nil last_drop last_in_set leD terminated_def)

lemma length_takeWhile_less: "\<exists>x\<in>set s. \<not> P x \<Longrightarrow> length (takeWhile P s) < length s"
  by (induction s) auto

lemma terminated_snoc [simp]: "terminated (s @ [NUL])"
  by (simp add: terminated_def)

lemma terminated_Suc: "terminated b \<Longrightarrow> p < length b \<Longrightarrow> b ! p \<noteq> NUL \<Longrightarrow> Suc p < length b"
  using terminated_last [of b] by (cases "p = length b - 1") auto

lemma holds_rd [inside]: "p < length b \<Longrightarrow> Q (b ! p) \<Longrightarrow> holds (rd b p) Q"
  by (simp add: rd_def)

lemma holds_wr [inside]: "p < length b \<Longrightarrow> Q (b[p := c]) \<Longrightarrow> holds (wr b p c) Q"
  by (simp add: wr_def)

lemma str_at_Some: "terminated b \<Longrightarrow> p < length b \<Longrightarrow> str_at b p = Some (takeWhile (\<lambda>c. c \<noteq> NUL) (drop p b))"
  by (simp add: str_at_def terminated_drop)

lemma str_at_bounds: "str_at b p = Some s \<Longrightarrow> p + length s < length b"
proof -
  assume a: "str_at b p = Some s"
  then have "NUL \<in> set (drop p b)" and s: "s = takeWhile (\<lambda>c. c \<noteq> NUL) (drop p b)"
    by (auto simp: str_at_def split: if_splits)
  from this(1) have "length (takeWhile (\<lambda>c. c \<noteq> NUL) (drop p b)) < length (drop p b)"
    by (intro length_takeWhile_less) auto
  with s show ?thesis by simp
qed

lemma strchr_at_bounds: "strchr_at b p c = Some (Some q) \<Longrightarrow> p \<le> q \<and> q < length b"
  by (auto simp: strchr_at_def dest!: str_at_bounds split: if_splits)
     (metis add_le_cancel_left le_less_trans length_takeWhile_le)

lemma wr_length: "wr b p c = Some b' \<Longrightarrow> length b' = length b"
  by (auto simp: wr_def split: if_splits)

lemma holds_str_at [inside]:
  "terminated b \<Longrightarrow> p < length b \<Longrightarrow> Q (takeWhile (\<lambda>c. c \<noteq> NUL) (drop p b)) \<Longrightarrow> holds (str_at b p) Q"
  by (simp add: str_at_Some)

lemma holds_skip:
  assumes "terminated b" "p < length b" "\<not> P NUL"
  shows "holds (skip P b p) (\<lambda>q. p \<le> q \<and> q < length b \<and> \<not> P (b ! q) \<and> (\<forall>i. p \<le> i \<and> i < q \<longrightarrow> P (b ! i)))"
proof -
  have "NUL \<in> set s \<Longrightarrow>
      holds (skip_in P s n) (\<lambda>q. n \<le> q \<and> q - n < length s \<and> \<not> P (s ! (q - n)) \<and> (\<forall>i. n \<le> i \<and> i < q \<longrightarrow> P (s ! (i - n))))"
    for s n
  proof (induction s arbitrary: n)
    case (Cons c s)
    show ?case
    proof (cases "P c")
      case True
      then have "NUL \<in> set s" using Cons.prems assms(3) by auto
      from Cons.IH [OF this, of "Suc n"] True show ?thesis
            by (auto simp: nth_Cons' Suc_le_eq elim!: holds_mono)
    qed simp
  qed simp
  from this [OF terminated_drop [OF assms(1,2)], of p] assms(2) show ?thesis
    unfolding skip_def by (auto elim!: holds_mono)
qed

lemma holds_rskip:
  assumes "p < length b" "k \<le> p" "\<not> P (b ! k)"
  shows "holds (rskip P b p) (\<lambda>q. k \<le> q \<and> q \<le> p \<and> \<not> P (b ! q) \<and> (\<forall>i. q < i \<and> i \<le> p \<longrightarrow> P (b ! i)))"
  using assms
proof (induction p)
  case 0
  then show ?case by (simp add: rskip.simps)
next
  case (Suc p)
  show ?case
  proof (cases "P (b ! Suc p)")
    case True
    then have "k \<le> p" using Suc.prems by (auto simp: le_Suc_eq)
    with Suc have "holds (rskip P b p) (\<lambda>q. k \<le> q \<and> q \<le> p \<and> \<not> P (b ! q) \<and> (\<forall>i. q < i \<and> i \<le> p \<longrightarrow> P (b ! i)))"
      by simp
    with True Suc.prems(1) show ?thesis
      by (subst rskip.simps) (auto simp: le_Suc_eq elim!: holds_mono)
  next
    case False
    with Suc.prems show ?thesis by (subst rskip.simps) auto
  qed
qed

lemma holds_looking:
  assumes "terminated b" "p < length b" "list_all (\<lambda>P. \<not> P NUL) Ps"
  shows "holds (looking b p Ps) (\<lambda>r. r \<longrightarrow> p + length Ps < length b \<and> (\<forall>i < length Ps. (Ps ! i) (b ! (p + i))))"
  using assms(2,3)
proof (induction Ps arbitrary: p)
  case (Cons P Ps)
  note looking.simps [simp]
  show ?case
  proof (cases "P (b ! p)")
    case True
    moreover from Cons.prems(2) have "\<not> P NUL" by simp
    ultimately have "b ! p \<noteq> NUL" by metis
    with assms(1) Cons.prems(1) have "Suc p < length b" by (rule terminated_Suc)
    from Cons.IH [OF this] Cons.prems(2) have
      "holds (looking b (Suc p) Ps)
        (\<lambda>r. r \<longrightarrow> Suc p + length Ps < length b \<and> (\<forall>i < length Ps. (Ps ! i) (b ! (Suc p + i))))" by simp
    with Cons.prems(1) True show ?thesis
      by (auto simp: rd_def All_less_Suc2 elim!: holds_mono)
  qed (use Cons.prems in \<open>simp add: rd_def\<close>)
qed (simp add: looking.simps)

lemma holds_offsets [inside]:
  "(\<And>k P. (k, P) \<in> set tests \<Longrightarrow> p + k < length b) \<Longrightarrow> (\<And>r. Q r) \<Longrightarrow> holds (offsets b p tests) Q"
proof (induction tests)
  case (Cons t tests)
  then show ?case by (cases t) (auto simp: offsets.simps intro!: holds_rd)
qed (simp add: offsets.simps)

lemma holds_strchr_at:
  assumes "terminated b" "p < length b"
  shows "holds (strchr_at b p c) (\<lambda>r. \<forall>q. r = Some q \<longrightarrow> p \<le> q \<and> q < length b \<and> b ! q = c \<and> c \<noteq> NUL)"
proof -
  let ?s = "takeWhile (\<lambda>d. d \<noteq> NUL) (drop p b)"
  let ?k = "length (takeWhile (\<lambda>d. d \<noteq> c) ?s)"
  have "p + ?k < length b \<and> b ! (p + ?k) = c \<and> c \<noteq> NUL" if "c \<in> set ?s"
  proof -
    from that have k: "?k < length ?s" by (intro length_takeWhile_less) auto
    then have "?s ! ?k = c" using nth_length_takeWhile [of "\<lambda>d. d \<noteq> c" ?s] by blast
    moreover have l: "length ?s \<le> length b - p" using length_takeWhile_le [of _ "drop p b"] by simp
    moreover have "?s ! ?k = drop p b ! ?k" using k by (simp add: takeWhile_nth)
    moreover have "c \<noteq> NUL" using that by (auto dest: set_takeWhileD)
    ultimately show ?thesis using k by simp
  qed
  then show ?thesis by (simp add: strchr_at_def str_at_Some [OF assms])
qed

lemma holds_strstr_at:
  assumes "terminated b" "p < length b"
  shows "holds (strstr_at b p pat) (\<lambda>r. \<forall>q. r = Some q \<longrightarrow> p \<le> q \<and> q + length pat < length b)"
proof -
  let ?s = "takeWhile (\<lambda>d. d \<noteq> NUL) (drop p b)"
  have "p + i + length pat < length b" if "strstr ?s pat = Some i" for i
  proof -
    from strstr_Some [OF that] have "i + length pat \<le> length ?s \<or> length pat = 0 \<and> i \<le> length ?s"
      by (auto dest!: prefix_length_le)
    moreover have "length ?s < length (drop p b)"
      using terminated_drop [OF assms] by (intro length_takeWhile_less) auto
    ultimately show ?thesis by auto
  qed
  then show ?thesis by (auto simp: strstr_at_def str_at_Some [OF assms])
qed

lemma holds_strncmp_at [inside]:
  "terminated b \<Longrightarrow> p < length b \<Longrightarrow> Q False \<Longrightarrow> (p + length t < length b \<Longrightarrow> Q True) \<Longrightarrow> NUL \<notin> set t \<Longrightarrow>
   holds (strncmp_at b p t) Q"
proof (goal_cases)
  case 1
  let ?s = "takeWhile (\<lambda>d. d \<noteq> NUL) (drop p b)"
  have "p + length t < length b" if "strncmp ?s t (length t) = 0"
  proof -
    have "c_string ?s" "c_string t" using 1(5) by (auto simp: c_string_def dest: set_takeWhileD)
    with that have "take (length t) ?s = t" by (simp add: strncmp_eq_0)
    then have "length t \<le> length ?s" by (metis length_take min.cobounded1)
    moreover have "length ?s < length (drop p b)"
      using terminated_drop [OF 1(1,2)] by (intro length_takeWhile_less) auto
    ultimately show ?thesis by simp
  qed
  with 1 show ?thesis by (cases "strncmp ?s t (length t) = 0") (simp_all add: strncmp_at_def str_at_Some)
qed


text \<open>The same as rules for the continuation of a walk.\<close>

lemma skip_inside [inside]:
  assumes "terminated b" "p < length b" "\<not> P NUL"
    and "\<And>q. p \<le> q \<Longrightarrow> q < length b \<Longrightarrow> \<not> P (b ! q) \<Longrightarrow> \<forall>i. p \<le> i \<and> i < q \<longrightarrow> P (b ! i) \<Longrightarrow> Q q"
  shows "holds (skip P b p) Q"
  using holds_skip [where P = P, OF assms(1-3)] by (rule holds_mono) (auto intro: assms(4))

lemma looking_inside [inside]:
  assumes "terminated b" "p < length b" "list_all (\<lambda>P. \<not> P NUL) Ps"
    and "Q False" "p + length Ps < length b \<Longrightarrow> \<forall>i < length Ps. (Ps ! i) (b ! (p + i)) \<Longrightarrow> Q True"
  shows "holds (looking b p Ps) Q"
  using holds_looking [OF assms(1-3)]
proof (rule holds_mono)
  fix r
  assume "r \<longrightarrow> p + length Ps < length b \<and> (\<forall>i < length Ps. (Ps ! i) (b ! (p + i)))"
  then show "Q r" using assms(4,5) by (cases r) auto
qed

lemma strchr_at_inside [inside]:
  assumes "terminated b" "p < length b"
    and "Q None" "\<And>q. p \<le> q \<Longrightarrow> q < length b \<Longrightarrow> b ! q = c \<Longrightarrow> c \<noteq> NUL \<Longrightarrow> Q (Some q)"
  shows "holds (strchr_at b p c) Q"
  using holds_strchr_at [OF assms(1,2)]
proof (rule holds_mono)
  fix r
  assume "\<forall>q. r = Some q \<longrightarrow> p \<le> q \<and> q < length b \<and> b ! q = c \<and> c \<noteq> NUL"
  then show "Q r" using assms(3,4) by (cases r) auto
qed

lemma strstr_at_inside [inside]:
  assumes "terminated b" "p < length b"
    and "Q None" "\<And>q. p \<le> q \<Longrightarrow> q + length pat < length b \<Longrightarrow> Q (Some q)"
  shows "holds (strstr_at b p pat) Q"
  using holds_strstr_at [OF assms(1,2)]
proof (rule holds_mono)
  fix r
  assume "\<forall>q. r = Some q \<longrightarrow> p \<le> q \<and> q + length pat < length b"
  then show "Q r" using assms(3,4) by (cases r) auto
qed

section \<open>Buffers that are cut\<close>

text \<open>\<open>b\<close> is \<open>b0\<close> with some bytes overwritten by NUL.\<close>

definition cuts :: "string \<Rightarrow> string \<Rightarrow> bool" where
  "cuts b0 b \<longleftrightarrow> length b = length b0 \<and> (\<forall>i < length b. b ! i = b0 ! i \<or> b ! i = NUL)"

lemma cuts_refl [simp]: "cuts b b"
  by (simp add: cuts_def)

lemma cuts_length: "cuts b0 b \<Longrightarrow> length b = length b0"
  by (simp add: cuts_def)

lemma cuts_terminated: "cuts b0 b \<Longrightarrow> terminated b0 \<Longrightarrow> terminated b"
proof -
  assume c: "cuts b0 b" and t: "terminated b0"
  then have "b \<noteq> []" by (auto simp: cuts_def terminated_def)
  moreover from this c terminated_last [OF t] have "b ! (length b - 1) = NUL"
    by (cases "length b0") (auto simp: cuts_def)
  ultimately show ?thesis by (simp add: terminated_def last_conv_nth)
qed

lemma cuts_write: "cuts b0 b \<Longrightarrow> c = NUL \<or> c = b0 ! p \<Longrightarrow> cuts b0 (b[p := c])"
proof -
  assume c: "cuts b0 b" and w: "c = NUL \<or> c = b0 ! p"
  have "b[p := c] ! i = b0 ! i \<or> b[p := c] ! i = NUL" if "i < length b" for i
    using c w that by (cases "i = p") (auto simp: cuts_def)
  with c show ?thesis by (simp add: cuts_def)
qed

lemma cuts_nth: "cuts b0 b \<Longrightarrow> b ! q = c \<Longrightarrow> q < length b0 \<Longrightarrow> c \<noteq> NUL \<Longrightarrow> b0 ! q = c"
  by (auto simp: cuts_def)

lemma cuts_string:
  "cuts b0 b \<Longrightarrow> prefix (takeWhile (\<lambda>c. c \<noteq> NUL) (drop p b)) (takeWhile (\<lambda>c. c \<noteq> NUL) (drop p b0))"
proof -
  have "prefix (takeWhile (\<lambda>c. c \<noteq> NUL) s) (takeWhile (\<lambda>c. c \<noteq> NUL) s0)"
    if "list_all2 (\<lambda>c c0. c = c0 \<or> c = NUL) s s0" for s s0
    using that by (induction rule: list_all2_induct) auto
  moreover assume "cuts b0 b"
  then have "list_all2 (\<lambda>c c0. c = c0 \<or> c = NUL) (drop p b) (drop p b0)"
    by (auto simp: cuts_def list_all2_conv_all_nth)
  ultimately show ?thesis by blast
qed


section \<open>Walks over known bytes\<close>

text \<open>What an operation does when the bytes from the position on are known.\<close>

lemma drop_part: "drop p b = xs @ ys \<Longrightarrow> n = p + length xs \<Longrightarrow> drop n b = ys"
  by (metis add.commute append_eq_conv_conj drop_drop)

lemma drop_one: "drop p b = c # s \<Longrightarrow> drop (p + 1) b = s"
  by (rule drop_part [where xs = "[c]"]) simp_all

lemma drop_two: "drop p b = c # d # s \<Longrightarrow> drop (p + 2) b = s"
  by (rule drop_part [where xs = "[c, d]"]) simp_all

lemma rd_drop: "drop p b = c # s \<Longrightarrow> rd b p = Some c"
  by (metis drop_all leI list.distinct(1) nth_via_drop rd_def)

lemma skip_drop: "drop p b = ys @ c # s \<Longrightarrow> \<forall>y\<in>set ys. P y \<Longrightarrow> \<not> P c \<Longrightarrow> skip P b p = Some (p + length ys)"
proof -
  have "\<forall>y\<in>set ys. P y \<Longrightarrow> \<not> P c \<Longrightarrow> skip_in P (ys @ c # s) n = Some (n + length ys)" for n
    by (induction ys arbitrary: n) auto
  then show "drop p b = ys @ c # s \<Longrightarrow> \<forall>y\<in>set ys. P y \<Longrightarrow> \<not> P c \<Longrightarrow> skip P b p = Some (p + length ys)"
    by (simp add: skip_def)
qed

lemma wr_drop: "drop p b = c # s \<Longrightarrow> wr b p d = Some (b[p := d])"
  by (metis drop_all leI list.distinct(1) wr_def)

lemma str_at_drop: "drop p b = s @ NUL # t \<Longrightarrow> NUL \<notin> set s \<Longrightarrow> str_at b p = Some s"
proof -
  assume "NUL \<notin> set s"
  then have "takeWhile (\<lambda>c. c \<noteq> NUL) (s @ NUL # t) = s @ takeWhile (\<lambda>c. c \<noteq> NUL) (NUL # t)"
    by (intro takeWhile_append2) auto
  then show "drop p b = s @ NUL # t \<Longrightarrow> ?thesis" by (simp add: str_at_def)
qed

text \<open>A test of the bytes before any position, as a function of the bytes from there on.\<close>

fun look :: "string \<Rightarrow> (char \<Rightarrow> bool) list \<Rightarrow> bool option" where
  "look s [] = Some True"
| "look [] (P # Ps) = None"
| "look (c # s) (P # Ps) = (if P c then look s Ps else Some False)"

lemma looking_drop: "looking b p Ps = look (drop p b) Ps"
proof (induction Ps arbitrary: p)
  case (Cons P Ps)
  show ?case
  proof (cases "drop p b")
    case Nil
    then show ?thesis by (simp add: looking.simps rd_def)
  next
    case (Cons c s)
    then have "drop (Suc p) b = s" by (metis drop_Suc list.sel(3) tl_drop)
    with Cons Cons.IH [of "Suc p"] show ?thesis by (simp add: looking.simps rd_drop)
  qed
qed (simp add: looking.simps)

lemma offsets_True: "(\<And>k P. (k, P) \<in> set tests \<Longrightarrow> p + k < length b \<and> P (b ! (p + k))) \<Longrightarrow> offsets b p tests = Some True"
proof (induction tests)
  case (Cons t tests)
  then show ?case by (cases t) (auto simp: offsets.simps rd_def)
qed (simp add: offsets.simps)

text \<open>Strings that end at a byte just cut, and strings before it.\<close>

lemma drop_cut: "drop p b = s @ c # t \<Longrightarrow> q = p + length s \<Longrightarrow> drop p (b[q := d]) = s @ d # t"
  by (simp add: drop_update_swap)

lemma drop_later: "drop p b = xs @ ys \<Longrightarrow> p + length xs \<le> q \<Longrightarrow> drop p (b[q := d]) = xs @ ys[q - p - length xs := d]"
proof -
  assume d: "drop p b = xs @ ys" and q: "p + length xs \<le> q"
  from q have l: "\<not> q - p < length xs" by linarith
  from q have "drop p (b[q := d]) = (drop p b)[q - p := d]" by (simp add: drop_update_swap)
  with l show ?thesis by (simp only: d list_update_append if_False)
qed

lemma str_at_cut: "drop p b = s @ c # t \<Longrightarrow> q = p + length s \<Longrightarrow> NUL \<notin> set s \<Longrightarrow> str_at (b[q := NUL]) p = Some s"
  by (rule str_at_drop [OF drop_cut])

lemma str_at_later:
  assumes "drop p b = s @ NUL # t" "NUL \<notin> set s" "p + length s < q"
  shows "str_at (b[q := d]) p = Some s"
proof -
  have "drop p b = (s @ [NUL]) @ t" using assms(1) by simp
  from drop_later [OF this, of q d] assms(3) have "drop p (b[q := d]) = s @ NUL # t[q - p - length (s @ [NUL]) := d]" by simp
  then show ?thesis using assms(2) by (rule str_at_drop)
qed

end
