(* ===== verification/String_Op.thy ===== *)
theory String_Op
  imports Prelude_CStr
begin

text \<open>
  \<^verbatim>\<open>shared/string_op.c\<close>: trimming, stripping, substrings, and the escaping of shell
  metacharacters that the active-response daemon relies on. The main results are that
  \<open>os_shell_escape\<close> protects every metacharacter, loses nothing, and that
  \<open>os_shell_escape_strchr\<close> finds in an escaped text exactly the characters that are not
  escaped.
\<close>

section \<open>os_trimcrlf\<close>

text \<open>
  The loop walks back from the last byte and stores NULs; it has no lower bound, so on a string
  of CR and LF only (or an empty one) it reads before the start of the buffer. The argument is
  the reversed string.
\<close>

fun trimcrlf_back :: "string \<Rightarrow> mem_error + string" where
  "trimcrlf_back [] = Inl OutOfBounds"
| "trimcrlf_back (c # before) =
     (if byte c = 10 \<or> byte c = 13 then trimcrlf_back before else Inr (c # before))"

definition os_trimcrlf :: "string \<Rightarrow> mem_error + string" where
  "os_trimcrlf str = (case trimcrlf_back (rev str) of Inl e \<Rightarrow> Inl e | Inr r \<Rightarrow> Inr (rev r))"

definition is_crlf :: "char \<Rightarrow> bool" where
  "is_crlf c \<longleftrightarrow> byte c = 10 \<or> byte c = 13"

lemma trimcrlf_back_eq:
  "trimcrlf_back r = (case dropWhile is_crlf r of [] \<Rightarrow> Inl OutOfBounds | r' \<Rightarrow> Inr r')"
  by (induction r) (auto simp: is_crlf_def split: list.splits)

text \<open>
  C36. \<open>os_trimcrlf\<close> removes exactly the trailing CR and LF bytes of a string that holds any
  other byte; on a string without one (the empty string included) it leaves the buffer.
\<close>

theorem os_trimcrlf_trims:
  "os_trimcrlf s =
    (if list_all is_crlf s then Inl OutOfBounds else Inr (rev (dropWhile is_crlf (rev s))))"
proof -
  consider "dropWhile is_crlf (rev s) = []" | c r where "dropWhile is_crlf (rev s) = c # r"
    by (cases "dropWhile is_crlf (rev s)") auto
  then show ?thesis
  proof cases
    case 1
    then have "\<forall>c\<in>set s. is_crlf c" by (simp add: dropWhile_eq_Nil_conv)
    with 1 show ?thesis
      by (simp add: os_trimcrlf_def trimcrlf_back_eq list_all_iff del: dropWhile_eq_Nil_conv)
  next
    case 2
    then have "\<not> (\<forall>c\<in>set s. is_crlf c)"
      by (metis dropWhile_eq_Nil_conv list.distinct(1) set_rev)
    with 2 show ?thesis by (simp add: os_trimcrlf_def trimcrlf_back_eq list_all_iff)
  qed
qed

section \<open>os_strip_char\<close>

fun strip_char_len :: "char \<Rightarrow> string \<Rightarrow> nat" where
  "strip_char_len remove [] = 0"
| "strip_char_len remove (c # s) =
     (if c \<noteq> remove then Suc (strip_char_len remove s) else strip_char_len remove s)"

text \<open>The copying loop into a buffer of \<open>len\<close> bytes after \<open>out\<close>.\<close>

fun strip_char_copy :: "char \<Rightarrow> nat \<Rightarrow> string \<Rightarrow> string \<Rightarrow> mem_error + string" where
  "strip_char_copy remove len out [] = Inr out"
| "strip_char_copy remove len out (c # s) =
     (if c \<noteq> remove then
        if length out < len then strip_char_copy remove len (out @ [c]) s else Inl OutOfBounds
      else strip_char_copy remove len out s)"

definition os_strip_char :: "string \<Rightarrow> char \<Rightarrow> mem_error + string" where
  "os_strip_char source remove = strip_char_copy remove (Suc (strip_char_len remove source)) [] source"

lemma strip_char_len_eq: "strip_char_len r s = length (filter (\<lambda>c. c \<noteq> r) s)"
  by (induction s) auto

lemma strip_char_copy_eq:
  "length out + length (filter (\<lambda>c. c \<noteq> r) s) < len \<Longrightarrow>
   strip_char_copy r len out s = Inr (out @ filter (\<lambda>c. c \<noteq> r) s)"
  by (induction s arbitrary: out) auto

lemma os_strip_char_filter: "os_strip_char s r = Inr (filter (\<lambda>c. c \<noteq> r) s)"
  by (simp add: os_strip_char_def strip_char_copy_eq strip_char_len_eq)

section \<open>os_substr\<close>

text \<open>The return code and what \<open>dest\<close> holds.\<close>

definition os_substr :: "string option \<Rightarrow> nat \<Rightarrow> int \<Rightarrow> int \<times> string" where
  "os_substr src position len =
     (if len \<le> 0 then (-3, [])
      else case src of
        None \<Rightarrow> (-2, [])
      | Some s \<Rightarrow> if position \<ge> length s then (-1, [])
                 else (0, take (nat len) (drop position s)))"

lemma os_substr_ok:
  "os_substr (Some s) p n = (0, d) \<longleftrightarrow> 0 < n \<and> p < length s \<and> d = take (nat n) (drop p s)"
  by (auto simp: os_substr_def)

section \<open>os_shell_escape\<close>

text \<open>
  The array \<open>shell_escapes\<close> is initialised without a terminating NUL, and is searched with
  \<open>strchr\<close>. When a byte is not in the array, \<open>strchr\<close> goes on in the memory behind it up to
  the first NUL: \<open>beyond\<close> stands for those bytes, over which the code has no control.
\<close>

definition shell_escapes :: "char list" where
  "shell_escapes =
     [CHR 0x5C, CHR 0x22, CHR 0x27, CHR '' '', CHR 0x09, CHR '';'', CHR 0x60, CHR ''>'', CHR ''<'',
      CHR ''|'', CHR ''#'', CHR ''*'', CHR ''['', CHR '']'', CHR ''{'', CHR ''}'', CHR ''&'',
      CHR ''$'', CHR ''!'', CHR '':'', CHR ''('', CHR '')'']"

definition shell_special :: "string \<Rightarrow> char \<Rightarrow> bool" where
  "shell_special beyond c = (strchr (shell_escapes @ beyond) c \<noteq> None)"

fun shell_escape_len :: "string \<Rightarrow> string \<Rightarrow> nat" where
  "shell_escape_len beyond [] = 0"
| "shell_escape_len beyond (c # s) =
     (if shell_special beyond c then 1 else 0) + 1 + shell_escape_len beyond s"

fun shell_escape_copy :: "string \<Rightarrow> nat \<Rightarrow> string \<Rightarrow> string \<Rightarrow> mem_error + string" where
  "shell_escape_copy beyond len out [] = Inr out"
| "shell_escape_copy beyond len out (c # s) =
     (let out' = (if shell_special beyond c then out @ [CHR 0x5C] else out) @ [c]
      in if length out' \<le> len then shell_escape_copy beyond len out' s else Inl OutOfBounds)"

definition os_shell_escape :: "string \<Rightarrow> string option \<Rightarrow> mem_error + string option" where
  "os_shell_escape beyond src =
     (case src of
        None \<Rightarrow> Inr None
      | Some s \<Rightarrow>
          (case shell_escape_copy beyond (shell_escape_len beyond s) [] s of
             Inl e \<Rightarrow> Inl e
           | Inr r \<Rightarrow> Inr (Some r)))"

fun os_shell_escape_strchr :: "string \<Rightarrow> char \<Rightarrow> string option" where
  "os_shell_escape_strchr [] c = None"
| "os_shell_escape_strchr (d # s) c =
     (if d = CHR 0x5C \<and> deref s \<noteq> NUL then os_shell_escape_strchr (tl s) c
      else if d = c then Some (d # s)
      else os_shell_escape_strchr s c)"

text \<open>What a shell reads back: a backslash protects the byte after it.\<close>

fun shell_unescape :: "string \<Rightarrow> string" where
  "shell_unescape [] = []"
| "shell_unescape [c] = [c]"
| "shell_unescape (c # d # s) =
     (if c = CHR 0x5C then d # shell_unescape s else c # shell_unescape (d # s))"

definition escape_char :: "string \<Rightarrow> char \<Rightarrow> string" where
  "escape_char beyond c = (if shell_special beyond c then [CHR 0x5C, c] else [c])"

lemma shell_special_iff: "shell_special b c \<longleftrightarrow> c \<in> set shell_escapes \<or> c \<in> set b"
  by (simp add: shell_special_def del: not_None_eq)

lemma backslash_special [simp]: "shell_special b (CHR 0x5C)"
  by (simp add: shell_special_iff shell_escapes_def)

lemma shell_escape_len_eq: "shell_escape_len b s = length (concat (map (escape_char b) s))"
  by (induction s) (auto simp: escape_char_def)

lemma shell_escape_copy_eq:
  "length out + length (concat (map (escape_char b) s)) \<le> len \<Longrightarrow>
   shell_escape_copy b len out s = Inr (out @ concat (map (escape_char b) s))"
  by (induction s arbitrary: out) (auto simp: escape_char_def Let_def)

lemma os_shell_escape_eq:
  "os_shell_escape b (Some s) = Inr (Some (concat (map (escape_char b) s)))"
  by (simp add: os_shell_escape_def shell_escape_copy_eq shell_escape_len_eq)

lemma unescape_escape_char: "shell_unescape (escape_char b c @ t) = c # shell_unescape t"
proof (cases "shell_special b c")
  case False
  then have "c \<noteq> CHR 0x5C" using backslash_special by blast
  with False show ?thesis by (cases t) (simp_all add: escape_char_def)
qed (simp add: escape_char_def)

lemma unescape_escape: "shell_unescape (concat (map (escape_char b) s)) = s"
  by (induction s) (simp_all add: unescape_escape_char)

lemma escape_strchr_char:
  assumes "c \<noteq> NUL" "shell_special b d"
  shows "os_shell_escape_strchr (escape_char b c @ t) d = os_shell_escape_strchr t d"
proof (cases "shell_special b c")
  case False
  with assms(2) have "c \<noteq> CHR 0x5C" "c \<noteq> d" using backslash_special by blast+
  with False show ?thesis by (simp add: escape_char_def)
qed (use assms(1) in \<open>simp add: escape_char_def\<close>)

lemma escape_strchr_none:
  "c_string s \<Longrightarrow> shell_special b c \<Longrightarrow>
   os_shell_escape_strchr (concat (map (escape_char b) s) @ t) c = os_shell_escape_strchr t c"
  by (induction s) (simp_all add: escape_strchr_char)

text \<open>
  C40. Whatever lies behind the unterminated table, \<open>os_shell_escape\<close> writes inside its buffer,
  at most twice the length of its input, the text is recovered by removing the escapes, and
  \<open>os_shell_escape_strchr\<close> finds no unprotected metacharacter in it: the first one it finds in
  \<open>escaped @ t\<close> is the first one in \<open>t\<close>.
\<close>

theorem os_shell_escape_protects:
  assumes "c_string s"
  shows "\<exists>e. os_shell_escape beyond (Some s) = Inr (Some e) \<and> length e \<le> 2 * length s \<and>
    shell_unescape e = s \<and>
    (\<forall>c\<in>set shell_escapes. \<forall>t. os_shell_escape_strchr (e @ t) c = os_shell_escape_strchr t c)"
proof -
  have "length (concat (map (escape_char beyond) s)) \<le> 2 * length s"
    by (induction s) (auto simp: escape_char_def)
  moreover have "os_shell_escape_strchr (concat (map (escape_char beyond) s) @ t) c =
      os_shell_escape_strchr t c" if "c \<in> set shell_escapes" for c t
    using that assms by (intro escape_strchr_none) (simp_all add: shell_special_iff)
  ultimately show ?thesis
    by (intro exI [of _ "concat (map (escape_char beyond) s)"] conjI os_shell_escape_eq
        unescape_escape ballI allI)
qed

theorem os_shell_escape_protects_witness:
  "\<exists>e. os_shell_escape [] (Some ''a;b'') = Inr (Some e) \<and> length e \<le> 2 * length ''a;b'' \<and>
    shell_unescape e = ''a;b'' \<and>
    (\<forall>c\<in>set shell_escapes. \<forall>t. os_shell_escape_strchr (e @ t) c = os_shell_escape_strchr t c)"
  by (rule os_shell_escape_protects) simp

section \<open>OS_WinExecdCleanArg\<close>

definition is_control_character :: "char \<Rightarrow> bool" where
  "is_control_character c \<longleftrightarrow> byte c < 32 \<or> byte c = 127"

fun OS_WinExecdCleanArg :: "string \<Rightarrow> string" where
  "OS_WinExecdCleanArg [] = []"
| "OS_WinExecdCleanArg (c # arg) =
     (if c = CHR 0x22 \<or> c = CHR ''%'' \<or> is_control_character c then CHR ''_'' else c)
     # OS_WinExecdCleanArg arg"

lemma OS_WinExecdCleanArg_clean:
  "length (OS_WinExecdCleanArg arg) = length arg \<and>
   (\<forall>c\<in>set (OS_WinExecdCleanArg arg). c \<noteq> CHR 0x22 \<and> c \<noteq> CHR ''%'' \<and> \<not> is_control_character c)"
  by (induction arg) (auto simp: is_control_character_def)

end
