(* ===== verification/File_Op.thy ===== *)
theory File_Op
  imports String_Op
begin

text \<open>
  Of \<^verbatim>\<open>shared/file_op.c\<close>: the check for references to a parent folder, the removal of control
  characters, and the merged file in which the manager sends its agents the shared files
  (\<open>MergeFiles\<close>, \<open>UnmergeFiles\<close>). The files are a map from paths to bytes; \<open>openw\<close> tells which paths
  can be opened for writing. The POSIX variants are modelled, with the Windows separators as the
  argument that the source has for them.
\<close>

section \<open>References to a parent folder\<close>

abbreviation "SL \<equiv> CHR ''/''"
abbreviation "BSL \<equiv> CHR 0x5C"

definition dotdot :: "(char \<Rightarrow> bool) \<Rightarrow> string \<Rightarrow> bool" where
  "dotdot sep s \<longleftrightarrow> deref s = CHR ''.'' \<and> deref (drop 1 s) = CHR ''.'' \<and> (length s \<le> 2 \<or> sep (deref (drop 2 s)))"

text \<open>The loop over all separators (\<open>strpbrk\<close>), and the one over \<open>/..\<close> (\<open>strstr\<close>).\<close>

fun seps_loop :: "string \<Rightarrow> bool" where
  "seps_loop [] = False"
| "seps_loop (c # s) = ((c \<in> {SL, BSL} \<and> dotdot (\<lambda>d. d \<in> {SL, BSL}) s) \<or> seps_loop s)"

function slash_loop :: "string \<Rightarrow> bool" where
  "slash_loop str =
     (case strstr str ''/..'' of
        None \<Rightarrow> False
      | Some i \<Rightarrow>
          let rest = drop (i + 3) str
          in rest = [] \<or> deref rest = SL \<or> slash_loop rest)"
  by pat_completeness auto
termination slash_loop
proof (relation "measure length", goal_cases)
  case (2 str i rest)
  from strstr_Some [OF 2(1)] have "prefix ''/..'' (drop i str)" by simp
  then have "length str - i \<ge> 3" by (auto dest: prefix_length_le)
  with 2(2) show ?case by simp
qed simp

declare slash_loop.simps [simp del]

definition w_ref_parent_folder_ex :: "string \<Rightarrow> bool \<Rightarrow> bool" where
  "w_ref_parent_folder_ex path win_seps \<longleftrightarrow>
     dotdot (\<lambda>d. d = SL \<or> win_seps \<and> d = BSL) path \<or>
     (if win_seps then seps_loop path else slash_loop path)"

text \<open>With \<open>path[0]\<close> NUL or \<open>.\<close> alone the source returns at once; there is no separator then.\<close>

definition w_ref_parent_folder :: "string \<Rightarrow> bool" where
  "w_ref_parent_folder path = w_ref_parent_folder_ex path False"

section \<open>Control characters and locations\<close>

definition remove_control_characters_ex :: "bool \<Rightarrow> string \<Rightarrow> string" where
  "remove_control_characters_ex preserve_nl str =
     filter (\<lambda>c. preserve_nl \<and> (c = NL \<or> c = CHR 0x09) \<or> \<not> is_control_character c) str"

text \<open>The suffix after the last \<open>->\<close>; \<open>p += 2\<close> skips both characters.\<close>

function last_arrow :: "string \<Rightarrow> string option \<Rightarrow> string option" where
  "last_arrow p arrow =
     (case strstr p ''->'' of
        None \<Rightarrow> arrow
      | Some i \<Rightarrow> last_arrow (drop (i + 2) p) (Some (drop (i + 2) p)))"
  by pat_completeness auto
termination last_arrow
proof (relation "measure (\<lambda>(p, _). length p)", goal_cases)
  case (2 p arrow i)
  from strstr_Some [OF 2] have "prefix ''->'' (drop i p)" by simp
  then have "length p - i \<ge> 2" by (auto dest: prefix_length_le)
  then show ?case by simp
qed simp

declare last_arrow.simps [simp del]

definition OS_IsSyscheckLocation :: "string option \<Rightarrow> bool" where
  "OS_IsSyscheckLocation location =
     (case location of
        None \<Rightarrow> False
      | Some l \<Rightarrow>
          l \<noteq> [] \<and>
          (let md = (case last_arrow l None of None \<Rightarrow> l | Some m \<Rightarrow> m)
           in strcmp md ''syscheck'' = 0 \<or> strcmp md ''syscheck-registry'' = 0))"

section \<open>The merged file\<close>

record files =
  contents :: "string \<Rightarrow> string option"
  openw :: "string \<Rightarrow> bool"

definition fwrite :: "string \<Rightarrow> string \<Rightarrow> files \<Rightarrow> files" where
  "fwrite name bytes fs = fs\<lparr>contents := (contents fs)(name := Some bytes)\<rparr>"

definition merge_entry_basename :: "string \<Rightarrow> string" where
  "merge_entry_basename path = rev (takeWhile (\<lambda>c. c \<noteq> SL) (rev path))"

definition merge_entry_name_ok :: "string \<Rightarrow> bool" where
  "merge_entry_name_ok name \<longleftrightarrow> name \<noteq> [] \<and> strchr name SL = None \<and> strchr name BSL = None \<and> strstr name ''..'' = None"

text \<open>One entry: the header line and the bytes of the file.\<close>

definition merge_entry :: "string \<Rightarrow> string \<Rightarrow> string" where
  "merge_entry name bytes = CHR ''!'' # dec_nat (length bytes) @ CHR '' '' # name @ NL # bytes"

fun merge_loop :: "files \<Rightarrow> string list \<Rightarrow> int \<Rightarrow> string \<Rightarrow> int \<times> string" where
  "merge_loop fs [] ret out = (ret, out)"
| "merge_loop fs (f # fl) ret out =
     (case contents fs f of
        None \<Rightarrow> merge_loop fs fl 0 out
      | Some bytes \<Rightarrow>
          let tmpfile = merge_entry_basename f in
          if \<not> merge_entry_name_ok tmpfile then merge_loop fs fl 0 out
          else merge_loop fs fl ret (out @ merge_entry tmpfile bytes))"

definition MergeFiles :: "string \<Rightarrow> string list \<Rightarrow> files \<Rightarrow> int \<times> files" where
  "MergeFiles finalpath fl fs =
     (if \<not> openw fs finalpath then (0, fs)
      else let (ret, out) = merge_loop (fwrite finalpath [] fs) fl 1 [] in (ret, fwrite finalpath out fs))"

definition MergeAppendFile :: "string \<Rightarrow> string option \<Rightarrow> files \<Rightarrow> int \<times> files" where
  "MergeAppendFile finalpath file fs =
     (if \<not> openw fs finalpath then (0, fs)
      else (case file of
              None \<Rightarrow> (1, fwrite finalpath [] fs)
            | Some f \<Rightarrow>
                let old = (case contents fs finalpath of None \<Rightarrow> [] | Some b \<Rightarrow> b); fs1 = fwrite finalpath old fs in
                (case contents fs1 f of
                   None \<Rightarrow> (0, fs1)
                 | Some bytes \<Rightarrow>
                     let tmpfile = merge_entry_basename f in
                     if \<not> merge_entry_name_ok tmpfile then (0, fs1)
                     else (1, fwrite finalpath (old @ merge_entry tmpfile bytes) fs1))))"

text \<open>
  The bytes of one entry, copied through a buffer of 2048 bytes: \<open>i\<close> is the size of the next read,
  \<open>files_size\<close> what is to follow.
\<close>

function read_chunks :: "nat \<Rightarrow> nat \<Rightarrow> string \<Rightarrow> string \<Rightarrow> string \<times> string" where
  "read_chunks i files_size input out =
     (if i = 0 \<or> input = [] then (out, input)
      else
        let out1 = out @ take i input; rest = drop i input in
        if files_size = 0 then (out1, rest)
        else if files_size < 2048 then read_chunks files_size 0 rest out1
        else read_chunks 2048 (files_size - 2048) rest out1)"
  by pat_completeness auto
termination read_chunks
  by (relation "measure (\<lambda>(_, _, input, _). length input)") auto

declare read_chunks.simps [simp del]

definition read_entry :: "nat \<Rightarrow> string \<Rightarrow> string \<times> string" where
  "read_entry files_size input =
     (if files_size < 2048 then read_chunks files_size 0 input []
      else read_chunks 2048 (files_size - 2048) input [])"

text \<open>\<open>atol\<close> saturates; the cast to \<open>size_t\<close> takes a negative size modulo \<open>2 ^ 64\<close>.\<close>

definition entry_size :: "string \<Rightarrow> nat" where
  "entry_size s = nat (max (- (2 ^ 63)) (min (2 ^ 63 - 1) (atoi s)) mod 2 ^ 64)"

definition entry_target :: "string option \<Rightarrow> string \<Rightarrow> string" where
  "entry_target optdir name =
     (case optdir of Some d \<Rightarrow> take 2047 (d @ SL # name) | None \<Rightarrow> take 2048 name)"

definition entry_refused :: "string \<Rightarrow> string \<Rightarrow> bool" where
  "entry_refused name final_name \<longleftrightarrow>
     strchr name SL \<noteq> None \<or> strchr name BSL \<noteq> None \<or> strstr name ''..'' \<noteq> None \<or>
     w_ref_parent_folder name \<or> w_ref_parent_folder final_name"

lemma read_chunks_take:
  "i \<noteq> 0 \<or> k = 0 \<Longrightarrow> read_chunks i k input out = (out @ take (i + k) input, drop (i + k) input)"
proof (induction i k input out rule: read_chunks.induct)
  case (1 i k input out)
  have t: "take i input @ take n (drop i input) = take (i + n) input" for n by (simp add: take_add)
  show ?case
    using 1(1) [OF _ refl refl] 1(2) [OF _ refl refl] 1(3)
    by (subst read_chunks.simps) (auto simp: Let_def t add.commute)
qed

text \<open>Read through the buffer, an entry is the next \<open>files_size\<close> bytes, or what there is.\<close>

lemma read_entry_take: "read_entry n input = (take n input, drop n input)"
  by (auto simp: read_entry_def read_chunks_take)

function unmerge_loop :: "string option \<Rightarrow> string \<Rightarrow> int \<Rightarrow> files \<Rightarrow> int \<times> files" where
  "unmerge_loop optdir input ret fs =
     (if input = [] then (ret, fs)
      else
        let (line, rest) = fgets 2047 input; buf = takeWhile (\<lambda>c. c \<noteq> NUL) line in
        if deref buf \<noteq> CHR ''!'' then unmerge_loop optdir rest ret fs
        else
          (case strchr (takeWhile (\<lambda>c. c \<noteq> NL) buf) (CHR '' '') of
             None \<Rightarrow> unmerge_loop optdir rest 0 fs
           | Some sp \<Rightarrow>
               let files = drop 1 sp; final_name = entry_target optdir files;
                   (bytes, rest1) = read_entry (entry_size (drop 1 buf)) rest
               in if entry_refused files final_name \<or> \<not> openw fs final_name
                  then unmerge_loop optdir rest1 0 fs
                  else unmerge_loop optdir rest1 ret (fwrite final_name bytes fs)))"
  by pat_completeness auto
termination unmerge_loop
  by (relation "measure (\<lambda>(_, input, _). length input)")
    (auto simp: read_entry_take dest!: fgets_less)

declare unmerge_loop.simps [simp del]

definition UnmergeFiles :: "string \<Rightarrow> string option \<Rightarrow> files \<Rightarrow> int \<times> files" where
  "UnmergeFiles finalpath optdir fs =
     (case contents fs finalpath of
        None \<Rightarrow> (0, fs)
      | Some input \<Rightarrow> unmerge_loop optdir input 1 fs)"

section \<open>The check finds exactly the parent folders\<close>

text \<open>\<open>..\<close> as a component behind a separator, and as the first component.\<close>

fun later_dotdot :: "string \<Rightarrow> bool" where
  "later_dotdot [] = False"
| "later_dotdot (c # s) = ((c = SL \<and> dotdot (\<lambda>d. d = SL) s) \<or> later_dotdot s)"

lemma hd_split_on: "hd (split_on d s) = takeWhile (\<lambda>c. c \<noteq> d) s"
  by (induction s) auto

lemma dotdot_takeWhile: "NUL \<notin> set s \<Longrightarrow> takeWhile (\<lambda>c. c \<noteq> SL) s = ''..'' \<longleftrightarrow> dotdot (\<lambda>d. d = SL) s"
proof (cases s rule: deref.cases)
  case (2 a t)
  assume "NUL \<notin> set s"
  with 2 show ?thesis
    by (cases t; cases "tl t") (auto simp: dotdot_def takeWhile_eq_Nil_iff)
qed (simp add: dotdot_def)

lemma later_dotdot_split: "NUL \<notin> set s \<Longrightarrow> ''..'' \<in> set (tl (split_on SL s)) \<longleftrightarrow> later_dotdot s"
proof (induction s)
  case (Cons c s)
  have "''..'' \<in> set (split_on SL s) \<longleftrightarrow> ''..'' = hd (split_on SL s) \<or> ''..'' \<in> set (tl (split_on SL s))"
    by (cases "split_on SL s") auto
  with Cons dotdot_takeWhile [of s] show ?case by (auto simp: hd_split_on)
qed simp

lemma dotdot_component:
  "NUL \<notin> set s \<Longrightarrow> ''..'' \<in> set (split_on SL s) \<longleftrightarrow> dotdot (\<lambda>d. d = SL) s \<or> later_dotdot s"
proof -
  assume n: "NUL \<notin> set s"
  have "''..'' \<in> set (split_on SL s) \<longleftrightarrow> ''..'' = hd (split_on SL s) \<or> ''..'' \<in> set (tl (split_on SL s))"
    by (cases "split_on SL s") auto
  with n dotdot_takeWhile [of s] later_dotdot_split [of s] show ?thesis by (auto simp: hd_split_on)
qed

lemma later_dotdot_prefix: "NUL \<notin> set s \<Longrightarrow> SL # t = s \<Longrightarrow> dotdot (\<lambda>d. d = SL) t \<Longrightarrow> prefix ''/..'' s"
  by (cases t; cases "tl t") (auto simp: dotdot_def)

lemma later_dotdot_drop:
  "\<forall>j<i. \<not> prefix ''/..'' (drop j s) \<Longrightarrow> NUL \<notin> set s \<Longrightarrow> later_dotdot s = later_dotdot (drop i s)"
proof (induction i arbitrary: s)
  case (Suc i)
  show ?case
  proof (cases s)
    case (Cons c t)
    have "\<not> prefix ''/..'' s" using Suc.prems(1) by (metis drop_0 zero_less_Suc)
    then have "\<not> (c = SL \<and> dotdot (\<lambda>d. d = SL) t)" using later_dotdot_prefix [of s t] Suc.prems(2) Cons by auto
    moreover have "\<forall>j<i. \<not> prefix ''/..'' (drop j t)" using Suc.prems(1) Cons by (metis Suc_mono drop_Suc_Cons)
    ultimately show ?thesis using Suc.IH [of t] Suc.prems(2) Cons by auto
  qed simp
qed simp

lemma slash_loop_later: "NUL \<notin> set s \<Longrightarrow> slash_loop s \<longleftrightarrow> later_dotdot s"
proof (induction s rule: slash_loop.induct)
  case (1 s)
  show ?case
  proof (cases "strstr s ''/..''")
    case None
    then have n: "\<not> sublist ''/..'' s" by (simp add: strstr_None)
    have "\<not> prefix ''/..'' (drop j s)" for j
      using n by (metis append_take_drop_id prefix_def sublist_def)
    then have "later_dotdot s = later_dotdot (drop (length s) s)" using later_dotdot_drop 1(2) by blast
    with None show ?thesis by (simp add: slash_loop.simps [of s])
  next
    case (Some i)
    note S = strstr_Some [OF Some]
    then obtain t where t: "drop i s = ''/..'' @ t" by (auto simp: prefix_def)
    then have "drop (i + 3) s = t"
      by (metis add.commute append_eq_conv_conj drop_drop length_Cons list.size(3) numeral_3_eq_3)
    moreover have "NUL \<notin> set t" using 1(2) t by (metis in_set_dropD list.set_intros(2) append_Cons append_self_conv2 Un_iff set_append)
    moreover have "later_dotdot s = later_dotdot (''/..'' @ t)" using later_dotdot_drop [of i s] S 1(2) t by simp
    ultimately show ?thesis using 1(1) [OF Some refl] Some
      by (cases t) (auto simp: slash_loop.simps [of s] Let_def dotdot_def)
  qed
qed

lemma seps_loop_later:
  "seps_loop s \<longleftrightarrow> later_dotdot (map (\<lambda>c. if c = BSL then SL else c) s)"
proof -
  have d: "dotdot (\<lambda>d. d = SL \<or> d = BSL) s \<longleftrightarrow> dotdot (\<lambda>d. d = SL) (map (\<lambda>c. if c = BSL then SL else c) s)" for s
    by (cases s; cases "tl s"; cases "tl (tl s)") (auto simp: dotdot_def)
  show ?thesis by (induction s) (auto simp: d)
qed

text \<open>
  C20. The check for references to a parent folder is exact: \<open>w_ref_parent_folder_ex\<close> answers 1 when
  \<open>..\<close> is a component of the path and 0 otherwise, with \<open>/\<close> as the separator or with \<open>/\<close> and \<open>\\\<close>.
  No spelling of the path hides a component, and names with more dots are no parent folders.
\<close>

theorem w_ref_parent_folder_exact:
  assumes "c_string path"
  shows "w_ref_parent_folder_ex path win_seps \<longleftrightarrow>
    ''..'' \<in> set (split_on SL (if win_seps then map (\<lambda>c. if c = BSL then SL else c) path else path))"
proof (cases win_seps)
  case True
  let ?m = "map (\<lambda>c. if c = BSL then SL else c) path"
  have n: "NUL \<notin> set ?m" using assms by (auto simp: c_string_def split: if_splits)
  have "dotdot (\<lambda>d. d = SL \<or> d = BSL) path \<longleftrightarrow> dotdot (\<lambda>d. d = SL) ?m"
    by (cases path; cases "tl path"; cases "tl (tl path)") (auto simp: dotdot_def)
  with dotdot_component [OF n] True show ?thesis by (simp add: w_ref_parent_folder_ex_def seps_loop_later)
next
  case False
  have n: "NUL \<notin> set path" using assms by (simp add: c_string_def)
  with dotdot_component [OF n] slash_loop_later [OF n] False show ?thesis by (simp add: w_ref_parent_folder_ex_def)
qed

section \<open>Locations\<close>

lemma last_arrow_last:
  "\<not> sublist ''->'' m \<Longrightarrow> last_arrow (p @ ''->'' @ m) a = Some m"
proof (induction "length p" arbitrary: p a rule: less_induct)
  case less
  have "sublist ''->'' (p @ ''->'' @ m)" by (metis sublist_appendI)
  then obtain i where i: "strstr (p @ ''->'' @ m) ''->'' = Some i" by (cases "strstr (p @ ''->'' @ m) ''->''") (auto simp: strstr_None)
  note S = strstr_Some [OF i]
  have le: "i \<le> length p"
  proof (rule ccontr)
    assume "\<not> i \<le> length p"
    then have "\<not> prefix ''->'' (drop (length p) (p @ ''->'' @ m))" using S by (meson not_le)
    then show False by simp
  qed
  show ?case
  proof (cases "i = length p")
    case True
    have "last_arrow m (Some m) = Some m" using less(2) by (subst last_arrow.simps) (simp add: strstr_None [symmetric])
    with i True show ?thesis by (subst last_arrow.simps) (simp del: append.simps, simp)
  next
    case False
    have "i \<noteq> length p - 1"
    proof
      assume "i = length p - 1"
      with False le have "drop i (p @ ''->'' @ m) = last p # ''->'' @ m"
        by (cases p rule: rev_cases) auto
      with S show False by simp
    qed
    with False le have l: "i + 2 \<le> length p" by simp
    then have d: "drop (i + 2) (p @ ''->'' @ m) = drop (i + 2) p @ ''->'' @ m" by simp
    have "last_arrow (p @ ''->'' @ m) a = last_arrow (drop (i + 2) p @ ''->'' @ m) (Some (drop (i + 2) p @ ''->'' @ m))"
      using i d by (subst last_arrow.simps) (simp del: append.simps drop_append)
    with less(1) [of "drop (i + 2) p"] less(2) l show ?thesis by simp
  qed
qed

text \<open>The module is what follows the last arrow, whatever the agent put before it.\<close>

lemma OS_IsSyscheckLocation_module:
  assumes "\<not> sublist ''->'' m" "c_string m"
  shows "OS_IsSyscheckLocation (Some (p @ ''->'' @ m)) \<longleftrightarrow> m = ''syscheck'' \<or> m = ''syscheck-registry''"
  using last_arrow_last [OF assms(1), of p None] assms(2)
  by (simp add: OS_IsSyscheckLocation_def Let_def strcmp_eq_0 del: append.simps)

section \<open>Merging and unmerging\<close>

text \<open>A file that can go through a merged file: a readable one with an acceptable name that fits a line.\<close>

definition mergeable :: "files \<Rightarrow> string \<Rightarrow> bool" where
  "mergeable fs f \<longleftrightarrow> contents fs f \<noteq> None \<and> merge_entry_name_ok (merge_entry_basename f) \<and>
     NL \<notin> set (merge_entry_basename f) \<and> c_string (merge_entry_basename f) \<and>
     int (length (the (contents fs f))) < 2 ^ 63 \<and>
     length (dec_nat (length (the (contents fs f))) @ merge_entry_basename f) < 2044"

lemma merge_loop_out:
  "list_all (mergeable fs) fl \<Longrightarrow>
   merge_loop fs fl ret out =
     (ret, out @ concat (map (\<lambda>f. merge_entry (merge_entry_basename f) (the (contents fs f))) fl))"
  by (induction fl arbitrary: out) (auto simp: mergeable_def)

lemma atoi_dec_nat: "atoi (dec_nat n @ CHR '' '' # s) = int n"
proof -
  have D: "\<forall>c\<in>set (dec_nat n). c_isdigit c" "digits_val 0 (dec_nat n) = n" using dec_nat_digits [of n] by auto
  have "dec_nat n \<noteq> []" by (subst dec_nat.simps) simp
  then obtain c t where c: "dec_nat n = c # t" by (cases "dec_nat n") auto
  have "c_isdigit c" using D(1) c by simp
  then have "\<not> c_isspace c" "c \<noteq> CHR ''-''" "c \<noteq> CHR ''+''" by (auto simp: c_isdigit_def c_isspace_def)
  moreover have "digits_val k (xs @ CHR '' '' # s) = digits_val k xs" for k xs
    by (induction xs arbitrary: k) (auto simp: c_isdigit_def)
  ultimately show ?thesis using D(2) c \<open>c_isdigit c\<close> by (simp add: atoi_def)
qed

lemma entry_size_dec: "int n < 2 ^ 63 \<Longrightarrow> entry_size (dec_nat n @ CHR '' '' # s) = n"
  by (simp add: entry_size_def atoi_dec_nat)

text \<open>One step of the reader on one entry.\<close>

lemma unmerge_entry:
  assumes name: "merge_entry_name_ok name" "NL \<notin> set name" "c_string name"
    and size: "int (length bytes) < 2 ^ 63" "length (dec_nat (length bytes) @ name) < 2044"
    and d: "''..'' \<notin> set (split_on SL d)" "c_string d" "length (d @ name) < 2046" "openw fs (d @ SL # name)"
  shows "unmerge_loop (Some d) (merge_entry name bytes @ rest) ret fs =
    unmerge_loop (Some d) rest ret (fwrite (d @ SL # name) bytes fs)"
proof -
  let ?n = "dec_nat (length bytes)" and ?t = "d @ SL # name"
  define h where "h = CHR ''!'' # ?n @ CHR '' '' # name"
  have dig: "\<forall>c\<in>set ?n. c_isdigit c" using dec_nat_digits by simp
  then have n: "NL \<notin> set ?n" "NUL \<notin> set ?n" "CHR '' '' \<notin> set ?n" by (auto simp: c_isdigit_def)
  have h: "NL \<notin> set h" "NUL \<notin> set h" using n name(2,3) by (auto simp: c_string_def h_def)
  have in_h: "merge_entry name bytes @ rest = h @ NL # bytes @ rest" by (simp add: merge_entry_def h_def)
  have f: "fgets 2047 (h @ NL # bytes @ rest) = (h @ [NL], bytes @ rest)"
    using fgets_short [OF h(1), of 2047 "bytes @ rest"] size(2) by (simp add: h_def)
  have buf: "takeWhile (\<lambda>c. c \<noteq> NUL) (h @ [NL]) = h @ [NL]" using h(2) by (auto simp: takeWhile_eq_all_conv)
  have cut: "takeWhile (\<lambda>c. c \<noteq> NL) (h @ [NL]) = h" using h(1) by (subst takeWhile_append2) auto
  have sp: "strchr h (CHR '' '') = Some (CHR '' '' # name)"
    using strchr_append [of "CHR '' ''" "CHR ''!'' # ?n" name] n(3) by (simp add: h_def)
  have size': "entry_size (drop 1 (h @ [NL])) = length bytes"
    using entry_size_dec [OF size(1), of "name @ [NL]"] by (simp add: h_def)
  have excl: "deref (h @ [NL]) = CHR ''!''" "h @ NL # bytes @ rest \<noteq> []" by (simp_all add: h_def)
  have tgt: "entry_target (Some d) name = ?t" using d(3) by (simp add: entry_target_def)
  have ok: "SL \<notin> set name" "BSL \<notin> set name" "strstr name ''..'' = None"
    using name(1) by (simp_all add: merge_entry_name_ok_def)
  then have nd: "name \<noteq> ''..''" by (auto simp: strstr_None)
  have "split_on SL ?t = split_on SL d @ [name]" using ok(1) by (induction d) auto
  then have "\<not> w_ref_parent_folder ?t"
    using w_ref_parent_folder_exact [of ?t False] d(1,2) name(3) nd by (simp add: w_ref_parent_folder_def)
  moreover have "\<not> w_ref_parent_folder name"
    using w_ref_parent_folder_exact [of name False] name(3) ok(1) nd by (simp add: w_ref_parent_folder_def)
  ultimately have "\<not> entry_refused name ?t" using ok by (simp add: entry_refused_def)
  with d(4) tgt excl show ?thesis
    unfolding in_h by (subst unmerge_loop.simps) (simp add: f buf cut sp size' read_entry_take del: drop_append One_nat_def, simp)
qed


text \<open>
  C19. A merged file cannot write outside its folder. Whatever its bytes are, every file that
  \<open>UnmergeFiles\<close> changes lies directly in \<open>optdir\<close>: its name there has no separator and no \<open>..\<close> in it.
\<close>

theorem UnmergeFiles_confined:
  assumes "UnmergeFiles m (Some d) fs = (r, fs')" "contents fs' p \<noteq> contents fs p" "length d < 2047"
  shows "\<exists>name. p = d @ SL # name \<and> SL \<notin> set name \<and> BSL \<notin> set name \<and> \<not> sublist ''..'' name"
proof -
  let ?in = "\<lambda>p. \<exists>name. p = d @ SL # name \<and> SL \<notin> set name \<and> BSL \<notin> set name \<and> \<not> sublist ''..'' name"
  have tgt: "?in (entry_target (Some d) n)" if "\<not> entry_refused n (entry_target (Some d) n)" for n
  proof -
    let ?k = "take (2046 - length d) n"
    have "2047 - length d = Suc (2046 - length d)" using assms(3) by simp
    then have "entry_target (Some d) n = d @ SL # ?k" using assms(3) by (simp add: entry_target_def take_Cons')
    moreover have "SL \<notin> set n" "BSL \<notin> set n" "\<not> sublist ''..'' n"
      using that by (auto simp: entry_refused_def strstr_None simp flip: strchr_None)
    moreover from this have "\<not> sublist ''..'' ?k" by (metis append_take_drop_id sublist_appendI sublist_def sublist_append_rightI sublist_order.order_trans)
    ultimately show ?thesis by (auto dest: in_set_takeD)
  qed
  have "?in p" if "unmerge_loop (Some d) input ret fs = (r, fs')" "contents fs' p \<noteq> contents fs p" for input ret fs
    using that
  proof (induction "Some d" input ret fs rule: unmerge_loop.induct)
    case (1 input ret fs)
    show ?case
    proof (rule ccontr)
      assume no: "\<not> ?in p"
      obtain line rest where f: "fgets 2047 input = (line, rest)" by force
      let ?buf = "takeWhile (\<lambda>c. c \<noteq> NUL) line"
      let ?sp = "strchr (takeWhile (\<lambda>c. c \<noteq> NL) ?buf) (CHR '' '')"
      have ne: "input \<noteq> []" using 1 by (auto simp: unmerge_loop.simps)
      note simps = unmerge_loop.simps [of "Some d" input ret fs]
      show False
      proof (cases "deref ?buf = CHR ''!''")
        case False
        with 1(1) [OF ne f [symmetric] refl] 1(5,6) ne f no show ?thesis by (simp add: simps)
      next
        case True
        show ?thesis
        proof (cases ?sp)
          case None
          with 1(2) [OF ne f [symmetric] refl] 1(5,6) ne f no True show ?thesis by (simp add: simps)
        next
          case (Some sp)
          let ?t = "entry_target (Some d) (drop 1 sp)" and ?z = "entry_size (drop 1 ?buf)"
          have e: "read_entry ?z rest = (take ?z rest, drop ?z rest)" by (rule read_entry_take)
          show ?thesis
          proof (cases "entry_refused (drop 1 sp) ?t \<or> \<not> openw fs ?t")
            case r: True
            with 1(3) [OF ne f [symmetric] refl refl _ Some refl refl e [symmetric] refl] 1(5,6) ne f no True Some e show ?thesis
              by (simp add: simps)
          next
            case r: False
            let ?fs1 = "fwrite ?t (take ?z rest) fs"
            have "contents ?fs1 p = contents fs p" using tgt r no by (auto simp: fwrite_def)
            with 1(4) [OF ne f [symmetric] refl refl _ Some refl refl e [symmetric] refl] 1(5,6) ne f no True Some e r show ?thesis
              by (simp add: simps)
          qed
        qed
      qed
    qed
  qed
  with assms(1,2) show ?thesis by (auto simp: UnmergeFiles_def split: option.splits)
qed

section \<open>Witnesses\<close>

theorem w_ref_parent_folder_exact_witness:
  "w_ref_parent_folder_ex ''queue/..x/../etc'' False \<and> \<not> w_ref_parent_folder_ex ''queue/..x/...'' True"
  using w_ref_parent_folder_exact [of "''queue/..x/../etc''" False] w_ref_parent_folder_exact [of "''queue/..x/...''" True]
  by simp

definition shared_files :: files where
  "shared_files = \<lparr>contents = [''etc/shared/agent.conf'' \<mapsto> ''<a>'' @ NL # ''!9 x'', ''etc/shared/win.txt'' \<mapsto> ''w''],
     openw = (\<lambda>_. True)\<rparr>"

definition no_files :: files where
  "no_files = \<lparr>contents = (\<lambda>_. None), openw = (\<lambda>_. True)\<rparr>"

lemma shared_mergeable:
  "list_all (mergeable (fwrite ''m'' [] shared_files)) [''etc/shared/agent.conf'', ''etc/shared/win.txt'']"
  by (simp add: mergeable_def fwrite_def shared_files_def merge_entry_basename_def merge_entry_name_ok_def dec_nat.simps)


theorem UnmergeFiles_confined_witness:
  "\<exists>name. ''shared/x'' = ''shared'' @ SL # name \<and> SL \<notin> set name \<and> BSL \<notin> set name \<and> \<not> sublist ''..'' name"
proof -
  let ?fs = "no_files\<lparr>contents := [''in'' \<mapsto> merge_entry ''x'' ''y'']\<rparr>"
  have "UnmergeFiles ''in'' (Some ''shared'') ?fs = (1, fwrite ''shared/x'' ''y'' ?fs)"
    using unmerge_entry [of "''x''" "''y''" "''shared''" ?fs "[]" 1]
    by (simp add: UnmergeFiles_def merge_entry_name_ok_def dec_nat.simps no_files_def unmerge_loop.simps [of _ "[]"])
  from UnmergeFiles_confined [OF this, of "''shared/x''"] show ?thesis by (simp add: fwrite_def no_files_def)
qed

end
