(* ===== verification/Clean_Event.thy ===== *)
theory Clean_Event
  imports Prelude_Mem File_Op Analysis_Types
begin

text \<open>
  \<^verbatim>\<open>analysisd/cleanevent.c\<close>: the first step of the analysis, which takes a message
  \<^verbatim>\<open>id:location:log\<close> from the queue, checks and cleans it, finds the format of its date, and
  extracts the host name, the program name and the log proper. The source walks over one copy of the
  log with pointers and ends the parts it finds with NUL bytes; here the copy is a buffer of bytes
  and a pointer a position in it. \<open>None\<close> is an access outside of the buffer, \<open>Inl FORMAT_ERROR\<close> the
  return of \<open>-1\<close>.
\<close>

section \<open>Characters\<close>

definition hostname_map :: "nat list" where
  "hostname_map =
    [0, 0, 2, 3, 4, 5, 6, 7, 8, 9, 10, 11, 12, 13, 14, 15,
     16, 17, 18, 19, 20, 21, 22, 23, 24, 25, 26, 27, 28, 29, 30, 31,
     32, 33, 34, 35, 36, 37, 38, 39, 1, 1, 42, 43, 44, 1, 1, 1,
     1, 1, 1, 1, 1, 1, 1, 1, 1, 1, 58, 59, 60, 61, 62, 63,
     1, 1, 1, 1, 1, 1, 1, 1, 1, 1, 1, 1, 1, 1, 1, 1,
     1, 1, 1, 1, 1, 1, 1, 1, 1, 1, 1, 91, 92, 93, 94, 1,
     96, 1, 1, 1, 1, 1, 1, 1, 1, 1, 1, 1, 1, 1, 1, 1,
     1, 1, 1, 1, 1, 1, 1, 1, 1, 1, 1, 123, 124, 125, 126, 127,
     128, 129, 130, 131, 132, 133, 134, 135, 136, 137, 138, 139, 140, 141, 142, 143,
     144, 145, 146, 147, 148, 149, 150, 151, 152, 153, 154, 155, 156, 157, 158, 159,
     160, 161, 162, 163, 164, 165, 166, 167, 168, 169, 170, 171, 172, 173, 174, 175,
     176, 177, 178, 179, 180, 181, 182, 183, 184, 185, 186, 187, 188, 189, 190, 191,
     192, 193, 194, 195, 196, 197, 198, 199, 200, 201, 202, 203, 204, 205, 206, 207,
     208, 209, 210, 211, 212, 213, 214, 215, 216, 217, 218, 219, 220, 221, 222, 223,
     224, 225, 226, 227, 228, 229, 230, 231, 232, 233, 234, 235, 236, 237, 238, 239,
     240, 241, 242, 243, 244, 245, 246, 247, 240, 241, 242, 243, 244, 245, 246, 247]"

definition isValidChar :: "char \<Rightarrow> nat" where
  "isValidChar x = hostname_map ! byte x"

abbreviation valid :: "char \<Rightarrow> bool" where
  "valid c \<equiv> isValidChar c = 1"

definition c_islower :: "char \<Rightarrow> bool" where
  "c_islower c \<longleftrightarrow> 97 \<le> byte c \<and> byte c \<le> 122"

definition c_isalnum :: "char \<Rightarrow> bool" where
  "c_isalnum c \<longleftrightarrow> c_isdigit c \<or> 65 \<le> byte c \<and> byte c \<le> 90 \<or> c_islower c"

abbreviation eqc :: "char \<Rightarrow> char \<Rightarrow> bool" where
  "eqc c \<equiv> (\<lambda>d. d = c)"

section \<open>Formats of the date\<close>

text \<open>
  What stands before the log: a syslog date of so many bytes, or one of the other formats. \<open>b\<close>, \<open>p\<close>
  is the message with \<open>pieces\<close>, \<open>n\<close> is \<open>loglen\<close>, the size of the log with its NUL.
\<close>

datatype log_format = Syslog nat | Xferlog | Snort | Suricata | Apache | Asl | Squid | Plain

definition date_is :: "string \<Rightarrow> nat \<Rightarrow> bool \<Rightarrow> (nat \<times> (char \<Rightarrow> bool)) list \<Rightarrow> bool option" where
  "date_is b p guard tests = (if guard then offsets b p tests else Some False)"

fun first_colon :: "string \<Rightarrow> nat \<Rightarrow> (nat \<times> nat) list \<Rightarrow> nat option option" where
  "first_colon b p [] = Some None"
| "first_colon b p ((k, off) # ks) =
     do { c \<leftarrow> rd b (p + k); if c = CHR '':'' then Some (Some off) else first_colon b p ks }"

definition iso_date :: "string \<Rightarrow> nat \<Rightarrow> nat option option" where
  "iso_date b p =
     do {
       zone \<leftarrow> offsets b p [(22, eqc CHR '':''), (25, eqc CHR '' '')];
       if zone then Some (Some 26)
       else do {
         c \<leftarrow> rd b (p + 19);
         if c = CHR ''.'' \<or> c = CHR '',''
         then first_colon b p [(24, 27), (25, 28), (26, 29), (27, 30), (28, 31), (29, 32)]
         else Some None
       }
     }"

definition syslog_date :: "string \<Rightarrow> nat \<Rightarrow> nat \<Rightarrow> nat option option" where
  "syslog_date b p n =
     do {
       bsd \<leftarrow> date_is b p (n > 17)
         [(3, eqc CHR '' ''), (6, eqc CHR '' ''), (9, eqc CHR '':''), (12, eqc CHR '':''), (15, eqc CHR '' '')];
       if bsd then Some (Some 16)
       else do {
         proftpd \<leftarrow> date_is b p (n > 24)
           [(4, eqc CHR ''-''), (7, eqc CHR ''-''), (10, eqc CHR '' ''), (13, eqc CHR '':''), (16, eqc CHR '':''),
            (19, eqc CHR '','')];
         if proftpd then Some (Some 23)
         else do {
           iso \<leftarrow> date_is b p (n > 33)
             [(4, eqc CHR ''-''), (7, eqc CHR ''-''), (10, eqc CHR ''T''), (13, eqc CHR '':''), (16, eqc CHR '':'')];
           isodate \<leftarrow> (if iso then iso_date b p else Some None);
           case isodate of
             Some off \<Rightarrow> Some (Some off)
           | None \<Rightarrow> do {
               year \<leftarrow> date_is b p (n > 21)
                 [(0, c_isdigit), (4, eqc CHR '' ''), (8, eqc CHR '' ''), (11, eqc CHR '' ''), (14, eqc CHR '':''),
                  (17, eqc CHR '':''), (20, eqc CHR '' '')];
               if year then Some (Some 21)
               else do {
                 colons \<leftarrow> date_is b p (n > 20)
                   [(0, c_isdigit), (4, eqc CHR '':''), (7, eqc CHR '':''), (10, eqc CHR ''-''), (13, eqc CHR '':''),
                    (16, eqc CHR '':'')];
                 Some (if colons then Some 20 else None)
               }
             }
         }
       }
     }"

definition other_formats :: "nat \<Rightarrow> (log_format \<times> bool \<times> (nat \<times> (char \<Rightarrow> bool)) list) list" where
  "other_formats n =
     [(Xferlog, n > 28,
        [(3, eqc CHR '' ''), (7, eqc CHR '' ''), (10, eqc CHR '' ''), (13, eqc CHR '':''), (16, eqc CHR '':''),
         (19, eqc CHR '' ''), (24, eqc CHR '' ''), (26, eqc CHR '' '')]),
      (Snort, n > 24,
        [(2, eqc CHR ''/''), (5, eqc CHR ''-''), (8, eqc CHR '':''), (11, eqc CHR '':''), (14, eqc CHR ''.''),
         (21, eqc CHR '' '')]),
      (Suricata, n > 28,
        [(2, eqc CHR ''/''), (5, eqc CHR ''/''), (10, eqc CHR ''-''), (13, eqc CHR '':''), (16, eqc CHR '':''),
         (19, eqc CHR ''.''), (26, eqc CHR '' '')]),
      (Apache, n > 27,
        [(0, eqc CHR ''[''), (4, eqc CHR '' ''), (8, eqc CHR '' ''), (11, eqc CHR '' ''), (14, eqc CHR '':''),
         (17, eqc CHR '':''), (20, eqc CHR '' ''), (25, eqc CHR '']'')]),
      (Asl, n > 26,
        [(0, eqc CHR ''[''), (1, eqc CHR ''T''), (5, eqc CHR '' ''), (10, eqc CHR ''.''), (13, eqc CHR ''.''),
         (16, eqc CHR '' ''), (19, eqc CHR '':'')])]"

definition squid_date :: "string \<Rightarrow> nat \<Rightarrow> nat \<Rightarrow> bool option" where
  "squid_date b p n =
     do {
       secs \<leftarrow> date_is b p (n > 32)
         [(0, eqc CHR ''1''), (1, c_isdigit), (2, c_isdigit), (3, c_isdigit), (10, eqc CHR ''.''), (13, c_isdigit),
          (14, eqc CHR '' '')];
       if \<not> secs then Some False
       else do {
         c \<leftarrow> rd b (p + 21);
         if c = CHR '' '' then Some True else rd b (p + 22) \<bind> (\<lambda>d. Some (d = CHR '' ''))
       }
     }"

fun first_format ::
  "string \<Rightarrow> nat \<Rightarrow> (log_format \<times> bool \<times> (nat \<times> (char \<Rightarrow> bool)) list) list \<Rightarrow> log_format option option"
where
  "first_format b p [] = Some None"
| "first_format b p ((f, guard, tests) # fs) =
     do { m \<leftarrow> date_is b p guard tests; if m then Some (Some f) else first_format b p fs }"

definition find_format :: "string \<Rightarrow> nat \<Rightarrow> nat \<Rightarrow> log_format option" where
  "find_format b p n =
     do {
       date \<leftarrow> syslog_date b p n;
       case date of
         Some off \<Rightarrow> Some (Syslog off)
       | None \<Rightarrow> do {
           other \<leftarrow> first_format b p (other_formats n);
           case other of
             Some f \<Rightarrow> Some f
           | None \<Rightarrow> squid_date b p n \<bind> (\<lambda>m. Some (if m then Squid else Plain))
         }
     }"

text \<open>
  The bytes of a log that begins with \<^verbatim>\<open>M\<close> and an umlaut are moved by one, in the message only:
  the copies that become \<open>full_log\<close> and \<open>log\<close> keep the umlaut.
\<close>

definition repair_umlaut :: "string \<Rightarrow> nat \<Rightarrow> (string \<times> nat) option" where
  "repair_umlaut b n =
     (if n > 3
      then do {
        c \<leftarrow> rd b 1;
        if c = CHR 0xC3
        then do {
          d \<leftarrow> rd b 2;
          if d = CHR 0xA4
          then do { b1 \<leftarrow> wr b 0 NUL; b2 \<leftarrow> wr b1 1 CHR ''M''; b3 \<leftarrow> wr b2 2 CHR ''a''; Some (b3, 1) }
          else Some (b, 0)
        }
        else Some (b, 0)
      }
      else Some (b, 0))"

section \<open>Host name and program name\<close>

text \<open>
  \<open>lf->log\<close>, \<open>lf->hostname\<close> and \<open>lf->program_name\<close> point into the copy of the log: positions in its
  buffer.
\<close>

record cleaned =
  ce_buf :: string
  ce_log :: nat
  ce_host :: "nat option"
  ce_prog :: "nat option"
  ce_psize :: nat

text \<open>
  After the program name that starts at \<open>p\<close>: the digits of \<open>[pid]\<close> from \<open>q\<close> on, and how the number
  may end. Other logs get their bracket back and have no program name. The last component is
  \<open>pieces\<close>, NULL when the log stays where it is.
\<close>

definition pid_name :: "string \<Rightarrow> nat \<Rightarrow> nat \<Rightarrow> (string \<times> nat option \<times> nat option) option" where
  "pid_name b p q =
     do {
       r \<leftarrow> skip c_isdigit b q;
       colon \<leftarrow> looking b r [eqc CHR '']'', eqc CHR '':'', eqc CHR '' ''];
       if colon then Some (b, Some p, Some (r + 3))
       else do {
         space \<leftarrow> looking b r [eqc CHR '']'', eqc CHR '' ''];
         if space then Some (b, Some p, Some (r + 2))
         else do {
           s \<leftarrow> rskip c_isdigit b (r - 1);
           c \<leftarrow> rd b s;
           b1 \<leftarrow> (if c = NUL then wr b s CHR ''['' else Some b);
           Some (b1, None, None)
         }
       }
     }"

text \<open>The same after the facility and the severity of AIX; here a pid has one way to end.\<close>

definition aix_prog :: "string \<Rightarrow> nat \<Rightarrow> (string \<times> nat option \<times> nat option) option" where
  "aix_prog b p =
     do {
       q \<leftarrow> skip valid b p;
       colon \<leftarrow> looking b q [eqc CHR '':'', eqc CHR '' ''];
       if colon then do { b1 \<leftarrow> wr b q NUL; Some (b1, Some p, Some (q + 2)) }
       else do {
         pid \<leftarrow> looking b q [eqc CHR ''['', c_isdigit];
         if pid
         then do {
           b1 \<leftarrow> wr b q NUL;
           r \<leftarrow> skip c_isdigit b1 (q + 2);
           closed \<leftarrow> looking b1 r [eqc CHR '']'', eqc CHR '':'', eqc CHR '' ''];
           Some (b1, Some p, if closed then Some (r + 3) else None)
         }
         else Some (b, Some p, Some q)
       }
     }"

definition aix_name :: "string \<Rightarrow> nat \<Rightarrow> (string \<times> nat option \<times> nat option) option" where
  "aix_name b q =
     do {
       r \<leftarrow> skip c_isalnum b q;
       c \<leftarrow> rd b r;
       if c = CHR '':''
       then do {
         s \<leftarrow> skip c_isalnum b (r + 1);
         d \<leftarrow> rd b s;
         if d = CHR '' '' then aix_prog b (s + 1) else Some (b, None, None)
       }
       else Some (b, None, None)
     }"

definition prog_name :: "string \<Rightarrow> nat \<Rightarrow> (string \<times> nat option \<times> nat option) option" where
  "prog_name b p =
     do {
       q \<leftarrow> skip valid b p;
       colon \<leftarrow> looking b q [eqc CHR '':'', eqc CHR '' ''];
       if colon then do { b1 \<leftarrow> wr b q NUL; Some (b1, Some p, Some (q + 2)) }
       else do {
         pid \<leftarrow> looking b q [eqc CHR ''['', c_isdigit];
         if pid then do { b1 \<leftarrow> wr b q NUL; pid_name b1 p (q + 2) }
         else do {
           aix \<leftarrow> looking b q [eqc CHR ''|'', c_islower];
           if aix then aix_name b (q + 2) else Some (b, None, None)
         }
       }
     }"

text \<open>\<^verbatim>\<open>[ID xx facility.severity]\<close> before the log.\<close>

definition skip_id :: "string \<Rightarrow> nat \<Rightarrow> nat option" where
  "skip_id b p =
     do {
       idm \<leftarrow> looking b p [eqc CHR ''['', eqc CHR ''I'', eqc CHR ''D'', eqc CHR '' ''];
       if idm then strstr_at b (p + 4) ''] '' \<bind> (\<lambda>r. Some (case r of Some q \<Rightarrow> q + 2 | None \<Rightarrow> p))
       else Some p
     }"

definition host_prog :: "string \<Rightarrow> nat \<Rightarrow> (string \<times> nat \<times> nat option \<times> nat option \<times> nat option) option" where
  "host_prog b p =
     do {
       q \<leftarrow> skip valid b p;
       solaris \<leftarrow> looking b q [eqc CHR '':'', eqc CHR '' ''];
       if solaris then do { b1 \<leftarrow> wr b q NUL; Some (b1, q + 2, None, Some p, Some (q + 2)) }
       else do {
         c \<leftarrow> rd b q;
         if c \<noteq> CHR '' '' then Some (b, p, None, None, None)
         else do {
           b1 \<leftarrow> wr b q NUL;
           (b2, prog, pieces) \<leftarrow> prog_name b1 (q + 1);
           Some (b2, q + 1, Some p, prog, pieces)
         }
       }
     }"

definition syslog_fields :: "string \<Rightarrow> nat \<Rightarrow> cleaned option" where
  "syslog_fields b p0 =
     do {
       c \<leftarrow> rd b p0;
       (b1, log, host, prog, pieces) \<leftarrow> host_prog b (if c = CHR '' '' then p0 + 1 else p0);
       log1 \<leftarrow> (case pieces of Some r \<Rightarrow> skip_id b1 r | None \<Rightarrow> Some log);
       psize \<leftarrow> (case prog of Some q \<Rightarrow> map_option length (str_at b1 q) | None \<Rightarrow> Some 0);
       Some \<lparr>ce_buf = b1, ce_log = log1, ce_host = host, ce_prog = prog, ce_psize = psize\<rparr>
     }"

section \<open>The log of Apple's system logger\<close>

text \<open>
  The body of the loop over the entries \<open>[Key value]\<close>, at the byte after a bracket: the new state,
  whether the message has been seen, and where to look for the next bracket; \<open>None\<close> there is \<open>break\<close>.
\<close>

definition close_entry :: "string \<Rightarrow> nat \<Rightarrow> (string \<times> nat) option option" where
  "close_entry b p =
     do {
       r \<leftarrow> strchr_at b p CHR '']'';
       case r of
         None \<Rightarrow> Some None
       | Some q \<Rightarrow> do { b1 \<leftarrow> wr b q NUL; Some (Some (b1, q + 1)) }
     }"

definition asl_step :: "cleaned \<Rightarrow> bool \<Rightarrow> nat \<Rightarrow> (cleaned \<times> bool \<times> nat option) option" where
  "asl_step st done_message p =
     do {
       sender \<leftarrow> strncmp_at (ce_buf st) p ''Sender '';
       message \<leftarrow> strncmp_at (ce_buf st) p ''Message '';
       host \<leftarrow> strncmp_at (ce_buf st) p ''Host '';
       if sender \<and> ce_prog st = None
       then do {
         r \<leftarrow> close_entry (ce_buf st) (p + 7);
         case r of
           None \<Rightarrow> Some (st, done_message, None)
         | Some (b1, q) \<Rightarrow> do {
             prog \<leftarrow> str_at b1 (p + 7);
             Some (st\<lparr>ce_buf := b1, ce_prog := Some (p + 7), ce_psize := length prog\<rparr>, done_message, Some q)
           }
       }
       else if message \<and> \<not> done_message
       then do {
         r \<leftarrow> close_entry (ce_buf st) (p + 8);
         Some (case r of
                 None \<Rightarrow> (st\<lparr>ce_log := p + 8\<rparr>, True, None)
               | Some (b1, q) \<Rightarrow> (st\<lparr>ce_buf := b1, ce_log := p + 8\<rparr>, True, Some q))
       }
       else if host
       then do {
         r \<leftarrow> close_entry (ce_buf st) (p + 5);
         Some (case r of
                 None \<Rightarrow> (st\<lparr>ce_host := None\<rparr>, done_message, None)
               | Some (b1, q) \<Rightarrow> (st\<lparr>ce_buf := b1, ce_host := Some (p + 5)\<rparr>, done_message, None))
       }
       else Some (st, done_message, Some p)
     }"

lemma close_entry_next: "close_entry b p = Some (Some (b1, q)) \<Longrightarrow> p < q \<and> length b1 = length b"
  by (auto simp: close_entry_def bind_eq_Some_conv split: option.splits dest!: strchr_at_bounds wr_length)

lemma asl_step_next:
  "asl_step st d p = Some (st', d', Some r) \<Longrightarrow> p \<le> r \<and> length (ce_buf st') = length (ce_buf st)"
  unfolding asl_step_def bind_eq_Some_conv
  by (elim exE conjE) (auto simp: bind_eq_Some_conv split: if_splits option.splits dest!: close_entry_next)

function asl_loop :: "cleaned \<Rightarrow> bool \<Rightarrow> nat \<Rightarrow> cleaned option" where
  "asl_loop st done_message p =
     (case strchr_at (ce_buf st) p CHR ''['' of
        None \<Rightarrow> None
      | Some None \<Rightarrow> Some st
      | Some (Some q) \<Rightarrow>
          (case asl_step st done_message (q + 1) of
             None \<Rightarrow> None
           | Some (st1, d1, None) \<Rightarrow> Some st1
           | Some (st1, d1, Some r) \<Rightarrow> asl_loop st1 d1 r))"
  by pat_completeness auto
termination asl_loop
proof (relation "measure (\<lambda>(st, _, p). length (ce_buf st) - p)", goal_cases)
  case (2 st d p q)
  then show ?case by (auto dest!: strchr_at_bounds asl_step_next)
qed simp

declare asl_loop.simps [simp del]

section \<open>The event\<close>

text \<open>\<open>b\<close> is the copy of the log. A plain log has nothing extracted.\<close>

definition at_log :: "string \<Rightarrow> nat \<Rightarrow> cleaned" where
  "at_log b p = \<lparr>ce_buf = b, ce_log = p, ce_host = None, ce_prog = None, ce_psize = 0\<rparr>"

definition pre_decode :: "string \<Rightarrow> log_format \<Rightarrow> cleaned option" where
  "pre_decode b fmt =
     (case fmt of
        Syslog off \<Rightarrow> syslog_fields b off
      | Xferlog \<Rightarrow> Some (at_log b 24)
      | Snort \<Rightarrow> Some (at_log b 23)
      | Suricata \<Rightarrow> Some (at_log b 28)
      | Apache \<Rightarrow> Some (at_log b 27)
      | Asl \<Rightarrow> asl_loop (at_log b 25) False 25
      | Squid \<Rightarrow> map_option (at_log b) (skip (eqc CHR '' '') b 14)
      | Plain \<Rightarrow> Some (at_log b 0))"

text \<open>The location ends at the first colon, or after the address of an agent.\<close>

definition split_location :: "string \<Rightarrow> (string \<times> string) option" where
  "split_location msg =
     (case strchr msg CHR '':'' of
        None \<Rightarrow> None
      | Some pieces \<Rightarrow>
          (if deref msg = CHR ''(''
           then (case strstr msg ''->'' of
                   None \<Rightarrow> None
                 | Some i \<Rightarrow>
                     (case strchr (drop i msg) CHR '':'' of
                        None \<Rightarrow> None
                      | Some rest \<Rightarrow> Some (take (length msg - length rest) msg, tl rest)))
           else Some (take (length msg - length pieces) msg, tl pieces)))"

definition location_agent :: "string \<Rightarrow> string option" where
  "location_agent loc =
     (if deref loc = CHR ''(''
      then (case strchr (drop 1 loc) CHR '')'' of
              None \<Rightarrow> None
            | Some e \<Rightarrow> (let n = length (drop 1 loc) - length e in if n > 0 then Some (take n (drop 1 loc)) else None))
      else None)"

text \<open>The time, as \<open>localtime_r\<close> of the C library gives it.\<close>

record tm =
  tm_sec :: nat
  tm_min :: nat
  tm_hour :: nat
  tm_mday :: nat
  tm_mon :: nat
  tm_year :: int
  tm_wday :: nat

record time_globals =
  c_time :: int
  crt_hour :: nat
  crt_wday :: nat

definition month :: "string list" where
  "month = [''Jan'', ''Feb'', ''Mar'', ''Apr'', ''May'', ''Jun'',
            ''Jul'', ''Aug'', ''Sep'', ''Oct'', ''Nov'', ''Dec'']"

definition dec2 :: "nat \<Rightarrow> string" where
  "dec2 n = (if n < 10 then CHR ''0'' # dec_nat n else dec_nat n)"

definition hour_text :: "tm \<Rightarrow> string" where
  "hour_text p = take 8 (dec2 (tm_hour p) @ CHR '':'' # dec2 (tm_min p) @ CHR '':'' # dec2 (tm_sec p))"

definition event_time :: "tm \<Rightarrow> int \<Rightarrow> Eventinfo \<Rightarrow> Eventinfo" where
  "event_time p recv_time lf =
     lf\<lparr>lf_time := recv_time, lf_day := int (tm_mday p), lf_year := tm_year p + 1900,
        lf_mon := take 3 (month ! tm_mon p), lf_hour := hour_text p\<rparr>"

datatype clean_error = FORMAT_ERROR

definition cleaned_event :: "string \<Rightarrow> string \<Rightarrow> string \<Rightarrow> cleaned \<Rightarrow> Eventinfo \<Rightarrow> Eventinfo option" where
  "cleaned_event shost loc body st lf =
     do {
       log \<leftarrow> str_at (ce_buf st) (ce_log st);
       host \<leftarrow> (case ce_host st of Some p \<Rightarrow> map_option Some (str_at (ce_buf st) p) | None \<Rightarrow> Some None);
       prog \<leftarrow> (case ce_prog st of Some p \<Rightarrow> map_option Some (str_at (ce_buf st) p) | None \<Rightarrow> Some None);
       let agent = location_agent loc in
       Some (lf\<lparr>lf_full_log := body, lf_log := log, lf_location := Some loc,
                lf_program_name := prog, lf_p_name_size := ce_psize st,
                lf_agent_name := agent,
                lf_hostname :=
                  (case host of
                     Some h \<Rightarrow> Some h
                   | None \<Rightarrow> (case agent of Some a \<Rightarrow> Some a | None \<Rightarrow> Some shost))\<rparr>)
     }"

definition OS_CleanMSG_ex ::
  "(int \<Rightarrow> tm) \<Rightarrow> string \<Rightarrow> string \<Rightarrow> Eventinfo \<Rightarrow> int \<Rightarrow> bool \<Rightarrow> time_globals \<Rightarrow>
   (clean_error + Eventinfo \<times> time_globals) option"
where
  "OS_CleanMSG_ex localtime_r shost msg lf recv_time update_time_globals g =
     (if length msg < 2 then None
      else case split_location (drop 2 msg) of
        None \<Rightarrow> Some (Inl FORMAT_ERROR)
      | Some (loc0, log0) \<Rightarrow>
          let loc = remove_control_characters_ex False loc0 in
          if w_ref_parent_folder loc then Some (Inl FORMAT_ERROR)
          else do {
            let body = remove_control_characters_ex (OS_IsSyscheckLocation (Some loc)) log0;
            let buf = body @ [NUL];
            (b, pieces) \<leftarrow> repair_umlaut buf (length body + 1);
            fmt \<leftarrow> find_format b pieces (length body + 1);
            st \<leftarrow> pre_decode buf fmt;
            ev \<leftarrow> cleaned_event shost loc body st lf;
            let p = localtime_r recv_time in
            Some (Inr (event_time p recv_time ev,
                       if update_time_globals then \<lparr>c_time = recv_time, crt_hour = tm_hour p, crt_wday = tm_wday p\<rparr>
                       else g))
          })"

definition OS_CleanMSG ::
  "(int \<Rightarrow> tm) \<Rightarrow> string \<Rightarrow> string \<Rightarrow> Eventinfo \<Rightarrow> time_globals \<Rightarrow> (clean_error + Eventinfo \<times> time_globals) option"
where
  "OS_CleanMSG localtime_r shost msg lf g = OS_CleanMSG_ex localtime_r shost msg lf (c_time g) True g"

section \<open>The walk stays inside the buffer and only cuts it\<close>

lemma separators [simp]:
  "isValidChar NUL = 0" "\<not> c_isdigit NUL" "\<not> c_isalnum NUL" "\<not> c_islower NUL"
  by (simp_all add: isValidChar_def hostname_map_def c_isdigit_def c_isalnum_def c_islower_def)

text \<open>A result of the name parsers: a cuts buffer, and positions inside of it.\<close>

definition name_ok :: "string \<Rightarrow> string \<times> nat option \<times> nat option \<Rightarrow> bool" where
  "name_ok b0 r = (case r of (b, prog, pieces) \<Rightarrow>
     cuts b0 b \<and> (\<forall>q. prog = Some q \<longrightarrow> q < length b0) \<and> (\<forall>q. pieces = Some q \<longrightarrow> q < length b0))"

lemma pid_restore:
  assumes "2 \<le> q" "q < length b" "b ! (q - 2) = NUL" "c_isdigit (b ! (q - 1))"
    and "q \<le> r" "r < length b" "\<forall>i. q \<le> i \<and> i < r \<longrightarrow> c_isdigit (b ! i)"
    and "\<And>s. s < length b \<Longrightarrow> (b ! s = NUL \<Longrightarrow> s = q - 2) \<Longrightarrow> Q s"
  shows "holds (rskip c_isdigit b (r - Suc 0)) Q"
proof -
  have digits: "c_isdigit (b ! i)" if "q - 1 \<le> i" "i \<le> r - 1" for i
  proof (cases "i = q - 1")
    case False
    with that assms(1,5) have "q \<le> i" "i < r" by linarith+
    with assms(7) show ?thesis by blast
  qed (use assms(4) in simp)
  have "holds (rskip c_isdigit b (r - 1))
      (\<lambda>s. q - 2 \<le> s \<and> s \<le> r - 1 \<and> \<not> c_isdigit (b ! s) \<and> (\<forall>i. s < i \<and> i \<le> r - 1 \<longrightarrow> c_isdigit (b ! i)))"
    using assms by (intro holds_rskip) auto
  then show ?thesis unfolding One_nat_def
  proof (rule holds_mono)
    fix s
    assume s: "q - 2 \<le> s \<and> s \<le> r - Suc 0 \<and> \<not> c_isdigit (b ! s) \<and> (\<forall>i. s < i \<and> i \<le> r - Suc 0 \<longrightarrow> c_isdigit (b ! i))"
    with digits [of s] have "s = q - 2" unfolding One_nat_def by linarith
    with assms(2,8) show "Q s" by simp
  qed
qed

lemma pid_name_inside:
  assumes "terminated b" "cuts b0 b" "p < length b" "2 \<le> q" "q < length b"
    and "b ! (q - 2) = NUL" "b0 ! (q - 2) = CHR ''[''" "c_isdigit (b ! (q - 1))"
  shows "holds (pid_name b p q) (name_ok b0)"
  unfolding pid_name_def holds_bind
  using assms
  by (intro skip_inside looking_inside)
    (auto simp: name_ok_def cuts_length All_less_Suc
      intro!: skip_inside looking_inside pid_restore [of q] holds_rd holds_wr cuts_write)

lemma aix_prog_inside:
  assumes "terminated b" "cuts b0 b" "p < length b"
  shows "holds (aix_prog b p) (name_ok b0)"
proof -
  have w: "q < length b \<Longrightarrow> terminated (b[q := NUL])" for q
    using assms by (metis cuts_refl cuts_terminated cuts_write)
  show ?thesis
    unfolding aix_prog_def holds_bind
    using assms w
    by (intro skip_inside looking_inside)
      (auto simp: name_ok_def cuts_length All_less_Suc intro!: skip_inside looking_inside holds_rd holds_wr cuts_write)
qed

lemma aix_name_inside:
  assumes "terminated b" "cuts b0 b" "p < length b"
  shows "holds (aix_name b p) (name_ok b0)"
  unfolding aix_name_def holds_bind
  using assms
  by (intro skip_inside holds_rd)
    (auto simp: name_ok_def terminated_Suc intro!: skip_inside holds_rd aix_prog_inside)

lemma prog_name_inside:
  assumes "terminated b" "cuts b0 b" "p < length b"
  shows "holds (prog_name b p) (name_ok b0)"
proof -
  have w: "q < length b \<Longrightarrow> terminated (b[q := NUL])" for q
    using assms by (metis cuts_refl cuts_terminated cuts_write)
  have br: "b ! q = CHR ''['' \<Longrightarrow> q < length b0 \<Longrightarrow> b0 ! q = CHR ''[''" for q
    using cuts_nth [OF assms(2)] by simp
  show ?thesis
    unfolding prog_name_def holds_bind
    using assms w
    by (intro skip_inside looking_inside)
      (auto simp: name_ok_def cuts_length All_less_Suc
        intro!: skip_inside looking_inside holds_rd holds_wr cuts_write pid_name_inside aix_name_inside br)
qed

lemma skip_id_inside:
  "terminated b \<Longrightarrow> p < length b \<Longrightarrow> holds (skip_id b p) (\<lambda>q. q < length b)"
  unfolding skip_id_def holds_bind
  by (intro looking_inside) (auto intro!: strstr_at_inside)


definition cleaned_ok :: "string \<Rightarrow> cleaned \<Rightarrow> bool" where
  "cleaned_ok b0 st \<longleftrightarrow>
     cuts b0 (ce_buf st) \<and> ce_log st < length b0 \<and>
     (\<forall>p. ce_host st = Some p \<longrightarrow> p < length b0) \<and> (\<forall>p. ce_prog st = Some p \<longrightarrow> p < length b0)"

lemma host_prog_inside:
  assumes "terminated b" "p < length b"
  shows "holds (host_prog b p) (\<lambda>(b1, log, host, prog, pieces).
    name_ok b (b1, prog, pieces) \<and> log < length b \<and> (\<forall>q. host = Some q \<longrightarrow> q < length b))"
proof -
  have w: "q < length b \<Longrightarrow> terminated (b[q := NUL])" for q
    using assms by (metis cuts_refl cuts_terminated cuts_write)
  have n: "holds (prog_name (b[q := NUL]) (Suc q)) (name_ok b)" if "q < length b" "b ! q \<noteq> NUL" for q
    using terminated_Suc [OF assms(1) that] w [OF that(1)] by (intro prog_name_inside) (auto intro: cuts_write)
  show ?thesis
    unfolding host_prog_def holds_bind
    using assms w
    by (intro skip_inside looking_inside)
      (auto simp: name_ok_def cuts_length All_less_Suc terminated_Suc
        intro!: holds_rd holds_wr cuts_write holds_mono [OF n])
qed

lemma syslog_fields_inside:
  assumes "terminated b" "p < length b"
  shows "holds (syslog_fields b p) (cleaned_ok b)"
proof -
  have h: "holds (host_prog b (if b ! p = CHR '' '' then p + 1 else p)) (\<lambda>(b1, log, host, prog, pieces).
    name_ok b (b1, prog, pieces) \<and> log < length b \<and> (\<forall>q. host = Some q \<longrightarrow> q < length b))"
    using assms terminated_Suc [OF assms] by (intro host_prog_inside) auto
  have s: "holds (case pieces of None \<Rightarrow> Some log | Some r \<Rightarrow> skip_id b1 r) (\<lambda>q. q < length b)"
    if "name_ok b (b1, prog, pieces)" "log < length b" for b1 prog pieces log
    using that cuts_terminated [OF _ assms(1), of b1]
    by (cases pieces) (auto simp: name_ok_def cuts_length intro!: holds_mono [OF skip_id_inside])
  have z: "holds (case prog of None \<Rightarrow> Some 0 | Some q \<Rightarrow> map_option length (str_at b1 q)) (\<lambda>_. True)"
    if "name_ok b (b1, prog, pieces)" for b1 prog pieces
    using that cuts_terminated [OF _ assms(1), of b1]
    by (cases prog) (auto simp: name_ok_def cuts_length str_at_Some)
  show ?thesis
    unfolding syslog_fields_def holds_bind
    apply (rule holds_rd [OF assms(2)])
    apply (rule holds_mono [OF h])
    apply (clarsimp)
    apply (rule holds_mono [OF s], assumption, assumption)
    apply (rule holds_mono [OF z], assumption)
    apply (auto simp: cleaned_ok_def name_ok_def)
    done
qed

lemma close_entry_inside [inside]:
  assumes "terminated b" "p < length b" "Q None"
    and "\<And>q. p \<le> q \<Longrightarrow> Suc q < length b \<Longrightarrow> Q (Some (b[q := NUL], Suc q))"
  shows "holds (close_entry b p) Q"
  unfolding close_entry_def holds_bind
  using assms terminated_Suc [OF assms(1)]
  by (intro strchr_at_inside) (auto intro!: holds_wr)

definition asl_ok :: "string \<Rightarrow> cleaned \<times> bool \<times> nat option \<Rightarrow> bool" where
  "asl_ok b0 r \<longleftrightarrow> (case r of (st, d, next) \<Rightarrow> cleaned_ok b0 st \<and> (\<forall>q. next = Some q \<longrightarrow> q < length b0))"

lemma asl_step_inside:
  assumes "terminated b0" "cleaned_ok b0 st" "p < length b0"
  shows "holds (asl_step st d p) (asl_ok b0)"
proof -
  have t: "terminated (ce_buf st)" and l: "length (ce_buf st) = length b0"
    using assms by (auto simp: cleaned_ok_def cuts_length intro: cuts_terminated)
  have w: "q < length b0 \<Longrightarrow> terminated ((ce_buf st)[q := NUL])" for q
    using t by (metis cuts_refl cuts_terminated cuts_write)
  show ?thesis
    unfolding asl_step_def holds_bind
    using assms t w
    by (intro holds_strncmp_at)
      (auto simp: asl_ok_def cleaned_ok_def l cuts_length intro!: close_entry_inside holds_str_at cuts_write)
qed

lemma asl_loop_inside:
  assumes "terminated b0"
  shows "cleaned_ok b0 st \<Longrightarrow> p < length b0 \<Longrightarrow> holds (asl_loop st d p) (cleaned_ok b0)"
proof (induction st d p rule: asl_loop.induct)
  case (1 st d p)
  have t: "terminated (ce_buf st)" and l: "length (ce_buf st) = length b0"
    using assms 1(2) by (auto simp: cleaned_ok_def cuts_length intro: cuts_terminated)
  obtain r where r: "strchr_at (ce_buf st) p CHR ''['' = Some r" "\<forall>q. r = Some q \<longrightarrow> Suc q < length b0"
  proof -
    have "holds (strchr_at (ce_buf st) p CHR ''['') (\<lambda>r. \<forall>q. r = Some q \<longrightarrow> Suc q < length b0)"
      using terminated_Suc [OF t] 1(3) t by (intro strchr_at_inside) (auto simp: l)
    then show ?thesis using that by (auto simp: holds_iff)
  qed
  show ?case
  proof (cases r)
    case None
    with r 1(2) show ?thesis by (subst asl_loop.simps) simp
  next
    case (Some q)
    with r(2) have "holds (asl_step st d (q + 1)) (asl_ok b0)" by (intro asl_step_inside assms 1(2)) simp
    then obtain st1 d1 n where s: "asl_step st d (q + 1) = Some (st1, d1, n)" "asl_ok b0 (st1, d1, n)"
      by (auto simp: holds_iff)
    show ?thesis
    proof (cases n)
      case None
      with r(1) Some s show ?thesis by (subst asl_loop.simps) (simp add: asl_ok_def)
    next
      fix a assume n: "n = Some a"
      with r(1) Some s 1(1) [OF r(1) Some s(1) refl refl n] show ?thesis
        by (subst asl_loop.simps) (simp add: asl_ok_def)
    qed
  qed
qed

section \<open>The formats\<close>

text \<open>The log that a format announces begins inside of the buffer.\<close>

definition format_ok :: "nat \<Rightarrow> log_format \<Rightarrow> bool" where
  "format_ok n fmt = (case fmt of
       Syslog off \<Rightarrow> off < n | Xferlog \<Rightarrow> 24 < n | Snort \<Rightarrow> 23 < n | Suricata \<Rightarrow> 28 < n | Apache \<Rightarrow> 27 < n
     | Asl \<Rightarrow> 25 < n | Squid \<Rightarrow> 14 < n | Plain \<Rightarrow> True)"

lemma date_is_inside [inside]:
  "(g \<Longrightarrow> (\<forall>t\<in>set tests. p + fst t < length b)) \<Longrightarrow> Q False \<Longrightarrow> (g \<Longrightarrow> Q True) \<Longrightarrow> holds (date_is b p g tests) Q"
proof -
  assume a: "g \<Longrightarrow> (\<forall>t\<in>set tests. p + fst t < length b)" "Q False" "g \<Longrightarrow> Q True"
  have "Q r" if g for r using a that by (cases r) auto
  then show ?thesis using a(1,2) by (force simp: date_is_def intro: holds_offsets)
qed

lemma first_colon_inside:
  "\<forall>t\<in>set ks. p + fst t < length b \<and> snd t < n \<Longrightarrow> holds (first_colon b p ks) (\<lambda>r. \<forall>off. r = Some off \<longrightarrow> off < n)"
  by (induction ks) (auto intro!: holds_rd)

lemma iso_date_inside:
  "p \<le> 1 \<Longrightarrow> length b = n \<Longrightarrow> 33 < n \<Longrightarrow> holds (iso_date b p) (\<lambda>r. \<forall>off. r = Some off \<longrightarrow> off < n)"
  unfolding iso_date_def holds_bind
  by (rule holds_offsets) (auto intro!: holds_rd first_colon_inside)

lemma syslog_date_inside:
  assumes "p \<le> 1" "length b = n"
  shows "holds (syslog_date b p n) (\<lambda>r. \<forall>off. r = Some off \<longrightarrow> off < n)"
proof -
  have i: "33 < n \<Longrightarrow> holds (iso_date b p) (\<lambda>r. \<forall>off. r = Some off \<longrightarrow> off < n)"
    using assms by (intro iso_date_inside)
  show ?thesis
    unfolding syslog_date_def holds_bind
    using assms
    by (intro date_is_inside)
      (auto split: option.splits intro!: date_is_inside holds_mono [OF i])
qed

lemma first_format_inside:
  "p \<le> 1 \<Longrightarrow> length b = n \<Longrightarrow>
   (\<forall>(f, g, tests) \<in> set fs. g \<longrightarrow> format_ok n f \<and> (\<forall>t\<in>set tests. p + fst t < n)) \<Longrightarrow>
   holds (first_format b p fs) (\<lambda>r. \<forall>f. r = Some f \<longrightarrow> format_ok n f)"
  by (induction fs) (auto intro!: date_is_inside)

lemma squid_date_inside:
  "p \<le> 1 \<Longrightarrow> length b = n \<Longrightarrow> holds (squid_date b p n) (\<lambda>r. r \<longrightarrow> 14 < n)"
  unfolding squid_date_def holds_bind
  by (intro date_is_inside) (auto intro!: holds_rd)

lemma find_format_inside:
  assumes "p \<le> 1" "length b = n"
  shows "holds (find_format b p n) (format_ok n)"
proof -
  have "holds (first_format b p (other_formats n)) (\<lambda>r. \<forall>f. r = Some f \<longrightarrow> format_ok n f)"
    using assms by (intro first_format_inside) (auto simp: other_formats_def format_ok_def)
  then have "holds (first_format b p (other_formats n) \<bind> (\<lambda>other. case other of
        Some f \<Rightarrow> Some f
      | None \<Rightarrow> squid_date b p n \<bind> (\<lambda>m. Some (if m then Squid else Plain)))) (format_ok n)"
    unfolding holds_bind
    by (rule holds_mono)
      (auto split: option.splits simp: format_ok_def intro!: holds_mono [OF squid_date_inside] assms)
  then show ?thesis
    unfolding find_format_def holds_bind
    by (intro holds_mono [OF syslog_date_inside [OF assms]]) (auto split: option.splits simp: format_ok_def)
qed

lemma repair_umlaut_inside:
  "length b = n \<Longrightarrow> holds (repair_umlaut b n) (\<lambda>(b1, p). p \<le> 1 \<and> length b1 = n)"
  unfolding repair_umlaut_def by (auto intro!: holds_rd holds_wr)

lemma pre_decode_inside:
  assumes "format_ok (length b) fmt" "terminated b"
  shows "holds (pre_decode b fmt) (cleaned_ok b)"
  using assms
  by (cases fmt)
    (auto simp: pre_decode_def format_ok_def cleaned_ok_def at_log_def terminated_def
      intro!: skip_inside syslog_fields_inside asl_loop_inside)

section \<open>Accepted messages\<close>

lemma cut_part:
  assumes "cuts (body @ [NUL]) b" "p < length (body @ [NUL])" "str_at b p = Some s"
  shows "sublist s body"
proof -
  let ?t = "takeWhile (\<lambda>c. c \<noteq> NUL)"
  have "s = ?t (drop p b)" using assms(3) by (simp add: str_at_def split: if_splits)
  then have "prefix s (?t (drop p (body @ [NUL])))" using cuts_string [OF assms(1)] by simp
  moreover have "prefix (?t (drop p (body @ [NUL]))) (drop p body)"
    using assms(2) by (simp add: takeWhile_append takeWhile_is_prefix)
  ultimately have "prefix s (drop p body)" by (rule prefix_order.trans)
  then show ?thesis by (metis prefix_imp_sublist sublist_drop sublist_order.order_trans)
qed

text \<open>The parts of an event are parts of its log, and the log that of the message.\<close>

definition parts_of :: "string \<Rightarrow> string \<Rightarrow> string \<Rightarrow> Eventinfo \<Rightarrow> bool" where
  "parts_of shost loc body ev \<longleftrightarrow>
     lf_location ev = Some loc \<and> lf_full_log ev = body \<and> sublist (lf_log ev) body \<and>
     (\<forall>p. lf_program_name ev = Some p \<longrightarrow> sublist p body) \<and>
     (\<exists>h. lf_hostname ev = Some h \<and> (sublist h body \<or> lf_agent_name ev = Some h \<or> h = shost)) \<and>
     (\<forall>a. lf_agent_name ev = Some a \<longrightarrow> sublist a loc)"

lemma strchr_length: "strchr s c = Some t \<Longrightarrow> length t \<le> length s"
  by (induction s) (auto split: if_splits)

lemma location_agent_part: "location_agent loc = Some a \<Longrightarrow> sublist a loc"
  by (auto simp: location_agent_def Let_def split: if_splits option.splits)
    (metis sublist_drop sublist_order.order_trans sublist_take)

lemma cleaned_event_inside:
  assumes "cleaned_ok (body @ [NUL]) st"
  shows "holds (cleaned_event shost loc body st lf) (parts_of shost loc body)"
proof -
  let ?b = "ce_buf st"
  have c: "cuts (body @ [NUL]) ?b" using assms by (simp add: cleaned_ok_def)
  have s: "holds (str_at ?b p) (\<lambda>s. sublist s body)" if "p < length (body @ [NUL])" for p
  proof -
    have "\<exists>s. str_at ?b p = Some s"
      using that cuts_terminated [OF c terminated_snoc] by (simp add: str_at_Some cuts_length [OF c])
    with cut_part [OF c that] show ?thesis by (auto simp: holds_iff)
  qed
  have o: "holds (case q of Some p \<Rightarrow> map_option Some (str_at ?b p) | None \<Rightarrow> Some None)
      (\<lambda>r. \<forall>x. r = Some x \<longrightarrow> sublist x body)" if "\<forall>p. q = Some p \<longrightarrow> p < length (body @ [NUL])" for q
    using that s by (cases q) (auto intro: holds_mono)
  show ?thesis
    unfolding cleaned_event_def holds_bind Let_def
  proof (rule holds_mono [OF s])
    show "ce_log st < length (body @ [NUL])" using assms by (simp add: cleaned_ok_def)
    fix log assume log: "sublist log body"
    show "holds (case ce_host st of None \<Rightarrow> Some None | Some p \<Rightarrow> map_option Some (str_at ?b p))
      (\<lambda>host. holds (case ce_prog st of None \<Rightarrow> Some None | Some p \<Rightarrow> map_option Some (str_at ?b p))
        (\<lambda>prog. holds (Some (lf\<lparr>lf_full_log := body, lf_log := log, lf_location := Some loc,
                lf_program_name := prog, lf_p_name_size := ce_psize st, lf_agent_name := location_agent loc,
                lf_hostname := (case host of Some h \<Rightarrow> Some h
                   | None \<Rightarrow> (case location_agent loc of Some a \<Rightarrow> Some a | None \<Rightarrow> Some shost))\<rparr>))
          (parts_of shost loc body)))"
      using assms log
      by (intro holds_mono [OF o [of "ce_host st"]] holds_mono [OF o [of "ce_prog st"]])
        (auto simp: cleaned_ok_def parts_of_def location_agent_part split: option.splits)
  qed
qed

lemma OS_CleanMSG_ex_split:
  assumes "2 \<le> length msg"
  shows "holds (OS_CleanMSG_ex localtime_r shost msg lf t u g)
    (\<lambda>r. \<forall>ev g'. r = Inr (ev, g') \<longrightarrow>
       (\<exists>loc0 log0. split_location (drop 2 msg) = Some (loc0, log0) \<and>
          (let loc = remove_control_characters_ex False loc0 in
           \<not> w_ref_parent_folder loc \<and>
           parts_of shost loc (remove_control_characters_ex (OS_IsSyscheckLocation (Some loc)) log0) ev)))"
proof (cases "split_location (drop 2 msg)")
  case None
  with assms show ?thesis by (simp add: OS_CleanMSG_ex_def)
next
  case (Some ll)
  obtain loc0 log0 where ll: "ll = (loc0, log0)" by (cases ll)
  let ?loc = "remove_control_characters_ex False loc0"
  let ?body = "remove_control_characters_ex (OS_IsSyscheckLocation (Some ?loc)) log0"
  show ?thesis
  proof (cases "w_ref_parent_folder ?loc")
    case True
    with assms Some ll show ?thesis by (simp add: OS_CleanMSG_ex_def Let_def)
  next
    case False
    obtain b p where u: "repair_umlaut (?body @ [NUL]) (length ?body + 1) = Some (b, p)"
        "p \<le> 1" "length b = length ?body + 1"
      using repair_umlaut_inside [of "?body @ [NUL]"] by (auto simp: holds_iff)
    obtain fmt where f: "find_format b p (length ?body + 1) = Some fmt" "format_ok (length ?body + 1) fmt"
      using find_format_inside [OF u(2,3)] by (auto simp: holds_iff)
    obtain st where s: "pre_decode (?body @ [NUL]) fmt = Some st" "cleaned_ok (?body @ [NUL]) st"
      using pre_decode_inside [of "?body @ [NUL]" fmt] f(2) by (auto simp: holds_iff)
    obtain ev where e: "cleaned_event shost ?loc ?body st lf = Some ev" "parts_of shost ?loc ?body ev"
      using cleaned_event_inside [OF s(2), of shost ?loc lf] by (auto simp: holds_iff)
    have "parts_of shost ?loc ?body (event_time (localtime_r t) t ev)"
      using e(2) by (simp add: parts_of_def event_time_def)
    with assms Some ll False u(1) f(1) s(1) e(1) show ?thesis
      by (simp add: OS_CleanMSG_ex_def Let_def)
  qed
qed


section \<open>Syslog lines\<close>

lemma separator_values [simp]:
  "isValidChar CHR '' '' = 32" "isValidChar CHR '':'' = 58" "isValidChar CHR ''['' = 91" "isValidChar CHR ''|'' = 124"
  by (simp_all add: isValidChar_def hostname_map_def)

definition bsd_stamp :: "string \<Rightarrow> bool" where
  "bsd_stamp s \<longleftrightarrow> length s = 15 \<and> s ! 1 \<noteq> CHR 0xC3 \<and>
     s ! 3 = CHR '' '' \<and> s ! 6 = CHR '' '' \<and> s ! 9 = CHR '':'' \<and> s ! 12 = CHR '':''"

text \<open>How a program name ends: \<^verbatim>\<open>: \<close>, \<^verbatim>\<open>[pid]: \<close> or \<^verbatim>\<open>[pid] \<close>.\<close>

datatype name_end = Colon | Pid string bool

definition end_text :: "name_end \<Rightarrow> string" where
  "end_text e = (case e of
      Colon \<Rightarrow> '': ''
    | Pid ds colon \<Rightarrow> CHR ''['' # ds @ (if colon then '']: '' else ''] ''))"

definition end_ok :: "name_end \<Rightarrow> bool" where
  "end_ok e = (case e of Colon \<Rightarrow> True | Pid ds _ \<Rightarrow> ds \<noteq> [] \<and> list_all c_isdigit ds)"

lemma prog_name_end:
  assumes "drop p b = prog @ end_text e @ rest" "list_all valid prog" "end_ok e"
  shows "\<exists>q. prog_name b p = Some (b[p + length prog := NUL], Some p, Some q) \<and>
     p + length prog < q \<and> drop q b = rest"
proof (cases e)
  case Colon
  then have d: "drop p b = prog @ CHR '':'' # CHR '' '' # rest" using assms(1) by (simp add: end_text_def)
  then have "skip valid b p = Some (p + length prog)"
    using assms(2) by (intro skip_drop) (auto simp: list_all_iff)
  moreover have e: "drop (p + length prog) b = CHR '':'' # CHR '' '' # rest"
    using d by (rule drop_part) simp
  moreover from e have "drop (p + length prog + 2) b = rest" by (rule drop_two)
  ultimately show ?thesis by (simp add: prog_name_def looking_drop wr_drop [OF e])
next
  case (Pid ds colon)
  then obtain d0 ds' where ds: "ds = d0 # ds'" "c_isdigit d0" "list_all c_isdigit ds'"
    using assms(3) by (cases ds) (auto simp: end_ok_def)
  let ?tail = "(if colon then '']: '' else ''] '') @ rest"
  let ?q = "p + length prog"
  let ?b = "b[?q := NUL]"
  have d: "drop p b = prog @ CHR ''['' # d0 # ds' @ ?tail" using assms(1) Pid ds by (simp add: end_text_def)
  then have v: "skip valid b p = Some ?q"
    using assms(2) by (intro skip_drop) (auto simp: list_all_iff)
  have e: "drop ?q b = CHR ''['' # d0 # ds' @ ?tail"
    using d by (rule drop_part) simp
  then have "drop (?q + 2) b = ds' @ ?tail" by (rule drop_two)
  then have e2: "drop (?q + 2) ?b = ds' @ ?tail" by simp
  obtain t where "?tail = CHR '']'' # t" by (cases colon) auto
  with e2 ds(3) have sk: "skip c_isdigit ?b (?q + 2) = Some (?q + 2 + length ds')"
    by (intro skip_drop) (auto simp: list_all_iff c_isdigit_def)
  have e3: "drop (?q + 2 + length ds') ?b = ?tail"
    using e2 by (rule drop_part) simp
  then have e4: "drop (?q + 2 + length ds') b = ?tail" by simp
  have "drop (?q + 2 + length ds' + (if colon then 3 else 2)) b = rest"
    by (rule drop_part [OF e4]) simp
  then show ?thesis
    using v e e3 sk ds(2)
    by (cases colon) (auto simp: prog_name_def pid_name_def looking_drop wr_drop [OF e] c_isdigit_def)
qed


lemma valid_no_NUL: "list_all valid s \<Longrightarrow> NUL \<notin> set s"
  by (auto simp: list_all_iff)

lemma look_prefix: "\<not> prefix p s \<Longrightarrow> NUL \<notin> set p \<Longrightarrow> look (s @ [NUL]) (map (\<lambda>c. eqc c) p) = Some False"
proof (induction p arbitrary: s)
  case (Cons c p)
  then show ?case by (cases s) auto
qed simp

lemma syslog_fields_line:
  assumes "drop p b = host @ CHR '' '' # prog @ end_text e @ rest @ [NUL]"
    and "host \<noteq> []" "list_all valid host" "list_all valid prog" "end_ok e"
    and "NUL \<notin> set rest" "\<not> prefix ''[ID '' rest"
  shows "\<exists>b1 q. syslog_fields b p = Some
      \<lparr>ce_buf = b1, ce_log = q, ce_host = Some p, ce_prog = Some (p + length host + 1), ce_psize = length prog\<rparr> \<and>
    str_at b1 p = Some host \<and> str_at b1 (p + length host + 1) = Some prog \<and> str_at b1 q = Some rest"
proof -
  let ?h = "p + length host"
  let ?b = "b[?h := NUL]"
  let ?b1 = "?b[?h + 1 + length prog := NUL]"
  note n = valid_no_NUL [OF assms(3)] valid_no_NUL [OF assms(4)]
  have sk: "skip valid b p = Some ?h"
    using assms(1,3) by (intro skip_drop) (auto simp: list_all_iff)
  have dh: "drop ?h b = CHR '' '' # prog @ end_text e @ rest @ [NUL]"
    using assms(1) by (rule drop_part) simp
  then have dp: "drop (?h + 1) b = prog @ end_text e @ rest @ [NUL]" by (rule drop_one)
  then have dp': "drop (?h + 1) ?b = prog @ end_text e @ rest @ [NUL]" by simp
  from prog_name_end [OF this assms(4,5)] obtain q
    where q: "prog_name ?b (?h + 1) = Some (?b1, Some (?h + 1), Some q)" "?h + 1 + length prog < q" "drop q ?b = rest @ [NUL]"
    by blast
  have hp: "host_prog b p = Some (?b1, ?h + 1, Some p, Some (?h + 1), Some q)"
    using sk dh q(1) by (simp add: host_prog_def looking_drop rd_drop [OF dh] wr_drop [OF dh])
  have dq: "drop q ?b1 = rest @ [NUL]" using q(2,3) by simp
  have "look (rest @ [NUL]) [eqc CHR ''['', eqc CHR ''I'', eqc CHR ''D'', eqc CHR '' ''] = Some False"
    using look_prefix [OF assms(7)] by simp
  then have id: "skip_id ?b1 q = Some q" unfolding skip_id_def looking_drop dq by simp
  have sh: "str_at ?b p = Some host" using str_at_cut [OF assms(1) refl n(1)] .
  have sp: "str_at ?b1 (?h + 1) = Some prog"
  proof -
    obtain c t where "end_text e @ rest @ [NUL] = c # t" by (cases e) (auto simp: end_text_def)
    then show ?thesis using dp' n(2) by (intro str_at_cut [of _ _ prog c t]) simp_all
  qed
  show ?thesis
  proof (intro exI conjI)
    obtain h0 hs where h: "host = h0 # hs" "valid h0" using assms(2,3) by (cases host) auto
    with assms(1) have "rd b p = Some h0" by (intro rd_drop) simp
    moreover have "h0 \<noteq> CHR '' ''" using h(2) by auto
    ultimately show "syslog_fields b p = Some
      \<lparr>ce_buf = ?b1, ce_log = q, ce_host = Some p, ce_prog = Some (?h + 1), ce_psize = length prog\<rparr>"
      using hp id sp by (simp add: syslog_fields_def)
    have "drop p ?b = host @ NUL # prog @ end_text e @ rest @ [NUL]" using assms(1) by (rule drop_cut) simp
    then show "str_at ?b1 p = Some host" by (rule str_at_later [OF _ n(1)]) simp
    show "str_at ?b1 (?h + 1) = Some prog" by (rule sp)
    show "str_at ?b1 q = Some rest" using dq assms(6) by (rule str_at_drop)
  qed
qed


definition syslog_line :: "string \<Rightarrow> string \<Rightarrow> string \<Rightarrow> name_end \<Rightarrow> string \<Rightarrow> string" where
  "syslog_line stamp host prog e rest = stamp @ CHR '' '' # host @ CHR '' '' # prog @ end_text e @ rest"

lemma remove_control_characters_id:
  "list_all (\<lambda>c. \<not> is_control_character c) s \<Longrightarrow> remove_control_characters_ex nl s = s"
  by (simp add: remove_control_characters_ex_def list_all_iff)

lemma strchr_colon: "CHR '':'' \<notin> set loc \<Longrightarrow> strchr (loc @ CHR '':'' # s) CHR '':'' = Some (CHR '':'' # s)"
  by (induction loc) auto

lemma syslog_line_format:
  assumes "bsd_stamp stamp" "host \<noteq> []"
  shows "let body = syslog_line stamp host prog e rest in
    repair_umlaut (body @ [NUL]) (length body + 1) = Some (body @ [NUL], 0) \<and>
    find_format (body @ [NUL]) 0 (length body + 1) = Some (Syslog 16)"
proof -
  let ?b = "syslog_line stamp host prog e rest @ [NUL]"
  have l: "length stamp = 15" using assms(1) by (simp add: bsd_stamp_def)
  have n: "?b ! k = stamp ! k" if "k < 15" for k using l that by (simp add: syslog_line_def nth_append)
  have m: "?b ! 15 = CHR '' ''" using l by (simp add: syslog_line_def nth_append)
  have long: "17 < length ?b" using l assms(2) by (cases host) (auto simp: syslog_line_def)
  then have "offsets ?b 0 [(3, eqc CHR '' ''), (6, eqc CHR '' ''), (9, eqc CHR '':''), (12, eqc CHR '':''), (15, eqc CHR '' '')] = Some True"
    using assms(1) n m by (intro offsets_True) (auto simp: bsd_stamp_def)
  with long have "syslog_date ?b 0 (length ?b) = Some (Some 16)" by (simp add: syslog_date_def date_is_def)
  moreover have "rd ?b 1 = Some (stamp ! 1)" using long n [of 1] by (auto simp: rd_def)
  moreover have "stamp ! 1 \<noteq> CHR 0xC3" using assms(1) by (simp add: bsd_stamp_def)
  ultimately show ?thesis using long by (simp add: Let_def find_format_def repair_umlaut_def)
qed

lemma syslog_line_cleaned:
  assumes "bsd_stamp stamp" "host \<noteq> []" "list_all valid host" "list_all valid prog" "end_ok e"
    and "\<not> prefix ''[ID '' rest" "c_string (syslog_line stamp host prog e rest)"
    and "list_all (\<lambda>c. \<not> is_control_character c) (syslog_line stamp host prog e rest)"
    and "list_all (\<lambda>c. \<not> is_control_character c) loc" "CHR '':'' \<notin> set loc" "loc \<noteq> []" "deref loc \<noteq> CHR ''(''"
    and "\<not> w_ref_parent_folder loc"
    and "msg = i # j # loc @ CHR '':'' # syslog_line stamp host prog e rest"
  shows "OS_CleanMSG_ex localtime_r shost msg lf t u g =
    Some (Inr (event_time (localtime_r t) t
      (lf\<lparr>lf_full_log := syslog_line stamp host prog e rest, lf_log := rest, lf_location := Some loc,
          lf_program_name := Some prog, lf_p_name_size := length prog, lf_agent_name := None,
          lf_hostname := Some host\<rparr>),
       if u then \<lparr>c_time = t, crt_hour = tm_hour (localtime_r t), crt_wday = tm_wday (localtime_r t)\<rparr> else g))"
proof -
  let ?body = "syslog_line stamp host prog e rest"
  have "split_location (drop 2 msg) = Some (loc, ?body)"
    using assms(10-12,14) by (cases loc) (auto simp: split_location_def strchr_colon)
  moreover have "drop 16 (?body @ [NUL]) = host @ CHR '' '' # prog @ end_text e @ rest @ [NUL]"
    using assms(1) by (simp add: syslog_line_def bsd_stamp_def)
  moreover have "NUL \<notin> set rest" using assms(7) by (simp add: c_string_def syslog_line_def)
  ultimately obtain b1 q where s: "syslog_fields (?body @ [NUL]) 16 = Some
      \<lparr>ce_buf = b1, ce_log = q, ce_host = Some 16, ce_prog = Some (16 + length host + 1), ce_psize = length prog\<rparr>"
    "str_at b1 16 = Some host" "str_at b1 (16 + length host + 1) = Some prog" "str_at b1 q = Some rest"
    using syslog_fields_line [of 16 _ host prog e rest, OF _ assms(2-5) _ assms(6)] by blast
  have a: "location_agent loc = None" using assms(12) by (simp add: location_agent_def)
  show ?thesis
    using \<open>split_location (drop 2 msg) = Some (loc, ?body)\<close> syslog_line_format [OF assms(1,2), of prog e rest] s a assms(13,14)
    by (simp add: OS_CleanMSG_ex_def Let_def remove_control_characters_id [OF assms(8)]
        remove_control_characters_id [OF assms(9)] pre_decode_def cleaned_event_def)
qed


section \<open>The properties\<close>

definition noon :: tm where
  "noon = \<lparr>tm_sec = 5, tm_min = 0, tm_hour = 12, tm_mday = 29, tm_mon = 11, tm_year = 126, tm_wday = 2\<rparr>"

lemma noon_hour: "hour_text noon = ''12:00:05''"
  by code_simp

definition no_time :: time_globals where
  "no_time = \<lparr>c_time = 0, crt_hour = 0, crt_wday = 0\<rparr>"

text \<open>
  C6. The pre-decoder stays inside of its buffers: whatever bytes a message of the queue holds
  (two at least), no read or write of \<open>OS_CleanMSG_ex\<close> falls outside of the message or of the copy
  of the log, and the loops over it end; the result is an event or \<open>FORMAT_ERROR\<close>.
\<close>

theorem OS_CleanMSG_ex_inside:
  "2 \<le> length msg \<Longrightarrow> OS_CleanMSG_ex localtime_r shost msg lf t u g \<noteq> None"
  by (rule holds_not_None [OF OS_CleanMSG_ex_split])

lemma OS_CleanMSG_ex_inside_witness:
  "OS_CleanMSG_ex (\<lambda>_. noon) ''srv'' ''1:log:[T'' zero_event 0 True no_time \<noteq> None"
  by (rule OS_CleanMSG_ex_inside) simp

text \<open>
  C7. What an accepted event holds: its location has no control characters and does not refer to a
  parent folder; its log has no control characters, except the line ends and tabs of the integrity
  checks; and the pre-decoder invents nothing, for the log, the program name and the host name are
  contiguous parts of the full log (the host name may also be the agent's or the server's), and the
  agent name is part of the location.
\<close>

theorem OS_CleanMSG_ex_accepted:
  assumes "OS_CleanMSG_ex localtime_r shost msg lf t u g = Some (Inr (ev, g'))"
  shows "\<exists>loc. lf_location ev = Some loc \<and> list_all (\<lambda>c. \<not> is_control_character c) loc \<and>
    \<not> w_ref_parent_folder loc \<and> parts_of shost loc (lf_full_log ev) ev \<and>
    list_all (\<lambda>c. is_control_character c \<longrightarrow> OS_IsSyscheckLocation (Some loc) \<and> c \<in> {NL, CHR 0x09}) (lf_full_log ev)"
proof -
  have l: "2 \<le> length msg" using assms by (auto simp: OS_CleanMSG_ex_def split: if_splits)
  from holds_Some [OF OS_CleanMSG_ex_split [OF l] assms]
  obtain loc0 log0 where s:
    "\<not> w_ref_parent_folder (remove_control_characters_ex False loc0)"
    "parts_of shost (remove_control_characters_ex False loc0)
      (remove_control_characters_ex (OS_IsSyscheckLocation (Some (remove_control_characters_ex False loc0))) log0) ev"
    by (auto simp: Let_def)
  then show ?thesis
    by (intro exI [of _ "remove_control_characters_ex False loc0"])
      (auto simp: parts_of_def list_all_iff remove_control_characters_ex_def)
qed

lemma OS_CleanMSG_ex_accepted_witness:
  "\<not> w_ref_parent_folder ''/var/log/auth''"
proof -
  let ?line = "syslog_line ''Dec 29 10:00:01'' ''web1'' ''sshd'' (Pid ''42'' True) ''closed''"
  have "OS_CleanMSG_ex (\<lambda>_. noon) ''srv'' (''1:/var/log/auth:'' @ ?line) zero_event 0 True no_time = Some (Inr
    (event_time noon 0 (zero_event\<lparr>lf_full_log := ?line, lf_log := ''closed'', lf_location := Some ''/var/log/auth'',
       lf_program_name := Some ''sshd'', lf_p_name_size := length ''sshd'', lf_agent_name := None, lf_hostname := Some ''web1''\<rparr>),
     \<lparr>c_time = 0, crt_hour = 12, crt_wday = 2\<rparr>))"
    by (subst syslog_line_cleaned [where stamp = "''Dec 29 10:00:01''" and host = "''web1''" and prog = "''sshd''" and
          e = "Pid ''42'' True" and rest = "''closed''" and loc = "''/var/log/auth''" and i = "CHR ''1''" and j = "CHR '':''"])
      (simp_all add: bsd_stamp_def end_ok_def syslog_line_def end_text_def isValidChar_def hostname_map_def
        c_isdigit_def is_control_character_def w_ref_parent_folder_def w_ref_parent_folder_ex_def dotdot_def
        slash_loop.simps noon_def)
  from OS_CleanMSG_ex_accepted [OF this] show ?thesis by (simp add: event_time_def)
qed

text \<open>
  C8. Syslog lines are decoded: from a line made of a date, a host name, a program name (ended by
  \<^verbatim>\<open>: \<close>, \<^verbatim>\<open>[pid]: \<close> or \<^verbatim>\<open>[pid] \<close>) and a text, the pre-decoder recovers exactly the host, the
  program with the length of its name, and the text as the log to match, next to the full line,
  the location and the time of the event.
\<close>

theorem OS_CleanMSG_ex_syslog:
  assumes "bsd_stamp stamp" "host \<noteq> []" "list_all valid host" "list_all valid prog" "end_ok e"
    and "\<not> prefix ''[ID '' rest" "c_string (syslog_line stamp host prog e rest)"
    and "list_all (\<lambda>c. \<not> is_control_character c) (syslog_line stamp host prog e rest)"
    and "list_all (\<lambda>c. \<not> is_control_character c) loc" "CHR '':'' \<notin> set loc" "loc \<noteq> []" "deref loc \<noteq> CHR ''(''"
    and "\<not> w_ref_parent_folder loc"
    and "msg = i # j # loc @ CHR '':'' # syslog_line stamp host prog e rest"
  shows "OS_CleanMSG_ex localtime_r shost msg lf t u g =
    Some (Inr (event_time (localtime_r t) t
      (lf\<lparr>lf_full_log := syslog_line stamp host prog e rest, lf_log := rest, lf_location := Some loc,
          lf_program_name := Some prog, lf_p_name_size := length prog, lf_agent_name := None,
          lf_hostname := Some host\<rparr>),
       if u then \<lparr>c_time = t, crt_hour = tm_hour (localtime_r t), crt_wday = tm_wday (localtime_r t)\<rparr> else g))"
  using assms by (rule syslog_line_cleaned)

lemma OS_CleanMSG_ex_syslog_witness:
  "map_option (map_sum (\<lambda>x. x) (\<lambda>(ev, g). (lf_hostname ev, lf_program_name ev, lf_log ev, lf_hour ev)))
     (OS_CleanMSG_ex (\<lambda>_. noon) ''srv'' ''1:/var/log/auth:Dec 29 10:00:01 web1 sshd[42] closed'' zero_event 0 True no_time) =
   Some (Inr (Some ''web1'', Some ''sshd'', ''closed'', ''12:00:05''))"
  by (subst OS_CleanMSG_ex_syslog [where stamp = "''Dec 29 10:00:01''" and host = "''web1''" and prog = "''sshd''" and
        e = "Pid ''42'' False" and rest = "''closed''" and loc = "''/var/log/auth''" and i = "CHR ''1''" and j = "CHR '':''"])
    (simp_all add: bsd_stamp_def end_ok_def syslog_line_def end_text_def isValidChar_def hostname_map_def
      c_isdigit_def is_control_character_def w_ref_parent_folder_def w_ref_parent_folder_ex_def dotdot_def
      slash_loop.simps event_time_def noon_hour)

text \<open>
  With the facility of AIX the bracket of a process id that does not end in \<^verbatim>\<open>]: \<close> is not put back,
  as it is for the other logs: the log ends there, and the rules never see the rest.
\<close>

lemma aix_pid_cut:
  "map_option (map_sum (\<lambda>x. x) (\<lambda>(ev, g). (lf_program_name ev, lf_log ev)))
     (OS_CleanMSG_ex (\<lambda>_. noon) ''srv'' ''1:aix:Dec 29 10:00:01 web1 auth|security:info sshd[42] failed'' zero_event 0 True no_time) =
   Some (Inr (Some ''sshd'', ''auth|security:info sshd''))"
  by code_simp

end
