(* ===== verification/Prelude_Word.thy ===== *)
theory Prelude_Word
  imports Prelude_CStr "HOL-Library.Word"
begin

unbundle bit_operations_syntax

text \<open>
  Bytes inside 32-bit words, shared by the digest and the cipher: \<open>byte32\<close> widens an
  \<^verbatim>\<open>unsigned char\<close>, \<open>word_byte w k\<close> is \<^verbatim>\<open>(unsigned char)(w >> k)\<close>, and the two layouts of a word
  as four bytes are inverse to reading it back.
\<close>

type_synonym u32 = "32 word"

definition byte32 :: "char \<Rightarrow> u32" where
  "byte32 c = of_nat (byte c)"

definition word_byte :: "u32 \<Rightarrow> nat \<Rightarrow> char" where
  "word_byte w k = char_of (unat (drop_bit k w AND 0xff))"

lemma byte_take_bit: "take_bit 8 (byte c :: nat) = byte c"
  by (simp add: take_bit_eq_mod)

lemma bit_byte32: "bit (byte32 c) n \<longleftrightarrow> n < 8 \<and> bit (byte c :: nat) n"
proof -
  have "bit (byte c :: nat) n \<longleftrightarrow> n < 8 \<and> bit (byte c :: nat) n"
    by (subst (1) byte_take_bit [symmetric]) (simp only: bit_take_bit_iff)
  then show ?thesis by (auto simp: byte32_def bit_of_nat_iff_bit bit_simps)
qed

lemma and_255: "w AND (0xff :: u32) = take_bit 8 w"
  by (simp add: take_bit_eq_mask mask_eq_exp_minus_1)

lemma unat_take_8: "unat (take_bit 8 w :: u32) < 256"
  by (simp only: unsigned_take_bit_eq) (simp add: take_bit_eq_mod)

lemma byte32_word_byte: "byte32 (word_byte w k) = take_bit 8 (drop_bit k w)"
  using unat_take_8 [of "drop_bit k w"] by (simp add: byte32_def word_byte_def and_255)

lemma unat_byte32 [simp]: "unat (byte32 c) = byte c"
  using byte_less_256 [of c] by (simp add: byte32_def unat_of_nat del: byte_less_256)

lemma word_byte_byte32: "take_bit 8 (drop_bit k w) = byte32 c \<Longrightarrow> word_byte w k = c"
  by (simp add: word_byte_def and_255)

section \<open>Four bytes, the most significant first\<close>

definition be_word :: "string \<Rightarrow> u32" where
  "be_word s = push_bit 24 (byte32 (s ! 0)) OR push_bit 16 (byte32 (s ! 1))
     OR push_bit 8 (byte32 (s ! 2)) OR byte32 (s ! 3)"

definition be_bytes :: "u32 \<Rightarrow> string" where
  "be_bytes w = [word_byte w 24, word_byte w 16, word_byte w 8, word_byte w 0]"

lemma length_be_bytes [simp]: "length (be_bytes w) = 4"
  by (simp add: be_bytes_def)

lemma be_word_append [simp]: "4 \<le> length s \<Longrightarrow> be_word (s @ t) = be_word s"
  by (auto simp: be_word_def nth_append)

lemma be_word_bytes [simp]: "be_word (be_bytes w) = w"
proof (rule bit_eqI)
  fix n :: nat
  assume "possible_bit TYPE(32 word) n"
  then have "n < 32" by simp
  then consider "n < 8" | "8 \<le> n" "n < 16" | "16 \<le> n" "n < 24" | "24 \<le> n" "n < 32" by linarith
  then show "bit (be_word (be_bytes w)) n \<longleftrightarrow> bit w n"
    by cases (auto simp: be_word_def be_bytes_def byte32_word_byte bit_simps)
qed

lemma be_bytes_word: "length s = 4 \<Longrightarrow> be_bytes (be_word s) = s"
proof -
  assume "length s = 4"
  then obtain a b c d where s: "s = [a, b, c, d]"
    by (auto simp: numeral_eq_Suc length_Suc_conv)
  have "take_bit 8 (drop_bit 24 (be_word s)) = byte32 a" "take_bit 8 (drop_bit 16 (be_word s)) = byte32 b"
    "take_bit 8 (drop_bit 8 (be_word s)) = byte32 c" "take_bit 8 (drop_bit 0 (be_word s)) = byte32 d"
    by (rule bit_eqI; auto simp: s be_word_def bit_simps bit_byte32)+
  then show ?thesis
    by (simp only: be_bytes_def word_byte_byte32 s)
qed

end
