(* ===== verification/Rids.thy ===== *)
theory Rids
  imports Prelude_Word
begin

text \<open>
  The counter files of \<^verbatim>\<open>os_crypto/shared/msgs.c\<close> (\<^verbatim>\<open>queue/rids\<close>): one per agent with the counters of
  its last message, one with the counters of the messages sent. The directory maps paths to inodes,
  an open \<^verbatim>\<open>FILE *\<close> is the inode it was opened on (every write seeks to the start first), and the
  bytes of an inode stay when its name is removed. \<open>can_open\<close> says for which paths \<open>fopen\<close> succeeds.

  A counter is written over the start of the file without truncating it; the colon behind it keeps
  what an older, longer counter left from being read as digits.
\<close>

section \<open>The files\<close>

record rids_fs =
  dir :: "string \<Rightarrow> nat option"
  data :: "nat \<Rightarrow> string"
  next_ino :: nat
  can_open :: "string \<Rightarrow> bool"

definition OS_FLSIZE :: nat where
  "OS_FLSIZE = 256"

definition rids_file :: "string \<Rightarrow> string" where
  "rids_file name = take (OS_FLSIZE - 1) (''/queue/rids'' @ CHR ''/'' # name)"

definition SENDER_COUNTER :: string where
  "SENDER_COUNTER = ''sender_counter''"

definition File_Inode :: "rids_fs \<Rightarrow> string \<Rightarrow> nat" where
  "File_Inode fs file = (case dir fs file of Some i \<Rightarrow> i | None \<Rightarrow> 0)"

text \<open>\<open>fopen\<close> with mode \<^verbatim>\<open>r+\<close>, and with \<^verbatim>\<open>w\<close> or \<^verbatim>\<open>w+\<close>, which truncates or creates the file.\<close>

definition fopen_update :: "rids_fs \<Rightarrow> string \<Rightarrow> nat option" where
  "fopen_update fs file = (if can_open fs file then dir fs file else None)"

definition fopen_write :: "rids_fs \<Rightarrow> string \<Rightarrow> nat option \<times> rids_fs" where
  "fopen_write fs file =
     (if \<not> can_open fs file then (None, fs)
      else (case dir fs file of
              Some i \<Rightarrow> (Some i, fs\<lparr>data := (data fs)(i := [])\<rparr>)
            | None \<Rightarrow> (Some (next_ino fs),
                fs\<lparr>dir := (dir fs)(file := Some (next_ino fs)), data := (data fs)(next_ino fs := []),
                   next_ino := Suc (next_ino fs)\<rparr>)))"

definition fopen_rids :: "rids_fs \<Rightarrow> string \<Rightarrow> nat option \<times> rids_fs" where
  "fopen_rids fs file =
     (case fopen_update fs file of
        Some i \<Rightarrow> (Some i, fs)
      | None \<Rightarrow> fopen_write fs file)"

definition unlink_rids :: "rids_fs \<Rightarrow> string \<Rightarrow> rids_fs" where
  "unlink_rids fs file = fs\<lparr>dir := (dir fs)(file := None)\<rparr>"

definition OS_RemoveCounter :: "rids_fs \<Rightarrow> string \<Rightarrow> rids_fs" where
  "OS_RemoveCounter fs name = unlink_rids fs (rids_file name)"

section \<open>Reading and writing counters\<close>

text \<open>\<open>fprintf\<close> with \<^verbatim>\<open>%u:%u:\<close> at the start of the file.\<close>

definition counter_text :: "u32 \<Rightarrow> u32 \<Rightarrow> string" where
  "counter_text g l = dec_nat (unat g) @ CHR '':'' # dec_nat (unat l) @ '':''"

definition write_counter :: "nat \<Rightarrow> u32 \<Rightarrow> u32 \<Rightarrow> rids_fs \<Rightarrow> rids_fs" where
  "write_counter i g l fs =
     fs\<lparr>data := (data fs)(i := counter_text g l @ drop (length (counter_text g l)) (data fs i))\<rparr>"

text \<open>A conversion \<^verbatim>\<open>%u\<close> of \<open>fscanf\<close>: white space, a sign, digits. The value is converted as an
  \<^verbatim>\<open>unsigned long\<close> of 64 bits, which saturates, and stored in 32 bits.\<close>

definition scan_digits :: "bool \<Rightarrow> string \<Rightarrow> (u32 \<times> string) option" where
  "scan_digits neg s =
     (let ds = takeWhile c_isdigit s; v = min (digits_val 0 ds) (2 ^ 64 - 1) in
      if ds = [] then None
      else Some (if neg \<and> digits_val 0 ds < 2 ^ 64 then - of_nat v else of_nat v, dropWhile c_isdigit s))"

definition scan_u :: "string \<Rightarrow> (u32 \<times> string) option" where
  "scan_u s =
     (case dropWhile c_isspace s of
        [] \<Rightarrow> None
      | c # t \<Rightarrow> if c = CHR ''-'' then scan_digits True t
                else if c = CHR ''+'' then scan_digits False t
                else scan_digits False (c # t))"

text \<open>\<open>fscanf\<close> with \<^verbatim>\<open>%u:%u\<close> when it returns 2.\<close>

definition scan_counter :: "string \<Rightarrow> (u32 \<times> u32) option" where
  "scan_counter s =
     (case scan_u s of
        Some (g, c # t) \<Rightarrow> if c = CHR '':'' then map_option (\<lambda>(l, _). (g, l)) (scan_u t) else None
      | _ \<Rightarrow> None)"

section \<open>What was written is read back\<close>

lemma dec_nat_ne [simp]: "dec_nat n \<noteq> []"
  by (subst dec_nat.simps) simp

lemma digit_no_space: "c_isdigit c \<Longrightarrow> \<not> c_isspace c"
  by (auto simp: c_isdigit_def c_isspace_def)

lemma digit_no_sign: "c_isdigit c \<Longrightarrow> c \<noteq> CHR ''-'' \<and> c \<noteq> CHR ''+'' \<and> c \<noteq> CHR '':''"
  by (auto simp: c_isdigit_def)

lemma scan_digits_dec:
  assumes "\<not> c_isdigit c"
  shows "scan_digits False (dec_nat (unat (w :: u32)) @ c # s) = Some (w, c # s)"
proof -
  let ?d = "dec_nat (unat w)"
  have d: "\<forall>x\<in>set ?d. c_isdigit x" "digits_val 0 ?d = unat w"
    using dec_nat_digits by auto
  have "takeWhile c_isdigit (?d @ c # s) = ?d" "dropWhile c_isdigit (?d @ c # s) = c # s"
    using d assms by (simp_all add: takeWhile_append2 dropWhile_append2)
  moreover have "unat w < 2 ^ 32"
    using unsigned_less [of w] by simp
  then have "unat w < 2 ^ 64" by simp
  ultimately show ?thesis
    by (simp add: scan_digits_def d Let_def min_def)
qed

lemma scan_u_dec: "\<not> c_isdigit c \<Longrightarrow> scan_u (dec_nat (unat (w :: u32)) @ c # s) = Some (w, c # s)"
proof -
  assume c: "\<not> c_isdigit c"
  obtain x t where d: "dec_nat (unat w) = x # t" and x: "c_isdigit x"
    using dec_nat_digits [of "unat w"] by (cases "dec_nat (unat w)") auto
  then show ?thesis
    using scan_digits_dec [OF c, of w s] digit_no_space [OF x] digit_no_sign [OF x]
    by (simp add: scan_u_def)
qed

lemma scan_counter_text [simp]: "scan_counter (counter_text g l @ s) = Some (g, l)"
proof -
  have c: "\<not> c_isdigit (CHR '':'')" by (simp add: c_isdigit_def)
  show ?thesis
    by (simp add: counter_text_def scan_counter_def scan_u_dec [OF c])
qed

lemma read_back [simp]: "scan_counter (data (write_counter i g l fs) i) = Some (g, l)"
  by (simp add: write_counter_def)

lemma write_counter_other [simp]:
  "i \<noteq> j \<Longrightarrow> data (write_counter i g l fs) j = data fs j"
  "dir (write_counter i g l fs) = dir fs"
  "next_ino (write_counter i g l fs) = next_ino fs"
  "can_open (write_counter i g l fs) = can_open fs"
  by (simp_all add: write_counter_def)

text \<open>The directory: names of different files never share an inode, inodes are given out once.\<close>

definition fs_ok :: "rids_fs \<Rightarrow> bool" where
  "fs_ok fs \<longleftrightarrow> inj_on (dir fs) (dom (dir fs)) \<and> (\<forall>f i. dir fs f = Some i \<longrightarrow> 0 < i \<and> i < next_ino fs) \<and> 0 < next_ino fs"

lemma fs_ok_inj: "fs_ok fs \<Longrightarrow> dir fs f = Some i \<Longrightarrow> dir fs g = Some i \<Longrightarrow> f = g"
  by (metis fs_ok_def inj_onD domI)

lemma fs_ok_fresh [simp]: "fs_ok fs \<Longrightarrow> dir fs f \<noteq> Some (next_ino fs)"
  by (force simp: fs_ok_def)

lemma fs_ok_write_counter [simp]: "fs_ok (write_counter i g l fs) = fs_ok fs"
  by (simp add: fs_ok_def)

lemma fopen_write_ok:
  assumes "fs_ok fs" "fopen_write fs file = (r, fs')"
  shows "fs_ok fs'"
proof (cases "can_open fs file \<and> dir fs file = None")
  case True
  then have fs': "dir fs' = (dir fs)(file \<mapsto> next_ino fs)" "next_ino fs' = Suc (next_ino fs)"
    using assms(2) by (auto simp: fopen_write_def)
  have "inj_on (dir fs') (dom (dir fs'))"
    using assms(1) fs_ok_fresh [OF assms(1)] unfolding fs' fs_ok_def by (auto simp: inj_on_def dom_def dest: sym)
  then show ?thesis
    using assms(1) by (auto simp: fs' fs_ok_def less_Suc_eq)
qed (use assms in \<open>auto simp: fopen_write_def fs_ok_def split: if_splits option.splits\<close>)

lemma fopen_rids_ok: "fs_ok fs \<Longrightarrow> fopen_rids fs file = (r, fs') \<Longrightarrow> fs_ok fs'"
  by (auto simp: fopen_rids_def intro: fopen_write_ok split: option.splits)

lemma fopen_rids_Some:
  assumes "fopen_rids fs file = (Some i, fs')"
  shows "dir fs' file = Some i" "\<And>f. f \<noteq> file \<Longrightarrow> dir fs' f = dir fs f"
    "dir fs file = Some i \<Longrightarrow> fs' = fs"
  using assms by (auto simp: fopen_rids_def fopen_update_def fopen_write_def split: if_splits option.splits)

lemma fopen_rids_data:
  assumes "fs_ok fs" "fopen_rids fs file = (r, fs')" "dir fs f = Some j"
  shows "data fs' j = data fs j" "dir fs' f = Some j"
  using assms fs_ok_fresh [OF assms(1), of f] by (auto simp: fopen_rids_def fopen_update_def fopen_write_def split: if_splits option.splits)

end
