(* ===== verification/Md5.thy ===== *)
theory Md5
  imports Prelude_Word
begin

unbundle bit_operations_syntax

text \<open>
  \<^verbatim>\<open>os_crypto/md5/md5.c\<close> and the digests of \<^verbatim>\<open>md5_op.c\<close>: the streaming MD5 context, its transform
  with the 64 steps as a table, and the hexadecimal digests \<open>OS_MD5_Str\<close>, \<open>OS_MD5_Bytes\<close> and
  \<open>OS_MD5_File\<close>, which checksum the messages between agent and manager and the files of the
  integrity checks. A little-endian machine is modelled: \<open>byteReverse\<close> is empty there.

  The reference is the digest of RFC 1321: pad the whole message, then fold the transform over its
  64-byte blocks. \<open>md5_rel\<close> relates a context to the message it has absorbed; initialisation,
  update and finalisation preserve it, so splitting a message over updates does not matter.
\<close>

section \<open>The model\<close>

type_synonym md5_buf = "u32 \<times> u32 \<times> u32 \<times> u32"

text \<open>The union of \<open>in[64]\<close> and \<open>in32[16]\<close> is kept as its 64 bytes.\<close>

record MD5Context =
  md5_hash :: md5_buf
  md5_bits :: "u32 \<times> u32"
  md5_in :: string

definition F1 :: "u32 \<Rightarrow> u32 \<Rightarrow> u32 \<Rightarrow> u32" where
  "F1 x y z = z XOR (x AND (y XOR z))"

definition F2 :: "u32 \<Rightarrow> u32 \<Rightarrow> u32 \<Rightarrow> u32" where
  "F2 x y z = F1 z x y"

definition F3 :: "u32 \<Rightarrow> u32 \<Rightarrow> u32 \<Rightarrow> u32" where
  "F3 x y z = x XOR y XOR z"

definition F4 :: "u32 \<Rightarrow> u32 \<Rightarrow> u32 \<Rightarrow> u32" where
  "F4 x y z = y XOR (x OR NOT z)"

definition MD5STEP :: "(u32 \<Rightarrow> u32 \<Rightarrow> u32 \<Rightarrow> u32) \<Rightarrow> u32 \<Rightarrow> u32 \<Rightarrow> u32 \<Rightarrow> u32 \<Rightarrow> u32 \<Rightarrow> nat \<Rightarrow> u32" where
  "MD5STEP f w x y z data s =
     (let w1 = w + (f x y z + data);
          w2 = push_bit s w1 OR drop_bit (32 - s) w1
      in w2 + x)"

text \<open>The word \<open>in32[i]\<close> of the block, little-endian.\<close>

definition in32 :: "string \<Rightarrow> nat \<Rightarrow> u32" where
  "in32 s i = byte32 (s ! (4 * i)) OR push_bit 8 (byte32 (s ! (4 * i + 1)))
     OR push_bit 16 (byte32 (s ! (4 * i + 2))) OR push_bit 24 (byte32 (s ! (4 * i + 3)))"

text \<open>The 64 steps: in each of the four rounds, the word of the block that is added, the constant
  and the rotation.\<close>

definition round1 :: "(nat \<times> u32 \<times> nat) list" where
  "round1 =
    [(0, 0xd76aa478, 7), (1, 0xe8c7b756, 12), (2, 0x242070db, 17), (3, 0xc1bdceee, 22),
     (4, 0xf57c0faf, 7), (5, 0x4787c62a, 12), (6, 0xa8304613, 17), (7, 0xfd469501, 22),
     (8, 0x698098d8, 7), (9, 0x8b44f7af, 12), (10, 0xffff5bb1, 17), (11, 0x895cd7be, 22),
     (12, 0x6b901122, 7), (13, 0xfd987193, 12), (14, 0xa679438e, 17), (15, 0x49b40821, 22)]"

definition round2 :: "(nat \<times> u32 \<times> nat) list" where
  "round2 =
    [(1, 0xf61e2562, 5), (6, 0xc040b340, 9), (11, 0x265e5a51, 14), (0, 0xe9b6c7aa, 20),
     (5, 0xd62f105d, 5), (10, 0x02441453, 9), (15, 0xd8a1e681, 14), (4, 0xe7d3fbc8, 20),
     (9, 0x21e1cde6, 5), (14, 0xc33707d6, 9), (3, 0xf4d50d87, 14), (8, 0x455a14ed, 20),
     (13, 0xa9e3e905, 5), (2, 0xfcefa3f8, 9), (7, 0x676f02d9, 14), (12, 0x8d2a4c8a, 20)]"

definition round3 :: "(nat \<times> u32 \<times> nat) list" where
  "round3 =
    [(5, 0xfffa3942, 4), (8, 0x8771f681, 11), (11, 0x6d9d6122, 16), (14, 0xfde5380c, 23),
     (1, 0xa4beea44, 4), (4, 0x4bdecfa9, 11), (7, 0xf6bb4b60, 16), (10, 0xbebfbc70, 23),
     (13, 0x289b7ec6, 4), (0, 0xeaa127fa, 11), (3, 0xd4ef3085, 16), (6, 0x04881d05, 23),
     (9, 0xd9d4d039, 4), (12, 0xe6db99e5, 11), (15, 0x1fa27cf8, 16), (2, 0xc4ac5665, 23)]"

definition round4 :: "(nat \<times> u32 \<times> nat) list" where
  "round4 =
    [(0, 0xf4292244, 6), (7, 0x432aff97, 10), (14, 0xab9423a7, 15), (5, 0xfc93a039, 21),
     (12, 0x655b59c3, 6), (3, 0x8f0ccc92, 10), (10, 0xffeff47d, 15), (1, 0x85845dd1, 21),
     (8, 0x6fa87e4f, 6), (15, 0xfe2ce6e0, 10), (6, 0xa3014314, 15), (13, 0x4e0811a1, 21),
     (4, 0xf7537e82, 6), (11, 0xbd3af235, 10), (2, 0x2ad7d2bb, 15), (9, 0xeb86d391, 21)]"

text \<open>A step replaces the first register; the next one takes them in the order
  \<open>d, a, b, c\<close>. After a multiple of four steps they are back in place.\<close>

fun md5_round :: "(u32 \<Rightarrow> u32 \<Rightarrow> u32 \<Rightarrow> u32) \<Rightarrow> string \<Rightarrow> (nat \<times> u32 \<times> nat) list \<Rightarrow> md5_buf \<Rightarrow> md5_buf" where
  "md5_round f s [] r = r"
| "md5_round f s ((i, k, n) # steps) (a, b, c, d) =
     md5_round f s steps (d, MD5STEP f a b c d (in32 s i + k) n, b, c)"

definition MD5Transform :: "md5_buf \<Rightarrow> string \<Rightarrow> md5_buf" where
  "MD5Transform buf s =
     (let (a, b, c, d) = md5_round F4 s round4 (md5_round F3 s round3
                           (md5_round F2 s round2 (md5_round F1 s round1 buf)));
          (A, B, C, D) = buf
      in (A + a, B + b, C + c, D + d))"

definition MD5Init :: "MD5Context \<Rightarrow> MD5Context" where
  "MD5Init ctx = ctx\<lparr>md5_hash := (0x67452301, 0xefcdab89, 0x98badcfe, 0x10325476), md5_bits := (0, 0)\<rparr>"

text \<open>\<open>memcpy\<close> of \<open>s\<close> over the bytes of \<open>d\<close> from \<open>k\<close> on.\<close>

definition poke :: "'a list \<Rightarrow> nat \<Rightarrow> 'a list \<Rightarrow> 'a list" where
  "poke d k s = take k d @ s @ drop (k + length s) d"

function MD5Update_blocks :: "MD5Context \<Rightarrow> string \<Rightarrow> MD5Context \<times> string" where
  "MD5Update_blocks ctx s =
     (if 64 \<le> length s
      then MD5Update_blocks
             (ctx\<lparr>md5_in := take 64 s, md5_hash := MD5Transform (md5_hash ctx) (take 64 s)\<rparr>) (drop 64 s)
      else (ctx, s))"
  by pat_completeness auto
termination MD5Update_blocks
  by (relation "measure (\<lambda>(ctx, s). length s)") auto

declare MD5Update_blocks.simps [simp del]

definition MD5Update_rest :: "MD5Context \<Rightarrow> string \<Rightarrow> MD5Context" where
  "MD5Update_rest ctx s =
     (let (ctx', r) = MD5Update_blocks ctx s in ctx'\<lparr>md5_in := poke (md5_in ctx') 0 r\<rparr>)"

definition MD5Update :: "MD5Context \<Rightarrow> string \<Rightarrow> MD5Context" where
  "MD5Update ctx s =
     (let len = of_nat (length s) :: u32;
          (lo, hi) = md5_bits ctx;
          lo' = lo + push_bit 3 len;
          hi' = (if lo' < lo then hi + 1 else hi) + drop_bit 29 len;
          ctx1 = ctx\<lparr>md5_bits := (lo', hi')\<rparr>;
          t = unat (drop_bit 3 lo AND 0x3f)
      in if t \<noteq> 0 then
           if length s < 64 - t then ctx1\<lparr>md5_in := poke (md5_in ctx) t s\<rparr>
           else let blk = poke (md5_in ctx) t (take (64 - t) s)
                in MD5Update_rest (ctx1\<lparr>md5_in := blk, md5_hash := MD5Transform (md5_hash ctx) blk\<rparr>)
                     (drop (64 - t) s)
         else MD5Update_rest ctx1 s)"

text \<open>The bytes of a 32-bit word, lowest first.\<close>

definition le_bytes :: "u32 \<Rightarrow> string" where
  "le_bytes w = [word_byte w 0, word_byte w 8, word_byte w 16, word_byte w 24]"

definition MD5Final :: "MD5Context \<Rightarrow> string" where
  "MD5Final ctx =
     (let (lo, hi) = md5_bits ctx;
          count = unat (drop_bit 3 lo AND 0x3f);
          inb = poke (md5_in ctx) count [CHR 0x80];
          left = 63 - count;
          (hash, inb') =
            (if left < 8 then
               (let inb1 = poke inb (count + 1) (replicate left NUL)
                in (MD5Transform (md5_hash ctx) inb1, poke inb1 0 (replicate 56 NUL)))
             else (md5_hash ctx, poke inb (count + 1) (replicate (left - 8) NUL)));
          (a, b, c, d) = MD5Transform hash (poke inb' 56 (le_bytes lo @ le_bytes hi))
      in le_bytes a @ le_bytes b @ le_bytes c @ le_bytes d)"

text \<open>\<open>MD5Init\<close> leaves the input block of the context as it was on the stack.\<close>

definition hex_digit :: "nat \<Rightarrow> char" where
  "hex_digit n = char_of (if n < 10 then 48 + n else 87 + n)"

definition md5_hex :: "string \<Rightarrow> string" where
  "md5_hex digest = concat (map (\<lambda>c. [hex_digit (byte c div 16), hex_digit (byte c mod 16)]) digest)"

definition OS_MD5_Bytes :: "MD5Context \<Rightarrow> string \<Rightarrow> string" where
  "OS_MD5_Bytes stack s = md5_hex (MD5Final (MD5Update (MD5Init stack) s))"

definition OS_MD5_Str :: "MD5Context \<Rightarrow> string \<Rightarrow> string" where
  "OS_MD5_Str stack s = md5_hex (MD5Final (MD5Update (MD5Init stack) s))"

text \<open>\<open>fread\<close> delivers the file 1024 bytes at a time.\<close>

function md5_file_loop :: "MD5Context \<Rightarrow> string \<Rightarrow> MD5Context" where
  "md5_file_loop ctx s =
     (if s = [] then ctx else md5_file_loop (MD5Update ctx (take 1024 s)) (drop 1024 s))"
  by pat_completeness auto
termination md5_file_loop
  by (relation "measure (\<lambda>(ctx, s). length s)") auto

declare md5_file_loop.simps [simp del]

definition OS_MD5_File :: "MD5Context \<Rightarrow> string option \<Rightarrow> int \<times> string" where
  "OS_MD5_File stack f =
     (case f of None \<Rightarrow> (-1, [])
      | Some s \<Rightarrow> (0, md5_hex (MD5Final (md5_file_loop (MD5Init stack) s))))"

section \<open>The digest of the whole message\<close>

function md_fold :: "md5_buf \<Rightarrow> string \<Rightarrow> md5_buf" where
  "md_fold buf s = (if 64 \<le> length s then md_fold (MD5Transform buf (take 64 s)) (drop 64 s) else buf)"
  by pat_completeness auto
termination md_fold
  by (relation "measure (\<lambda>(buf, s). length s)") auto

declare md_fold.simps [simp del]

definition md5_iv :: md5_buf where
  "md5_iv = (0x67452301, 0xefcdab89, 0x98badcfe, 0x10325476)"

definition md5_pad :: "string \<Rightarrow> string" where
  "md5_pad m = m @ CHR 0x80 # replicate ((119 - length m mod 64) mod 64) NUL @
     le_bytes (of_nat (8 * length m)) @ le_bytes (of_nat (8 * length m div 2 ^ 32))"

definition md5_spec :: "string \<Rightarrow> string" where
  "md5_spec m = (let (a, b, c, d) = md_fold md5_iv (md5_pad m)
                 in le_bytes a @ le_bytes b @ le_bytes c @ le_bytes d)"

text \<open>The part of a message that fills whole blocks, and the bytes after it.\<close>

definition md_full :: "string \<Rightarrow> string" where
  "md_full m = take (64 * (length m div 64)) m"

definition md_rest :: "string \<Rightarrow> string" where
  "md_rest m = drop (64 * (length m div 64)) m"

lemma full_rest: "md_full m @ md_rest m = m"
  by (simp add: md_full_def md_rest_def)

lemma length_full [simp]: "length (md_full m) = 64 * (length m div 64)"
  by (simp add: md_full_def)

lemma length_rest [simp]: "length (md_rest m) = length m mod 64"
  by (simp add: md_rest_def minus_mult_div_eq_mod)

lemma md_fold_short [simp]: "length s < 64 \<Longrightarrow> md_fold buf s = buf"
  by (simp add: md_fold.simps)

lemma md_fold_block [simp]: "length b = 64 \<Longrightarrow> md_fold buf (b @ s) = md_fold (MD5Transform buf b) s"
  by (simp add: md_fold.simps [of buf])

lemma md_fold_append: "64 dvd length b \<Longrightarrow> md_fold buf (b @ s) = md_fold (md_fold buf b) s"
proof (induction buf b rule: md_fold.induct)
  case (1 buf b)
  show ?case
  proof (cases "64 \<le> length b")
    case True
    have "md_fold buf (b @ s) = md_fold buf (take 64 b @ (drop 64 b @ s))"
      by (simp flip: append_assoc)
    also have "\<dots> = md_fold (md_fold (MD5Transform buf (take 64 b)) (drop 64 b)) s"
      using True 1 by (subst md_fold_block) (auto simp: dvd_diff_nat)
    finally show ?thesis
      using True by (simp add: md_fold.simps [of buf b])
  next
    case False
    with "1.prems" have "b = []" using dvd_imp_le [of 64 "length b"] by fastforce
    then show ?thesis by simp
  qed
qed

lemma md_fold_full: "md_fold buf m = md_fold buf (md_full m)"
  by (subst full_rest [of m, symmetric], subst md_fold_append) auto

lemma md_fold_split: "md_fold buf (m @ s) = md_fold (md_fold buf m) (md_rest m @ s)"
  by (subst full_rest [of m, symmetric]) (simp add: md_fold_append md_fold_full [of buf m])

lemma rest_append: "64 dvd length b \<Longrightarrow> md_rest (b @ s) = md_rest s"
  by (auto simp: md_rest_def elim!: dvdE)

lemma rest_split: "md_rest (m @ s) = md_rest (md_rest m @ s)"
  by (subst full_rest [of m, symmetric]) (simp add: rest_append)

lemma rest_short [simp]: "length s < 64 \<Longrightarrow> md_rest s = s"
  by (simp add: md_rest_def)

section \<open>The context absorbs the message\<close>

definition md5_rel :: "MD5Context \<Rightarrow> string \<Rightarrow> bool" where
  "md5_rel ctx m \<longleftrightarrow> length (md5_in ctx) = 64 \<and> md5_hash ctx = md_fold md5_iv m
     \<and> take (length m mod 64) (md5_in ctx) = md_rest m
     \<and> fst (md5_bits ctx) = of_nat (8 * length m) \<and> snd (md5_bits ctx) = of_nat (8 * length m div 2 ^ 32)"

lemma length_poke [simp]: "k + length s \<le> length d \<Longrightarrow> length (poke d k s) = length d"
  by (simp add: poke_def)

lemma take_poke: "k + length s \<le> length d \<Longrightarrow> take (k + length s) (poke d k s) = take k d @ s"
  by (simp add: poke_def)

lemma poke_all: "k + length s = length d \<Longrightarrow> poke d k s = take k d @ s"
  by (simp add: poke_def)

lemma MD5Update_blocks_fold:
  "length (md5_in ctx) = 64 \<Longrightarrow>
   \<exists>b. length b = 64 \<and> MD5Update_blocks ctx s = (ctx\<lparr>md5_in := b, md5_hash := md_fold (md5_hash ctx) s\<rparr>, md_rest s)"
proof (induction ctx s rule: MD5Update_blocks.induct)
  case (1 ctx s)
  show ?case
  proof (cases "64 \<le> length s")
    case True
    have "md_rest s = md_rest (drop 64 s)"
      by (subst append_take_drop_id [of 64 s, symmetric], subst rest_append) (use True in auto)
    with True 1 show ?thesis
      by (auto simp: MD5Update_blocks.simps [of ctx s] md_fold.simps [of _ s])
  qed (use "1.prems" in \<open>auto simp: MD5Update_blocks.simps [of ctx s] intro!: exI [of _ "md5_in ctx"]\<close>)
qed

lemma MD5Update_rest_fold:
  "length (md5_in ctx) = 64 \<Longrightarrow>
   \<exists>b. length b = 64 \<and> take (length s mod 64) b = md_rest s
     \<and> MD5Update_rest ctx s = ctx\<lparr>md5_in := b, md5_hash := md_fold (md5_hash ctx) s\<rparr>"
proof -
  assume "length (md5_in ctx) = 64"
  then obtain b where b: "length b = 64"
    "MD5Update_blocks ctx s = (ctx\<lparr>md5_in := b, md5_hash := md_fold (md5_hash ctx) s\<rparr>, md_rest s)"
    using MD5Update_blocks_fold by blast
  then show ?thesis
    using take_poke [of 0 "md_rest s" b]
    by (intro exI [of _ "poke b 0 (md_rest s)"]) (auto simp: MD5Update_rest_def)
qed

text \<open>The two words of the bit count carry like one of 64 bits.\<close>

lemma unat_u32: "unat (of_nat a :: u32) = a mod 2 ^ 32"
  by (simp add: unat_of_nat)

lemma unat_push3: "unat (push_bit 3 (of_nat n :: u32)) = 8 * n mod 2 ^ 32"
  by (simp add: push_bit_eq_mult unat_word_ariths unat_of_nat mod_mult_right_eq mult.commute)


lemma unat_drop: "unat (drop_bit k (of_nat a :: u32)) = a mod 2 ^ 32 div 2 ^ k"
  by (simp only: unsigned_drop_bit_eq unat_of_nat) (simp add: drop_bit_eq_div take_bit_eq_mod)

lemma bits_add_lo: "(of_nat (8 * m) :: u32) + push_bit 3 (of_nat n) = of_nat (8 * (m + n))"
  by (simp add: push_bit_eq_mult algebra_simps)

lemma carry_word: "(of_nat a + x < (of_nat a :: u32)) \<longleftrightarrow> 2 ^ 32 \<le> a mod 2 ^ 32 + unat x"
proof -
  have "unat (of_nat a + x) = (a mod 2 ^ 32 + unat x) mod 2 ^ 32"
    by (simp add: unat_word_ariths unat_of_nat)
  moreover have "unat x < 2 ^ 32"
    using unsigned_less [of x] by simp
  moreover have "a mod 2 ^ 32 < 2 ^ 32" by simp
  ultimately show ?thesis
    by (auto simp: word_less_nat_alt unat_of_nat mod_if [of "_ + _"])
qed

lemma div_if_sum: "x < w \<Longrightarrow> y < w \<Longrightarrow> (x + y) div w = (if w \<le> x + y then 1 else 0)" for w :: nat
  by (simp add: div_if [of "x + y"])

lemma bits_add_hi:
  assumes n: "n < 2 ^ 32"
  shows "(if of_nat (8 * m) + push_bit 3 (of_nat n) < (of_nat (8 * m) :: u32)
          then of_nat (8 * m div 2 ^ 32) + 1 else of_nat (8 * m div 2 ^ 32))
           + drop_bit 29 (of_nat n) = (of_nat (8 * (m + n) div 2 ^ 32) :: u32)"
proof -
  have e: "8 * n div 2 ^ 32 = n div 2 ^ 29"
    using div_mult_mult1 [of "8 :: nat" n "2 ^ 29"] by simp
  have "n div 2 ^ 29 < 2 ^ 32"
    using n by (intro le_less_trans [OF div_le_dividend])
  then have "drop_bit 29 (of_nat n :: u32) = of_nat (8 * n div 2 ^ 32)"
    using n unfolding e by (simp only: word_unat_eq_iff unat_drop unat_u32 mod_less)
  moreover have "8 * (m + n) div 2 ^ 32
      = 8 * m div 2 ^ 32 + 8 * n div 2 ^ 32 + (if 2 ^ 32 \<le> 8 * m mod 2 ^ 32 + 8 * n mod 2 ^ 32 then 1 else 0)"
    by (simp only: distrib_left div_add1_eq [of "8 * m" "8 * n"], subst div_if_sum) simp_all
  ultimately show ?thesis
    unfolding carry_word unat_push3 by (auto simp: algebra_simps)
qed

lemma bits_count: "unat (drop_bit 3 (of_nat (8 * n) :: u32) AND 0x3f) = n mod 64"
proof -
  have "(0x3f :: u32) = mask 6" by (simp add: mask_eq_exp_minus_1)
  then have "unat (drop_bit 3 (of_nat (8 * n) :: u32) AND 0x3f) = (8 * n mod 2 ^ 32 div 2 ^ 3) mod 64"
    by (simp only: take_bit_eq_mask [symmetric] unsigned_take_bit_eq unat_drop) (simp add: take_bit_eq_mod)
  also have "8 * n mod 2 ^ 32 = 8 * (n mod 2 ^ 29)"
    using mult_mod_right [of 8 n "2 ^ 29"] by simp
  also have "8 * (n mod 2 ^ 29) div 2 ^ 3 mod 64 = n mod 64"
    by (simp add: mod_mod_cancel)
  finally show ?thesis .
qed

lemma MD5Init_rel: "length (md5_in stack) = 64 \<Longrightarrow> md5_rel (MD5Init stack) []"
  by (simp add: md5_rel_def MD5Init_def md5_iv_def md_rest_def)

lemma MD5Update_rest_rel:
  assumes c: "length (md5_in ctx) = 64" "md5_hash ctx = md_fold md5_iv b" "64 dvd length b"
    and n: "fst (md5_bits ctx) = of_nat (8 * length (b @ s))"
    and n': "snd (md5_bits ctx) = of_nat (8 * length (b @ s) div 2 ^ 32)"
  shows "md5_rel (MD5Update_rest ctx s) (b @ s)"
proof -
  have "md_rest (b @ s) = md_rest s" "length (b @ s) mod 64 = length s mod 64"
    using c by (auto simp: rest_append elim!: dvdE)
  then show ?thesis
    using MD5Update_rest_fold [OF c(1), of s] c n n' by (auto simp: md5_rel_def md_fold_append)
qed

lemma MD5Update_rel:
  assumes r: "md5_rel ctx m" and s: "length s < 2 ^ 32"
  shows "md5_rel (MD5Update ctx s) (m @ s)"
proof -
  let ?lo = "of_nat (8 * length (m @ s)) :: u32" and ?hi = "of_nat (8 * length (m @ s) div 2 ^ 32) :: u32"
  let ?t = "length m mod 64" and ?c = "ctx\<lparr>md5_bits := (?lo, ?hi)\<rparr>"
  have inb: "length (md5_in ctx) = 64" "take ?t (md5_in ctx) = md_rest m" "md5_hash ctx = md_fold md5_iv m"
    and bits: "md5_bits ctx = (of_nat (8 * length m), of_nat (8 * length m div 2 ^ 32))"
    using r by (auto simp: md5_rel_def prod_eq_iff)
  have up: "MD5Update ctx s =
    (if ?t \<noteq> 0 then
       if length s < 64 - ?t then ?c\<lparr>md5_in := poke (md5_in ctx) ?t s\<rparr>
       else let blk = poke (md5_in ctx) ?t (take (64 - ?t) s)
            in MD5Update_rest (?c\<lparr>md5_in := blk, md5_hash := MD5Transform (md5_hash ctx) blk\<rparr>) (drop (64 - ?t) s)
     else MD5Update_rest ?c s)"
    unfolding MD5Update_def bits Let_def prod.case bits_count bits_add_lo bits_add_hi [OF s, unfolded bits_add_lo] length_append ..
  consider "?t = 0" | "?t \<noteq> 0" "length s < 64 - ?t" | "?t \<noteq> 0" "64 - ?t \<le> length s" by linarith
  then show ?thesis
  proof cases
    case 1
    then show ?thesis
      using inb by (auto simp: up intro!: MD5Update_rest_rel)
  next
    case 2
    have "(length m + length s) mod 64 = (?t + length s) mod 64"
      by (simp only: mod_add_left_eq)
    also have "\<dots> = ?t + length s"
      using 2 by (intro mod_less) linarith
    finally have t: "length (m @ s) mod 64 = ?t + length s" by simp
    have t': "md_rest (m @ s) = md_rest m @ s"
      unfolding rest_split [of m s] using 2 by (intro rest_short) simp
    have "md_fold md5_iv (m @ s) = md_fold md5_iv m"
      using 2 by (subst md_fold_split) simp
    moreover have le: "?t + length s \<le> length (md5_in ctx)"
      unfolding inb(1) using 2(2) by linarith
    moreover note take_poke [OF le] length_poke [OF le]
    ultimately have "md5_rel (?c\<lparr>md5_in := poke (md5_in ctx) ?t s\<rparr>) (m @ s)"
      using inb t t' by (simp add: md5_rel_def del: length_poke mod_mod_trivial)
    then show ?thesis
      unfolding up if_P [OF 2(1)] if_P [OF 2(2)] .
  next
    case 3
    let ?a = "take (64 - ?t) s" and ?b = "drop (64 - ?t) s"
    have blk: "poke (md5_in ctx) ?t ?a = md_rest m @ ?a"
      using 3 inb by (simp add: poke_all)
    have len: "length (md_rest m @ ?a) = 64"
      using 3 by simp
    have "md_fold md5_iv (m @ ?a) = MD5Transform (md_fold md5_iv m) (md_rest m @ ?a)"
      using md_fold_block [OF len, of _ "[]"] by (subst md_fold_split) simp
    moreover have "length (m @ ?a) = 64 * (length m div 64) + 64"
      using mult_div_mod_eq [of 64 "length m"] len unfolding length_append length_rest by linarith
    ultimately have "md5_rel (MD5Update_rest (?c\<lparr>md5_in := md_rest m @ ?a, md5_hash := MD5Transform (md5_hash ctx) (md_rest m @ ?a)\<rparr>) ?b)
       ((m @ ?a) @ ?b)"
      using inb len by (intro MD5Update_rest_rel) auto
    then show ?thesis
      using 3 by (simp add: up blk Let_def)
  qed
qed


section \<open>Finalisation\<close>

lemma length_le_bytes [simp]: "length (le_bytes w) = 4"
  by (simp add: le_bytes_def)

lemma poke_here: "length a = k \<Longrightarrow> length s \<le> length b \<Longrightarrow> poke (a @ b) k s = a @ s @ drop (length s) b"
  by (simp add: poke_def)

lemma pad_zeros: "r < 64 \<Longrightarrow> (119 - r) mod 64 = (if 63 - r < 8 then 63 - r + 56 else 55 - r)" for r :: nat
  by (auto simp: mod_if)

lemma MD5Final_spec:
  assumes r: "md5_rel ctx m"
  shows "MD5Final ctx = md5_spec m"
proof -
  let ?r = "length m mod 64"
  let ?n = "le_bytes (of_nat (8 * length m)) @ le_bytes (of_nat (8 * length m div 2 ^ 32))"
  obtain junk where inb: "md5_in ctx = md_rest m @ junk" "length junk = 64 - ?r"
    using r that [of "drop ?r (md5_in ctx)"] append_take_drop_id [of ?r "md5_in ctx"] by (simp add: md5_rel_def)
  then obtain x junk' where junk: "junk = x # junk'" "length junk' = 63 - ?r"
    by (cases junk) auto
  have r64: "?r < 64" by simp
  then have r63: "?r \<le> 63" by linarith
  have hash: "md5_hash ctx = md_fold md5_iv m"
    and bits: "md5_bits ctx = (of_nat (8 * length m), of_nat (8 * length m div 2 ^ 32))"
    using r by (auto simp: md5_rel_def prod_eq_iff)
  have one: "poke (md5_in ctx) ?r [CHR 0x80] = md_rest m @ CHR 0x80 # junk'"
    by (simp add: inb junk poke_here)
  show ?thesis
  proof (cases "63 - ?r < 8")
    case True
    have z: "poke (md_rest m @ CHR 0x80 # junk') (?r + 1) (replicate (63 - ?r) NUL)
               = md_rest m @ CHR 0x80 # replicate (63 - ?r) NUL"
      using poke_here [of "md_rest m @ [CHR 0x80]" "?r + 1" "replicate (63 - ?r) NUL" junk'] junk by simp
    have pad: "md5_pad m = m @ CHR 0x80 # replicate (63 - ?r) NUL @ replicate 56 NUL @ ?n"
      unfolding md5_pad_def pad_zeros [OF r64] if_P [OF True] replicate_add
      by (simp only: append_assoc append_Cons)
    have "md_fold md5_iv (md5_pad m) =
        MD5Transform (MD5Transform (md_fold md5_iv m) (md_rest m @ CHR 0x80 # replicate (63 - ?r) NUL)) (replicate 56 NUL @ ?n)"
      using md_fold_block [of "md_rest m @ CHR 0x80 # replicate (63 - ?r) NUL"  "md_fold md5_iv m" "replicate 56 NUL @ ?n"]
        md_fold_block [of "replicate 56 NUL @ ?n" _ "[]"] r63
      by (subst pad, subst md_fold_split) simp
    moreover have "poke (poke (md_rest m @ CHR 0x80 # replicate (63 - ?r) NUL) 0 (replicate 56 NUL)) 56 ?n = replicate 56 NUL @ ?n"
      using r63 by (simp add: poke_def)
    ultimately show ?thesis
      unfolding MD5Final_def md5_spec_def bits Let_def prod.case bits_count one hash
      using True z by simp
  next
    case False
    have z: "poke (md_rest m @ CHR 0x80 # junk') (?r + 1) (replicate (55 - ?r) NUL)
               = md_rest m @ CHR 0x80 # replicate (55 - ?r) NUL @ drop (55 - ?r) junk'"
      using poke_here [of "md_rest m @ [CHR 0x80]" "?r + 1" "replicate (55 - ?r) NUL" junk'] junk by simp
    have pad: "md5_pad m = m @ CHR 0x80 # replicate (55 - ?r) NUL @ ?n"
      using False by (simp add: md5_pad_def pad_zeros)
    have "md_fold md5_iv (md5_pad m) =
        MD5Transform (md_fold md5_iv m) (md_rest m @ CHR 0x80 # replicate (55 - ?r) NUL @ ?n)"
      using md_fold_block [of "md_rest m @ CHR 0x80 # replicate (55 - ?r) NUL @ ?n"  "md_fold md5_iv m" "[]"] False
      by (subst pad, subst md_fold_split) simp
    moreover have "poke (md_rest m @ CHR 0x80 # replicate (55 - ?r) NUL @ drop (55 - ?r) junk') 56 ?n
        = md_rest m @ CHR 0x80 # replicate (55 - ?r) NUL @ ?n"
      using poke_here [of "md_rest m @ CHR 0x80 # replicate (55 - ?r) NUL" 56 ?n "drop (55 - ?r) junk'"] False junk by simp
    ultimately show ?thesis
      unfolding MD5Final_def md5_spec_def bits Let_def prod.case bits_count one hash
      using False z by simp
  qed
qed

section \<open>The digests\<close>

lemma md5_file_loop_rel: "md5_rel ctx m \<Longrightarrow> md5_rel (md5_file_loop ctx s) (m @ s)"
proof (induction ctx s arbitrary: m rule: md5_file_loop.induct)
  case (1 ctx s)
  show ?case
  proof (cases "s = []")
    case False
    have "md5_rel (md5_file_loop (MD5Update ctx (take 1024 s)) (drop 1024 s)) ((m @ take 1024 s) @ drop 1024 s)"
      by (rule "1.IH" [OF False MD5Update_rel]) (use "1.prems" in auto)
    with False show ?thesis
      by (simp add: md5_file_loop.simps [of ctx s])
  qed (use "1.prems" in \<open>simp add: md5_file_loop.simps\<close>)
qed

lemma OS_MD5_Bytes_digest:
  assumes "length (md5_in stack) = 64" "length s < 2 ^ 32"
  shows "OS_MD5_Bytes stack s = md5_hex (md5_spec s)"
  using MD5Update_rel [OF MD5Init_rel, of stack s] assms
  by (simp add: OS_MD5_Bytes_def MD5Final_spec)

lemma OS_MD5_Str_digest:
  "length (md5_in stack) = 64 \<Longrightarrow> length s < 2 ^ 32 \<Longrightarrow> OS_MD5_Str stack s = md5_hex (md5_spec s)"
  using OS_MD5_Bytes_digest by (simp add: OS_MD5_Bytes_def OS_MD5_Str_def)

lemma hex_digit_graph: "n < 16 \<Longrightarrow> hex_digit n \<noteq> NUL"
  by (auto simp: hex_digit_def char_of_eq_iff take_bit_eq_mod)

lemma byte_div_16: "byte c div 16 < (16 :: nat)"
  by (simp add: less_mult_imp_div_less)

lemma length_md5_hex [simp]: "length (md5_hex d) = 2 * length d"
  by (induction d) (auto simp: md5_hex_def)

lemma c_string_md5_hex [simp]: "c_string (md5_hex d)"
  using hex_digit_graph [OF byte_div_16] hex_digit_graph [OF mod_less_divisor] unfolding c_string_def md5_hex_def by fastforce

lemma length_md5_spec [simp]: "length (md5_spec m) = 16"
  by (simp add: md5_spec_def split_beta Let_def)

lemmas md5_words = MD5STEP_def F1_def F2_def F3_def F4_def

text \<open>A test vector of RFC 1321, run in the kernel round by round.\<close>

definition abc_block :: "string \<Rightarrow> bool" where
  "abc_block b \<longleftrightarrow> map (in32 b) [0..<16] = [0x80636261, 0, 0, 0, 0, 0, 0, 0, 0, 0, 0, 0, 0, 0, 24, 0]"

lemma abc_words:
  assumes "abc_block b"
  shows "in32 b 0 = 0x80636261" "in32 b (Suc 0) = 0" "in32 b 2 = 0" "in32 b 3 = 0" "in32 b 4 = 0" "in32 b 5 = 0"
    "in32 b 6 = 0" "in32 b 7 = 0" "in32 b 8 = 0" "in32 b 9 = 0" "in32 b 10 = 0" "in32 b 11 = 0"
    "in32 b 12 = 0" "in32 b 13 = 0" "in32 b 14 = 24" "in32 b 15 = 0"
  using assms by (simp_all add: abc_block_def upt_rec eval_nat_numeral)

lemma abc_round1:
  "abc_block b \<Longrightarrow> md5_round F1 b round1 md5_iv = (0xdda9b9a6, 0x72aff2e0, 0xe396856b, 0xa1051895)"
  by (simp add: round1_def md5_iv_def abc_words md5_words)

lemma abc_round2:
  "abc_block b \<Longrightarrow> md5_round F2 b round2 (0xdda9b9a6, 0x72aff2e0, 0xe396856b, 0xa1051895)
     = (0x790a77fb, 0x726342d3, 0xa62884aa, 0x9f47e4f8)"
  by (simp add: round2_def abc_words md5_words)

lemma abc_round3:
  "abc_block b \<Longrightarrow> md5_round F3 b round3 (0x790a77fb, 0x726342d3, 0xa62884aa, 0x9f47e4f8)
     = (0x7f2e507b, 0x7beb9700, 0x8fae6399, 0x99d9679d)"
  by (simp add: round3_def abc_words md5_words)

lemma abc_round4:
  "abc_block b \<Longrightarrow> md5_round F4 b round4 (0x7f2e507b, 0x7beb9700, 0x8fae6399, 0x99d9679d)
     = (0x310ade8f, 0xc08226b3, 0xe484b9d8, 0x624d8cb2)"
  by (simp add: round4_def abc_words md5_words)

lemma md5_abc: "md5_hex (md5_spec ''abc'') = ''900150983cd24fb0d6963f7d28e17f72''"
proof -
  have z: "replicate 52 NUL = concat (replicate 13 [NUL, NUL, NUL, NUL])" "replicate 7 NUL = [NUL, NUL, NUL, NUL, NUL, NUL, NUL]"
    by (simp_all add: numeral_eq_Suc)
  have q: "md5_pad ''abc'' = [CHR ''a'', CHR ''b'', CHR ''c'', CHR 0x80] @ concat (replicate 13 [NUL, NUL, NUL, NUL]) @ [CHR 0x18] @ replicate 7 NUL"
    unfolding md5_pad_def z(1) [symmetric] z(2) by (simp add: le_bytes_def word_byte_def char_of_eq_iff)
  let ?b = "md5_pad ''abc''"
  have l: "length ?b = 64" unfolding q by (simp add: numeral_eq_Suc)
  have w: "abc_block ?b"
    unfolding abc_block_def q by (simp add: in32_def byte32_def upt_rec numeral_eq_Suc)
  have "MD5Transform md5_iv ?b = (0x98500190, 0xb04fd23c, 0x7d3f96d6, 0x727fe128)"
    unfolding MD5Transform_def abc_round1 [OF w] abc_round2 [OF w] abc_round3 [OF w] abc_round4 [OF w]
    by (simp add: md5_iv_def)
  moreover have "md_fold md5_iv ?b = MD5Transform md5_iv ?b"
    using l by (simp add: md_fold.simps)
  ultimately have "md5_spec ''abc'' = le_bytes 0x98500190 @ le_bytes 0xb04fd23c @ le_bytes 0x7d3f96d6 @ le_bytes 0x727fe128"
    by (simp add: md5_spec_def)
  then show ?thesis
    by (simp add: le_bytes_def word_byte_def md5_hex_def hex_digit_def char_of_eq_iff take_bit_eq_mod)
qed

text \<open>The first core function is an optimised form of the one of RFC 1321.\<close>

lemma F1_rfc: "F1 x y z = (x AND y) OR (NOT x AND z)"
  by (rule bit_eqI) (auto simp: F1_def bit_simps)

section \<open>Properties\<close>

text \<open>
  C28. \<open>OS_MD5_Bytes\<close> and \<open>OS_MD5_File\<close> compute the MD5 digest of the whole message in
  hexadecimal: the context that absorbs the input update by update (a file arrives in chunks of
  1024 bytes and may be arbitrarily long, a buffer has less than 2^32 bytes) ends, whatever the
  uninitialised stack memory of the context held, in the digest obtained by padding the message at
  once and folding the transform over its 64-byte blocks.
\<close>

theorem md5_digest_of_whole:
  assumes "length (md5_in stack) = 64"
  shows "OS_MD5_File stack (Some s) = (0, md5_hex (md5_spec s))
    \<and> (length s < 2 ^ 32 \<longrightarrow> OS_MD5_Bytes stack s = md5_hex (md5_spec s))"
  using md5_file_loop_rel [OF MD5Init_rel [OF assms], of s] OS_MD5_Bytes_digest [OF assms, of s]
  by (simp_all add: OS_MD5_File_def MD5Final_spec)

theorem md5_digest_of_whole_witness:
  "OS_MD5_Bytes \<lparr>md5_hash = (0, 0, 0, 0), md5_bits = (0, 0), md5_in = replicate 64 NUL\<rparr> ''abc''
     = ''900150983cd24fb0d6963f7d28e17f72''"
  using md5_digest_of_whole [of "\<lparr>md5_hash = (0, 0, 0, 0), md5_bits = (0, 0), md5_in = replicate 64 NUL\<rparr>" "''abc''"]
  by (simp add: md5_abc)

end
