(* ===== verification/Blowfish.thy ===== *)
theory Blowfish
  imports Prelude_Word Blowfish_Pi
begin

unbundle bit_operations_syntax

text \<open>
  \<^verbatim>\<open>os_crypto/blowfish\<close>: the block cipher (\<^verbatim>\<open>bf_enc.c\<close>), its key schedule (\<^verbatim>\<open>bf_skey.c\<close>), the chaining
  of the blocks and \<open>OS_BF_Str\<close> (\<^verbatim>\<open>bf_op.c\<close>), with which agent and manager encrypt their messages.
  \<open>BF_LONG\<close> is an \<^verbatim>\<open>unsigned int\<close> of 32 bits, the generic \<open>BF_ENC\<close> is modelled.

  The rounds are a Feistel network, so decryption inverts encryption whatever the sub-keys and the
  boxes are; the chaining inverts block by block, the last incomplete block included.
\<close>

section \<open>The block cipher\<close>

record BF_KEY =
  bf_P :: "u32 list"
  bf_S :: "u32 list"

definition bf_init :: BF_KEY where
  "bf_init = \<lparr>bf_P = bf_init_P, bf_S = bf_init_S\<rparr>"

definition box_index :: "u32 \<Rightarrow> nat \<Rightarrow> nat" where
  "box_index r k = unat (drop_bit k r AND 0xff)"

definition BF_ENC :: "u32 \<Rightarrow> u32 \<Rightarrow> u32 list \<Rightarrow> u32 \<Rightarrow> u32" where
  "BF_ENC LL R S P =
     (LL XOR P) XOR (((S ! box_index R 24 + S ! (0x0100 + box_index R 16))
        XOR S ! (0x0200 + box_index R 8)) + S ! (0x0300 + box_index R 0))"

text \<open>The 16 rounds with the sub-keys in the order they are used; a round changes one half and
  the halves take turns.\<close>

fun bf_rounds :: "u32 list \<Rightarrow> u32 list \<Rightarrow> u32 \<times> u32 \<Rightarrow> u32 \<times> u32" where
  "bf_rounds S [] lr = lr"
| "bf_rounds S (p # ps) (l, r) = bf_rounds S ps (BF_ENC r l S p, l)"

definition BF_encrypt :: "BF_KEY \<Rightarrow> u32 \<times> u32 \<Rightarrow> u32 \<times> u32" where
  "BF_encrypt key data =
     (let (l, r) = bf_rounds (bf_S key) (take 16 (drop 1 (bf_P key))) (fst data XOR bf_P key ! 0, snd data)
      in (r XOR bf_P key ! 17, l))"

definition BF_decrypt :: "BF_KEY \<Rightarrow> u32 \<times> u32 \<Rightarrow> u32 \<times> u32" where
  "BF_decrypt key data =
     (let (l, r) = bf_rounds (bf_S key) (rev (take 16 (drop 1 (bf_P key)))) (fst data XOR bf_P key ! 17, snd data)
      in (r XOR bf_P key ! 0, l))"

section \<open>The key schedule\<close>

text \<open>The byte at position \<open>j\<close> of the key, read round and round; an empty key reads as its NUL.\<close>

definition key_byte :: "string \<Rightarrow> nat \<Rightarrow> char" where
  "key_byte k j = (if k = [] then NUL else k ! (j mod length k))"

definition key_word :: "string \<Rightarrow> nat \<Rightarrow> u32" where
  "key_word k i = push_bit 8 (push_bit 8 (push_bit 8 (byte32 (key_byte k (4 * i)))
     OR byte32 (key_byte k (4 * i + 1))) OR byte32 (key_byte k (4 * i + 2))) OR byte32 (key_byte k (4 * i + 3))"

fun bf_fill_P :: "nat list \<Rightarrow> BF_KEY \<Rightarrow> u32 \<times> u32 \<Rightarrow> BF_KEY \<times> u32 \<times> u32" where
  "bf_fill_P [] key x = (key, x)"
| "bf_fill_P (i # is) key x =
     (let y = BF_encrypt key x
      in bf_fill_P is (key\<lparr>bf_P := (bf_P key)[i := fst y, i + 1 := snd y]\<rparr>) y)"

fun bf_fill_S :: "nat list \<Rightarrow> BF_KEY \<Rightarrow> u32 \<times> u32 \<Rightarrow> BF_KEY" where
  "bf_fill_S [] key x = key"
| "bf_fill_S (i # is) key x =
     (let y = BF_encrypt key x
      in bf_fill_S is (key\<lparr>bf_S := (bf_S key)[i := fst y, i + 1 := snd y]\<rparr>) y)"

definition BF_set_key :: "string \<Rightarrow> BF_KEY" where
  "BF_set_key d =
     (let k = take 72 d;
          key = bf_init\<lparr>bf_P := map (\<lambda>(i, p). p XOR key_word k i) (enumerate 0 bf_init_P)\<rparr>;
          (key1, x) = bf_fill_P (map (\<lambda>i. 2 * i) [0..<9]) key (0, 0)
      in bf_fill_S (map (\<lambda>i. 2 * i) [0..<512]) key1 x)"

section \<open>Chaining\<close>

text \<open>\<open>n2l\<close> twice: a block of eight bytes as two words, and back.\<close>

definition block_words :: "string \<Rightarrow> u32 \<times> u32" where
  "block_words s = (be_word s, be_word (drop 4 s))"

definition block_bytes :: "u32 \<times> u32 \<Rightarrow> string" where
  "block_bytes x = be_bytes (fst x) @ be_bytes (snd x)"

definition xor2 :: "u32 \<times> u32 \<Rightarrow> u32 \<times> u32 \<Rightarrow> u32 \<times> u32" where
  "xor2 x y = (fst x XOR fst y, snd x XOR snd y)"

text \<open>Encrypting: the last incomplete block is filled with zero bytes (\<open>n2ln\<close>) and written in full.\<close>

function bf_cbc_enc :: "BF_KEY \<Rightarrow> u32 \<times> u32 \<Rightarrow> string \<Rightarrow> string" where
  "bf_cbc_enc key iv s =
     (if 8 \<le> length s then
        (let c = BF_encrypt key (xor2 (block_words s) iv) in block_bytes c @ bf_cbc_enc key c (drop 8 s))
      else if s \<noteq> [] then block_bytes (BF_encrypt key (xor2 (block_words (s @ replicate (8 - length s) NUL)) iv))
      else [])"
  by pat_completeness auto
termination bf_cbc_enc
  by (relation "measure (\<lambda>(key, iv, s). length s)") auto

text \<open>Decrypting \<open>n\<close> bytes: of an incomplete last block eight bytes are read and as many as are
  left are written (\<open>l2nn\<close>). Memory behind the input reads as NUL here.\<close>

function bf_cbc_dec :: "BF_KEY \<Rightarrow> u32 \<times> u32 \<Rightarrow> string \<Rightarrow> nat \<Rightarrow> string" where
  "bf_cbc_dec key iv s n =
     (let c = block_words (take 8 s @ replicate (8 - length s) NUL) in
      if 8 \<le> n then block_bytes (xor2 (BF_decrypt key c) iv) @ bf_cbc_dec key c (drop 8 s) (n - 8)
      else if n \<noteq> 0 then take n (block_bytes (xor2 (BF_decrypt key c) iv))
      else [])"
  by pat_completeness auto
termination bf_cbc_dec
  by (relation "measure (\<lambda>(key, iv, s, n). n)") auto

declare bf_cbc_enc.simps [simp del] bf_cbc_dec.simps [simp del]

definition cbc_iv :: "u32 \<times> u32" where
  "cbc_iv = (0xfedcba98, 0x76543210)"

datatype crypt_action = OS_DECRYPT | OS_ENCRYPT

text \<open>\<open>OS_BF_Str\<close> always returns 1; its result here is what it writes to \<open>output\<close>.\<close>

definition OS_BF_Str :: "string \<Rightarrow> string \<Rightarrow> nat \<Rightarrow> crypt_action \<Rightarrow> string" where
  "OS_BF_Str input charkey n action =
     (case action of
        OS_ENCRYPT \<Rightarrow> bf_cbc_enc (BF_set_key charkey) cbc_iv (take n input)
      | OS_DECRYPT \<Rightarrow> bf_cbc_dec (BF_set_key charkey) cbc_iv input n)"

section \<open>Decryption inverts encryption\<close>

lemma BF_ENC_twice [simp]: "BF_ENC (BF_ENC l r S p) r S p = l"
  by (simp add: BF_ENC_def ac_simps)

lemma bf_rounds_append: "bf_rounds S (ps @ qs) x = bf_rounds S qs (bf_rounds S ps x)"
  by (induction S ps x rule: bf_rounds.induct) auto

lemma bf_rounds_rev: "bf_rounds S (rev ps) (prod.swap (bf_rounds S ps x)) = prod.swap x"
  by (induction S ps x rule: bf_rounds.induct) (auto simp: bf_rounds_append)

lemma BF_decrypt_encrypt [simp]: "BF_decrypt key (BF_encrypt key x) = x"
proof -
  let ?ps = "take 16 (drop 1 (bf_P key))" and ?x = "(fst x XOR bf_P key ! 0, snd x)"
  obtain l r where lr: "bf_rounds (bf_S key) ?ps ?x = (l, r)" by fastforce
  then have "bf_rounds (bf_S key) (rev ?ps) (r, l) = (snd x, fst x XOR bf_P key ! 0)"
    using bf_rounds_rev [of "bf_S key" ?ps ?x] by simp
  with lr show ?thesis
    by (simp add: BF_encrypt_def BF_decrypt_def Let_def xor.assoc)
qed

lemma length_block_bytes [simp]: "length (block_bytes x) = 8"
  by (simp add: block_bytes_def)

lemma block_words_bytes [simp]: "block_words (block_bytes x) = x"
  by (simp add: block_words_def block_bytes_def)

lemma be_word_take: "4 \<le> n \<Longrightarrow> be_word (take n s) = be_word s"
  by (simp add: be_word_def)

lemma block_words_append [simp]: "8 \<le> length s \<Longrightarrow> block_words (s @ t) = block_words s"
  by (simp add: block_words_def)

lemma block_bytes_words:
  assumes "length s = 8"
  shows "block_bytes (block_words s) = s"
proof -
  have "be_bytes (be_word (take 4 s)) = take 4 s" "be_bytes (be_word (drop 4 s)) = drop 4 s"
    using assms by (simp_all add: be_bytes_word)
  then show ?thesis
    by (simp add: block_bytes_def block_words_def be_word_take)
qed

lemma xor2_xor2 [simp]: "xor2 (xor2 x y) y = x"
  by (simp add: xor2_def ac_simps)

lemma bf_cbc_inverse: "bf_cbc_dec key iv (bf_cbc_enc key iv s @ junk) (length s) = s"
proof (induction key iv s rule: bf_cbc_enc.induct)
  case (1 key iv s)
  consider "8 \<le> length s" | "length s < 8" "s \<noteq> []" | "s = []" by linarith
  then show ?case
  proof cases
    case 1
    then have "block_bytes (block_words s) = take 8 s"
      using block_bytes_words [of "take 8 s"] block_words_append [of "take 8 s" "drop 8 s"] by simp
    with 1 "1.IH" show ?thesis
      by (simp add: bf_cbc_enc.simps [of key iv s] bf_cbc_dec.simps [of key iv _ "length s"] Let_def)
  next
    case 2
    then show ?thesis
      using block_bytes_words [of "s @ replicate (8 - length s) NUL"]
      by (simp add: bf_cbc_enc.simps [of key iv s] bf_cbc_dec.simps [of key iv _ "length s"] Let_def)
  qed (simp add: bf_cbc_dec.simps)
qed

lemma length_bf_cbc_enc: "length (bf_cbc_enc key iv s) = 8 * ((length s + 7) div 8)"
proof (induction key iv s rule: bf_cbc_enc.induct)
  case (1 key iv s)
  then show ?case
    using div_add_self1 [of 8 "length s - 1"]
    by (cases "length s") (auto simp: bf_cbc_enc.simps [of key iv s] bf_cbc_enc.simps [of key iv "[]"] Let_def div_if)
qed

lemma length_bf_cbc_dec [simp]: "length (bf_cbc_dec key iv s n) = n"
proof (induction key iv s n rule: bf_cbc_dec.induct)
  case (1 key iv s n)
  then show ?case
    by (auto simp: bf_cbc_dec.simps [of key iv s n] Let_def)
qed

lemma OS_BF_Str_inverse_length: "length (OS_BF_Str m k (length m) OS_ENCRYPT) = 8 * ((length m + 7) div 8)"
  by (simp add: OS_BF_Str_def length_bf_cbc_enc)

lemma OS_BF_Str_decrypts: "OS_BF_Str (OS_BF_Str m k (length m) OS_ENCRYPT @ junk) k (length m) OS_DECRYPT = m"
  by (simp add: OS_BF_Str_def bf_cbc_inverse)

section \<open>Properties\<close>

text \<open>
  C29. For every key and every message, \<open>OS_BF_Str\<close> turns the message into whole blocks of eight
  bytes, and decrypting as many bytes as the message had gives the message back, whatever follows
  the ciphertext in the buffer: an incomplete last block is restored too.
\<close>

theorem OS_BF_Str_inverse:
  "length (OS_BF_Str m k (length m) OS_ENCRYPT) = 8 * ((length m + 7) div 8)
     \<and> OS_BF_Str (OS_BF_Str m k (length m) OS_ENCRYPT @ junk) k (length m) OS_DECRYPT = m"
  by (simp add: OS_BF_Str_inverse_length OS_BF_Str_decrypts)

end
