(* ===== verification/Validate.thy ===== *)
theory Validate
  imports Prelude_CStr "HOL-Library.Word"
begin

unbundle bit_operations_syntax

text \<open>
  \<^verbatim>\<open>shared/validate_op.c\<close>: the validation and the comparison of IP addresses with their CIDR prefix,
  of times of the day and of week days, as the rules and the access lists use them. \<open>inet_pton\<close> is
  a library function and a parameter (\<open>pton\<close>); its addresses are bytes in network order. The
  address structures are cleared before they are filled, so a byte behind an address reads as 0.
\<close>

section \<open>IP addresses\<close>

record pton =
  pton4 :: "string \<Rightarrow> 8 word list option"
  pton6 :: "string \<Rightarrow> 8 word list option"

definition pton_ok :: "pton \<Rightarrow> bool" where
  "pton_ok p \<longleftrightarrow> (\<forall>s a. pton4 p s = Some a \<longrightarrow> length a = 4) \<and> (\<forall>s a. pton6 p s = Some a \<longrightarrow> length a = 16)"

datatype sockaddr = AF_UNSPEC | AF_INET "8 word list" | AF_INET6 "8 word list"

record os_ip =
  ip_text :: string
  ss :: sockaddr
  prefixlength :: nat

definition os_pton_sockaddr :: "pton \<Rightarrow> string \<Rightarrow> sockaddr" where
  "os_pton_sockaddr p ip =
     (case pton4 p ip of
        Some a \<Rightarrow> AF_INET a
      | None \<Rightarrow> (case pton6 p ip of Some a \<Rightarrow> AF_INET6 a | None \<Rightarrow> AF_UNSPEC))"

text \<open>Returns 0 (no address), 1 (an address) or 2 (with a prefix length), and fills \<open>final_ip\<close>.\<close>

definition without_neg :: "string \<Rightarrow> string" where
  "without_neg a = (if deref a = CHR ''!'' then drop 1 a else a)"

definition OS_IsValidIP :: "pton \<Rightarrow> string option \<Rightarrow> os_ip \<Rightarrow> nat \<times> os_ip" where
  "OS_IsValidIP p in_address final_ip =
     (case in_address of
        None \<Rightarrow> (0, final_ip)
      | Some a \<Rightarrow>
          let final = final_ip\<lparr>ip_text := a\<rparr>;
              b = without_neg a;
              c = (if strcmp b ''any'' = 0 then ''::/0'' else b);
              mask = map_option tl (strchr c (CHR ''/''));
              host = takeWhile (\<lambda>x. x \<noteq> CHR ''/'') c;
              cidr = (case mask of None \<Rightarrow> -1 | Some m \<Rightarrow> atoi m);
              accept = (\<lambda>sa max. if cidr > max then (0, final)
                 else ((if cidr \<ge> 0 then 2 else 1),
                       final\<lparr>ss := sa, prefixlength := nat (if cidr \<ge> 0 then cidr else max)\<rparr>))
          in if (case mask of None \<Rightarrow> False | Some m \<Rightarrow> length m > 3) then (0, final)
             else (case os_pton_sockaddr p host of
                     AF_INET x \<Rightarrow> accept (AF_INET x) 32
                   | AF_INET6 x \<Rightarrow> accept (AF_INET6 x) 128
                   | AF_UNSPEC \<Rightarrow> (0, final)))"

text \<open>The address behind the structure, an IPv4-mapped IPv6 address as its last four bytes.\<close>

definition v4mapped :: "8 word list \<Rightarrow> bool" where
  "v4mapped a \<longleftrightarrow> take 12 a = replicate 10 0 @ [255, 255]"

definition real_addr :: "sockaddr \<Rightarrow> (bool \<times> 8 word list) option" where
  "real_addr sa =
     (case sa of
        AF_INET a \<Rightarrow> Some (True, a)
      | AF_INET6 a \<Rightarrow> Some (if v4mapped a then (True, drop 12 a) else (False, a))
      | AF_UNSPEC \<Rightarrow> None)"

definition addr_byte :: "8 word list \<Rightarrow> nat \<Rightarrow> 8 word" where
  "addr_byte a i = (if i < length a then a ! i else 0)"

definition sacmp :: "sockaddr \<Rightarrow> sockaddr \<Rightarrow> nat \<Rightarrow> bool" where
  "sacmp sa1 sa2 n =
     (if n = 0 then True
      else (case (real_addr sa1, real_addr sa2) of
              (Some (f, x), Some (g, y)) \<Rightarrow>
                f = g \<and> list_all (\<lambda>i. addr_byte x i = addr_byte y i) [0..<n div 8] \<and>
                (n mod 8 = 0 \<or>
                 (let modbits = push_bit (8 - n mod 8) (255 :: 8 word)
                  in addr_byte x (n div 8) AND modbits = addr_byte y (n div 8) AND modbits))
            | _ \<Rightarrow> False))"

definition zero_ip :: os_ip where
  "zero_ip = \<lparr>ip_text = [], ss = AF_UNSPEC, prefixlength = 0\<rparr>"

definition OS_IPFound :: "pton \<Rightarrow> string \<Rightarrow> os_ip \<Rightarrow> bool" where
  "OS_IPFound p ip_address that_ip =
     (let true = (deref (ip_text that_ip) \<noteq> CHR ''!''); ip = without_neg (ip_text that_ip) in
      if strcmp ip ''any'' = 0 then true
      else let (ok, temp_ip) = OS_IsValidIP p (Some ip_address) zero_ip in
        if ok = 0 then \<not> true
        else if sacmp (ss temp_ip) (ss that_ip) (prefixlength that_ip) then true
        else \<not> true)"

text \<open>The loop over the list; \<open>true\<close> is what the entry before left in \<open>_true\<close>.\<close>

fun ip_list_loop :: "sockaddr \<Rightarrow> bool \<Rightarrow> os_ip list \<Rightarrow> bool" where
  "ip_list_loop sa true [] = (\<not> true)"
| "ip_list_loop sa true (l_ip # ls) =
     (let true = (deref (ip_text l_ip) \<noteq> CHR ''!''); ip = without_neg (ip_text l_ip) in
      if strcmp ip ''any'' = 0 then true
      else if sacmp sa (ss l_ip) (prefixlength l_ip) then true
      else ip_list_loop sa true ls)"

definition OS_IPFoundList :: "pton \<Rightarrow> string \<Rightarrow> os_ip list \<Rightarrow> bool" where
  "OS_IPFoundList p ip_address list_of_ips =
     (let (ok, temp_ip) = OS_IsValidIP p (Some ip_address) zero_ip in
      if ok = 0 then False else ip_list_loop (ss temp_ip) True list_of_ips)"

section \<open>Times of the day\<close>

definition OS_IsonTime :: "string \<Rightarrow> string \<Rightarrow> bool" where
  "OS_IsonTime time_str ossec_time =
     (let true = (deref ossec_time \<noteq> CHR ''!''); t = drop 1 ossec_time in
      if strncmp time_str t 5 \<ge> 0 \<and> strncmp time_str (drop 5 t) 5 \<le> 0 then true else \<not> true)"

text \<open>\<open>%02d\<close> and \<open>%02d:%02d\<close> into six bytes.\<close>

definition pad2 :: "int \<Rightarrow> string" where
  "pad2 n = (let s = dec_int n in if length s < 2 then CHR ''0'' # s else s)"

definition hhmm :: "int \<Rightarrow> int \<Rightarrow> string" where
  "hhmm h m = take 5 (pad2 h @ CHR '':'' # pad2 m)"

definition rm_white :: "string \<Rightarrow> string" where
  "rm_white = dropWhile (\<lambda>c. c = CHR '' '')"

text \<open>
  The rest of the string and the hour, or NULL. Behind a colon the code looks at two more bytes,
  also where the string ends.
\<close>

definition hour_suffix :: "int \<Rightarrow> int \<Rightarrow> string \<Rightarrow> (string \<times> string) option" where
  "hour_suffix chour cmin str =
     (let s = rm_white str; m = deref (drop 1 s) \<in> {CHR ''m'', CHR ''M''} in
      if deref s \<in> {CHR ''a'', CHR ''A''} then
        (if m then Some (drop 2 s, hhmm chour cmin) else None)
      else if deref s \<in> {CHR ''p'', CHR ''P''} then
        (if m then
           let h = (if chour \<noteq> 12 then chour + 12 else chour)
           in if h < 0 \<or> h \<ge> 24 then None else Some (drop 2 s, hhmm h cmin)
         else None)
      else Some (s, hhmm chour cmin))"

definition gethour :: "string \<Rightarrow> mem_error + (string \<times> string) option" where
  "gethour str =
     (let chour = atoi str in
      if chour < 0 \<or> chour \<ge> 24 then Inr None
      else if length (takeWhile c_isdigit str) > 2 then Inr None
      else
        let s1 = dropWhile c_isdigit str in
        if deref s1 = CHR '':'' then
          let s2 = drop 1 s1 in
          if length s2 < 2 then Inl OutOfBounds
          else if (\<not> c_isdigit (s2 ! 0) \<or> \<not> c_isdigit (s2 ! 1)) \<and> c_isdigit (deref (drop 2 s2)) then Inr None
          else Inr (hour_suffix chour (atoi s2) (drop 2 s2))
        else Inr (hour_suffix chour 0 s1))"

definition OS_IsValidTime :: "string option \<Rightarrow> mem_error + string option" where
  "OS_IsValidTime time_str =
     (case time_str of
        None \<Rightarrow> Inr None
      | Some t0 \<Rightarrow>
          let t1 = rm_white t0; ng = (deref t1 = CHR ''!'');
              t2 = (if ng then rm_white (drop 1 t1) else t1)
          in (case gethour t2 of
                Inl e \<Rightarrow> Inl e
              | Inr None \<Rightarrow> Inr None
              | Inr (Some (t3, first_hour)) \<Rightarrow>
                  let t4 = rm_white t3 in
                  if deref t4 \<noteq> CHR ''-'' then Inr None
                  else (case gethour (rm_white (drop 1 t4)) of
                          Inl e \<Rightarrow> Inl e
                        | Inr None \<Rightarrow> Inr None
                        | Inr (Some (t5, second_hour)) \<Rightarrow>
                            if rm_white t5 \<noteq> [] then Inr None
                            else if strcmp first_hour second_hour > 0
                            then Inr (Some (take 11 (CHR ''!'' # second_hour @ first_hour)))
                            else Inr (Some (take 11 ((if ng then CHR ''!'' else CHR ''.'') #
                                                     first_hour @ second_hour))))))"

definition OS_IsAfterTime :: "string \<Rightarrow> string \<Rightarrow> bool" where
  "OS_IsAfterTime time_str ossec_time \<longleftrightarrow>
     deref ossec_time \<noteq> CHR ''!'' \<and> strncmp time_str (drop 1 ossec_time) 5 \<ge> 0"

definition OS_IsValidUniqueTime :: "string \<Rightarrow> mem_error + string option" where
  "OS_IsValidUniqueTime time_str =
     (if deref time_str = CHR ''!'' then Inr None
      else OS_IsValidTime (Some (take 127 (time_str @ CHR ''-'' # time_str))))"

section \<open>Week days\<close>

text \<open>
  A set of days is an array of nine bytes: 1 at the days, \<open>!\<close> at 7 for a negation.
\<close>

definition OS_IsonDay :: "nat \<Rightarrow> string \<Rightarrow> bool" where
  "OS_IsonDay week_day ossec_day =
     (let true = (ossec_day ! 7 \<noteq> CHR ''!'') in
      if week_day > 7 then False
      else if ossec_day ! week_day = CHR 0x01 then true else \<not> true)"

definition day_table :: "(string \<times> nat list) list" where
  "day_table =
     [(''sunday'', [0]), (''sun'', [0]), (''monday'', [1]), (''mon'', [1]), (''tuesday'', [2]), (''tue'', [2]),
      (''wednesday'', [3]), (''wed'', [3]), (''thursday'', [4]), (''thu'', [4]), (''friday'', [5]),
      (''fri'', [5]), (''saturday'', [6]), (''sat'', [6]), (''weekdays'', [1, 2, 3, 4, 5]), (''weekends'', [0, 6])]"

definition day_at :: "string \<Rightarrow> (string \<times> nat list) option" where
  "day_at s = find (\<lambda>(d, _). strncasecmp s d (length d) = 0) day_table"

definition is_sep :: "char \<Rightarrow> bool" where
  "is_sep c \<longleftrightarrow> c = CHR '' '' \<or> c = CHR '',''"

lemma day_at_pos: "day_at s = Some (d, ns) \<Longrightarrow> d \<noteq> [] \<and> s \<noteq> []"
  by (cases s) (auto simp: day_at_def day_table_def find_Some_iff strncasecmp_def c_tolower_def nth_Cons' split: if_splits)

function day_loop :: "string \<Rightarrow> nat list \<Rightarrow> nat list option" where
  "day_loop s days =
     (if s = [] then Some days
      else (case day_at s of
              None \<Rightarrow> None
            | Some (d, ns) \<Rightarrow>
                let t = drop (length d) s in
                if is_sep (deref t) then day_loop (dropWhile is_sep t) (days @ ns)
                else if t = [] then Some (days @ ns)
                else None))"
  by pat_completeness auto
termination day_loop
proof (relation "measure (\<lambda>(s, _). length s)", goal_cases)
  case (2 s days x d ns t)
  have "length (dropWhile is_sep t) \<le> length t" by (rule length_dropWhile_le)
  moreover have "length t < length s" using day_at_pos [of s d ns] 2 by simp
  ultimately show ?case by simp
qed simp

definition OS_IsValidDay :: "string option \<Rightarrow> string option" where
  "OS_IsValidDay day_str =
     (case day_str of
        None \<Rightarrow> None
      | Some s0 \<Rightarrow>
          let s = rm_white s0; ng = (deref s = CHR ''!'') in
          case day_loop (if ng then rm_white s else s) [] of
            None \<Rightarrow> None
          | Some days \<Rightarrow>
              if days = [] then None
              else Some (map (\<lambda>i. if i \<in> set days then CHR 0x01 else NUL) [0..<7] @
                         [if ng then CHR ''!'' else NUL, NUL]))"

declare day_loop.simps [simp del]

section \<open>The comparison looks at the first bits\<close>

definition byte_bits :: "8 word \<Rightarrow> bool list" where
  "byte_bits w = map (\<lambda>k. bit w (7 - k)) [0..<8]"

definition bits_of :: "8 word list \<Rightarrow> bool list" where
  "bits_of a = concat (map byte_bits a)"

lemma length_byte_bits [simp]: "length (byte_bits w) = 8"
  by (simp add: byte_bits_def)

lemma length_bits_of [simp]: "length (bits_of a) = 8 * length a"
  by (induction a) (simp_all add: bits_of_def)

lemma nth_byte_bits: "k < 8 \<Longrightarrow> byte_bits w ! k = bit w (7 - k)"
  unfolding byte_bits_def by (subst nth_map) simp_all

lemma byte_bits_inj: "byte_bits v = byte_bits w \<longleftrightarrow> v = w"
proof
  assume eq: "byte_bits v = byte_bits w"
  have "bit v n = bit w n" if "n < 8" for n
    using arg_cong [OF eq, of "\<lambda>l. l ! (7 - n)"] that nth_byte_bits [of "7 - n"] by simp
  then show "v = w" by (intro bit_word_eqI) simp
qed simp

lemma take_byte_bits:
  assumes "r \<le> 8"
  shows "take r (byte_bits v) = take r (byte_bits w) \<longleftrightarrow>
    v AND push_bit (8 - r) (255 :: 8 word) = w AND push_bit (8 - r) (255 :: 8 word)"
proof -
  have m: "bit (push_bit (8 - r) (255 :: 8 word)) n \<longleftrightarrow> 8 - r \<le> n \<and> n < 8" for n
  proof -
    have "(255 :: 8 word) = - 1" by simp
    moreover have "bit (push_bit (8 - r) (- 1 :: 8 word)) n \<longleftrightarrow> 8 - r \<le> n \<and> n < 8"
      by (auto simp: bit_simps)
    ultimately show ?thesis by (simp only:)
  qed
  have "take r (byte_bits v) = take r (byte_bits w) \<longleftrightarrow> (\<forall>k<r. bit v (7 - k) = bit w (7 - k))"
    using assms by (auto simp: list_eq_iff_nth_eq nth_byte_bits)
  also have "\<dots> \<longleftrightarrow> (\<forall>n. 8 - r \<le> n \<and> n < 8 \<longrightarrow> bit v n = bit w n)"
  proof (rule iffI; intro allI impI)
    fix n assume a: "\<forall>k<r. bit v (7 - k) = bit w (7 - k)" and "8 - r \<le> n \<and> n < 8"
    then have "7 - n < r" "7 - (7 - n) = n" by auto
    with a show "bit v n = bit w n" by metis
  next
    fix k assume a: "\<forall>n. 8 - r \<le> n \<and> n < 8 \<longrightarrow> bit v n = bit w n" and "k < r"
    moreover have "8 - r \<le> 7 - k \<and> 7 - k < 8" using \<open>k < r\<close> assms by linarith
    ultimately show "bit v (7 - k) = bit w (7 - k)" by blast
  qed
  also have "\<dots> \<longleftrightarrow> v AND push_bit (8 - r) 255 = w AND push_bit (8 - r) 255"
    by (auto simp: bit_eq_iff bit_and_iff m)
  finally show ?thesis .
qed

text \<open>Comparing by bytes and a mask is comparing the first \<open>n\<close> bits.\<close>

definition bytes_agree :: "8 word list \<Rightarrow> 8 word list \<Rightarrow> nat \<Rightarrow> bool" where
  "bytes_agree x y n \<longleftrightarrow> list_all (\<lambda>i. addr_byte x i = addr_byte y i) [0..<n div 8] \<and>
     (n mod 8 = 0 \<or> addr_byte x (n div 8) AND push_bit (8 - n mod 8) 255 =
                    addr_byte y (n div 8) AND push_bit (8 - n mod 8) (255 :: 8 word))"

lemma bytes_agree_Cons:
  "bytes_agree (v # x) (w # y) n \<longleftrightarrow>
     (if n < 8 then take n (byte_bits v) = take n (byte_bits w) else v = w \<and> bytes_agree x y (n - 8))"
proof (cases "n < 8")
  case True
  then show ?thesis by (cases "n = 0") (auto simp: bytes_agree_def addr_byte_def take_byte_bits)
next
  case False
  then have d: "n div 8 = Suc ((n - 8) div 8)" "n mod 8 = (n - 8) mod 8" by (simp_all add: le_div_geq le_mod_geq)
  have "[0..<Suc k] = 0 # map Suc [0..<k]" for k by (simp add: upt_conv_Cons map_Suc_upt del: upt_Suc)
  then have "list_all (\<lambda>i. addr_byte (v # x) i = addr_byte (w # y) i) [0..<Suc k] \<longleftrightarrow>
      v = w \<and> list_all (\<lambda>i. addr_byte x i = addr_byte y i) [0..<k]" for k
    by (simp add: addr_byte_def list.pred_map o_def)
  moreover have "addr_byte (v # x) (Suc k) = addr_byte x k" "addr_byte (w # y) (Suc k) = addr_byte y k" for k
    by (simp_all add: addr_byte_def)
  ultimately show ?thesis using False by (simp add: bytes_agree_def d)
qed

lemma bytes_agree_bits:
  "length x = length y \<Longrightarrow> bytes_agree x y n \<longleftrightarrow> take n (bits_of x) = take n (bits_of y)"
proof (induction x y arbitrary: n rule: list_induct2)
  case Nil
  then show ?case by (simp add: bytes_agree_def addr_byte_def bits_of_def list_all_iff)
next
  case (Cons v x w y)
  have "take n (byte_bits v @ bits_of x) = take n (byte_bits w @ bits_of y) \<longleftrightarrow>
      (if n < 8 then take n (byte_bits v) = take n (byte_bits w)
       else v = w \<and> take (n - 8) (bits_of x) = take (n - 8) (bits_of y))"
    by (simp add: byte_bits_inj)
  then show ?case using Cons.IH by (simp add: bytes_agree_Cons bits_of_def)
qed

text \<open>
  C30. \<open>sacmp\<close> compares the first \<open>n\<close> bits: of two addresses of one family (an IPv4-mapped address is
  an IPv4 address) it looks at exactly the bits before the prefix length; a prefix of 0 matches any
  two addresses, and one that is longer than the address means equality.
\<close>

theorem sacmp_prefix:
  assumes "real_addr sa1 = Some (f, x)" "real_addr sa2 = Some (g, y)" "f = g \<Longrightarrow> length x = length y"
  shows "sacmp sa1 sa2 n \<longleftrightarrow> n = 0 \<or> (f = g \<and> take n (bits_of x) = take n (bits_of y))"
proof -
  have "sacmp sa1 sa2 n \<longleftrightarrow> n = 0 \<or> (f = g \<and> bytes_agree x y n)"
    by (simp add: sacmp_def assms(1,2) bytes_agree_def Let_def)
  with assms(3) show ?thesis using bytes_agree_bits [of x y n] by blast
qed

section \<open>Lists of addresses\<close>

definition negated :: "os_ip \<Rightarrow> bool" where
  "negated i \<longleftrightarrow> deref (ip_text i) = CHR ''!''"

definition covers :: "sockaddr \<Rightarrow> os_ip \<Rightarrow> bool" where
  "covers sa i \<longleftrightarrow> strcmp (without_neg (ip_text i)) ''any'' = 0 \<or> sacmp sa (ss i) (prefixlength i)"

lemma ip_list_loop_find:
  "ip_list_loop sa true ls =
     (case find (covers sa) ls of
        Some i \<Rightarrow> \<not> negated i
      | None \<Rightarrow> if ls = [] then \<not> true else negated (last ls))"
  by (induction ls arbitrary: true) (simp_all add: covers_def negated_def Let_def split: option.split)

text \<open>
  C27. An address list is decided by the first entry that covers the address, \<open>any\<close> included: by
  whether this entry is negated. If none covers it, the last entry decides: a list that ends with a
  negated entry admits what it does not mention. No text that is not an address is on a list, and
  nothing is on the empty list.
\<close>

theorem OS_IPFoundList_first:
  "OS_IPFoundList p ip_address list_of_ips \<longleftrightarrow>
     (let (ok, a) = OS_IsValidIP p (Some ip_address) zero_ip in
      ok \<noteq> 0 \<and>
      (case find (covers (ss a)) list_of_ips of
         Some i \<Rightarrow> \<not> negated i
       | None \<Rightarrow> list_of_ips \<noteq> [] \<and> negated (last list_of_ips)))"
  by (auto simp: OS_IPFoundList_def ip_list_loop_find split: prod.split option.split)

section \<open>Ranges of times\<close>

definition dig :: "nat \<Rightarrow> char" where
  "dig d = char_of (48 + d)"

lemma dig_simps [simp]:
  "d < 10 \<Longrightarrow> c_isdigit (dig d)" "d < 10 \<Longrightarrow> digit_val (dig d) = d" "d < 10 \<Longrightarrow> byte (dig d) = 48 + d"
  using digit_char [of d] by (simp_all add: dig_def)

definition two_digits :: "nat \<Rightarrow> string" where
  "two_digits n = [dig (n div 10), dig (n mod 10)]"

lemma zero_digit: "dig 0 = CHR ''0''"
  by (simp add: dig_def) code_simp

lemma pad2_two_digits: "n < 100 \<Longrightarrow> pad2 (int n) = two_digits n"
  using zero_digit
  by (cases "n < 10") (auto simp: pad2_def dec_int_def dec_nat.simps [of n] dec_nat.simps [of "n div 10"] two_digits_def dig_def Let_def)

lemma atoi_two_digits:
  "n < 100 \<Longrightarrow> \<not> c_isdigit (deref s) \<Longrightarrow> atoi (two_digits n @ s) = int n"
proof -
  assume n: "n < 100" and s: "\<not> c_isdigit (deref s)"
  have d: "n div 10 < 10" "n mod 10 < 10" using n by simp_all
  have "digits_val k s = k" for k using s by (cases s) auto
  then have "digits_val 0 (two_digits n @ s) = n" using d by (simp add: two_digits_def)
  moreover have "byte (dig (n div 10)) \<ge> 48" using d by simp
  then have "\<not> c_isspace (dig (n div 10))" "dig (n div 10) \<noteq> CHR ''-''" "dig (n div 10) \<noteq> CHR ''+''"
    by (auto simp: c_isspace_def)
  ultimately show ?thesis by (simp add: atoi_def two_digits_def)
qed

text \<open>A time of the day as the engine writes it, \<open>hh:mm\<close>; their order is the order of the texts.\<close>

definition clock :: "nat \<Rightarrow> nat \<Rightarrow> string" where
  "clock h m = two_digits h @ CHR '':'' # two_digits m"

lemma length_clock [simp]: "length (clock h m) = 5"
  by (simp add: clock_def two_digits_def)

lemma hhmm_clock: "h < 100 \<Longrightarrow> m < 100 \<Longrightarrow> hhmm (int h) (int m) = clock h m"
  by (simp add: hhmm_def clock_def pad2_two_digits two_digits_def)

lemma strcmp_digs:
  assumes "p < 10" "q < 10" "p' < 10" "q' < 10"
  shows "strcmp (dig p # dig q # s) (dig p' # dig q' # t) =
    (if p = p' then if q = q' then strcmp s t else int q - int q' else int p - int p')"
proof -
  have e: "dig x = dig y \<longleftrightarrow> x = y" if "x < 10" "y < 10" for x y
  proof
    assume "dig x = dig y"
    then have "byte (dig x) = (byte (dig y) :: nat)" by (rule arg_cong)
    with that show "x = y" by simp
  qed simp
  with assms show ?thesis by simp
qed

lemma digits_order:
  fixes a b :: nat
  shows "a = b \<longleftrightarrow> a div 10 = b div 10 \<and> a mod 10 = b mod 10"
    "(if a div 10 = b div 10 then int (a mod 10) - int (b mod 10) else int (a div 10) - int (b div 10)) > 0 \<longleftrightarrow> a > b"
    "(if a div 10 = b div 10 then int (a mod 10) - int (b mod 10) else int (a div 10) - int (b div 10)) \<ge> 0 \<longleftrightarrow> a \<ge> b"
proof -
  show "a = b \<longleftrightarrow> a div 10 = b div 10 \<and> a mod 10 = b mod 10"
    using mult_div_mod_eq [of 10 a] mult_div_mod_eq [of 10 b] by (metis (full_types))
  have key: "q < 10 \<Longrightarrow> q' < 10 \<Longrightarrow> (if p = p' then int q - int q' else int p - int p') > 0 \<longleftrightarrow> 10 * p + q > 10 * p' + q'"
    "q < 10 \<Longrightarrow> q' < 10 \<Longrightarrow> (if p = p' then int q - int q' else int p - int p') \<ge> 0 \<longleftrightarrow> 10 * p + q \<ge> 10 * p' + q'"
    for p q p' q' :: nat by auto
  show "(if a div 10 = b div 10 then int (a mod 10) - int (b mod 10) else int (a div 10) - int (b div 10)) > 0 \<longleftrightarrow> a > b"
    "(if a div 10 = b div 10 then int (a mod 10) - int (b mod 10) else int (a div 10) - int (b div 10)) \<ge> 0 \<longleftrightarrow> a \<ge> b"
    using key [of "a mod 10" "b mod 10" "a div 10" "b div 10"] by (simp_all only: mult_div_mod_eq mod_less_divisor zero_less_numeral simp_thms)
qed

lemma strcmp_two_digits:
  assumes "a < 100" "b < 100"
  shows "strcmp (two_digits a @ s) (two_digits b @ t) =
    (if a = b then strcmp s t else if a div 10 = b div 10 then int (a mod 10) - int (b mod 10)
     else int (a div 10) - int (b div 10))"
proof -
  have d: "a div 10 < 10" "b div 10 < 10" "a mod 10 < 10" "b mod 10 < 10" using assms by simp_all
  have "two_digits a @ s = dig (a div 10) # dig (a mod 10) # s" "two_digits b @ t = dig (b div 10) # dig (b mod 10) # t"
    by (simp_all add: two_digits_def)
  with strcmp_digs [OF d(1,3,2,4), of s t] digits_order(1) [of a b] show ?thesis
    by (simp only: simp_thms if_True if_False split: if_split) blast
qed

lemma strcmp_clock:
  assumes "h < 24" "m < 60" "h' < 24" "m' < 60"
  shows "strcmp (clock h m) (clock h' m') > 0 \<longleftrightarrow> 60 * h + m > 60 * h' + m'"
    "strcmp (clock h m) (clock h' m') \<ge> 0 \<longleftrightarrow> 60 * h + m \<ge> 60 * h' + m'"
proof -
  have mm: "strcmp (two_digits m) (two_digits m') = (if m = m' then 0 else if m div 10 = m' div 10
      then int (m mod 10) - int (m' mod 10) else int (m div 10) - int (m' div 10))"
    using strcmp_two_digits [of m m' "[]" "[]"] assms by simp
  have hh: "strcmp (clock h m) (clock h' m') = (if h = h' then strcmp (two_digits m) (two_digits m')
      else if h div 10 = h' div 10 then int (h mod 10) - int (h' mod 10) else int (h div 10) - int (h' div 10))"
    using strcmp_two_digits [of h h' "CHR '':'' # two_digits m" "CHR '':'' # two_digits m'"] assms
    by (simp add: clock_def)
  show "strcmp (clock h m) (clock h' m') > 0 \<longleftrightarrow> 60 * h + m > 60 * h' + m'"
    "strcmp (clock h m) (clock h' m') \<ge> 0 \<longleftrightarrow> 60 * h + m \<ge> 60 * h' + m'"
    unfolding hh mm using digits_order(2,3) [of h h'] digits_order(2,3) [of m m'] assms by auto
qed

lemma gethour_clock:
  assumes "h < 24" "m < 60" "deref (rm_white rest) \<notin> {CHR ''a'', CHR ''A'', CHR ''p'', CHR ''P''}" "\<not> c_isdigit (deref rest)"
  shows "gethour (clock h m @ rest) = Inr (Some (rm_white rest, clock h m))"
proof -
  have d: "h div 10 < 10" "h mod 10 < 10" "m div 10 < 10" "m mod 10 < 10" using assms by simp_all
  have "atoi (two_digits h @ CHR '':'' # two_digits m @ rest) = int h" "atoi (two_digits m @ rest) = int m"
    using atoi_two_digits assms by (simp_all add: c_isdigit_def)
  moreover have "\<not> c_isdigit CHR '':''" by (simp add: c_isdigit_def)
  moreover have "hour_suffix (int h) (int m) rest = Some (rm_white rest, clock h m)"
    using assms(1-3) hhmm_clock [of h m] by (simp add: hour_suffix_def rm_white_def)
  ultimately show ?thesis using assms(1,4) d
    by (simp add: gethour_def clock_def two_digits_def Let_def rm_white_def)
qed

text \<open>
  C23. A range of times, read by \<open>OS_IsValidTime\<close> and tested by \<open>OS_IsonTime\<close>: from \<open>t1\<close> to \<open>t2\<close> with
  \<open>t1 <= t2\<close> it is the times between them, both included, and with \<open>!\<close> the others. A range over
  midnight is the times that are not between \<open>t2\<close> and \<open>t1\<close>, with or without \<open>!\<close>: the code drops the
  negation there.
\<close>

theorem time_range:
  assumes "h1 < 24" "m1 < 60" "h2 < 24" "m2 < 60" "h < 24" "m < 60"
  shows "\<exists>r. OS_IsValidTime (Some ((if ng then ''!'' else []) @ clock h1 m1 @ '' - '' @ clock h2 m2)) = Inr (Some r) \<and>
    (OS_IsonTime (clock h m) r \<longleftrightarrow>
      (if 60 * h1 + m1 \<le> 60 * h2 + m2
       then (60 * h1 + m1 \<le> 60 * h + m \<and> 60 * h + m \<le> 60 * h2 + m2) = (\<not> ng)
       else \<not> (60 * h2 + m2 \<le> 60 * h + m \<and> 60 * h + m \<le> 60 * h1 + m1)))"
proof -
  have d: "rm_white (dig k # s) = dig k # s" "dig k \<noteq> CHR ''!''" if "k < 10" for k s
    using dig_simps(3) [OF that] by (auto simp: rm_white_def)
  have cl: "rm_white (clock a b @ s) = clock a b @ s" "deref (clock a b @ s) \<noteq> CHR ''!''" if "a < 24" for a b s
    using d [of "a div 10"] that by (simp_all add: clock_def two_digits_def)
  have g1: "gethour (clock h1 m1 @ '' - '' @ clock h2 m2) = Inr (Some (''- '' @ clock h2 m2, clock h1 m1))"
    using gethour_clock [OF assms(1,2), of "'' - '' @ clock h2 m2"] by (simp add: rm_white_def c_isdigit_def)
  have g2: "gethour (clock h2 m2) = Inr (Some ([], clock h2 m2))"
    using gethour_clock [OF assms(3,4), of "[]"] by (simp add: rm_white_def c_isdigit_def)
  let ?r = "if 60 * h1 + m1 > 60 * h2 + m2 then CHR ''!'' # clock h2 m2 @ clock h1 m1
            else (if ng then CHR ''!'' else CHR ''.'') # clock h1 m1 @ clock h2 m2"
  have w: "rm_white ('' '' @ clock h2 m2) = clock h2 m2" "rm_white (CHR ''!'' # s) = CHR ''!'' # s"
      "rm_white (CHR ''-'' # s) = CHR ''-'' # s" for s
    using cl(1) [OF assms(3), of m2 "[]"] by (simp_all add: rm_white_def)
  have "OS_IsValidTime (Some ((if ng then ''!'' else []) @ clock h1 m1 @ '' - '' @ clock h2 m2)) = Inr (Some ?r)"
    using cl [OF assms(1), of m1 "'' - '' @ clock h2 m2"] g1 g2 w strcmp_clock(1) [OF assms(1-4)]
    by (simp add: OS_IsValidTime_def Let_def) (simp add: rm_white_def)
  moreover have "OS_IsonTime (clock h m) (c # clock a b @ clock a' b') \<longleftrightarrow>
      (60 * a + b \<le> 60 * h + m \<and> 60 * h + m \<le> 60 * a' + b') = (c \<noteq> CHR ''!'')"
    if "a < 24" "b < 60" "a' < 24" "b' < 60" for a b a' b' c
    using strcmp_clock(2) [OF assms(5,6) that(1,2)] strcmp_clock(1) [OF assms(5,6) that(3,4)]
    by (auto simp: OS_IsonTime_def strncmp_take)
  ultimately show ?thesis using assms by (intro exI [of _ ?r]) auto
qed

section \<open>Sets of week days\<close>

lemma lower_day [simp]:
  "c_tolower CHR ''a'' = CHR ''a''" "c_tolower CHR ''d'' = CHR ''d''" "c_tolower CHR ''e'' = CHR ''e''"
  "c_tolower CHR ''f'' = CHR ''f''" "c_tolower CHR ''h'' = CHR ''h''" "c_tolower CHR ''i'' = CHR ''i''"
  "c_tolower CHR ''k'' = CHR ''k''" "c_tolower CHR ''m'' = CHR ''m''" "c_tolower CHR ''n'' = CHR ''n''"
  "c_tolower CHR ''o'' = CHR ''o''" "c_tolower CHR ''r'' = CHR ''r''" "c_tolower CHR ''s'' = CHR ''s''"
  "c_tolower CHR ''t'' = CHR ''t''" "c_tolower CHR ''u'' = CHR ''u''" "c_tolower CHR ''w'' = CHR ''w''"
  "c_tolower CHR ''y'' = CHR ''y''" "c_tolower CHR '','' = CHR '',''"
  by (simp_all add: c_tolower_def)

lemma strncmp_before:
  "x \<notin> set t \<Longrightarrow> NUL \<notin> set t \<Longrightarrow> NUL \<notin> set s \<Longrightarrow>
   (strncmp (s @ x # rest) t (length t) = 0 \<longleftrightarrow> prefix t s) \<and> (strncmp s t (length t) = 0 \<longleftrightarrow> prefix t s)"
proof (induction t arbitrary: s)
  case (Cons d t)
  then show ?case by (cases s) auto
qed simp

definition plain_day :: "string \<Rightarrow> bool" where
  "plain_day d \<longleftrightarrow> map c_tolower d = d \<and> CHR '','' \<notin> set d \<and> NUL \<notin> set d"

lemma day_table_plain: "list_all (\<lambda>(d, _). plain_day d) day_table"
  by (simp add: day_table_def plain_day_def)

lemma day_table_prefix: "list_all (\<lambda>(d, ns). find (\<lambda>(e, _). prefix e d) day_table = Some (d, ns)) day_table"
  by (simp add: day_table_def)

lemma day_at_name:
  assumes "(d, ns) \<in> set day_table"
  shows "day_at d = Some (d, ns)" "day_at (d @ CHR '','' # rest) = Some (d, ns)"
proof -
  have d: "plain_day d" using assms day_table_plain by (auto simp: list_all_iff)
  have e: "plain_day e" if "(e, ms) \<in> set day_table" for e ms using that day_table_plain by (auto simp: list_all_iff)
  have pre: "(strncasecmp (d @ CHR '','' # rest) e (length e) = 0 \<longleftrightarrow> prefix e d) \<and>
      (strncasecmp d e (length e) = 0 \<longleftrightarrow> prefix e d)" if "plain_day e" for e rest
    using strncmp_before [of "CHR '',''" e d "map c_tolower rest"] d that
    by (simp add: strncasecmp_def plain_day_def)
  have f: "find (\<lambda>(e, _). prefix e d) day_table = Some (d, ns)"
    using assms day_table_prefix by (auto simp: list_all_iff)
  have "day_at d = find (\<lambda>(e, _). prefix e d) day_table"
    "day_at (d @ CHR '','' # rest) = find (\<lambda>(e, _). prefix e d) day_table"
    unfolding day_at_def by (rule find_cong; use pre e in auto)+
  with f show "day_at d = Some (d, ns)" "day_at (d @ CHR '','' # rest) = Some (d, ns)" by simp_all
qed

lemma day_table_names:
  "(d, ns) \<in> set day_table \<Longrightarrow> d \<noteq> [] \<and> \<not> is_sep (hd d) \<and> hd d \<noteq> CHR ''!'' \<and> ns \<noteq> [] \<and> set ns \<subseteq> {..<7}"
  by (auto simp: day_table_def is_sep_def)

lemma day_loop_names:
  "list_all (\<lambda>p. p \<in> set day_table) ps \<Longrightarrow> ps \<noteq> [] \<Longrightarrow>
   day_loop (join_with (CHR '','') (map fst ps)) acc = Some (acc @ concat (map snd ps))"
proof (induction ps arbitrary: acc)
  case (Cons p ps)
  obtain d ns where p: "p = (d, ns)" by force
  then have d: "(d, ns) \<in> set day_table" using Cons.prems(1) by simp
  note D = day_table_names [OF d]
  show ?case
  proof (cases ps)
    case Nil
    then show ?thesis using day_at_name(1) [OF d] D by (simp add: p day_loop.simps [of d] is_sep_def)
  next
    case (Cons q qs)
    obtain e ms where q: "q = (e, ms)" by force
    then have e: "(e, ms) \<in> set day_table" using Cons.prems(1) Cons by simp
    let ?rest = "join_with (CHR '','') (map fst ps)"
    have "\<exists>t. ?rest = e @ t" using Cons q by (cases qs) auto
    then have rest: "dropWhile is_sep (CHR '','' # ?rest) = ?rest"
      using day_table_names [OF e] by (cases e) (auto simp: is_sep_def)
    have j: "join_with (CHR '','') (map fst (p # ps)) = d @ CHR '','' # ?rest" using p Cons by simp
    have "day_loop (d @ CHR '','' # ?rest) acc = day_loop ?rest (acc @ ns)"
      using day_at_name(2) [OF d, of ?rest] rest
      by (simp add: day_loop.simps [of "d @ CHR '','' # ?rest"] is_sep_def Let_def)
    moreover have "ps \<noteq> []" using Cons by simp
    ultimately show ?thesis using Cons.IH [OF _ \<open>ps \<noteq> []\<close>, of "acc @ ns"] Cons.prems(1) j p by simp
  qed
qed simp

text \<open>
  C23. A list of week days in the configuration, \<open>mon,tue\<close> or \<open>weekdays\<close>: \<open>OS_IsValidDay\<close> accepts every
  list of the names it knows and \<open>OS_IsonDay\<close> then holds on exactly the days that are named.
\<close>

theorem week_days:
  assumes "list_all (\<lambda>p. p \<in> set day_table) ps" "ps \<noteq> []"
  shows "\<exists>r. OS_IsValidDay (Some (join_with (CHR '','') (map fst ps))) = Some r \<and>
    filter (\<lambda>w. OS_IsonDay w r) [0..<7] = filter (\<lambda>w. w \<in> set (concat (map snd ps))) [0..<7]"
proof -
  let ?s = "join_with (CHR '','') (map fst ps)" and ?days = "concat (map snd ps)"
  obtain p qs where ps: "ps = p # qs" using assms(2) by (cases ps) auto
  obtain d ns where p: "p = (d, ns)" by force
  then have D: "d \<noteq> [] \<and> \<not> is_sep (hd d) \<and> hd d \<noteq> CHR ''!'' \<and> ns \<noteq> []"
    using assms(1) day_table_names [of d ns] ps by simp
  have "\<exists>t. ?s = d @ t" using ps p by (cases qs) auto
  then have s: "rm_white ?s = ?s" "deref ?s \<noteq> CHR ''!''" using D by (cases d; auto simp: rm_white_def is_sep_def)+
  have ne: "?days \<noteq> []" using D ps p by simp
  have v: "OS_IsValidDay (Some ?s) =
      Some (map (\<lambda>i. if i \<in> set ?days then CHR 0x01 else NUL) [0..<7] @ [NUL, NUL])"
    using day_loop_names [OF assms, of "[]"] s ne by (simp add: OS_IsValidDay_def Let_def)
  let ?r = "map (\<lambda>i. if i \<in> set ?days then CHR 0x01 else NUL) [0..<7] @ [NUL, NUL]"
  have n: "?r ! w = (if w \<in> set ?days then CHR 0x01 else NUL)" if "w < 7" for w
    using that by (simp add: nth_append del: upt_Suc upt_conv_Cons_Cons set_concat upt_rec_numeral)
  have n7: "?r ! 7 = NUL" by (simp add: nth_append)
  have "OS_IsonDay w ?r \<longleftrightarrow> w \<in> set ?days" if "w < 7" for w
    unfolding OS_IsonDay_def Let_def n7 n [OF that] using that by simp
  then have "filter (\<lambda>w. OS_IsonDay w ?r) [0..<7] = filter (\<lambda>w. w \<in> set ?days) [0..<7]"
    by (intro filter_cong) auto
  with v show ?thesis by blast
qed

text \<open>A negated list of days, which the documentation allows, is never accepted.\<close>

lemma negated_days: "deref (rm_white s) = CHR ''!'' \<Longrightarrow> OS_IsValidDay (Some s) = None"
proof -
  assume "deref (rm_white s) = CHR ''!''"
  then obtain t where t: "rm_white s = CHR ''!'' # t" by (cases "rm_white s") auto
  have "day_at (CHR ''!'' # t) = None"
    by (simp add: day_at_def day_table_def strncasecmp_def c_tolower_def eval_nat_numeral)
  then have "day_loop (rm_white s) [] = None" by (simp add: t day_loop.simps)
  moreover have "rm_white (rm_white s) = rm_white s" by (simp add: rm_white_def)
  ultimately show ?thesis by (simp add: OS_IsValidDay_def Let_def)
qed

section \<open>Witnesses\<close>

theorem sacmp_prefix_witness:
  "sacmp (AF_INET [10, 1, 2, 3]) (AF_INET6 (replicate 10 0 @ [255, 255, 10, 1, 200, 1])) 16 \<and>
   \<not> sacmp (AF_INET [10, 1, 2, 3]) (AF_INET6 (replicate 10 0 @ [255, 255, 10, 1, 200, 1])) 17"
proof -
  have "real_addr (AF_INET [10, 1, 2, 3]) = Some (True, [10, 1, 2, 3])"
    "real_addr (AF_INET6 (replicate 10 0 @ [255, 255, 10, 1, 200, 1])) = Some (True, [10, 1, 200, 1])"
    by (simp_all add: real_addr_def v4mapped_def)
  from sacmp_prefix [OF this] show ?thesis
    by (simp add: bits_of_def byte_bits_def upt_rec)
qed

theorem time_range_witness:
  "\<exists>r. OS_IsValidTime (Some ''!22:00 - 06:30'') = Inr (Some r) \<and> OS_IsonTime ''23:15'' r"
proof -
  have d: "dig 0 = CHR ''0''" "dig (Suc 0) = CHR ''1''" "dig 2 = CHR ''2''" "dig 3 = CHR ''3''" "dig 5 = CHR ''5''" "dig 6 = CHR ''6''"
    unfolding dig_def by code_simp+
  have "clock 22 0 = ''22:00''" "clock 6 30 = ''06:30''" "clock 23 15 = ''23:15''"
    by (simp_all add: clock_def two_digits_def d)
  with time_range [of 22 0 6 30 23 15 True] show ?thesis by simp
qed

theorem week_days_witness:
  "\<exists>r. OS_IsValidDay (Some ''mon,weekends'') = Some r \<and> filter (\<lambda>w. OS_IsonDay w r) [0..<7] = [0, 1, 6]"
proof -
  have "list_all (\<lambda>p. p \<in> set day_table) [(''mon'', [1]), (''weekends'', [0, 6])]" by (simp add: day_table_def)
  from week_days [OF this] obtain r where "OS_IsValidDay (Some ''mon,weekends'') = Some r"
    "filter (\<lambda>w. OS_IsonDay w r) [0..<7] = filter (\<lambda>w. w \<in> set (concat [[1], [0, 6]])) [0..<7]" by auto
  moreover have "filter (\<lambda>w. w \<in> set (concat [[1], [0, 6 :: nat]])) [0..<7] = [0, 1, 6]" by code_simp
  ultimately show ?thesis by auto
qed

end
