(* ===== verification/Math_Op.thy ===== *)
theory Math_Op
  imports Prelude_CStr
begin

text \<open>
  \<^verbatim>\<open>shared/math_op.c\<close>: \<open>os_getprime\<close>, the next prime by trial division, which sizes the hash
  tables. Values are \<open>unsigned int\<close>: the only arithmetic that can wrap is \<open>val += 2\<close>, and the
  wrap is written out; \<open>val++\<close> is applied to even values only. The search ends because
  it stops at 1 after wrapping.
\<close>

section \<open>The model\<close>

text \<open>The value of \<open>i\<close> when the \<open>while (i <= max_i)\<close> loop is left.\<close>

function trial_divide :: "nat \<Rightarrow> nat \<Rightarrow> nat \<Rightarrow> nat" where
  "trial_divide val max_i i =
     (if i \<le> max_i then (if val mod i = 0 then i else trial_divide val max_i (i + 2)) else i)"
  by pat_completeness auto
termination
  by (relation "measure (\<lambda>(v, m, i). Suc m - i)") auto

declare trial_divide.simps [simp del]

definition accepts :: "nat \<Rightarrow> bool" where
  "accepts val = (trial_divide val (val div 2) 3 \<ge> val div 2)"

function getprime_loop :: "nat \<Rightarrow> nat" where
  "getprime_loop val =
     (if accepts val then val
      else let val' = (val + 2) mod 2 ^ 32 in if val' \<noteq> 0 then getprime_loop val' else 0)"
  by pat_completeness auto

lemma trial_divide_ge: "i \<le> trial_divide v m i"
proof (induction v m i rule: trial_divide.induct)
  case (1 v m i)
  then show ?case by (subst trial_divide.simps) auto
qed

lemma accepts_small: "v \<le> 7 \<Longrightarrow> accepts v"
  using trial_divide_ge [of 3 v "v div 2"] by (simp add: accepts_def)

termination getprime_loop
proof (relation "measure (\<lambda>v. if v \<le> 7 then 0 else if v \<ge> 2 ^ 32 then 2 ^ 32 + 1 else 2 ^ 32 - v)")
  fix v v' :: nat
  assume v: "\<not> accepts v" "v' = (v + 2) mod 2 ^ 32" "v' \<noteq> 0"
  then have big: "\<not> v \<le> 7" using accepts_small by blast
  have v': "v' < 4294967296" using v(2) by simp
  have small: "v' = v + 2" if "v + 2 < 4294967296"
    using v(2) that by simp
  have wrap: "v' \<le> 1" if "4294967296 \<le> v + 2" "v < 4294967296"
  proof -
    have "v' = v + 2 - 4294967296"
      using v(2) that by (simp add: le_mod_geq)
    with that show ?thesis by simp
  qed
  consider "v + 2 < 4294967296" | "4294967296 \<le> v + 2" "v < 4294967296" | "4294967296 \<le> v"
    by linarith
  then show "(v', v) \<in> measure (\<lambda>v. if v \<le> 7 then 0 else
      if v \<ge> 2 ^ 32 then 2 ^ 32 + 1 else 2 ^ 32 - v)"
  proof cases
    case 1
    with small big show ?thesis by simp
  next
    case 2
    with wrap big show ?thesis by simp
  next
    case 3
    with v' big show ?thesis by (simp, arith)
  qed
qed simp

declare getprime_loop.simps [simp del]

definition os_getprime :: "nat \<Rightarrow> nat" where
  "os_getprime val = getprime_loop (if val mod 2 = 0 then val + 1 else val)"

section \<open>It finds primes\<close>

definition is_prime :: "nat \<Rightarrow> bool" where
  "is_prime p \<longleftrightarrow> 1 < p \<and> (\<forall>d. d dvd p \<longrightarrow> d = 1 \<or> d = p)"

lemma trial_divide_result:
  "odd i \<Longrightarrow>
   (trial_divide v m i \<le> m \<and> trial_divide v m i dvd v) \<or>
   (m < trial_divide v m i \<and> (\<forall>d. odd d \<and> i \<le> d \<and> d \<le> m \<longrightarrow> \<not> d dvd v))"
proof (induction v m i rule: trial_divide.induct)
  case (1 v m i)
  show ?case
  proof (cases "i \<le> m \<and> v mod i \<noteq> 0")
    case True
    have "\<not> i dvd v" using True by (simp add: dvd_eq_mod_eq_0)
    moreover have "d = i \<or> i + 2 \<le> d" if "odd d" "i \<le> d" for d
      using that \<open>odd i\<close> by presburger
    moreover have "odd (i + 2)" using "1.prems" by simp
    ultimately show ?thesis
      using "1.IH" True by (subst (1 2 3) trial_divide.simps) (auto; blast)
  next
    case False
    then show ?thesis
      by (auto simp: trial_divide.simps [of v m i] dvd_eq_mod_eq_0)
  qed
qed

lemma odd_divisor_small:
  assumes "odd v" "d dvd v" "d \<noteq> (v::nat)"
  shows "d \<le> v div 2 \<and> odd d"
proof -
  from assms(2) obtain k where k: "v = d * k" by blast
  have "k \<noteq> 0" "k \<noteq> 1" using assms(1,3) k by (intro notI; simp)+
  then have "2 \<le> k" by linarith
  then have "d * 2 \<le> v" using k by simp
  then have "d \<le> v div 2" by linarith
  moreover have "odd d" using k assms(1) by simp
  ultimately show ?thesis ..
qed

lemma accepts_prime:
  assumes "odd v" "3 \<le> v"
  shows "accepts v \<longleftrightarrow> is_prime v"
proof
  let ?i = "trial_divide v (v div 2) 3"
  assume a: "accepts v"
  have "\<not> (?i \<le> v div 2 \<and> ?i dvd v)"
  proof
    assume d: "?i \<le> v div 2 \<and> ?i dvd v"
    with a have "?i = v div 2" by (simp add: accepts_def)
    moreover have "3 \<le> ?i" by (rule trial_divide_ge)
    moreover have "v = 2 * (v div 2) + 1" using assms(1) by presburger
    ultimately have "?i dvd 2 * ?i + 1" "3 \<le> ?i" using d by metis+
    then have "?i dvd 1" by (simp only: dvd_add_right_iff dvd_triv_right)
    with \<open>3 \<le> ?i\<close> show False by simp
  qed
  then have none: "\<forall>d. odd d \<and> 3 \<le> d \<and> d \<le> v div 2 \<longrightarrow> \<not> d dvd v"
    using trial_divide_result [of 3 v "v div 2"] by auto
  have "d = 1 \<or> d = v" if "d dvd v" for d
  proof (rule ccontr)
    assume "\<not> (d = 1 \<or> d = v)"
    with odd_divisor_small [OF assms(1) that] have "odd d" "d \<le> v div 2" "d \<noteq> 1" by auto
    moreover from this have "3 \<le> d" by presburger
    ultimately show False using none that by blast
  qed
  with assms(2) show "is_prime v" by (auto simp: is_prime_def)
next
  let ?i = "trial_divide v (v div 2) 3"
  assume p: "is_prime v"
  have "3 \<le> ?i" by (rule trial_divide_ge)
  have "\<not> (?i \<le> v div 2 \<and> ?i dvd v)"
  proof
    assume "?i \<le> v div 2 \<and> ?i dvd v"
    moreover from this p have "?i = 1 \<or> ?i = v" by (simp add: is_prime_def)
    ultimately show False using \<open>3 \<le> ?i\<close> assms(2) by auto
  qed
  then show "accepts v"
    using trial_divide_result [of 3 v "v div 2"] by (auto simp: accepts_def)
qed

lemma getprime_loop_least:
  assumes "odd v" "3 \<le> v" "is_prime q" "v \<le> q" "q < 2 ^ 32"
  shows "is_prime (getprime_loop v) \<and> v \<le> getprime_loop v \<and> getprime_loop v \<le> q \<and>
    (\<forall>r. is_prime r \<longrightarrow> v \<le> r \<longrightarrow> getprime_loop v \<le> r)"
  using assms
proof (induction v rule: getprime_loop.induct)
  case (1 v)
  show ?case
  proof (cases "accepts v")
    case True
    with "1.prems" show ?thesis
      by (simp add: getprime_loop.simps [of v] accepts_prime)
  next
    case False
    with "1.prems" have np: "\<not> is_prime v" by (simp add: accepts_prime)
    have np2: "\<not> is_prime (v + 1)"
    proof
      assume "is_prime (v + 1)"
      moreover have "2 dvd v + 1" using "1.prems"(1) by simp
      ultimately have "2 = (1::nat) \<or> 2 = v + 1" unfolding is_prime_def by blast
      with "1.prems"(2) show False by simp
    qed
    have ge: "v + 2 \<le> r" if "is_prime r" "v \<le> r" for r
    proof -
      have "r \<noteq> v" "r \<noteq> v + 1" using that(1) np np2 by auto
      with that(2) show ?thesis by linarith
    qed
    then have q: "v + 2 \<le> q" using "1.prems" by blast
    then have m: "(v + 2) mod 2 ^ 32 = v + 2" using "1.prems" by simp
    then have e: "getprime_loop v = getprime_loop (v + 2)"
      using False by (simp add: getprime_loop.simps [of v])
    have "is_prime (getprime_loop (v + 2)) \<and> v + 2 \<le> getprime_loop (v + 2) \<and>
      getprime_loop (v + 2) \<le> q \<and> (\<forall>r. is_prime r \<longrightarrow> v + 2 \<le> r \<longrightarrow> getprime_loop (v + 2) \<le> r)"
      using "1.IH" [OF False m [symmetric]] "1.prems" q by simp
    with e ge show ?thesis by auto
  qed
qed

text \<open>
  C39. \<open>os_getprime\<close> returns the least prime that is not below its argument (2 excepted: an even
  argument is rounded up first), whenever there is one below \<open>2 ^ 32\<close>; the search terminates
  for every argument.
\<close>

theorem os_getprime_least:
  assumes "3 \<le> val" "is_prime q" "val \<le> q" "q < 2 ^ 32"
  shows "is_prime (os_getprime val) \<and> val \<le> os_getprime val \<and>
    (\<forall>r. is_prime r \<longrightarrow> val \<le> r \<longrightarrow> os_getprime val \<le> r)"
proof (cases "even val")
  case True
  have "\<not> is_prime val"
  proof
    assume "is_prime val"
    with True have "2 = (1::nat) \<or> 2 = val" unfolding is_prime_def by blast
    with assms(1) show False by simp
  qed
  then have ge: "val + 1 \<le> r" if "is_prime r" "val \<le> r" for r
    using that by (cases "r = val") auto
  have "is_prime (getprime_loop (val + 1)) \<and> val + 1 \<le> getprime_loop (val + 1) \<and>
    getprime_loop (val + 1) \<le> q \<and>
    (\<forall>r. is_prime r \<longrightarrow> val + 1 \<le> r \<longrightarrow> getprime_loop (val + 1) \<le> r)"
    using True assms ge by (intro getprime_loop_least) simp_all
  with True ge show ?thesis by (auto simp: os_getprime_def)
next
  case False
  then have "val mod 2 \<noteq> 0" by presburger
  with getprime_loop_least [OF False assms] show ?thesis by (simp add: os_getprime_def)
qed

lemma is_prime_code: "is_prime p \<longleftrightarrow> 1 < p \<and> (\<forall>d\<in>set [2..<p]. \<not> d dvd p)"
proof -
  have "d = 1 \<or> d = p" if "1 < p" "\<forall>d\<in>set [2..<p]. \<not> d dvd p" "d dvd p" for d
  proof -
    have "d \<le> p" using that by (auto dest: dvd_imp_le)
    moreover have "d \<noteq> 0" using that(1,3) by (intro notI) simp
    moreover have "\<not> (2 \<le> d \<and> d < p)" using that by auto
    ultimately show ?thesis by linarith
  qed
  then show ?thesis unfolding is_prime_def by auto
qed

theorem os_getprime_least_witness:
  "is_prime (os_getprime 8) \<and> 8 \<le> os_getprime 8"
proof -
  have "is_prime 11" unfolding is_prime_code by code_simp
  from os_getprime_least [of 8, OF _ this] show ?thesis by simp
qed

text \<open>Every table gets at least one row, also after the wrap-around.\<close>

lemma getprime_loop_pos: "odd v \<Longrightarrow> 0 < getprime_loop v"
proof (induction v rule: getprime_loop.induct)
  case (1 v)
  show ?case
  proof (cases "accepts v")
    case True
    with "1.prems" show ?thesis by (simp add: getprime_loop.simps [of v] odd_pos)
  next
    case False
    have o: "odd ((v + 2) mod 2 ^ 32)"
      using "1.prems" dvd_mod_iff [of 2 "2 ^ 32" "v + 2"] by simp
    then have "0 < getprime_loop ((v + 2) mod 2 ^ 32)"
      using "1.IH" [OF False refl] by (cases "(v + 2) mod 2 ^ 32 = 0") auto
    with False odd_pos [OF o] show ?thesis
      by (auto simp: getprime_loop.simps [of v] Let_def)
  qed
qed

lemma os_getprime_pos: "0 < os_getprime val"
  using getprime_loop_pos [of val] getprime_loop_pos [of "val + 1"]
  by (auto simp: os_getprime_def even_iff_mod_2_eq_zero)

end
