(* ===== verification/Hash_Table.thy ===== *)
theory Hash_Table
  imports Math_Op
begin

text \<open>
  \<^verbatim>\<open>shared/hash_op.c\<close>: the chained hash table \<open>OSHash\<close> that keeps the accumulator's entries, the
  repeated offenders of \<^verbatim>\<open>execd\<close>, the lists of the FTS module and the agent keys. A table is a
  record as in \<^verbatim>\<open>headers/hash_op.h\<close>; a chain is the list of its nodes from the head, \<open>data\<close> is a
  pointer and \<^term>\<open>None\<close> the NULL pointer. Allocation succeeds; the random bytes that
  \<open>_os_genseed\<close> asks for are an argument, \<^term>\<open>None\<close> when there is no entropy.

  The contract is the locale \<open>keyed_store\<close>: the table is a finite map from strings to pointers.
\<close>

section \<open>The model\<close>

type_synonym 'd node = "string \<times> 'd option"

record 'd OSHash =
  rows :: nat
  initial_seed :: nat
  hash_constant :: nat
  table :: "'d node list list"

definition OSHASH_PRIME :: nat where
  "OSHASH_PRIME = 4294967291"

definition os_genseed :: "(nat \<times> nat) option \<Rightarrow> 'd OSHash \<Rightarrow> bool \<times> 'd OSHash" where
  "os_genseed secret self =
     (case secret of
        None \<Rightarrow> (False, self)
      | Some (a, b) \<Rightarrow>
          (True, self\<lparr>initial_seed := a mod OSHASH_PRIME,
                      hash_constant := 256 + b mod (OSHASH_PRIME - 256)\<rparr>))"

definition OSHash_Create :: "(nat \<times> nat) option \<Rightarrow> 'd OSHash option" where
  "OSHash_Create secret =
     (let n = os_getprime 1024 in
      if n = 0 then None
      else let self = \<lparr>rows = n, initial_seed = 0, hash_constant = 0, table = replicate (n + 1) []\<rparr>;
               (ok, self') = os_genseed secret self
           in if ok then Some self' else None)"

text \<open>\<open>hash_key\<close> is \<open>unsigned long long\<close>: 64 bits, the wrap-around written out.\<close>

fun os_genhash_loop :: "nat \<Rightarrow> nat \<Rightarrow> string \<Rightarrow> nat" where
  "os_genhash_loop a hash_key [] = hash_key"
| "os_genhash_loop a hash_key (c # key) =
     os_genhash_loop a
       (((hash_key * a mod 2 ^ 64 + byte c) mod 2 ^ 64) mod OSHASH_PRIME) key"

definition os_genhash :: "'d OSHash \<Rightarrow> string \<Rightarrow> nat" where
  "os_genhash self key = os_genhash_loop (hash_constant self) (initial_seed self) key mod 2 ^ 32"

definition hash_index :: "'d OSHash \<Rightarrow> string \<Rightarrow> nat" where
  "hash_index self key = os_genhash self key mod rows self"

text \<open>
  A larger size reallocates the row array and zeroes every row, the old ones too. The result is
  the return code and the table.
\<close>

definition OSHash_setSize :: "(nat \<times> nat) option \<Rightarrow> 'd OSHash \<Rightarrow> nat \<Rightarrow> nat \<times> 'd OSHash" where
  "OSHash_setSize secret self new_size =
     (if new_size \<le> rows self then (1, self)
      else let n = os_getprime new_size; self1 = self\<lparr>rows := n\<rparr> in
        if n = 0 then (0, self1)
        else let self2 = self1\<lparr>table := replicate (n + 1) []\<rparr>;
                 (ok, self3) = os_genseed secret self2
             in if ok then (1, self3) else (0, self3))"

fun chain_update :: "'d node list \<Rightarrow> string \<Rightarrow> 'd option \<Rightarrow> bool \<times> 'd node list" where
  "chain_update [] key d = (False, [])"
| "chain_update ((k, e) # ns) key d =
     (if strcmp k key = 0 then (True, (k, d) # ns)
      else let (found, ns') = chain_update ns key d in (found, (k, e) # ns'))"

definition OSHash_Update :: "'d OSHash \<Rightarrow> string \<Rightarrow> 'd option \<Rightarrow> nat \<times> 'd OSHash" where
  "OSHash_Update self key d =
     (let i = hash_index self key; (found, c) = chain_update (table self ! i) key d in
      if found then (1, self\<lparr>table := (table self)[i := c]\<rparr>) else (0, self))"

fun chain_has :: "'d node list \<Rightarrow> string \<Rightarrow> bool" where
  "chain_has [] key = False"
| "chain_has ((k, e) # ns) key = (if strcmp k key = 0 then True else chain_has ns key)"

definition OSHash_Add :: "'d OSHash \<Rightarrow> string \<Rightarrow> 'd option \<Rightarrow> nat \<times> 'd OSHash" where
  "OSHash_Add self key d =
     (let i = hash_index self key in
      if chain_has (table self ! i) key then (1, self)
      else (2, self\<lparr>table := (table self)[i := (key, d) # table self ! i]\<rparr>))"

fun chain_get :: "'d node list \<Rightarrow> string \<Rightarrow> 'd option" where
  "chain_get [] key = None"
| "chain_get ((k, e) # ns) key = (if strcmp k key = 0 then e else chain_get ns key)"

definition OSHash_Get :: "'d OSHash \<Rightarrow> string \<Rightarrow> 'd option" where
  "OSHash_Get self key = chain_get (table self ! hash_index self key) key"

text \<open>The data of the first node with the key, and the chain without that node.\<close>

fun chain_delete :: "'d node list \<Rightarrow> string \<Rightarrow> 'd option \<times> 'd node list" where
  "chain_delete [] key = (None, [])"
| "chain_delete ((k, e) # ns) key =
     (if strcmp k key = 0 then (e, ns)
      else let (d, ns') = chain_delete ns key in (d, (k, e) # ns'))"

definition OSHash_Delete :: "'d OSHash \<Rightarrow> string \<Rightarrow> 'd option \<times> 'd OSHash" where
  "OSHash_Delete self key =
     (let i = hash_index self key; (d, c) = chain_delete (table self ! i) key
      in (d, self\<lparr>table := (table self)[i := c]\<rparr>))"

section \<open>Invariant and abstraction\<close>

definition chain_ok :: "'d OSHash \<Rightarrow> nat \<Rightarrow> 'd node list \<Rightarrow> bool" where
  "chain_ok self i ns \<longleftrightarrow>
     distinct (map fst ns) \<and> (\<forall>k\<in>set (map fst ns). c_string k \<and> hash_index self k = i)"

definition hash_ok :: "'d OSHash \<Rightarrow> bool" where
  "hash_ok self \<longleftrightarrow> 0 < rows self \<and> length (table self) = rows self + 1 \<and>
     initial_seed self < OSHASH_PRIME \<and> hash_constant self < OSHASH_PRIME \<and>
     (\<forall>i<length (table self). chain_ok self i (table self ! i))"

text \<open>The map a table stands for: a key is bound when its chain holds a node for it.\<close>

definition hash_map :: "'d OSHash \<Rightarrow> string \<Rightarrow> 'd option option" where
  "hash_map self key = map_of (table self ! hash_index self key) key"

lemma hash_index_less: "hash_ok self \<Longrightarrow> hash_index self key < length (table self)"
  by (simp add: hash_ok_def hash_index_def less_Suc_eq)

lemma hash_index_table [simp]: "hash_index (self\<lparr>table := t\<rparr>) key = hash_index self key"
  by (simp add: hash_index_def os_genhash_def)

lemma hash_map_table:
  "i < length (table self) \<Longrightarrow>
   hash_map (self\<lparr>table := (table self)[i := c]\<rparr>) k =
     (if hash_index self k = i then map_of c k else hash_map self k)"
  by (simp add: hash_map_def)

lemma chain_okD: "hash_ok self \<Longrightarrow> chain_ok self (hash_index self k) (table self ! hash_index self k)"
  using hash_index_less by (auto simp: hash_ok_def)

lemma chain_ok_table [simp]: "chain_ok (self\<lparr>table := t\<rparr>) i ns = chain_ok self i ns"
  by (simp add: chain_ok_def)

lemma chain_ok_cong: "chain_ok self i ns \<Longrightarrow> map fst c = map fst ns \<Longrightarrow> chain_ok self i c"
  unfolding chain_ok_def by (simp del: set_map)

lemma hash_ok_update:
  assumes "hash_ok self" "i < length (table self)" "chain_ok self i c"
  shows "hash_ok (self\<lparr>table := (table self)[i := c]\<rparr>)"
  using assms by (auto simp: hash_ok_def nth_list_update)

text \<open>Storing a chain back at the row of a key.\<close>

lemma hash_ok_put:
  "hash_ok h \<Longrightarrow> chain_ok h (hash_index h k) c \<Longrightarrow>
   hash_ok (h\<lparr>table := (table h)[hash_index h k := c]\<rparr>)"
  by (rule hash_ok_update) (auto intro: hash_index_less)

lemma hash_map_put:
  "hash_ok h \<Longrightarrow> map_of c = (map_of (table h ! hash_index h k))(k := x) \<Longrightarrow>
   hash_map (h\<lparr>table := (table h)[hash_index h k := c]\<rparr>) j = (if j = k then x else hash_map h j)"
  by (auto simp: hash_map_def nth_list_update hash_index_less)

subsection \<open>Chains\<close>

definition keys_ok :: "'d node list \<Rightarrow> bool" where
  "keys_ok ns \<longleftrightarrow> (\<forall>k\<in>fst ` set ns. c_string k)"

lemma keys_ok_Cons [simp]: "keys_ok ((k, e) # ns) \<longleftrightarrow> c_string k \<and> keys_ok ns"
  by (simp add: keys_ok_def)

lemma chain_ok_keys: "chain_ok self i ns \<Longrightarrow> keys_ok ns"
  by (auto simp: chain_ok_def keys_ok_def)

lemma chain_has_iff:
  "keys_ok ns \<Longrightarrow> c_string key \<Longrightarrow> chain_has ns key \<longleftrightarrow> map_of ns key \<noteq> None"
  by (induction ns) (auto simp: strcmp_eq_0)

lemma chain_get_eq:
  "keys_ok ns \<Longrightarrow> c_string key \<Longrightarrow> chain_get ns key = Option.bind (map_of ns key) (\<lambda>d. d)"
  by (induction ns) (auto simp: strcmp_eq_0)

lemma chain_update_eq:
  "keys_ok ns \<Longrightarrow> c_string key \<Longrightarrow> chain_update ns key d = (found, c) \<Longrightarrow>
   (found \<longleftrightarrow> map_of ns key \<noteq> None) \<and> map fst c = map fst ns \<and>
   map_of c = (if found then (map_of ns)(key \<mapsto> d) else map_of ns)"
proof (induction ns arbitrary: found c)
  case (Cons n ns)
  obtain k e where n: "n = (k, e)" by (cases n)
  obtain f' c' where r: "chain_update ns key d = (f', c')" by (cases "chain_update ns key d")
  from Cons.IH [OF _ _ r] Cons.prems n r show ?case
    by (auto simp: strcmp_eq_0 fun_upd_twist split: if_splits)
qed simp

lemma chain_delete_eq:
  "keys_ok ns \<Longrightarrow> c_string key \<Longrightarrow> distinct (map fst ns) \<Longrightarrow> chain_delete ns key = (d, c) \<Longrightarrow>
   d = Option.bind (map_of ns key) (\<lambda>d. d) \<and> map_of c = (map_of ns)(key := None) \<and>
   set c \<subseteq> set ns \<and> distinct (map fst c)"
proof (induction ns arbitrary: d c)
  case (Cons n ns)
  obtain k e where n: "n = (k, e)" by (cases n)
  obtain d' c' where r: "chain_delete ns key = (d', c')" by (cases "chain_delete ns key")
  have none: "map_of ns k = None" using Cons.prems n by (simp add: map_of_eq_None_iff)
  show ?case
  proof (cases "k = key")
    case True
    with none Cons.prems n show ?thesis by (auto simp: fun_eq_iff)
  next
    case False
    from Cons.IH [OF _ _ _ r] Cons.prems n have IH: "d' = Option.bind (map_of ns key) (\<lambda>d. d)"
      "map_of c' = (map_of ns)(key := None)" "set c' \<subseteq> set ns" "distinct (map fst c')" by auto
    have "k \<notin> fst ` set c'" using IH(3) Cons.prems(3) n by auto
    with IH False Cons.prems n r show ?thesis
      by (auto simp: strcmp_eq_0 fun_upd_twist)
  qed
qed simp

section \<open>The contract of a keyed store\<close>

text \<open>
  What the clients rely on: \<open>lookup\<close> is the map the store stands for, \<open>get\<close> reads it, \<open>add\<close>
  binds a fresh key and refuses a bound one, \<open>update\<close> rebinds a bound key only, \<open>delete\<close>
  unbinds and returns what \<open>get\<close> would have. Return codes are those of \<^verbatim>\<open>hash_op.h\<close>.
\<close>

locale keyed_store =
  fixes key_ok :: "'k \<Rightarrow> bool"
    and invar :: "'h \<Rightarrow> bool"
    and lookup :: "'h \<Rightarrow> 'k \<Rightarrow> 'v option option"
    and get :: "'h \<Rightarrow> 'k \<Rightarrow> 'v option"
    and add :: "'h \<Rightarrow> 'k \<Rightarrow> 'v option \<Rightarrow> nat \<times> 'h"
    and update :: "'h \<Rightarrow> 'k \<Rightarrow> 'v option \<Rightarrow> nat \<times> 'h"
    and delete :: "'h \<Rightarrow> 'k \<Rightarrow> 'v option \<times> 'h"
  assumes get_lookup: "invar h \<Longrightarrow> key_ok k \<Longrightarrow> get h k = Option.bind (lookup h k) (\<lambda>d. d)"
    and add_fresh: "invar h \<Longrightarrow> key_ok k \<Longrightarrow> lookup h k = None \<Longrightarrow> add h k d = (c, h') \<Longrightarrow>
      c = 2 \<and> invar h' \<and> (\<forall>j. lookup h' j = (if j = k then Some d else lookup h j))"
    and add_bound: "invar h \<Longrightarrow> key_ok k \<Longrightarrow> lookup h k \<noteq> None \<Longrightarrow> add h k d = (1, h)"
    and update_bound: "invar h \<Longrightarrow> key_ok k \<Longrightarrow> lookup h k \<noteq> None \<Longrightarrow> update h k d = (c, h') \<Longrightarrow>
      c = 1 \<and> invar h' \<and> (\<forall>j. lookup h' j = (if j = k then Some d else lookup h j))"
    and update_fresh: "invar h \<Longrightarrow> key_ok k \<Longrightarrow> lookup h k = None \<Longrightarrow> update h k d = (0, h)"
    and delete_unbinds: "invar h \<Longrightarrow> key_ok k \<Longrightarrow> delete h k = (d, h') \<Longrightarrow>
      d = get h k \<and> invar h' \<and> (\<forall>j. lookup h' j = (if j = k then None else lookup h j))"
begin

lemma add_ok: "invar h \<Longrightarrow> key_ok k \<Longrightarrow> invar (snd (add h k d))"
  using add_fresh [of h k d "fst (add h k d)" "snd (add h k d)"] add_bound [of h k d]
  by (cases "lookup h k = None") auto

lemma update_ok: "invar h \<Longrightarrow> key_ok k \<Longrightarrow> invar (snd (update h k d))"
  using update_bound [of h k d "fst (update h k d)" "snd (update h k d)"] update_fresh [of h k d]
  by (cases "lookup h k = None") auto

lemma delete_ok: "invar h \<Longrightarrow> key_ok k \<Longrightarrow> invar (snd (delete h k))"
  by (cases "delete h k") (auto dest: delete_unbinds)

lemma get_delete_add:
  assumes "invar h" "key_ok k" "delete h k = (d, h1)" "add h1 k e = (c, h2)"
  shows "c = 2 \<and> invar h2 \<and> get h2 k = e \<and> (\<forall>j. j \<noteq> k \<longrightarrow> lookup h2 j = lookup h j)"
proof -
  note D = delete_unbinds [OF assms(1-3)]
  then have "lookup h1 k = None" "invar h1" by auto
  from add_fresh [OF this(2) assms(2) this(1) assms(4)] D
  show ?thesis by (auto simp: get_lookup assms(2))
qed

text \<open>Update if there, add if not: after it the key is bound to the new pointer.\<close>

lemma upsert:
  assumes "invar h" "key_ok k"
    and "(if lookup h k = None then add h k (Some v) else update h k (Some v)) = (c, h')"
  shows "invar h' \<and> get h' k = Some v \<and> (\<forall>j. j \<noteq> k \<longrightarrow> lookup h' j = lookup h j)"
proof (cases "lookup h k = None")
  case True
  with assms have "add h k (Some v) = (c, h')" by simp
  from add_fresh [OF assms(1,2) True this] show ?thesis
    by (auto simp: get_lookup assms(2))
next
  case False
  with assms have "update h k (Some v) = (c, h')" by simp
  from update_bound [OF assms(1,2) False this] show ?thesis
    by (auto simp: get_lookup assms(2))
qed

end

section \<open>The table meets the contract\<close>

lemma OSHash_Get_lookup:
  "hash_ok h \<Longrightarrow> c_string k \<Longrightarrow> OSHash_Get h k = Option.bind (hash_map h k) (\<lambda>d. d)"
  by (simp add: OSHash_Get_def hash_map_def chain_get_eq chain_ok_keys [OF chain_okD])

lemma OSHash_Add_fresh:
  assumes "hash_ok h" "c_string k" "hash_map h k = None" "OSHash_Add h k d = (c, h')"
  shows "c = 2 \<and> hash_ok h' \<and> (\<forall>j. hash_map h' j = (if j = k then Some d else hash_map h j))"
proof -
  let ?i = "hash_index h k"
  note C = chain_okD [OF assms(1), of k]
  have h': "c = 2" "h' = h\<lparr>table := (table h)[?i := (k, d) # table h ! ?i]\<rparr>"
    using assms(2,3,4) chain_has_iff [OF chain_ok_keys [OF C] assms(2)]
    by (simp_all add: OSHash_Add_def hash_map_def Let_def)
  have "chain_ok h ?i ((k, d) # table h ! ?i)"
    using C assms(2,3) by (auto simp: chain_ok_def hash_map_def map_of_eq_None_iff image_iff)
  then have "hash_ok h'" unfolding h' by (rule hash_ok_put [OF assms(1)])
  moreover have "hash_map h' j = (if j = k then Some d else hash_map h j)" for j
    unfolding h' by (rule hash_map_put [OF assms(1)]) simp
  ultimately show ?thesis using h'(1) by blast
qed

lemma OSHash_Add_bound:
  "hash_ok h \<Longrightarrow> c_string k \<Longrightarrow> hash_map h k \<noteq> None \<Longrightarrow> OSHash_Add h k d = (1, h)"
  by (simp add: OSHash_Add_def hash_map_def chain_has_iff chain_ok_keys [OF chain_okD])

lemma OSHash_Update_bound:
  assumes "hash_ok h" "c_string k" "hash_map h k \<noteq> None" "OSHash_Update h k d = (c, h')"
  shows "c = 1 \<and> hash_ok h' \<and> (\<forall>j. hash_map h' j = (if j = k then Some d else hash_map h j))"
proof -
  let ?i = "hash_index h k"
  note C = chain_okD [OF assms(1), of k]
  obtain f ch where u: "chain_update (table h ! ?i) k d = (f, ch)" by force
  note U = chain_update_eq [OF chain_ok_keys [OF C] assms(2) u]
  have f: "f" using U assms(3) by (simp add: hash_map_def)
  have h': "c = 1" "h' = h\<lparr>table := (table h)[?i := ch]\<rparr>"
    using assms(4) u f by (auto simp: OSHash_Update_def)
  have "chain_ok h ?i ch"
    using C U chain_ok_cong by blast
  then have "hash_ok h'" unfolding h' by (rule hash_ok_put [OF assms(1)])
  moreover have "hash_map h' j = (if j = k then Some d else hash_map h j)" for j
    unfolding h' using U f by (intro hash_map_put [OF assms(1)]) simp
  ultimately show ?thesis using h'(1) by blast
qed

lemma OSHash_Update_fresh:
  assumes "hash_ok h" "c_string k" "hash_map h k = None"
  shows "OSHash_Update h k d = (0, h)"
proof -
  obtain f ch where u: "chain_update (table h ! hash_index h k) k d = (f, ch)" by force
  from chain_update_eq [OF chain_ok_keys [OF chain_okD [OF assms(1)]] assms(2) u] assms(3)
  show ?thesis by (simp add: OSHash_Update_def u hash_map_def)
qed

lemma OSHash_Delete_unbinds:
  assumes "hash_ok h" "c_string k" "OSHash_Delete h k = (d, h')"
  shows "d = OSHash_Get h k \<and> hash_ok h' \<and>
    (\<forall>j. hash_map h' j = (if j = k then None else hash_map h j))"
proof -
  let ?i = "hash_index h k"
  note C = chain_okD [OF assms(1), of k]
  obtain e ch where u: "chain_delete (table h ! ?i) k = (e, ch)" by force
  from C have "distinct (map fst (table h ! ?i))" by (simp add: chain_ok_def)
  note U = chain_delete_eq [OF chain_ok_keys [OF C] assms(2) this u]
  have h': "d = e" "h' = h\<lparr>table := (table h)[?i := ch]\<rparr>"
    using assms(3) u by (auto simp: OSHash_Delete_def)
  have "chain_ok h ?i ch" using C U by (auto simp: chain_ok_def)
  then have "hash_ok h'" unfolding h' by (rule hash_ok_put [OF assms(1)])
  moreover have "hash_map h' j = (if j = k then None else hash_map h j)" for j
    unfolding h' using U by (intro hash_map_put [OF assms(1)]) simp
  moreover have "d = OSHash_Get h k"
    using h'(1) U by (simp add: OSHash_Get_lookup [OF assms(1,2)] hash_map_def)
  ultimately show ?thesis by blast
qed

interpretation os_hash: keyed_store c_string hash_ok hash_map OSHash_Get OSHash_Add OSHash_Update
  OSHash_Delete
  by unfold_locales
    (assumption | rule OSHash_Get_lookup OSHash_Add_fresh OSHash_Add_bound OSHash_Update_bound
      OSHash_Update_fresh OSHash_Delete_unbinds)+

section \<open>The hash function\<close>

lemma os_genhash_loop_small:
  "a < OSHASH_PRIME \<Longrightarrow> h < OSHASH_PRIME \<Longrightarrow> os_genhash_loop a h key < OSHASH_PRIME"
  by (induction key arbitrary: h) (auto simp: OSHASH_PRIME_def)

text \<open>The polynomial the comment announces, without the machine's wrap-arounds.\<close>

fun poly_hash :: "nat \<Rightarrow> nat \<Rightarrow> string \<Rightarrow> nat" where
  "poly_hash a h [] = h"
| "poly_hash a h (c # key) = poly_hash a ((h * a + byte c) mod OSHASH_PRIME) key"

lemma no_overflow:
  assumes "h < OSHASH_PRIME" "a < OSHASH_PRIME"
  shows "h * a + byte c < 2 ^ 64"
proof -
  have "h \<le> 4294967290" "a \<le> 4294967290" using assms by (auto simp: OSHASH_PRIME_def)
  then have "h * a \<le> 4294967290 * 4294967290" by (rule mult_le_mono)
  then have "h * a \<le> 18446744022169944100" by simp
  moreover have "byte c \<le> 255" using byte_less_256 [of c] by linarith
  ultimately have "h * a + byte c \<le> 18446744022169944355" by linarith
  then show ?thesis by simp
qed

lemma os_genhash_loop_poly:
  "a < OSHASH_PRIME \<Longrightarrow> h < OSHASH_PRIME \<Longrightarrow> os_genhash_loop a h key = poly_hash a h key"
proof (induction key arbitrary: h)
  case (Cons c key)
  have "h * a + byte c < 2 ^ 64" by (rule no_overflow) (use Cons.prems in auto)
  moreover from this have "h * a < 2 ^ 64" by linarith
  ultimately have "(h * a mod 2 ^ 64 + byte c) mod 2 ^ 64 = h * a + byte c" by simp
  moreover have "(h * a + byte c) mod OSHASH_PRIME < OSHASH_PRIME" by (simp add: OSHASH_PRIME_def)
  ultimately show ?case using Cons by (simp del: power_numeral)
qed simp

text \<open>
  In a well-formed table no step of the hash overflows 64 bits and the result fits 32: what
  is computed is the polynomial over the prime field that the comment announces.
\<close>

theorem os_genhash_poly:
  assumes "hash_ok h"
  shows "os_genhash h key = poly_hash (hash_constant h) (initial_seed h) key"
proof -
  have "hash_constant h < OSHASH_PRIME" "initial_seed h < OSHASH_PRIME"
    using assms by (auto simp: hash_ok_def)
  note B = os_genhash_loop_small [OF this, of key] os_genhash_loop_poly [OF this, of key]
  then have "os_genhash_loop (hash_constant h) (initial_seed h) key < 2 ^ 32"
    by (simp add: OSHASH_PRIME_def)
  with B show ?thesis by (simp add: os_genhash_def)
qed

section \<open>Creation and resizing\<close>

lemma hash_ok_fresh:
  assumes "0 < n" "os_genseed secret \<lparr>rows = n, initial_seed = s, hash_constant = a,
      table = replicate (n + 1) []\<rparr> = (True, h)"
  shows "hash_ok h \<and> (\<forall>k. hash_map h k = None)"
proof -
  obtain x y where "secret = Some (x, y)"
    using assms(2) by (cases secret) (auto simp: os_genseed_def)
  then have h: "h = \<lparr>rows = n, initial_seed = x mod OSHASH_PRIME,
      hash_constant = 256 + y mod (OSHASH_PRIME - 256), table = replicate (n + 1) []\<rparr>"
    using assms(2) by (simp add: os_genseed_def)
  have "256 + y mod (OSHASH_PRIME - 256) < OSHASH_PRIME"
    using mod_less_divisor [of "OSHASH_PRIME - 256" y] by (simp add: OSHASH_PRIME_def)
  moreover have "x mod OSHASH_PRIME < OSHASH_PRIME" by (simp add: OSHASH_PRIME_def)
  moreover have ok: "hash_ok h" if "256 + y mod (OSHASH_PRIME - 256) < OSHASH_PRIME"
    "x mod OSHASH_PRIME < OSHASH_PRIME"
    using assms(1) that by (auto simp: h hash_ok_def chain_ok_def simp del: replicate_Suc)
  moreover have "hash_map h k = None" if "hash_ok h" for k
    using hash_index_less [OF that, of k] by (simp add: h hash_map_def del: replicate_Suc)
  ultimately show ?thesis by blast
qed

lemma OSHash_Create_ok:
  fixes h :: "'d OSHash"
  assumes "OSHash_Create secret = Some h"
  shows "hash_ok h \<and> (\<forall>k. hash_map h k = None)"
proof -
  let ?n = "os_getprime 1024"
  obtain ok and h' :: "'d OSHash" where g: "os_genseed secret \<lparr>rows = ?n, initial_seed = 0, hash_constant = 0,
      table = replicate (?n + 1) []\<rparr> = (ok, h')" by force
  with assms have "ok" "h' = h"
    by (auto simp: OSHash_Create_def Let_def split: if_splits)
  with g show ?thesis by (intro hash_ok_fresh [OF os_getprime_pos]) auto
qed

text \<open>
  C38. \<open>OSHash_setSize\<close> to a larger size succeeds with fresh random bytes and leaves a
  well-formed table that has lost every entry; to a smaller one it changes nothing.
\<close>

theorem OSHash_setSize_forgets:
  fixes h :: "'d OSHash"
  assumes "hash_ok h"
  shows "(new_size \<le> rows h \<longrightarrow> OSHash_setSize secret h new_size = (1, h)) \<and>
    (rows h < new_size \<longrightarrow> secret \<noteq> None \<longrightarrow>
      (\<exists>h'. OSHash_setSize secret h new_size = (1, h') \<and> hash_ok h' \<and> (\<forall>k. hash_map h' k = None)))"
proof (intro conjI impI)
  let ?n = "os_getprime new_size"
  let ?h2 = "\<lparr>rows = ?n, initial_seed = initial_seed h, hash_constant = hash_constant h,
      table = replicate (?n + 1) []\<rparr> :: 'd OSHash"
  assume "rows h < new_size" "secret \<noteq> None"
  obtain h' :: "'d OSHash" where g: "os_genseed secret ?h2 = (True, h')"
    using \<open>secret \<noteq> None\<close> by (auto simp: os_genseed_def)
  have "h\<lparr>rows := ?n, table := replicate (?n + 1) []\<rparr> = ?h2" by (cases h) simp
  then have "os_genseed secret (h\<lparr>rows := ?n, table := replicate (?n + 1) []\<rparr>) = (True, h')"
    using g by (simp only:)
  with \<open>rows h < new_size\<close> have "OSHash_setSize secret h new_size = (1, h')"
    using os_getprime_pos [of new_size] 
    by (simp add: OSHash_setSize_def Let_def del: replicate_Suc)
  with hash_ok_fresh [OF os_getprime_pos g] show
    "\<exists>h'. OSHash_setSize secret h new_size = (1, h') \<and> hash_ok h' \<and> (\<forall>k. hash_map h' k = None)"
    by blast
qed (simp add: OSHash_setSize_def)

section \<open>Properties\<close>

text \<open>
  C37. \<open>OSHash_Add\<close> binds a new key: the code is 2 (1 and an unchanged table when the key is
  there already), afterwards \<open>OSHash_Get\<close> returns the new pointer for the key, keys of other
  and of the same row keep theirs, and the table stays well-formed.
\<close>

theorem OSHash_Add_Get:
  assumes "hash_ok h" "c_string k" "c_string j" "OSHash_Add h k d = (code, h')"
  shows "hash_ok h' \<and> code = (if hash_map h k = None then 2 else 1) \<and>
    OSHash_Get h' j = (if j = k \<and> hash_map h k = None then d else OSHash_Get h j)"
proof (cases "hash_map h k = None")
  case True
  from os_hash.add_fresh [OF assms(1,2) True assms(4)] True assms(1-3) show ?thesis
    by (auto simp: os_hash.get_lookup)
next
  case False
  from os_hash.add_bound [OF assms(1,2) False, of d] False assms show ?thesis by auto
qed

text \<open>
  C34. \<open>OSHash_Delete\<close> returns what \<open>OSHash_Get\<close> would have, and afterwards the key is gone
  and every other key is as before; adding it again succeeds.
\<close>

theorem OSHash_Delete_Get:
  assumes "hash_ok h" "c_string k" "c_string j" "OSHash_Delete h k = (d, h')"
  shows "hash_ok h' \<and> d = OSHash_Get h k \<and>
    OSHash_Get h' j = (if j = k then None else OSHash_Get h j) \<and> fst (OSHash_Add h' k e) = 2"
proof -
  note D = os_hash.delete_unbinds [OF assms(1,2,4)]
  then have k: "hash_map h' k = None" "hash_ok h'" by auto
  obtain c h2 where a: "OSHash_Add h' k e = (c, h2)" by force
  from os_hash.add_fresh [OF k(2) assms(2) k(1) a] D a show ?thesis
    using assms(1-3) by (auto simp: os_hash.get_lookup)
qed

text \<open>A table for the witnesses, with three rows.\<close>

definition small_table :: "nat OSHash" where
  "small_table = \<lparr>rows = 3, initial_seed = 7, hash_constant = 300, table = [[], [], [], []]\<rparr>"

lemma small_table_ok: "hash_ok small_table"
  by (auto simp: hash_ok_def chain_ok_def small_table_def OSHASH_PRIME_def less_Suc_eq)

theorem os_genhash_poly_witness:
  "os_genhash small_table ''ab'' = poly_hash 300 7 ''ab''"
  using os_genhash_poly [OF small_table_ok, of "''ab''"] by (simp add: small_table_def)

theorem OSHash_setSize_forgets_witness:
  "\<exists>h'. OSHash_setSize (Some (1, 2)) small_table 5 = (1, h') \<and> hash_ok h' \<and>
    (\<forall>k. hash_map h' k = None)"
  using OSHash_setSize_forgets [OF small_table_ok, of 5 "Some (1, 2)"]
  by (simp add: small_table_def)

theorem OSHash_Add_Get_witness:
  "OSHash_Get (snd (OSHash_Add small_table ''k'' (Some 4))) ''k'' = Some 4"
proof -
  obtain c h' where a: "OSHash_Add small_table ''k'' (Some 4) = (c, h')" by force
  have "hash_map small_table ''k'' = None"
    by (simp add: hash_map_def hash_index_def small_table_def os_genhash_def OSHASH_PRIME_def)
  with OSHash_Add_Get [OF small_table_ok _ _ a, of "''k''"] a show ?thesis by simp
qed

theorem OSHash_Delete_Get_witness:
  "fst (OSHash_Add (snd (OSHash_Delete small_table ''k'')) ''k'' (Some 4)) = 2"
proof -
  obtain d h' where a: "OSHash_Delete small_table ''k'' = (d, h')" by force
  from OSHash_Delete_Get [OF small_table_ok _ _ a, of "''k''" "Some 4"] a show ?thesis by simp
qed

end
