(* ===== verification/Sec_Msgs.thy ===== *)
theory Sec_Msgs
  imports Rids Md5 Blowfish Validate Hash_Table
begin

unbundle bit_operations_syntax

text \<open>
  \<^verbatim>\<open>os_crypto/shared/msgs.c\<close>: the secure messages between agent and manager, with the wrappers
  \<^verbatim>\<open>os_crypto/aes/aes_op.c\<close> and \<^verbatim>\<open>os_zlib/os_zlib.c\<close>. MD5 and Blowfish are the modelled ones; the
  AES of OpenSSL and the compression of zlib are parameters (\<open>crypto_lib\<close>), and \<open>crypto_ok\<close> states
  what their documentation promises: decompression and decryption invert, the bytes behind a
  compressed stream are ignored, the stream starts with its header byte, a block cipher with
  padding fills up to the next block and compression expands by no more than \<open>compressBound\<close>.

  Buffers are byte lists that start where the pointer of the code points; a function that writes
  into one returns it changed. \<open>client\<close> is the compile-time switch \<^verbatim>\<open>CLIENT\<close>.
\<close>

section \<open>Libraries\<close>

record crypto_lib =
  evp_encrypt :: "string \<Rightarrow> string \<Rightarrow> string \<Rightarrow> string option"
  evp_decrypt :: "string \<Rightarrow> string \<Rightarrow> string \<Rightarrow> bool \<times> string"
  compress2 :: "string \<Rightarrow> nat \<Rightarrow> string option"
  uncompress :: "string \<Rightarrow> nat \<Rightarrow> bool \<times> string"
  md5_stack :: MD5Context

definition crypto_ok :: "crypto_lib \<Rightarrow> bool" where
  "crypto_ok lib \<longleftrightarrow>
     (\<forall>k iv m c. evp_encrypt lib k iv m = Some c \<longrightarrow>
        length c = 16 * (length m div 16 + 1) \<and> evp_decrypt lib k iv c = (True, m))
   \<and> (\<forall>m n c. compress2 lib m n = Some c \<longrightarrow> length c \<le> n \<and> (\<exists>t. c = CHR ''x'' # t)
        \<and> length c \<le> length m + length m div 2 ^ 12 + length m div 2 ^ 14 + length m div 2 ^ 25 + 13
        \<and> (\<forall>junk r. length m \<le> r \<longrightarrow> uncompress lib (c @ junk) r = (True, m)))
   \<and> (\<forall>s n ok w. uncompress lib s n = (ok, w) \<longrightarrow> length w \<le> n)
   \<and> length (md5_in (md5_stack lib)) = 64"

text \<open>\<open>encrypt_AES\<close> and \<open>decrypt_AES\<close>: the bytes written and the returned length, 0 for a failure.
  A failed decryption may have written bytes.\<close>

definition encrypt_AES :: "crypto_lib \<Rightarrow> string \<Rightarrow> string \<Rightarrow> string \<Rightarrow> string" where
  "encrypt_AES lib plaintext key iv = (case evp_encrypt lib key iv plaintext of None \<Rightarrow> [] | Some c \<Rightarrow> c)"

definition decrypt_AES :: "crypto_lib \<Rightarrow> string \<Rightarrow> string \<Rightarrow> string \<Rightarrow> nat \<times> string" where
  "decrypt_AES lib ciphertext key iv =
     (let (ok, w) = evp_decrypt lib key iv ciphertext in (if ok then length w else 0, w))"

text \<open>\<open>OS_AES_Str\<close> with \<open>OS_ENCRYPT\<close>: \<open>iv\<close> is what \<open>randombytes_try\<close> delivers, if it does.\<close>

definition OS_AES_Str_encrypt :: "crypto_lib \<Rightarrow> string option \<Rightarrow> string \<Rightarrow> string \<Rightarrow> string option" where
  "OS_AES_Str_encrypt lib iv input charkey =
     (case iv of
        None \<Rightarrow> None
      | Some v \<Rightarrow> (let c = encrypt_AES lib input charkey v in if c = [] then None else Some (v @ c)))"

definition OS_AES_Str_decrypt :: "crypto_lib \<Rightarrow> string \<Rightarrow> string \<Rightarrow> nat \<Rightarrow> nat \<times> string" where
  "OS_AES_Str_decrypt lib input charkey n =
     (if n < 16 then (0, [])
      else decrypt_AES lib (take (n - 16) (drop 16 input)) charkey (take 16 input))"

text \<open>\<open>os_zlib_compress\<close> and \<open>os_zlib_uncompress\<close> return the number of bytes, 0 for a failure, and
  close a successful output with NUL.\<close>

definition os_zlib_compress :: "crypto_lib \<Rightarrow> string \<Rightarrow> nat \<Rightarrow> nat \<times> string" where
  "os_zlib_compress lib src dst_size =
     (case compress2 lib src dst_size of Some c \<Rightarrow> (length c, c @ [NUL]) | None \<Rightarrow> (0, []))"

definition os_zlib_uncompress :: "crypto_lib \<Rightarrow> string \<Rightarrow> nat \<Rightarrow> nat \<times> string" where
  "os_zlib_uncompress lib src dst_size =
     (let (ok, w) = uncompress lib src dst_size in if ok then (length w, w @ [NUL]) else (0, w))"

section \<open>State\<close>

datatype crypt_method = W_METH_BLOWFISH | W_METH_AES

record keyentry =
  ke_rcvd :: int
  ke_local :: u32
  ke_keyid :: nat
  ke_global :: u32
  ke_id :: string
  ke_key :: string
  ke_name :: string
  ke_ip :: os_ip
  ke_fp :: "nat option"
  ke_inode :: nat
  ke_crypto_method :: crypt_method

text \<open>The key store, the counter files and the static variables of \<^verbatim>\<open>msgs.c\<close>. The hashes hold pointers
  to key entries, which are the positions of the entries here.\<close>

record secmsg_state =
  keyentries :: "keyentry list"
  keyhash_id :: "nat OSHash option"
  keyhash_ip :: "nat OSHash option"
  file_change :: int
  sender_fp :: "nat option"
  sender_inode :: nat
  rids :: rids_fs
  global_count :: u32
  local_count :: u32
  rcv_count :: u32
  recv_flush :: u32
  verify_counter :: bool

datatype sec_error =
  ENCSIZE_ERROR | ENCFORMAT_ERROR | ENCKEY_ERROR | UNCOMPRESS_ERR | ENCSUM_ERROR | ENCTIME_ERROR | ENCDUP_SILENT

definition OS_MAXSTR :: nat where
  "OS_MAXSTR = 6144"

definition OS_HEADER_SIZE :: nat where
  "OS_HEADER_SIZE = 128"

definition set_entry :: "nat \<Rightarrow> (keyentry \<Rightarrow> keyentry) \<Rightarrow> secmsg_state \<Rightarrow> secmsg_state" where
  "set_entry i f st = st\<lparr>keyentries := (keyentries st)[i := f (keyentries st ! i)]\<rparr>"

definition os_set_agent_crypto_method :: "secmsg_state \<Rightarrow> crypt_method \<Rightarrow> secmsg_state" where
  "os_set_agent_crypto_method st m = set_entry 0 (\<lambda>e. e\<lparr>ke_crypto_method := m\<rparr>) st"

section \<open>Counters\<close>

datatype start_error = FOPEN_ERROR string

text \<open>The loop of \<open>OS_StartCounter\<close> over the agents. A missing or unreadable counter reads as 0:0.\<close>

definition start_entry :: "rids_fs \<Rightarrow> keyentry \<Rightarrow> start_error + (keyentry \<times> rids_fs)" where
  "start_entry fs e =
     (case fopen_rids fs (rids_file (ke_id e)) of
        (None, fs1) \<Rightarrow> Inl (FOPEN_ERROR (rids_file (ke_id e)))
      | (Some i, fs1) \<Rightarrow>
          let (g, l) = (case scan_counter (data fs1 i) of Some c \<Rightarrow> c | None \<Rightarrow> (0, 0))
          in Inr (e\<lparr>ke_fp := Some i, ke_global := g, ke_local := l,
                    ke_inode := File_Inode fs1 (rids_file (ke_id e))\<rparr>, fs1))"

fun start_entries :: "rids_fs \<Rightarrow> keyentry list \<Rightarrow> start_error + (keyentry list \<times> rids_fs)" where
  "start_entries fs [] = Inr ([], fs)"
| "start_entries fs (e # es) =
     (case start_entry fs e of
        Inl err \<Rightarrow> Inl err
      | Inr (e', fs1) \<Rightarrow>
          (case start_entries fs1 es of
             Inl err \<Rightarrow> Inl err
           | Inr (es', fs2) \<Rightarrow> Inr (e' # es', fs2)))"

text \<open>\<open>flush\<close> and \<open>verify\<close> are the internal options \<^verbatim>\<open>recv_counter_flush\<close> and \<^verbatim>\<open>verify_msg_id\<close>.\<close>

definition OS_StartCounter :: "u32 \<Rightarrow> bool \<Rightarrow> secmsg_state \<Rightarrow> start_error + secmsg_state" where
  "OS_StartCounter flush verify st =
     (case start_entries (rids st) (keyentries st) of
        Inl err \<Rightarrow> Inl err
      | Inr (es, fs1) \<Rightarrow>
          (case fopen_rids fs1 (rids_file SENDER_COUNTER) of
             (None, _) \<Rightarrow> Inl (FOPEN_ERROR (rids_file SENDER_COUNTER))
           | (Some i, fs2) \<Rightarrow>
               let (g, l) = (case scan_counter (data fs2 i) of Some c \<Rightarrow> c | None \<Rightarrow> (global_count st, local_count st))
               in Inr (st\<lparr>keyentries := es, sender_fp := Some i, rids := fs2, global_count := g, local_count := l,
                          sender_inode := File_Inode fs2 (rids_file SENDER_COUNTER),
                          recv_flush := (if recv_flush st = 0 then flush else recv_flush st),
                          verify_counter := verify\<rparr>)))"

definition store_sender_counter :: "u32 \<Rightarrow> u32 \<Rightarrow> secmsg_state \<Rightarrow> secmsg_state" where
  "store_sender_counter g l st =
     (case sender_fp st of None \<Rightarrow> st | Some i \<Rightarrow> st\<lparr>rids := write_counter i g l (rids st)\<rparr>)"

definition OS_StoreSenderCounter :: "u32 \<Rightarrow> u32 \<Rightarrow> secmsg_state \<Rightarrow> secmsg_state" where
  "OS_StoreSenderCounter g l st = store_sender_counter g l st"

definition OS_CloseSenderCounter :: "secmsg_state \<Rightarrow> secmsg_state" where
  "OS_CloseSenderCounter st =
     (if sender_fp st = None then st else st\<lparr>sender_fp := None, sender_inode := 0\<rparr>)"

text \<open>\<open>StoreCounter\<close> expects an open file; without one the code dereferences a null pointer, which is
  a step that does nothing here.\<close>

definition StoreCounter :: "nat \<Rightarrow> u32 \<Rightarrow> u32 \<Rightarrow> secmsg_state \<Rightarrow> secmsg_state" where
  "StoreCounter i g l st =
     (case ke_fp (keyentries st ! i) of None \<Rightarrow> st | Some j \<Rightarrow> st\<lparr>rids := write_counter j g l (rids st)\<rparr>)"

definition OS_StoreAgentCounters :: "secmsg_state \<Rightarrow> secmsg_state" where
  "OS_StoreAgentCounters st =
     fold (\<lambda>i st. StoreCounter i (ke_global (keyentries st ! i)) (ke_local (keyentries st ! i)) st)
       [0..<length (keyentries st)] st"

text \<open>\<open>ReloadCounter\<close>: the inode it keeps is the one from before it creates the file.\<close>

definition ReloadCounter :: "nat \<Rightarrow> string \<Rightarrow> secmsg_state \<Rightarrow> secmsg_state" where
  "ReloadCounter i cid st =
     (let f = rids_file cid; new_inode = File_Inode (rids st) f in
      if ke_inode (keyentries st ! i) = new_inode then st
      else (case fopen_update (rids st) f of
              None \<Rightarrow>
                (case fopen_write (rids st) f of
                   (None, fs) \<Rightarrow> set_entry i (\<lambda>e. e\<lparr>ke_fp := None\<rparr>) (st\<lparr>rids := fs\<rparr>)
                 | (Some j, fs) \<Rightarrow> set_entry i (\<lambda>e. e\<lparr>ke_fp := Some j, ke_inode := new_inode\<rparr>) (st\<lparr>rids := fs\<rparr>))
            | Some j \<Rightarrow>
                (let (g, l) = (case scan_counter (data (rids st) j) of Some c \<Rightarrow> c | None \<Rightarrow> (0, 0))
                 in set_entry i (\<lambda>e. e\<lparr>ke_fp := Some j, ke_global := g, ke_local := l, ke_inode := new_inode\<rparr>) st)))"

definition ReloadSenderCounter :: "secmsg_state \<Rightarrow> secmsg_state" where
  "ReloadSenderCounter st =
     (let f = rids_file SENDER_COUNTER in
      if sender_inode st = File_Inode (rids st) f \<and> sender_fp st \<noteq> None then st
      else (case fopen_rids (rids st) f of
              (None, fs) \<Rightarrow> st\<lparr>sender_fp := None, sender_inode := 0, rids := fs\<rparr>
            | (Some j, fs) \<Rightarrow>
                let (g, l) = (case scan_counter (data fs j) of Some c \<Rightarrow> c | None \<Rightarrow> (global_count st, local_count st))
                in st\<lparr>sender_fp := Some j, rids := fs, global_count := g, local_count := l, sender_inode := File_Inode fs f\<rparr>))"

section \<open>Opening a frame\<close>

text \<open>\<open>CheckSum\<close>: the message behind a matching digest. \<open>length\<close> is the length it is given.\<close>

definition CheckSum :: "crypto_lib \<Rightarrow> string \<Rightarrow> nat \<Rightarrow> string option" where
  "CheckSum lib msg len =
     (if len \<le> 32 then None
      else (let recvd_sum = takeWhile (\<lambda>c. c \<noteq> NUL) (take 32 msg);
                checksum = OS_MD5_Bytes (md5_stack lib) (take (len - 32) (drop 32 msg))
            in if strncmp checksum recvd_sum 32 \<noteq> 0 then None else Some (drop 32 msg)))"

text \<open>\<open>(unsigned int) atoi\<close>: the value saturates as a \<^verbatim>\<open>long\<close> of 64 bits and is cut to 32.\<close>

definition atou :: "string \<Rightarrow> u32" where
  "atou s = of_int (max (- (2 ^ 63)) (min (atoi s) (2 ^ 63 - 1)))"

text \<open>What decrypting and checking yields: a message of the present format with its two counters,
  or one of the old format with time and count. The text is the memory from \<open>f_msg\<close> on.\<close>

datatype opened =
  Compressed u32 u32 string nat
| OldFormat u32 u32 string nat

record frame =
  fr_method :: crypt_method
  fr_buffer :: string
  fr_clear :: string
  fr_opened :: "sec_error + opened"

text \<open>Decrypting into \<open>cleartext\<close>: false when the cipher refuses.\<close>

definition decrypt_body :: "crypto_lib \<Rightarrow> crypt_method \<Rightarrow> string \<Rightarrow> string \<Rightarrow> nat \<Rightarrow> string \<Rightarrow> bool \<times> string" where
  "decrypt_body lib m charkey buffer n cleartext =
     (case m of
        W_METH_BLOWFISH \<Rightarrow> (True, poke cleartext 0 (OS_BF_Str buffer charkey n OS_DECRYPT))
      | W_METH_AES \<Rightarrow>
          (let (r, w) = OS_AES_Str_decrypt lib buffer charkey (n - 4) in (r \<noteq> 0, poke cleartext 0 w)))"

definition open_compressed :: "crypto_lib \<Rightarrow> string \<Rightarrow> nat \<Rightarrow> string \<Rightarrow> nat \<Rightarrow> (sec_error + opened) \<times> string" where
  "open_compressed lib buffer buffer_max clear n =
     (let p = length (takeWhile (\<lambda>c. c = CHR ''!'') clear);
          (final_size, w) = os_zlib_uncompress lib (take (n - p) (drop p clear)) (buffer_max - 1);
          buffer1 = poke buffer 0 w
      in if buffer_max < 1 then (Inl UNCOMPRESS_ERR, buffer)
         else if final_size = 0 then (Inl UNCOMPRESS_ERR, buffer1)
         else (case CheckSum lib buffer1 final_size of
                 None \<Rightarrow> (Inl ENCSUM_ERROR, buffer1)
               | Some m \<Rightarrow>
                   (let f1 = drop 5 m; f2 = drop 10 f1 in
                    if deref f2 \<noteq> CHR '':'' then (Inl ENCFORMAT_ERROR, buffer1)
                    else (let f3 = drop 1 f2; f4 = drop 5 f3
                          in (Inr (Compressed (atou f1) (atou f3) f4 ((final_size + 2 ^ 64 - 53) mod 2 ^ 64)),
                              buffer1)))))"

definition open_old :: "crypto_lib \<Rightarrow> string \<Rightarrow> nat \<Rightarrow> sec_error + opened" where
  "open_old lib clear n =
     (case CheckSum lib (drop 1 clear) n of
        None \<Rightarrow> Inl ENCSUM_ERROR
      | Some m \<Rightarrow> Inr (OldFormat (atou m) (atou (drop 11 m)) (drop 16 m) n))"

text \<open>What \<open>ReadSecMSG\<close> does behind the token of the cipher: \<open>buffer\<close> starts behind the colon, \<open>pre\<close> is
  what was stepped over.\<close>

definition open_body ::
    "crypto_lib \<Rightarrow> crypt_method \<Rightarrow> string \<Rightarrow> string \<Rightarrow> string \<Rightarrow> nat \<Rightarrow> string \<Rightarrow> nat \<Rightarrow> frame" where
  "open_body lib m charkey pre buffer buffer_max cleartext n =
     (let clear0 = cleartext[0 := NUL] in
      if n = 0 \<or> OS_MAXSTR < n then
        \<lparr>fr_method = m, fr_buffer = pre @ buffer, fr_clear = cleartext, fr_opened = Inl ENCSIZE_ERROR\<rparr>
      else if m = W_METH_AES \<and> n \<le> 4 then
        \<lparr>fr_method = m, fr_buffer = pre @ buffer, fr_clear = clear0, fr_opened = Inl ENCSIZE_ERROR\<rparr>
      else (let (ok, clear1) = decrypt_body lib m charkey buffer n clear0; clear2 = clear1[n := NUL] in
        if \<not> ok then
          \<lparr>fr_method = m, fr_buffer = pre @ buffer, fr_clear = clear1, fr_opened = Inl ENCKEY_ERROR\<rparr>
        else if deref clear1 = CHR ''!'' then
          (let (r, b) = open_compressed lib buffer buffer_max clear2 n
           in \<lparr>fr_method = m, fr_buffer = pre @ b, fr_clear = clear2, fr_opened = r\<rparr>)
        else if deref clear1 = CHR '':'' then
          \<lparr>fr_method = m, fr_buffer = pre @ buffer, fr_clear = clear2, fr_opened = open_old lib clear2 n\<rparr>
        else \<lparr>fr_method = m, fr_buffer = pre @ buffer, fr_clear = clear1, fr_opened = Inl ENCKEY_ERROR\<rparr>))"

text \<open>The first part of \<open>ReadSecMSG\<close>, up to the counters. \<open>buffer_size\<close> is an \<^verbatim>\<open>unsigned int\<close>.\<close>

definition open_frame ::
    "crypto_lib \<Rightarrow> bool \<Rightarrow> keyentry \<Rightarrow> string \<Rightarrow> nat \<Rightarrow> string \<Rightarrow> nat \<Rightarrow> frame" where
  "open_frame lib client e buffer buffer_max cleartext buffer_size =
     (let aes = (take 4 buffer = ''#AES'');
          m = (if client then ke_crypto_method e else if aes then W_METH_AES else W_METH_BLOWFISH);
          k = (if aes then 4 else 0);
          fail = (\<lambda>err. \<lparr>fr_method = m, fr_buffer = buffer, fr_clear = cleartext, fr_opened = Inl err\<rparr>)
      in if buffer_max < k then fail ENCSIZE_ERROR
         else if deref (drop k buffer) \<noteq> CHR '':'' then fail ENCFORMAT_ERROR
         else if buffer_max - k < 1 then fail ENCSIZE_ERROR
         else open_body lib m (ke_key e) (take (k + 1) buffer) (drop (k + 1) buffer) (buffer_max - k - 1)
                cleartext buffer_size)"

section \<open>Accepting a frame\<close>

text \<open>\<open>newer\<close> is the comparison against replays.\<close>

definition newer :: "u32 \<Rightarrow> u32 \<Rightarrow> keyentry \<Rightarrow> bool" where
  "newer g l e \<longleftrightarrow> g > ke_global e \<or> (g = ke_global e \<and> l > ke_local e)"

definition accept_entry :: "nat \<Rightarrow> u32 \<Rightarrow> u32 \<Rightarrow> crypt_method \<Rightarrow> secmsg_state \<Rightarrow> secmsg_state" where
  "accept_entry i g l m = set_entry i (\<lambda>e. e\<lparr>ke_global := g, ke_local := l, ke_crypto_method := m\<rparr>)"

definition flush_counter :: "nat \<Rightarrow> u32 \<Rightarrow> u32 \<Rightarrow> secmsg_state \<Rightarrow> secmsg_state" where
  "flush_counter i g l st =
     (let st1 = (if rcv_count st \<ge> recv_flush st then (StoreCounter i g l st)\<lparr>rcv_count := 0\<rparr> else st)
      in st1\<lparr>rcv_count := rcv_count st1 + 1\<rparr>)"

definition accept_compressed ::
    "nat \<Rightarrow> crypt_method \<Rightarrow> u32 \<Rightarrow> u32 \<Rightarrow> string \<Rightarrow> nat \<Rightarrow> secmsg_state \<Rightarrow> (sec_error + (string \<times> nat)) \<times> secmsg_state" where
  "accept_compressed i m g l f_msg final_size st =
     (if \<not> verify_counter st then (Inr (f_msg, final_size), flush_counter i g l (accept_entry i g l m st))
      else (let st1 = (if rcv_count st \<ge> recv_flush st then ReloadCounter i (ke_id (keyentries st ! i)) st else st);
                e = keyentries st1 ! i
            in if newer g l e then (Inr (f_msg, final_size), flush_counter i g l (accept_entry i g l m st1))
               else if g = ke_global e then (Inl ENCTIME_ERROR, st1)
               else (Inl ENCKEY_ERROR, st1)))"

text \<open>The old format stores the counters before it looks for the colon, and without verification it
  stores a local counter of 0.\<close>

definition old_message ::
    "nat \<Rightarrow> crypt_method \<Rightarrow> string \<Rightarrow> nat \<Rightarrow> secmsg_state \<Rightarrow> (sec_error + (string \<times> nat)) \<times> secmsg_state" where
  "old_message i m f_msg n st =
     (let k = length (takeWhile (\<lambda>c. c \<noteq> CHR '':'' \<and> c \<noteq> NUL) f_msg) in
      if deref (drop k f_msg) = CHR '':'' then
        (Inr (drop (k + 1) f_msg, (n + 2 ^ 64 - (48 + k + 1)) mod 2 ^ 64),
         set_entry i (\<lambda>e. e\<lparr>ke_crypto_method := m\<rparr>) st)
      else (Inl ENCFORMAT_ERROR, st))"

definition accept_old ::
    "nat \<Rightarrow> crypt_method \<Rightarrow> u32 \<Rightarrow> u32 \<Rightarrow> string \<Rightarrow> nat \<Rightarrow> secmsg_state \<Rightarrow> (sec_error + (string \<times> nat)) \<times> secmsg_state" where
  "accept_old i m t c f_msg n st =
     (let e = keyentries st ! i in
      if \<not> verify_counter st then old_message i m f_msg n (set_entry i (\<lambda>e. e\<lparr>ke_global := t, ke_local := 0\<rparr>) st)
      else if newer t c e then old_message i m f_msg n (set_entry i (\<lambda>e. e\<lparr>ke_global := t, ke_local := c\<rparr>) st)
      else if c = ke_local e \<and> t = ke_global e then (Inl ENCDUP_SILENT, st)
      else (Inl ENCTIME_ERROR, st))"

definition ReadSecMSG ::
    "crypto_lib \<Rightarrow> bool \<Rightarrow> nat \<Rightarrow> string \<Rightarrow> nat \<Rightarrow> string \<Rightarrow> nat \<Rightarrow> secmsg_state
     \<Rightarrow> (sec_error + (string \<times> nat)) \<times> secmsg_state \<times> frame" where
  "ReadSecMSG lib client i buffer buffer_max cleartext buffer_size st =
     (let fr = open_frame lib client (keyentries st ! i) buffer buffer_max cleartext buffer_size in
      case fr_opened fr of
        Inl err \<Rightarrow> (Inl err, st, fr)
      | Inr (Compressed g l f_msg k) \<Rightarrow>
          (let (r, st') = accept_compressed i (fr_method fr) g l f_msg k st in (r, st', fr))
      | Inr (OldFormat t c f_msg n) \<Rightarrow>
          (let (r, st') = accept_old i (fr_method fr) t c f_msg n st in (r, st', fr)))"

section \<open>Creating a message\<close>

definition isSingleHost :: "os_ip \<Rightarrow> bool" where
  "isSingleHost x = (case ss x of AF_INET _ \<Rightarrow> prefixlength x = 32 | _ \<Rightarrow> prefixlength x = 128)"

definition pad_left :: "nat \<Rightarrow> string \<Rightarrow> string" where
  "pad_left n s = replicate (n - length s) (CHR ''0'') @ s"

text \<open>\<^verbatim>\<open>%05hu%010u:%04u:\<close>\<close>

definition secmsg_header :: "nat \<Rightarrow> u32 \<Rightarrow> u32 \<Rightarrow> string" where
  "secmsg_header rand1 g l =
     pad_left 5 (dec_nat rand1) @ pad_left 10 (dec_nat (unat g)) @ CHR '':'' # pad_left 4 (dec_nat (unat l)) @ '':''"

definition bump_counter :: "secmsg_state \<Rightarrow> secmsg_state" where
  "bump_counter st =
     (let st1 = (if local_count st \<ge> 9997 then st\<lparr>local_count := 0, global_count := global_count st + 1\<rparr> else st)
      in st1\<lparr>local_count := local_count st1 + 1\<rparr>)"

definition crypto_token :: "crypt_method \<Rightarrow> string" where
  "crypto_token m = (case m of W_METH_BLOWFISH \<Rightarrow> '':'' | W_METH_AES \<Rightarrow> ''#AES:'')"

text \<open>\<open>snprintf\<close> into the \<open>n\<close> bytes at the start of \<open>buf\<close>: the length it would need and the buffer.\<close>

definition snprintf :: "string \<Rightarrow> nat \<Rightarrow> string \<Rightarrow> nat \<times> string" where
  "snprintf buf n s = (length s, poke buf 0 (take (n - 1) s @ [NUL]))"

text \<open>The plaintext of the cipher: at least one exclamation mark, as many as make the length a
  multiple of eight, then the compressed digest and message.\<close>

definition padded :: "string \<Rightarrow> string" where
  "padded c = replicate (((8 - (length c + 1) mod 8) mod 8) + 1) (CHR ''!'') @ c"

text \<open>\<open>rand1\<close> and \<open>iv\<close> are the random bytes, if the system delivers them. The size and the buffer.\<close>

definition CreateSecMSG ::
    "crypto_lib \<Rightarrow> bool \<Rightarrow> nat option \<Rightarrow> string option \<Rightarrow> string \<Rightarrow> string \<Rightarrow> nat \<Rightarrow> secmsg_state
     \<Rightarrow> nat \<times> string \<times> secmsg_state" where
  "CreateSecMSG lib client rand1 iv msg msg_encrypted i st =
     (let e = keyentries st ! i; m = ke_crypto_method e in
      if length msg > OS_MAXSTR - OS_HEADER_SIZE \<or> length msg < 1 then (0, msg_encrypted, st)
      else (case rand1 of
        None \<Rightarrow> (0, msg_encrypted, st)
      | Some r \<Rightarrow>
          (let buf0 = msg_encrypted[OS_MAXSTR := NUL];
               st1 = bump_counter (ReloadSenderCounter st);
               g = global_count st1; l = local_count st1;
               st2 = store_sender_counter g l st1;
               tmp = secmsg_header r g l @ msg;
               finmsg = OS_MD5_Bytes (md5_stack lib) tmp @ tmp;
               (cmp, c) = os_zlib_compress lib finmsg (OS_MAXSTR - 12)
           in if cmp = 0 then (0, buf0, st2)
              else (let plain = padded (take cmp c);
                        (len, buf1) =
                          (if client \<and> \<not> isSingleHost (ke_ip e)
                           then snprintf buf0 16 (CHR ''!'' # ke_id e @ CHR ''!'' # crypto_token m)
                           else snprintf buf0 6 (crypto_token m))
                    in case m of
                         W_METH_BLOWFISH \<Rightarrow>
                           (let x = OS_BF_Str plain (ke_key e) (length plain) OS_ENCRYPT
                            in (length plain + len, poke buf1 len x, st2))
                       | W_METH_AES \<Rightarrow>
                           (case OS_AES_Str_encrypt lib iv plain (ke_key e) of
                              None \<Rightarrow> (0, buf1, st2)
                            | Some x \<Rightarrow> (max (length plain) (length x) + len, poke buf1 len x, st2))))))"

end
