(* ===== verification/Sec_Channel.thy ===== *)
theory Sec_Channel
  imports Sec_Msgs
begin

text \<open>
  What the secure messages of \<open>Sec_Msgs\<close> promise: a message made by \<open>CreateSecMSG\<close> fits the buffers,
  is opened by \<open>ReadSecMSG\<close> under the same key and yields its text; a frame that does not
  authenticate changes nothing; and over any run of datagrams, restarts and reloads the counters that
  are accepted from an agent only grow, so no message is accepted twice.
\<close>

section \<open>The layout of a message\<close>

lemma length_dec_nat: "0 < k \<Longrightarrow> n < 10 ^ k \<Longrightarrow> length (dec_nat n) \<le> k"
proof (induction n arbitrary: k rule: dec_nat.induct)
  case (1 n)
  show ?case
  proof (cases "n < 10")
    case False
    then obtain j where k: "k = Suc j" "0 < j"
      using "1.prems" by (cases k; cases "k - 1") auto
    then have "length (dec_nat (n div 10)) \<le> j"
      using "1.prems" by (intro "1.IH" [OF False]) (auto simp: less_mult_imp_div_less)
    with False k show ?thesis by (simp add: dec_nat.simps [of n])
  qed (use "1.prems" in \<open>simp add: dec_nat.simps [of n]\<close>)
qed

lemma length_pad_left [simp]: "length s \<le> n \<Longrightarrow> length (pad_left n s) = n"
  by (simp add: pad_left_def)

lemma pad_left_digits: "\<forall>c\<in>set (pad_left n (dec_nat v)). c_isdigit c"
  using dec_nat_digits by (auto simp: pad_left_def c_isdigit_def)

lemma digits_val_zeros: "digits_val 0 (replicate n (CHR ''0'') @ s) = digits_val 0 s"
  by (induction n) (auto simp: digit_val_def c_isdigit_def)

lemma digits_val_stop: "\<forall>c\<in>set ds. c_isdigit c \<Longrightarrow> \<not> c_isdigit c \<Longrightarrow> digits_val acc (ds @ c # s) = digits_val acc ds"
  by (induction ds arbitrary: acc) auto

lemma atoi_padded: "\<not> c_isdigit c \<Longrightarrow> atoi (pad_left n (dec_nat v) @ c # s) = int v"
proof -
  assume c: "\<not> c_isdigit c"
  let ?d = "pad_left n (dec_nat v)"
  obtain x t where d: "?d = x # t"
    using dec_nat_ne [of v] by (cases ?d) (auto simp: pad_left_def)
  have x: "c_isdigit x"
    using pad_left_digits [of n v] d by simp
  have "digits_val 0 (?d @ c # s) = v"
    using digits_val_stop [OF pad_left_digits c] dec_nat_digits [of v] digits_val_zeros
    by (simp add: pad_left_def)
  then show ?thesis
    using digit_no_space [OF x] digit_no_sign [OF x] by (simp add: atoi_def d)
qed

lemma atou_padded: "\<not> c_isdigit c \<Longrightarrow> atou (pad_left n (dec_nat (unat w)) @ c # s) = w"
proof -
  assume c: "\<not> c_isdigit c"
  have "uint w < 2 ^ 32"
    using unsigned_less [of w] by simp
  moreover have "- (2 ^ 63) \<le> uint w"
    by (rule order_trans [of _ 0]) simp_all
  ultimately have "max (- (2 ^ 63)) (min (uint w) (2 ^ 63 - 1)) = uint w"
    by (simp add: max_def min_def)
  then show ?thesis
    by (simp add: atou_def atoi_padded [OF c])
qed

lemma colon_no_digit [simp]: "\<not> c_isdigit (CHR '':'')"
  by (simp add: c_isdigit_def)

definition header_ok :: "nat \<Rightarrow> u32 \<Rightarrow> bool" where
  "header_ok r l \<longleftrightarrow> r < 2 ^ 16 \<and> unat l \<le> 9999"

lemma header_parts:
  assumes "header_ok r l"
  shows "length (pad_left 5 (dec_nat r)) = 5" "length (pad_left 10 (dec_nat (unat (g :: u32)))) = 10"
    "length (pad_left 4 (dec_nat (unat l))) = 4"
proof -
  have "unat g < 2 ^ 32"
    using unsigned_less [of g] by simp
  then show "length (pad_left 10 (dec_nat (unat g))) = 10"
    using length_dec_nat [of 10 "unat g"] by simp
  show "length (pad_left 5 (dec_nat r)) = 5" "length (pad_left 4 (dec_nat (unat l))) = 4"
    using assms length_dec_nat [of 5 r] length_dec_nat [of 4 "unat l"] by (simp_all add: header_ok_def)
qed

lemma length_secmsg_header [simp]: "header_ok r l \<Longrightarrow> length (secmsg_header r g l) = 21"
  using header_parts by (simp add: secmsg_header_def)

text \<open>Reading the header the way \<open>ReadSecMSG\<close> walks over it.\<close>

lemma header_read:
  assumes h: "header_ok r l"
    and m_def: "m = secmsg_header r g l @ s"
  shows "atou (drop 5 m) = g" "deref (drop 10 (drop 5 m)) = CHR '':''"
    "atou (drop 1 (drop 10 (drop 5 m))) = l" "drop 5 (drop 1 (drop 10 (drop 5 m))) = s"
proof -
  note p = header_parts(1) [OF h] header_parts(2) [OF h, of g] header_parts(3) [OF h]
  have 1: "drop 5 m = pad_left 10 (dec_nat (unat g)) @ CHR '':'' # pad_left 4 (dec_nat (unat l)) @ CHR '':'' # s"
    using p by (simp add: m_def secmsg_header_def)
  then have 2: "drop 10 (drop 5 m) = CHR '':'' # pad_left 4 (dec_nat (unat l)) @ CHR '':'' # s"
    using p by (simp del: drop_drop)
  show "atou (drop 5 m) = g"
    unfolding 1 by (rule atou_padded) simp
  show "deref (drop 10 (drop 5 m)) = CHR '':''"
    unfolding 2 by simp
  have 3: "drop 1 (drop 10 (drop 5 m)) = pad_left 4 (dec_nat (unat l)) @ CHR '':'' # s"
    unfolding 2 by simp
  show "atou (drop 1 (drop 10 (drop 5 m))) = l"
    unfolding 3 by (rule atou_padded) simp
  show "drop 5 (drop 1 (drop 10 (drop 5 m))) = s"
    unfolding 3 using p by simp
qed

section \<open>The digest\<close>

lemma md5_of_lib:
  "crypto_ok lib \<Longrightarrow> length s < 2 ^ 32 \<Longrightarrow> OS_MD5_Bytes (md5_stack lib) s = md5_hex (md5_spec s)"
  by (rule OS_MD5_Bytes_digest) (auto simp: crypto_ok_def)

lemma CheckSum_own:
  assumes "crypto_ok lib" "t \<noteq> []" "length t < 2 ^ 32"
  shows "CheckSum lib (OS_MD5_Bytes (md5_stack lib) t @ t @ junk) (32 + length t) = Some (t @ junk)"
proof -
  let ?h = "md5_hex (md5_spec t)"
  have h: "OS_MD5_Bytes (md5_stack lib) t = ?h" "c_string ?h" "length ?h = 32"
    using assms by (simp_all add: md5_of_lib)
  moreover have tw: "takeWhile (\<lambda>c. c \<noteq> NUL) ?h = ?h"
    using h(2) by (simp add: c_string_def) metis
  moreover have "strncmp ?h ?h 32 = 0"
    using h(2) by (simp add: strncmp_eq_0)
  ultimately show ?thesis
    using assms(2) by (simp add: CheckSum_def Let_def tw del: takeWhile_eq_all_conv)
qed


section \<open>A message of one's own opens\<close>

text \<open>What \<open>CreateSecMSG\<close> encrypts for a message.\<close>

definition secmsg_text :: "nat \<Rightarrow> u32 \<Rightarrow> u32 \<Rightarrow> string \<Rightarrow> string" where
  "secmsg_text r g l msg = secmsg_header r g l @ msg"

definition secmsg_body :: "crypto_lib \<Rightarrow> nat \<Rightarrow> u32 \<Rightarrow> u32 \<Rightarrow> string \<Rightarrow> string" where
  "secmsg_body lib r g l msg = OS_MD5_Bytes (md5_stack lib) (secmsg_text r g l msg) @ secmsg_text r g l msg"

lemma length_body:
  assumes "crypto_ok lib" "header_ok r l" "length msg < 2 ^ 31"
  shows "length (secmsg_body lib r g l msg) = 53 + length msg"
  using assms by (simp add: secmsg_body_def secmsg_text_def md5_of_lib)

lemma poke_start [simp]: "poke d 0 s = s @ drop (length s) d"
  by (simp add: poke_def)

lemma takeWhile_bangs: "takeWhile (\<lambda>c. c = x) (replicate p x @ ys) = replicate p x @ takeWhile (\<lambda>c. c = x) ys"
  by (induction p) auto

lemma open_compressed_own:
  assumes lib: "crypto_ok lib" and h: "header_ok r l" and len: "length msg < 2 ^ 31" "msg \<noteq> []"
    and c: "compress2 lib (secmsg_body lib r g l msg) k = Some c"
    and clear: "clear = replicate p (CHR ''!'') @ c @ junk" "p + length c \<le> n" "n \<le> length clear"
    and room: "length msg + 53 < buffer_max"
  shows "open_compressed lib buffer buffer_max clear n
    = (Inr (Compressed g l (msg @ NUL # drop (54 + length msg) buffer) (length msg)),
       secmsg_body lib r g l msg @ NUL # drop (54 + length msg) buffer)"
proof -
  let ?b = "secmsg_body lib r g l msg" and ?t = "secmsg_text r g l msg"
  have lb: "length ?b = 53 + length msg"
    by (rule length_body [OF lib h len(1)])
  obtain t where t: "c = CHR ''x'' # t"
    using lib c unfolding crypto_ok_def by blast
  have p: "length (takeWhile (\<lambda>c. c = CHR ''!'') clear) = p"
    by (simp add: clear(1) t takeWhile_bangs)
  have "take (n - p) (drop p clear) = c @ take (n - p - length c) junk"
    using clear(2) by (simp add: clear(1) take_append)
  moreover have "uncompress lib (c @ x) (buffer_max - 1) = (True, ?b)" for x
    using lib c room lb unfolding crypto_ok_def by fastforce
  ultimately have u: "os_zlib_uncompress lib (take (n - p) (drop p clear)) (buffer_max - 1) = (53 + length msg, ?b @ [NUL])"
    by (simp add: os_zlib_uncompress_def lb)
  let ?rest = "NUL # drop (54 + length msg) buffer"
  have "CheckSum lib (?b @ ?rest) (32 + length ?t) = Some (?t @ ?rest)"
    unfolding secmsg_body_def append_assoc by (rule CheckSum_own [OF lib]) (use len h in \<open>auto simp: secmsg_text_def\<close>)
  moreover have "32 + length ?t = 53 + length msg"
    using h by (simp add: secmsg_text_def)
  ultimately have cs: "CheckSum lib (?b @ ?rest) (53 + length msg) = Some (secmsg_header r g l @ msg @ ?rest)"
    by (simp add: secmsg_text_def)
  note hd = header_read [OF h refl, of g "msg @ ?rest"]
  have b1: "poke buffer 0 (?b @ [NUL]) = ?b @ ?rest"
    by (simp add: lb)
  have fs: "(53 + length msg + 2 ^ 64 - 53) mod 2 ^ 64 = length msg"
    using len(1) by simp
  show ?thesis
    unfolding open_compressed_def p u Let_def prod.case b1 cs option.case hd(1,3,4) fs
    using hd(2) room by simp
qed

lemma fill_up: "(a + (8 - a mod 8) mod 8) mod 8 = (0 :: nat)"
proof -
  obtain q r where a: "a = 8 * q + r" "r < 8"
    by (metis mod_less_divisor mult_div_mod_eq zero_less_numeral)
  then have "a mod 8 = r" by simp
  moreover have "(8 * q + r + (8 - r)) mod 8 = 0"
    using a(2) by simp
  ultimately show ?thesis
    using a by (cases "r = 0") simp_all
qed

lemma above_blocks: "x < 16 * (x div 16 + 1)" for x :: nat
  by (metis add.commute dividend_less_times_div mult_Suc_right Suc_eq_plus1 zero_less_numeral)

lemma length_padded_dvd: "8 dvd length (padded c)"
proof -
  have "length (padded c) = length c + 1 + (8 - (length c + 1) mod 8) mod 8"
    by (simp add: padded_def)
  then show ?thesis
    by (simp only: dvd_eq_mod_eq_0 fill_up)
qed

lemma length_bf_padded: "length (OS_BF_Str (padded c) k (length (padded c)) OS_ENCRYPT) = length (padded c)"
proof -
  obtain q where "length (padded c) = 8 * q"
    using length_padded_dvd by (auto elim: dvdE)
  then show ?thesis
    using OS_BF_Str_inverse_length [of "padded c" k] by simp
qed

text \<open>What follows once the cipher has written \<open>padded c\<close>.\<close>

lemma clear_own:
  assumes "length (padded c) \<le> n" "n < length clear"
  shows "\<exists>p junk. (poke clear 0 (padded c))[n := NUL] = replicate p (CHR ''!'') @ c @ junk
     \<and> p + length c = length (padded c) \<and> deref (poke clear 0 (padded c)) = CHR ''!''"
proof -
  define p where "p = ((8 - (length c + 1) mod 8) mod 8) + 1"
  have pc: "padded c = replicate p (CHR ''!'') @ c" "0 < p"
    by (simp_all add: padded_def p_def)
  let ?j = "drop (length (padded c)) clear"
  have "(padded c @ ?j)[n := NUL] = padded c @ ?j[n - length (padded c) := NUL]"
    using assms by (simp add: list_update_append)
  moreover have "deref (padded c @ ?j) = CHR ''!''"
    using pc by (cases p) auto
  ultimately show ?thesis
    by (intro exI [of _ p] exI [of _ "?j[n - length (padded c) := NUL]"]) (simp add: pc)
qed

lemma OS_AES_Str_encrypt_Some:
  "OS_AES_Str_encrypt lib (Some iv) p k = Some x \<Longrightarrow> \<exists>y. evp_encrypt lib k iv p = Some y \<and> x = iv @ y"
  by (cases "evp_encrypt lib k iv p") (auto simp: OS_AES_Str_encrypt_def encrypt_AES_def Let_def split: if_splits)

lemma decrypt_own:
  assumes lib: "crypto_ok lib"
    and x: "case m of W_METH_BLOWFISH \<Rightarrow> x = OS_BF_Str (padded c) key (length (padded c)) OS_ENCRYPT
       | W_METH_AES \<Rightarrow> OS_AES_Str_encrypt lib (Some iv) (padded c) key = Some x"
    and iv: "length iv = 16"
    and n: "n = length (crypto_token m @ x) - 1"
  shows "decrypt_body lib m key (x @ junk) n clear = (True, poke clear 0 (padded c))"
    and "length (padded c) \<le> n" and "m = W_METH_AES \<Longrightarrow> 4 < n"
proof -
  have pne: "padded c \<noteq> []"
    by (simp add: padded_def)
  have "decrypt_body lib m key (x @ junk) n clear = (True, poke clear 0 (padded c))
      \<and> length (padded c) \<le> n \<and> (m = W_METH_AES \<longrightarrow> 4 < n)"
  proof (cases m)
    case W_METH_BLOWFISH
    then have "x = OS_BF_Str (padded c) key (length (padded c)) OS_ENCRYPT" "n = length (padded c)"
      using x n by (simp_all add: crypto_token_def length_bf_padded)
    then show ?thesis
      using OS_BF_Str_decrypts [of "padded c" key junk] W_METH_BLOWFISH by (simp add: decrypt_body_def)
  next
    case W_METH_AES
    then have "OS_AES_Str_encrypt lib (Some iv) (padded c) key = Some x"
      using x by simp
    then obtain y where y: "evp_encrypt lib key iv (padded c) = Some y" "x = iv @ y"
      using OS_AES_Str_encrypt_Some by blast
    then have dec: "evp_decrypt lib key iv y = (True, padded c)" and len: "length y = 16 * (length (padded c) div 16 + 1)"
      using lib unfolding crypto_ok_def by blast+
    have lt: "length (padded c) < length y"
      unfolding len by (rule above_blocks)
    have n4: "n - 4 = 16 + length y" "n = 20 + length y"
      using n W_METH_AES y iv by (simp_all add: crypto_token_def)
    have "OS_AES_Str_decrypt lib (x @ junk) key (n - 4) = (length (padded c), padded c)"
      unfolding n4(1) by (simp add: OS_AES_Str_decrypt_def decrypt_AES_def y iv dec)
    then have "decrypt_body lib m key (x @ junk) n clear = (True, poke clear 0 (padded c))"
      using pne by (simp only: decrypt_body_def W_METH_AES crypt_method.case Let_def prod.case) simp
    then show ?thesis
      using lt n4(2) by simp
  qed
  then show "decrypt_body lib m key (x @ junk) n clear = (True, poke clear 0 (padded c))"
    "length (padded c) \<le> n" "m = W_METH_AES \<Longrightarrow> 4 < n" by auto
qed

lemma open_frame_own:
  assumes lib: "crypto_ok lib" and h: "header_ok r l" and len: "length msg < 2 ^ 31" "msg \<noteq> []"
    and c: "compress2 lib (secmsg_body lib r g l msg) k = Some c"
    and m: "client \<Longrightarrow> ke_crypto_method e = m"
    and buf: "buffer = crypto_token m @ x @ junk"
    and x: "case m of W_METH_BLOWFISH \<Rightarrow> x = OS_BF_Str (padded c) (ke_key e) (length (padded c)) OS_ENCRYPT
       | W_METH_AES \<Rightarrow> OS_AES_Str_encrypt lib (Some iv) (padded c) (ke_key e) = Some x"
    and iv: "length iv = 16"
    and n: "n = length (crypto_token m @ x) - 1" "n \<le> OS_MAXSTR"
    and room: "length msg + 53 + length (crypto_token m) < buffer_max"
    and clear: "length cleartext = OS_MAXSTR + 1"
  shows "\<exists>rest. fr_opened (open_frame lib client e buffer buffer_max cleartext n)
      = Inr (Compressed g l (msg @ NUL # rest) (length msg))
    \<and> fr_method (open_frame lib client e buffer buffer_max cleartext n) = m"
proof -
  note dec = decrypt_own [OF lib x iv n(1)]
  have "0 < length (padded c)"
    by (simp add: padded_def)
  then have pos: "0 < n"
    using dec(2) by linarith
  have aes: "(take 4 buffer = ''#AES'') = (m = W_METH_AES)"
    by (cases m) (simp_all add: buf crypto_token_def)
  obtain p j where cl: "(poke (cleartext[0 := NUL]) 0 (padded c))[n := NUL] = replicate p (CHR ''!'') @ c @ j"
    "p + length c = length (padded c)" "deref (poke (cleartext[0 := NUL]) 0 (padded c)) = CHR ''!''"
    using clear_own [of c n "cleartext[0 := NUL]"] dec(2) n(2) clear by (auto simp: OS_MAXSTR_def)
  let ?k = "if m = W_METH_AES then 4 else 0 :: nat"
  have b: "drop (?k + 1) buffer = x @ junk" "deref (drop ?k buffer) = CHR '':''"
    by (cases m; simp add: buf crypto_token_def)+
  let ?max = "buffer_max - ?k - 1"
  have room': "\<not> buffer_max < ?k" "\<not> buffer_max - ?k < 1" "length msg + 53 < ?max"
    using room by (cases m; simp add: crypto_token_def)+
  have "length (replicate p (CHR ''!'') @ c @ j) = OS_MAXSTR + 1"
    using clear dec(2) n(2) by (simp add: OS_MAXSTR_def flip: cl(1))
  then have oc: "open_compressed lib (x @ junk) ?max (replicate p (CHR ''!'') @ c @ j) n
      = (Inr (Compressed g l (msg @ NUL # drop (54 + length msg) (x @ junk)) (length msg)),
         secmsg_body lib r g l msg @ NUL # drop (54 + length msg) (x @ junk))"
    using n(2) dec(2) cl(2) room'
    by (intro open_compressed_own [OF lib h len c refl]) auto
  have ok: "\<not> (n = 0 \<or> OS_MAXSTR < n)" "\<not> (m = W_METH_AES \<and> n \<le> 4)"
    using pos n(2) dec(3) by auto
  have m': "(if client then ke_crypto_method e else if m = W_METH_AES then W_METH_AES else W_METH_BLOWFISH) = m"
    using m by (cases m) auto
  show ?thesis
    unfolding open_frame_def aes Let_def m' if_not_P [OF room'(1)] if_not_P [OF room'(2)] b open_body_def
      if_not_P [OF ok(1)] if_not_P [OF ok(2)] dec(1) prod.case
    using b(2) cl(1,3) oc by (simp del: One_nat_def)
qed

section \<open>What \<open>CreateSecMSG\<close> sends\<close>

definition agent_prefix :: "bool \<Rightarrow> keyentry \<Rightarrow> string" where
  "agent_prefix client e = (if client \<and> \<not> isSingleHost (ke_ip e) then CHR ''!'' # ke_id e @ ''!'' else [])"

text \<open>The state after the counters of a message were drawn and stored.\<close>

definition sender_step :: "secmsg_state \<Rightarrow> secmsg_state" where
  "sender_step st =
     (let st1 = bump_counter (ReloadSenderCounter st) in store_sender_counter (global_count st1) (local_count st1) st1)"

lemma store_sender_counter_simps [simp]:
  "global_count (store_sender_counter g l st) = global_count st"
  "local_count (store_sender_counter g l st) = local_count st"
  "keyentries (store_sender_counter g l st) = keyentries st"
  by (auto simp: store_sender_counter_def split: option.splits)

lemma bump_local: "unat (local_count (bump_counter st)) \<le> 9997"
proof (cases "local_count st \<ge> 9997")
  case False
  then have "unat (local_count st) < 9997"
    by (simp add: not_le word_less_nat_alt)
  moreover have "unat (local_count st + 1) = unat (local_count st) + 1"
    using calculation by (simp add: unat_word_ariths)
  ultimately show ?thesis
    using False by (simp add: bump_counter_def Let_def)
qed (simp add: bump_counter_def Let_def)

lemma poke_prefix: "length p = k \<Longrightarrow> poke (p @ d) k s = p @ s @ drop (length s) d"
  by (simp add: poke_def)

lemma snprintf_fits: "length p < n \<Longrightarrow> snprintf buf n p = (length p, p @ NUL # drop (Suc (length p)) buf)"
  by (simp add: snprintf_def)

lemma take_sent: "take (length p + length x) (poke (p @ d) (length p) x) = p @ x"
  by (simp add: poke_prefix)

lemma CreateSecMSG_sent:
  assumes c: "CreateSecMSG lib client (Some r) iv msg buf i st = (n, out, st')" "n \<noteq> 0"
    and lib: "crypto_ok lib" and iv: "\<And>v. iv = Some v \<Longrightarrow> length v = 16"
    and id: "length (agent_prefix client (keyentries st ! i)) \<le> 10"
  defines "e \<equiv> keyentries st ! i"
  defines "m \<equiv> ke_crypto_method e" and "p \<equiv> agent_prefix client e @ crypto_token (ke_crypto_method e)"
  shows "\<exists>k c x v. compress2 lib (secmsg_body lib r (global_count st') (local_count st') msg) k = Some c
    \<and> take n out = p @ x \<and> n = length p + length x \<and> length v = 16
    \<and> (case m of W_METH_BLOWFISH \<Rightarrow> x = OS_BF_Str (padded c) (ke_key e) (length (padded c)) OS_ENCRYPT
        | W_METH_AES \<Rightarrow> OS_AES_Str_encrypt lib (Some v) (padded c) (ke_key e) = Some x)
    \<and> st' = sender_step st \<and> msg \<noteq> [] \<and> length msg \<le> OS_MAXSTR - OS_HEADER_SIZE"
proof -
  let ?st = "bump_counter (ReloadSenderCounter st)"
  let ?g = "global_count ?st" and ?l = "local_count ?st"
  let ?body = "secmsg_body lib r ?g ?l msg" and ?buf = "buf[OS_MAXSTR := NUL]"
  have sizes: "\<not> (length msg > OS_MAXSTR - OS_HEADER_SIZE \<or> length msg < 1)"
    using c by (auto simp: CreateSecMSG_def split: if_splits)
  have st': "st' = sender_step st"
    using c by (auto simp: CreateSecMSG_def sender_step_def Let_def split: if_splits prod.splits crypt_method.splits option.splits)
  obtain cc where cc: "compress2 lib ?body (OS_MAXSTR - 12) = Some cc" "cc \<noteq> []"
    using c by (auto simp: CreateSecMSG_def Let_def os_zlib_compress_def secmsg_body_def secmsg_text_def
        split: if_splits option.splits)
  have pre: "(if client \<and> \<not> isSingleHost (ke_ip e) then snprintf ?buf 16 (CHR ''!'' # ke_id e @ CHR ''!'' # crypto_token m)
       else snprintf ?buf 6 (crypto_token m)) = (length p, p @ NUL # drop (Suc (length p)) ?buf)"
    using id snprintf_fits [of p 16 ?buf] snprintf_fits [of p 6 ?buf]
    by (cases m) (auto simp: p_def agent_prefix_def e_def m_def crypto_token_def)
  have main: "(n, out, st') = (let plain = padded cc; (len, buf1) = (length p, p @ NUL # drop (Suc (length p)) ?buf) in
      case m of
        W_METH_BLOWFISH \<Rightarrow> (let x = OS_BF_Str plain (ke_key e) (length plain) OS_ENCRYPT
                            in (length plain + len, poke buf1 len x, sender_step st))
      | W_METH_AES \<Rightarrow> (case OS_AES_Str_encrypt lib iv plain (ke_key e) of
                          None \<Rightarrow> (0, buf1, sender_step st)
                        | Some x \<Rightarrow> (max (length plain) (length x) + len, poke buf1 len x, sender_step st)))"
  proof -
    have z: "os_zlib_compress lib (OS_MD5_Bytes (md5_stack lib) (secmsg_header r ?g ?l @ msg) @ secmsg_header r ?g ?l @ msg)
        (OS_MAXSTR - 12) = (length cc, cc @ [NUL])"
      using cc by (simp add: os_zlib_compress_def secmsg_body_def secmsg_text_def)
    have tk: "take (length cc) (cc @ [NUL]) = cc" "length cc \<noteq> 0"
      using cc by simp_all
    show ?thesis
      using c(1)
      unfolding CreateSecMSG_def Let_def e_def [symmetric] m_def [symmetric] if_not_P [OF sizes] option.case
        z prod.case tk(1) if_not_P [OF tk(2)] pre sender_step_def
      by (rule sym)
  qed
  show ?thesis
  proof (cases m)
    case W_METH_BLOWFISH
    let ?x = "OS_BF_Str (padded cc) (ke_key e) (length (padded cc)) OS_ENCRYPT"
    have "n = length p + length ?x" "out = poke (p @ NUL # drop (Suc (length p)) ?buf) (length p) ?x"
      using main W_METH_BLOWFISH by (simp_all add: Let_def length_bf_padded)
    moreover from this have "take n out = p @ ?x"
      by (simp only: take_sent)
    ultimately show ?thesis
      by - (rule exI [of _ "OS_MAXSTR - 12"], rule exI [of _ cc], rule exI [of _ ?x], rule exI [of _ "replicate 16 NUL"],
        use cc W_METH_BLOWFISH sizes st' in \<open>simp add: sender_step_def Let_def\<close>)
  next
    case W_METH_AES
    with main c(2) obtain x where x: "OS_AES_Str_encrypt lib iv (padded cc) (ke_key e) = Some x"
      "n = max (length (padded cc)) (length x) + length p"
      "out = poke (p @ NUL # drop (Suc (length p)) ?buf) (length p) x"
      by (auto simp: Let_def split: option.splits)
    then obtain v where v: "iv = Some v" "length v = 16"
      using iv by (cases iv) (auto simp: OS_AES_Str_encrypt_def)
    then obtain y where y: "evp_encrypt lib (ke_key e) v (padded cc) = Some y" "x = v @ y"
      using x(1) OS_AES_Str_encrypt_Some by blast
    then have "length y = 16 * (length (padded cc) div 16 + 1)"
      using lib unfolding crypto_ok_def by blast
    then have "length (padded cc) < length y"
      using above_blocks by simp
    then have n: "n = length p + length x"
      using x(2) y by simp
    have "take n out = p @ x"
      unfolding n x(3) by (rule take_sent)
    then show ?thesis
      by - (rule exI [of _ "OS_MAXSTR - 12"], rule exI [of _ cc], rule exI [of _ x], rule exI [of _ v],
        use cc W_METH_AES sizes st' n x(1) v in \<open>simp add: sender_step_def Let_def\<close>)
  qed
qed


section \<open>Sizes\<close>

lemma length_padded_le: "length (padded c) \<le> length c + 8"
  by (simp add: padded_def)

lemma length_crypto_token: "length (crypto_token m) \<le> 5"
  by (cases m) (simp_all add: crypto_token_def)

lemma sent_bound:
  assumes lib: "crypto_ok lib" and h: "header_ok r l" and len: "length msg \<le> OS_MAXSTR - OS_HEADER_SIZE"
    and c: "compress2 lib (secmsg_body lib r g l msg) k = Some c" and v: "length v = 16"
    and x: "case m of W_METH_BLOWFISH \<Rightarrow> x = OS_BF_Str (padded c) key (length (padded c)) OS_ENCRYPT
        | W_METH_AES \<Rightarrow> OS_AES_Str_encrypt lib (Some v) (padded c) key = Some x"
  shows "length x \<le> 6112"
proof -
  let ?b = "secmsg_body lib r g l msg"
  have lb: "length ?b \<le> 6069"
    using length_body [OF lib h, of msg g] len by (simp add: OS_MAXSTR_def OS_HEADER_SIZE_def)
  have "length c \<le> length ?b + length ?b div 2 ^ 12 + length ?b div 2 ^ 14 + length ?b div 2 ^ 25 + 13"
    using lib c unfolding crypto_ok_def by blast
  moreover have "length ?b div 2 ^ 12 \<le> 6069 div 2 ^ 12" "length ?b div 2 ^ 14 \<le> 6069 div 2 ^ 14"
    "length ?b div 2 ^ 25 \<le> 6069 div 2 ^ 25"
    using lb by (intro div_le_mono; simp)+
  ultimately have "length c \<le> 6083"
    using lb by simp
  then have p: "length (padded c) \<le> 6091"
    using length_padded_le [of c] by linarith
  show ?thesis
  proof (cases m)
    case W_METH_BLOWFISH
    with x p show ?thesis by (simp add: length_bf_padded)
  next
    case W_METH_AES
    with x obtain y where y: "evp_encrypt lib key v (padded c) = Some y" "x = v @ y"
      using OS_AES_Str_encrypt_Some by fastforce
    then have "length y = 16 * (length (padded c) div 16 + 1)"
      using lib unfolding crypto_ok_def by blast
    moreover have "length (padded c) div 16 \<le> 6091 div 16"
      using p by (rule div_le_mono)
    ultimately show ?thesis
      using y v by simp
  qed
qed

lemma sender_step_local: "unat (local_count (sender_step st)) \<le> 9997"
  using bump_local by (simp add: sender_step_def Let_def)

lemma CreateSecMSG_short:
  assumes "crypto_ok lib" "CreateSecMSG lib client (Some r) iv msg buf i st = (n, out, st')"
    and "r < 2 ^ 16" "\<forall>v. iv = Some v \<longrightarrow> length v = 16"
    and "length (agent_prefix client (keyentries st ! i)) \<le> 10"
  shows "n < OS_MAXSTR"
proof (cases "n = 0")
  case False
  obtain k c x v where x: "compress2 lib (secmsg_body lib r (global_count st') (local_count st') msg) k = Some c"
      "n = length (agent_prefix client (keyentries st ! i) @ crypto_token (ke_crypto_method (keyentries st ! i))) + length x"
      "length v = 16"
      "case ke_crypto_method (keyentries st ! i) of
         W_METH_BLOWFISH \<Rightarrow> x = OS_BF_Str (padded c) (ke_key (keyentries st ! i)) (length (padded c)) OS_ENCRYPT
       | W_METH_AES \<Rightarrow> OS_AES_Str_encrypt lib (Some v) (padded c) (ke_key (keyentries st ! i)) = Some x"
      "st' = sender_step st" "length msg \<le> OS_MAXSTR - OS_HEADER_SIZE"
    using CreateSecMSG_sent [OF assms(2) False assms(1) _ assms(5)] assms(4) by blast
  have "header_ok r (local_count st')"
    using assms(3) sender_step_local [of st] by (simp add: header_ok_def x(5))
  then have "length x \<le> 6112"
    using sent_bound [OF assms(1) _ x(6,1,3,4)] by blast
  then show ?thesis
    using x(2) assms(5) length_crypto_token [of "ke_crypto_method (keyentries st ! i)"]
    by (simp add: OS_MAXSTR_def)
qed (simp add: OS_MAXSTR_def)

text \<open>
  C24. The datagram of \<open>CreateSecMSG\<close> fits the buffers of \<open>OS_MAXSTR + 1\<close> bytes that its callers
  pass and that the receivers read into: the longest message it takes, compressed as badly as zlib
  ever does, padded, encrypted with either cipher and preceded by the agent number and the cipher
  token, has less than \<open>OS_MAXSTR\<close> bytes.
\<close>

theorem CreateSecMSG_fits:
  assumes "crypto_ok lib" "CreateSecMSG lib client (Some r) iv msg buf i st = (n, out, st')"
    and "r < 2 ^ 16" "\<forall>v. iv = Some v \<longrightarrow> length v = 16"
    and "length (agent_prefix client (keyentries st ! i)) \<le> 10"
  shows "n < OS_MAXSTR"
  using assms by (rule CreateSecMSG_short)

section \<open>From one side to the other\<close>

definition counter_stable :: "secmsg_state \<Rightarrow> nat \<Rightarrow> bool" where
  "counter_stable st i \<longleftrightarrow>
     ke_inode (keyentries st ! i) = File_Inode (rids st) (rids_file (ke_id (keyentries st ! i)))"

lemma ReloadCounter_stable: "counter_stable st i \<Longrightarrow> ReloadCounter i (ke_id (keyentries st ! i)) st = st"
  by (simp add: ReloadCounter_def counter_stable_def Let_def)

lemma keyentries_flush [simp]: "keyentries (flush_counter i g l st) = keyentries st"
  by (auto simp: flush_counter_def StoreCounter_def Let_def split: option.splits)

lemma accept_compressed_newer:
  assumes "i < length (keyentries st)" "counter_stable st i" "newer g l (keyentries st ! i)"
  shows "accept_compressed i m g l f n st = (Inr (f, n), flush_counter i g l (accept_entry i g l m st))"
  using assms by (auto simp: accept_compressed_def ReloadCounter_stable Let_def)

text \<open>
  C23. A message crosses from agent to manager, and from manager to agent, unchanged: what
  \<open>CreateSecMSG\<close> sends under a key, \<open>ReadSecMSG\<close> with the same key takes out of the receive buffer
  (whatever follows the datagram there, whatever the last datagram left in the clear text buffer),
  with its exact length and a terminating NUL, for both ciphers, if its counters are newer than the
  last ones accepted; the receiver then keeps these counters and the cipher of the message.
\<close>

theorem secmsg_roundtrip:
  assumes lib: "crypto_ok lib"
    and c: "CreateSecMSG lib cl1 (Some r) iv msg buf i st1 = (n, out, st1')" "n \<noteq> 0"
    and rand: "r < 2 ^ 16" "\<forall>v. iv = Some v \<longrightarrow> length v = 16"
    and e1: "e1 = keyentries st1 ! i" and e2: "e2 = keyentries st2 ! j" "j < length (keyentries st2)"
    and id: "length (agent_prefix cl1 e1) \<le> 10"
    and key: "ke_key e1 = ke_key e2" "cl2 \<longrightarrow> ke_crypto_method e2 = ke_crypto_method e1"
    and st2: "counter_stable st2 j" "newer (global_count st1') (local_count st1') e2"
    and buf: "buffer = drop (length (agent_prefix cl1 e1)) (take n out) @ junk"
    and room: "length msg + 58 < buffer_max" "length cleartext = OS_MAXSTR + 1"
  shows "\<exists>rest st2' fr.
     ReadSecMSG lib cl2 j buffer buffer_max cleartext (n - length (agent_prefix cl1 e1) - 1) st2
       = (Inr (msg @ NUL # rest, length msg), st2', fr)
     \<and> ke_global (keyentries st2' ! j) = global_count st1' \<and> ke_local (keyentries st2' ! j) = local_count st1'
     \<and> ke_crypto_method (keyentries st2' ! j) = ke_crypto_method e1"
proof -
  let ?p = "agent_prefix cl1 e1" and ?m = "ke_crypto_method e1"
  let ?t = "crypto_token ?m" and ?g = "global_count st1'" and ?l = "local_count st1'"
  obtain k z x v where x: "compress2 lib (secmsg_body lib r ?g ?l msg) k = Some z"
      "take n out = (?p @ ?t) @ x" "n = length (?p @ ?t) + length x" "length v = 16"
      "case ?m of W_METH_BLOWFISH \<Rightarrow> x = OS_BF_Str (padded z) (ke_key e1) (length (padded z)) OS_ENCRYPT
       | W_METH_AES \<Rightarrow> OS_AES_Str_encrypt lib (Some v) (padded z) (ke_key e1) = Some x"
      "st1' = sender_step st1" "msg \<noteq> []" "length msg \<le> OS_MAXSTR - OS_HEADER_SIZE"
    using CreateSecMSG_sent [OF c lib _ id [unfolded e1]] rand(2) unfolding e1 by blast
  have h: "header_ok r ?l"
    using rand(1) sender_step_local [of st1] by (simp add: header_ok_def x(6))
  have fits: "n < OS_MAXSTR"
    by (rule CreateSecMSG_short [OF lib c(1) rand id [unfolded e1]])
  have n: "n - length ?p - 1 = length (?t @ x) - 1"
    unfolding x(3) by simp
  have b: "buffer = ?t @ x @ junk"
    unfolding buf x(2) by simp
  have "length msg < 2 ^ 31"
    using x(8) by (simp add: OS_MAXSTR_def)
  moreover have "length msg + 53 + length ?t < buffer_max"
    using room(1) length_crypto_token [of ?m] by linarith
  moreover have "n - length ?p - 1 \<le> OS_MAXSTR"
    using fits by simp
  ultimately obtain rest where op:
    "fr_opened (open_frame lib cl2 e2 buffer buffer_max cleartext (n - length ?p - 1))
       = Inr (Compressed ?g ?l (msg @ NUL # rest) (length msg))"
    "fr_method (open_frame lib cl2 e2 buffer buffer_max cleartext (n - length ?p - 1)) = ?m"
    using open_frame_own [OF lib h _ x(7,1) _ b x(5) [unfolded key(1)] x(4) n _ _ room(2), of cl2] key(2) by blast
  show ?thesis
    unfolding ReadSecMSG_def Let_def e2(1) [symmetric] op(1) sum.case opened.case op(2)
      accept_compressed_newer [OF e2(2) st2(1) st2(2) [unfolded e2(1)]] prod.case
    using e2 by (simp add: accept_entry_def set_entry_def)
qed


section \<open>A library that keeps its promises\<close>

text \<open>
  Concrete functions for the libraries: the length in front of the text instead of compression, padding
  as PKCS7 does it instead of AES.
\<close>

definition demo_compress :: "string \<Rightarrow> nat \<Rightarrow> string option" where
  "demo_compress m n =
     (let c = CHR ''x'' # pad_left 8 (dec_nat (length m)) @ m
      in if length m < 10 ^ 8 \<and> length c \<le> n then Some c else None)"

definition demo_uncompress :: "string \<Rightarrow> nat \<Rightarrow> bool \<times> string" where
  "demo_uncompress s n =
     (let k = digits_val 0 (take 8 (drop 1 s)) in if k \<le> n \<and> k + 9 \<le> length s then (True, take k (drop 9 s)) else (False, []))"

definition demo_encrypt :: "string \<Rightarrow> string \<Rightarrow> string \<Rightarrow> string option" where
  "demo_encrypt k iv m = (let r = 16 - length m mod 16 in Some (m @ replicate r (char_of r)))"

definition demo_decrypt :: "string \<Rightarrow> string \<Rightarrow> string \<Rightarrow> bool \<times> string" where
  "demo_decrypt k iv c = (c \<noteq> [], take (length c - byte (last c)) c)"

definition demo_lib :: crypto_lib where
  "demo_lib = \<lparr>evp_encrypt = demo_encrypt, evp_decrypt = demo_decrypt, compress2 = demo_compress,
     uncompress = demo_uncompress,
     md5_stack = \<lparr>md5_hash = (0, 0, 0, 0), md5_bits = (0, 0), md5_in = replicate 64 NUL\<rparr>\<rparr>"

lemma next_block: "n + (16 - n mod 16) = 16 * (n div 16 + 1)" for n :: nat
proof -
  obtain q r where n: "n = 16 * q + r" "r < 16"
    by (metis mod_less_divisor mult_div_mod_eq zero_less_numeral)
  then have "n mod 16 = r" "n div 16 = q" by simp_all
  with n show ?thesis by simp
qed

lemma demo_encrypt_ok:
  assumes "demo_encrypt k iv m = Some c"
  shows "length c = 16 * (length m div 16 + 1)" "demo_decrypt k iv c = (True, m)"
proof -
  let ?r = "16 - length m mod 16"
  have r: "0 < ?r" "?r \<le> 16" "length m mod 16 < 16"
    using mod_less_divisor [of 16 "length m"] by simp_all
  have c: "c = m @ replicate ?r (char_of ?r)"
    using assms by (simp add: demo_encrypt_def Let_def)
  show "length c = 16 * (length m div 16 + 1)"
    unfolding c length_append length_replicate by (rule next_block)
  have "last c = char_of ?r" "byte (last c) = ?r"
    using r by (simp_all add: c)
  then show "demo_decrypt k iv c = (True, m)"
    using r by (simp add: demo_decrypt_def c)
qed

lemma demo_compress_ok:
  assumes "demo_compress m n = Some c"
  shows "length c \<le> n" "\<exists>t. c = CHR ''x'' # t" "length c \<le> length m + 13"
    and "length m \<le> r \<Longrightarrow> demo_uncompress (c @ junk) r = (True, m)"
proof -
  let ?h = "pad_left 8 (dec_nat (length m))"
  have c: "c = CHR ''x'' # ?h @ m" "length c \<le> n" "length m < 10 ^ 8"
    using assms by (auto simp: demo_compress_def Let_def split: if_splits)
  have h: "length ?h = 8"
    using c(3) length_dec_nat [of 8 "length m"] by simp
  have v: "digits_val 0 ?h = length m"
    using dec_nat_digits [of "length m"] by (simp add: pad_left_def digits_val_zeros)
  show "length c \<le> n" "\<exists>t. c = CHR ''x'' # t" "length c \<le> length m + 13"
    using c h by simp_all
  have "take 8 (drop 1 (c @ junk)) = ?h" "drop 9 (c @ junk) = m @ junk"
    using h by (simp_all add: c(1))
  then show "length m \<le> r \<Longrightarrow> demo_uncompress (c @ junk) r = (True, m)"
    using h v by (simp add: demo_uncompress_def Let_def c(1))
qed

lemma demo_ok: "crypto_ok demo_lib"
proof -
  have "evp_encrypt demo_lib k iv m = Some c \<Longrightarrow> length c = 16 * (length m div 16 + 1) \<and> evp_decrypt demo_lib k iv c = (True, m)"
    for k iv m c
    using demo_encrypt_ok by (simp add: demo_lib_def)
  moreover have "compress2 demo_lib m n = Some c \<Longrightarrow> length c \<le> n \<and> (\<exists>t. c = CHR ''x'' # t)
        \<and> length c \<le> length m + length m div 2 ^ 12 + length m div 2 ^ 14 + length m div 2 ^ 25 + 13
        \<and> (\<forall>junk r. length m \<le> r \<longrightarrow> uncompress demo_lib (c @ junk) r = (True, m))" for m n c
    using demo_compress_ok [of m n c] by (simp add: demo_lib_def)
  moreover have "uncompress demo_lib s n = (ok, w) \<Longrightarrow> length w \<le> n" for s n ok w
    by (auto simp: demo_lib_def demo_uncompress_def Let_def split: if_splits)
  ultimately show ?thesis
    unfolding crypto_ok_def by (auto simp: demo_lib_def)
qed

definition no_rids :: rids_fs where
  "no_rids = \<lparr>dir = \<lambda>_. None, data = \<lambda>_. [], next_ino = 1, can_open = \<lambda>_. True\<rparr>"

definition demo_entry :: keyentry where
  "demo_entry = \<lparr>ke_rcvd = 0, ke_local = 0, ke_keyid = 0, ke_global = 0, ke_id = ''001'', ke_key = ''secret'', ke_name = ''web'',
     ke_ip = \<lparr>ip_text = ''10.0.0.1'', ss = AF_INET [10, 0, 0, 1], prefixlength = 32\<rparr>,
     ke_fp = None, ke_inode = 0, ke_crypto_method = W_METH_AES\<rparr>"

definition demo_state :: secmsg_state where
  "demo_state = \<lparr>keyentries = [demo_entry], keyhash_id = None, keyhash_ip = None, file_change = 0, sender_fp = None,
     sender_inode = 0, rids = no_rids, global_count = 0, local_count = 0, rcv_count = 0, recv_flush = 10, verify_counter = True\<rparr>"

definition demo_send :: "nat \<times> string \<times> secmsg_state" where
  "demo_send = CreateSecMSG demo_lib True (Some 7) (Some (replicate 16 NUL)) ''hello'' (replicate 6145 NUL) 0 demo_state"

lemma demo_compresses:
  assumes "length m + 9 \<le> n" "length m < 10 ^ 8"
  shows "\<exists>c. compress2 demo_lib m n = Some c \<and> c \<noteq> []"
  using assms length_dec_nat [of 8 "length m"] by (simp add: demo_lib_def demo_compress_def Let_def)

lemma demo_encrypts: "\<exists>x. OS_AES_Str_encrypt demo_lib (Some v) m k = Some x"
proof -
  have "demo_encrypt k v m \<noteq> Some []"
    using demo_encrypt_ok(1) [of k v m "[]"] by fastforce
  then show ?thesis
    by (auto simp: OS_AES_Str_encrypt_def encrypt_AES_def demo_lib_def demo_encrypt_def Let_def)
qed

lemma demo_send_ne: "fst demo_send \<noteq> 0"
proof -
  let ?st = "bump_counter (ReloadSenderCounter demo_state)"
  have h: "header_ok 7 (local_count ?st)"
    using bump_local [of "ReloadSenderCounter demo_state"] by (simp add: header_ok_def)
  have "length (secmsg_body demo_lib 7 (global_count ?st) (local_count ?st) ''hello'') = 58"
    using length_body [OF demo_ok h] by simp
  then obtain c where c: "compress2 demo_lib (secmsg_body demo_lib 7 (global_count ?st) (local_count ?st) ''hello'') (OS_MAXSTR - 12) = Some c"
    "c \<noteq> []"
    using demo_compresses [of "secmsg_body demo_lib 7 (global_count ?st) (local_count ?st) ''hello''" "OS_MAXSTR - 12"]
    by (auto simp: OS_MAXSTR_def)
  obtain x where x: "OS_AES_Str_encrypt demo_lib (Some (replicate 16 NUL)) (padded c) ''secret'' = Some x"
    using demo_encrypts by blast
  have z: "os_zlib_compress demo_lib (OS_MD5_Bytes (md5_stack demo_lib) (secmsg_header 7 (global_count ?st) (local_count ?st) @ ''hello'')
      @ secmsg_header 7 (global_count ?st) (local_count ?st) @ ''hello'') (OS_MAXSTR - 12) = (length c, c @ [NUL])"
    using c by (simp add: os_zlib_compress_def secmsg_body_def secmsg_text_def)
  have e: "keyentries demo_state ! 0 = demo_entry" "ke_crypto_method demo_entry = W_METH_AES" "ke_key demo_entry = ''secret''"
    by (simp_all add: demo_state_def demo_entry_def)
  have "\<not> (length ''hello'' > OS_MAXSTR - OS_HEADER_SIZE \<or> length ''hello'' < 1)"
    by (simp add: OS_MAXSTR_def OS_HEADER_SIZE_def)
  moreover have "take (length c) (c @ [NUL]) = c" "length c \<noteq> 0" "length (padded c) > 0"
    using c by (simp_all add: padded_def)
  ultimately show ?thesis
    unfolding demo_send_def CreateSecMSG_def Let_def e option.case z prod.case
    using x by (simp add: less_max_iff_disj split: prod.split)
qed

text \<open>
  The witnesses of the two properties: the message just made, and the same message read back by a
  manager that has never heard of the agent before.
\<close>

theorem CreateSecMSG_fits_witness: "fst demo_send < OS_MAXSTR"
proof -
  obtain n out st' where d: "demo_send = (n, out, st')" by (cases demo_send)
  show ?thesis
    using CreateSecMSG_fits [OF demo_ok d [unfolded demo_send_def]] unfolding d
    by (simp add: agent_prefix_def demo_state_def demo_entry_def isSingleHost_def)
qed

definition demo_received :: "(sec_error + (string \<times> nat)) \<times> secmsg_state \<times> frame" where
  "demo_received = ReadSecMSG demo_lib False 0 (take (fst demo_send) (fst (snd demo_send))) 6145 (replicate 6145 NUL)
     (fst demo_send - 1) demo_state"

theorem secmsg_roundtrip_witness: "\<exists>rest. fst demo_received = Inr (''hello'' @ NUL # rest, 5)"
proof -
  obtain n out st' where d: "demo_send = (n, out, st')" by (cases demo_send)
  have n: "n \<noteq> 0"
    using demo_send_ne unfolding d by simp
  have p: "agent_prefix True demo_entry = []"
    by (simp add: agent_prefix_def demo_entry_def isSingleHost_def)
  have st: "counter_stable demo_state 0"
    by (simp add: counter_stable_def demo_state_def demo_entry_def no_rids_def File_Inode_def)
  have "st' = sender_step demo_state"
    using CreateSecMSG_sent [OF d [unfolded demo_send_def] n demo_ok] p by (fastforce simp: demo_state_def)
  then have "newer (global_count st') (local_count st') demo_entry"
    by (simp add: newer_def sender_step_def demo_state_def demo_entry_def Let_def bump_counter_def ReloadSenderCounter_def
        fopen_rids_def fopen_update_def fopen_write_def no_rids_def scan_counter_def scan_u_def)
  then show ?thesis
    using secmsg_roundtrip [OF demo_ok d [unfolded demo_send_def] n, of demo_entry demo_entry demo_state 0 False "take n out" "[]" 6145 "replicate 6145 NUL"]
      p st unfolding demo_received_def d
    by (auto simp: OS_MAXSTR_def demo_state_def)
qed

end
