(* ===== verification/Keys.thy ===== *)
theory Keys
  imports Sec_Msgs
begin

text \<open>
  \<^verbatim>\<open>os_crypto/shared/keys.c\<close>: the agent keys of \<^verbatim>\<open>client.keys\<close>, their derivation, the look-up of an
  agent by address, name or number, and the reload of the key file, which keeps the counters by
  writing them out first. The file is its text; \<open>exit\<close> of the process is a value of \<open>key_exit\<close>.
\<close>

section \<open>Reading the file\<close>

datatype key_exit = INVALID_IP string | AG_MAX_ERROR | NO_CLIENT_KEYS | KEYS_MEM_ERROR | COUNTER_ERROR start_error

definition KEYSIZE :: nat where
  "KEYSIZE = 128"

definition OS_BUFFER_SIZE :: nat where
  "OS_BUFFER_SIZE = 2048"

text \<open>A line is a comment or empty of a key, is malformed, is the tombstone of a removed agent, or has
  the four fields. \<open>strncpy\<close> keeps \<open>KEYSIZE - 1\<close> bytes of a field.\<close>

datatype key_line = Skipped | Invalid_Line | Removed | Key_Line string string string string

definition key_field :: "string \<Rightarrow> string" where
  "key_field s = take (KEYSIZE - 1) s"

definition until :: "char \<Rightarrow> string \<Rightarrow> string" where
  "until c s = takeWhile (\<lambda>x. x \<noteq> c) s"

definition parse_key_line :: "string \<Rightarrow> key_line" where
  "parse_key_line line =
     (let buffer = until NUL line in
      if deref buffer = CHR ''#'' \<or> deref buffer = CHR '' '' then Skipped
      else (case strchr buffer (CHR '' '') of
        None \<Rightarrow> Invalid_Line
      | Some t1 \<Rightarrow>
          if deref (tl t1) = CHR ''#'' then Removed
          else (case strchr (tl t1) (CHR '' '') of
            None \<Rightarrow> Invalid_Line
          | Some t2 \<Rightarrow>
              (case strchr (tl t2) (CHR '' '') of
                 None \<Rightarrow> Invalid_Line
               | Some t3 \<Rightarrow>
                   Key_Line (key_field (until (CHR '' '') buffer)) (key_field (until (CHR '' '') (tl t1)))
                     (key_field (until (CHR '' '') (tl t2))) (key_field (until NL (tl t3)))))))"

section \<open>The entries\<close>

text \<open>The symmetric key of an agent: the digest of the shared secret and half of the digest of the
  digests of name and number.\<close>

definition final_key :: "crypto_lib \<Rightarrow> string \<Rightarrow> string \<Rightarrow> string \<Rightarrow> string" where
  "final_key lib name aid key =
     (let md5 = OS_MD5_Str (md5_stack lib);
          filesum1 = take 15 (md5 (take 126 (md5 name @ md5 aid)))
      in take 48 (md5 key @ filesum1))"

definition hash_add :: "nat OSHash option \<Rightarrow> string \<Rightarrow> nat \<Rightarrow> nat OSHash option" where
  "hash_add h k i = map_option (\<lambda>t. snd (OSHash_Add t k (Some i))) h"

definition chash ::
    "crypto_lib \<Rightarrow> pton \<Rightarrow> string \<Rightarrow> string \<Rightarrow> string \<Rightarrow> string \<Rightarrow> secmsg_state \<Rightarrow> key_exit + secmsg_state" where
  "chash lib p aid name ip key st =
     (let i = length (keyentries st); (ok, a) = OS_IsValidIP p (Some ip) zero_ip in
      if ok = 0 then Inl (INVALID_IP ip)
      else (let a' = a\<lparr>ip_text := until (CHR ''/'') (ip_text a)\<rparr>;
                e = \<lparr>ke_rcvd = 0, ke_local = 0, ke_keyid = i, ke_global = 0, ke_id = aid,
                     ke_key = final_key lib name aid key, ke_name = name, ke_ip = a', ke_fp = None,
                     ke_inode = 0, ke_crypto_method = W_METH_AES\<rparr>
            in Inr (st\<lparr>keyentries := keyentries st @ [e], keyhash_id := hash_add (keyhash_id st) aid i,
                       keyhash_ip := hash_add (keyhash_ip st) (ip_text a') i\<rparr>)))"

function read_keys_loop :: "crypto_lib \<Rightarrow> pton \<Rightarrow> nat \<Rightarrow> string \<Rightarrow> secmsg_state \<Rightarrow> key_exit + secmsg_state" where
  "read_keys_loop lib p max_agents text st =
     (if text = [] then Inr st
      else (let (line, rest) = fgets (OS_BUFFER_SIZE - 1) text in
        case parse_key_line line of
          Key_Line aid name ip key \<Rightarrow>
            (case chash lib p aid name ip key st of
               Inl e \<Rightarrow> Inl e
             | Inr st1 \<Rightarrow> if length (keyentries st1) \<ge> max_agents - 2 then Inl AG_MAX_ERROR
                          else read_keys_loop lib p max_agents rest st1)
        | _ \<Rightarrow> read_keys_loop lib p max_agents rest st))"
  by pat_completeness auto
termination read_keys_loop
  by (relation "measure (\<lambda>(lib, p, n, text, st). length text)")
    (auto simp: OS_BUFFER_SIZE_def dest: fgets_less)

declare read_keys_loop.simps [simp del]

text \<open>What \<open>OS_ReadKeys\<close> finds: the change time of the file (negative if there is none), its text if
  it can be opened, and the random bytes for the two hashes.\<close>

record key_file =
  kf_date :: int
  kf_text :: "string option"
  kf_secrets :: "(nat \<times> nat) option \<times> (nat \<times> nat) option"
  kf_max_agents :: nat
  kf_pass_empty :: bool

definition OS_ReadKeys :: "crypto_lib \<Rightarrow> pton \<Rightarrow> key_file \<Rightarrow> secmsg_state \<Rightarrow> key_exit + secmsg_state" where
  "OS_ReadKeys lib p kf st =
     (if kf_date kf < 0 then Inl NO_CLIENT_KEYS
      else (case kf_text kf of
        None \<Rightarrow> Inl NO_CLIENT_KEYS
      | Some text \<Rightarrow>
          (case (OSHash_Create (fst (kf_secrets kf)), OSHash_Create (snd (kf_secrets kf))) of
             (Some h1, Some h2) \<Rightarrow>
               (case read_keys_loop lib p (kf_max_agents kf) text
                       (st\<lparr>keyentries := [], keyhash_id := Some h1, keyhash_ip := Some h2,
                           file_change := kf_date kf, sender_fp := None, sender_inode := 0\<rparr>) of
                  Inl e \<Rightarrow> Inl e
                | Inr st1 \<Rightarrow> if keyentries st1 = [] \<and> \<not> kf_pass_empty kf then Inl NO_CLIENT_KEYS else Inr st1)
           | _ \<Rightarrow> Inl KEYS_MEM_ERROR)))"

section \<open>Look-up\<close>

definition hash_find :: "nat OSHash option \<Rightarrow> string \<Rightarrow> nat option" where
  "hash_find h k = (case h of None \<Rightarrow> None | Some t \<Rightarrow> OSHash_Get t k)"

text \<open>The functions return the position of an entry, -1 is \<^term>\<open>None\<close>.\<close>

definition OS_IsAllowedIP :: "secmsg_state \<Rightarrow> string option \<Rightarrow> nat option" where
  "OS_IsAllowedIP st srcip = (case srcip of None \<Rightarrow> None | Some s \<Rightarrow> hash_find (keyhash_ip st) s)"

definition OS_IsAllowedID :: "secmsg_state \<Rightarrow> string option \<Rightarrow> nat option" where
  "OS_IsAllowedID st aid = (case aid of None \<Rightarrow> None | Some s \<Rightarrow> hash_find (keyhash_id st) s)"

fun allowed_name_loop :: "nat \<Rightarrow> keyentry list \<Rightarrow> string \<Rightarrow> nat option" where
  "allowed_name_loop i [] name = None"
| "allowed_name_loop i (e # es) name =
     (if strcmp (ke_name e) name = 0 then Some i else allowed_name_loop (i + 1) es name)"

definition OS_IsAllowedName :: "secmsg_state \<Rightarrow> string \<Rightarrow> nat option" where
  "OS_IsAllowedName st name = allowed_name_loop 0 (keyentries st) name"

definition OS_IsAllowedDynamicID :: "pton \<Rightarrow> secmsg_state \<Rightarrow> string option \<Rightarrow> string \<Rightarrow> nat option" where
  "OS_IsAllowedDynamicID p st aid srcip =
     (case OS_IsAllowedID st aid of
        None \<Rightarrow> None
      | Some i \<Rightarrow> if OS_IPFound p srcip (ke_ip (keyentries st ! i)) then Some i else None)"

section \<open>Reloading\<close>

definition OS_FreeKeys :: "secmsg_state \<Rightarrow> secmsg_state" where
  "OS_FreeKeys st =
     (OS_CloseSenderCounter (OS_StoreAgentCounters st))
       \<lparr>keyhash_id := None, keyhash_ip := None, keyentries := []\<rparr>"

definition OS_CheckUpdateKeys :: "key_file \<Rightarrow> secmsg_state \<Rightarrow> bool" where
  "OS_CheckUpdateKeys kf st \<longleftrightarrow> file_change st \<noteq> kf_date kf"

text \<open>What is carried over to the entry with the same number and address.\<close>

definition restore_entry :: "keyentry \<Rightarrow> secmsg_state \<Rightarrow> secmsg_state" where
  "restore_entry s st =
     (case OS_IsAllowedID st (Some (ke_id s)) of
        None \<Rightarrow> st
      | Some i \<Rightarrow>
          if strcmp (ip_text (ke_ip (keyentries st ! i))) (ip_text (ke_ip s)) = 0
          then set_entry i (\<lambda>e. e\<lparr>ke_rcvd := ke_rcvd s, ke_crypto_method := ke_crypto_method s\<rparr>) st
          else st)"

definition OS_UpdateKeys ::
    "crypto_lib \<Rightarrow> pton \<Rightarrow> u32 \<Rightarrow> bool \<Rightarrow> key_file \<Rightarrow> secmsg_state \<Rightarrow> key_exit + (bool \<times> secmsg_state)" where
  "OS_UpdateKeys lib p flush verify kf st =
     (if file_change st = kf_date kf then Inr (False, st)
      else (case OS_ReadKeys lib p kf (OS_FreeKeys st) of
        Inl e \<Rightarrow> Inl e
      | Inr st1 \<Rightarrow>
          (case OS_StartCounter flush verify st1 of
             Inl e \<Rightarrow> Inl (COUNTER_ERROR e)
           | Inr st2 \<Rightarrow> Inr (True, fold restore_entry (keyentries st) st2))))"

section \<open>The look-up tables\<close>

fun first_pos :: "('a \<Rightarrow> bool) \<Rightarrow> 'a list \<Rightarrow> nat option" where
  "first_pos P [] = None"
| "first_pos P (x # xs) = (if P x then Some 0 else map_option Suc (first_pos P xs))"

lemma first_pos_None: "first_pos P xs = None \<longleftrightarrow> (\<forall>x\<in>set xs. \<not> P x)"
  by (induction xs) auto

lemma first_pos_Some: "first_pos P xs = Some i \<Longrightarrow> i < length xs \<and> P (xs ! i) \<and> (\<forall>j<i. \<not> P (xs ! j))"
proof (induction xs arbitrary: i)
  case (Cons x xs)
  show ?case
  proof (cases "P x")
    case False
    with Cons.prems obtain k where "i = Suc k" "first_pos P xs = Some k" by auto
    with Cons.IH [of k] False show ?thesis by (auto simp: less_Suc_eq_0_disj)
  qed (use Cons.prems in auto)
qed simp

lemma first_pos_snoc:
  "first_pos P (xs @ [x]) = (case first_pos P xs of Some i \<Rightarrow> Some i | None \<Rightarrow> if P x then Some (length xs) else None)"
  by (induction xs) (auto split: option.splits)

definition table_ok :: "nat OSHash option \<Rightarrow> (keyentry \<Rightarrow> string) \<Rightarrow> keyentry list \<Rightarrow> bool" where
  "table_ok h f es \<longleftrightarrow>
     (\<exists>t. h = Some t \<and> hash_ok t \<and> (\<forall>k. hash_map t k = map_option Some (first_pos (\<lambda>e. f e = k) es)))"

definition keys_ok :: "secmsg_state \<Rightarrow> bool" where
  "keys_ok st \<longleftrightarrow>
     table_ok (keyhash_id st) ke_id (keyentries st)
   \<and> table_ok (keyhash_ip st) (\<lambda>e. ip_text (ke_ip e)) (keyentries st)
   \<and> (\<forall>i<length (keyentries st). ke_keyid (keyentries st ! i) = i \<and> length (ke_id (keyentries st ! i)) < KEYSIZE)"

lemma table_ok_find:
  "table_ok h f es \<Longrightarrow> c_string k \<Longrightarrow> hash_find h k = first_pos (\<lambda>e. f e = k) es"
  by (cases "first_pos (\<lambda>e. f e = k) es") (auto simp: table_ok_def hash_find_def OSHash_Get_lookup)

lemma table_ok_add:
  assumes "table_ok h f es" "c_string (f e)"
  shows "table_ok (hash_add h (f e) (length es)) f (es @ [e])"
proof -
  obtain t where t: "h = Some t" "hash_ok t" "\<forall>k. hash_map t k = map_option Some (first_pos (\<lambda>e. f e = k) es)"
    using assms(1) by (auto simp: table_ok_def)
  obtain c t' where a: "OSHash_Add t (f e) (Some (length es)) = (c, t')" by force
  show ?thesis
  proof (cases "first_pos (\<lambda>x. f x = f e) es")
    case None
    then have "hash_map t (f e) = None"
      using t(3) by simp
    from OSHash_Add_fresh [OF t(2) assms(2) this a] show ?thesis
      using t None by (auto simp: table_ok_def hash_add_def a first_pos_snoc split: option.splits)
  next
    case (Some i)
    then have "hash_map t (f e) \<noteq> None"
      using t(3) by simp
    from OSHash_Add_bound [OF t(2) assms(2) this] show ?thesis
      using t Some by (auto simp: table_ok_def hash_add_def first_pos_snoc split: option.splits)
  qed
qed

lemma c_string_until_NUL: "c_string (until NUL s)"
  by (auto simp: c_string_def until_def dest: set_takeWhileD)

lemma c_string_until [simp]: "c_string s \<Longrightarrow> c_string (until c s)"
  by (auto simp: c_string_def until_def dest: set_takeWhileD)

lemma c_string_key_field [simp]: "c_string s \<Longrightarrow> c_string (key_field s)"
  by (simp add: key_field_def)

lemma length_key_field: "length (key_field s) < KEYSIZE"
  by (simp add: key_field_def KEYSIZE_def)

lemma c_string_strchr: "c_string s \<Longrightarrow> strchr s c = Some t \<Longrightarrow> c_string (tl t)"
  by (auto simp: strchr_Some)

lemma parse_key_line_fields:
  "parse_key_line line = Key_Line aid name ip key \<Longrightarrow>
     c_string aid \<and> c_string ip \<and> length aid < KEYSIZE"
  using c_string_until_NUL [of line]
  by (auto simp: parse_key_line_def Let_def length_key_field split: if_splits option.splits
      intro!: c_string_key_field c_string_until dest: c_string_strchr)

lemma OS_IsValidIP_text: "OS_IsValidIP p (Some ip) zero_ip = (ok, a) \<Longrightarrow> ip_text a = ip"
  by (auto simp: OS_IsValidIP_def Let_def split: if_splits option.splits sockaddr.splits)

lemma chash_keys_ok:
  assumes "keys_ok st" "c_string aid" "c_string ip" "length aid < KEYSIZE" "chash lib p aid name ip key st = Inr st'"
  shows "keys_ok st'"
proof -
  obtain ok a where a: "OS_IsValidIP p (Some ip) zero_ip = (ok, a)" by force
  let ?a = "a\<lparr>ip_text := until (CHR ''/'') (ip_text a)\<rparr>"
  let ?e = "\<lparr>ke_rcvd = 0, ke_local = 0, ke_keyid = length (keyentries st), ke_global = 0, ke_id = aid,
     ke_key = final_key lib name aid key, ke_name = name, ke_ip = ?a, ke_fp = None,
     ke_inode = 0, ke_crypto_method = W_METH_AES\<rparr>"
  have st': "st' = st\<lparr>keyentries := keyentries st @ [?e], keyhash_id := hash_add (keyhash_id st) aid (length (keyentries st)),
      keyhash_ip := hash_add (keyhash_ip st) (ip_text ?a) (length (keyentries st))\<rparr>"
    using assms(5) a by (auto simp: chash_def Let_def split: if_splits)
  show ?thesis
    using assms table_ok_add [of "keyhash_id st" ke_id "keyentries st" ?e]
      table_ok_add [of "keyhash_ip st" "\<lambda>e. ip_text (ke_ip e)" "keyentries st" ?e] OS_IsValidIP_text [OF a]
    by (auto simp: keys_ok_def st' nth_append less_Suc_eq)
qed

lemma read_keys_loop_ok:
  "keys_ok st \<Longrightarrow> read_keys_loop lib p n input st = Inr st' \<Longrightarrow> keys_ok st'"
proof (induction lib p n input st rule: read_keys_loop.induct)
  case (1 lib p n input st)
  show ?case
  proof (cases "input = []")
    case False
    obtain line rest where f: "fgets (OS_BUFFER_SIZE - 1) input = (line, rest)" by force
    show ?thesis
    proof (cases "parse_key_line line")
      case (Key_Line aid name ip key)
      then obtain st1 where c: "chash lib p aid name ip key st = Inr st1"
          and r: "read_keys_loop lib p n rest st1 = Inr st'" "\<not> length (keyentries st1) \<ge> n - 2"
        using "1.prems"(2) False f
        by (auto simp: read_keys_loop.simps [of lib p n input st] split: sum.splits if_splits)
      have "keys_ok st1"
        using chash_keys_ok [OF "1.prems"(1) _ _ _ c] parse_key_line_fields [OF Key_Line] by blast
      with 1(4) [OF False f [symmetric] refl Key_Line c r(2)] r(1) show ?thesis by simp
    qed (use 1 False f in \<open>auto simp: read_keys_loop.simps [of lib p n input st]\<close>)
  qed (use "1.prems" in \<open>simp add: read_keys_loop.simps\<close>)
qed

lemma OS_ReadKeys_ok:
  assumes "OS_ReadKeys lib p kf st = Inr st'"
  shows "keys_ok st'"
proof -
  obtain input h1 h2 where h: "OSHash_Create (fst (kf_secrets kf)) = Some h1" "OSHash_Create (snd (kf_secrets kf)) = Some h2"
    and r: "read_keys_loop lib p (kf_max_agents kf) input
       (st\<lparr>keyentries := [], keyhash_id := Some h1, keyhash_ip := Some h2,
           file_change := kf_date kf, sender_fp := None, sender_inode := 0\<rparr>) = Inr st'"
    using assms by (auto simp: OS_ReadKeys_def split: if_splits option.splits sum.splits)
  show ?thesis
    by (rule read_keys_loop_ok [OF _ r])
      (use OSHash_Create_ok [OF h(1)] OSHash_Create_ok [OF h(2)] in \<open>auto simp: keys_ok_def table_ok_def\<close>)
qed
end
