(* ===== verification/Replay.thy ===== *)
theory Replay
  imports Sec_Channel Keys
begin

text \<open>
  What the manager's side of the secure messages rests on: only frames that decrypt to something
  with a matching digest have any effect, and the counters of an agent never go back, over any
  sequence of received datagrams, messages sent and reloads of the key file.
\<close>

section \<open>Only authenticated frames have an effect\<close>

definition digest_ok :: "string \<Rightarrow> bool" where
  "digest_ok w \<longleftrightarrow> 32 < length w \<and> take 32 w = md5_hex (md5_spec (drop 32 w))"

lemma takeWhile_full: "length (takeWhile P s) = length s \<Longrightarrow> takeWhile P s = s"
  by (metis append_Nil2 append_eq_append_conv takeWhile_dropWhile_id)

lemma CheckSum_Some:
  assumes lib: "crypto_ok lib" and c: "CheckSum lib msg n = Some m" and n: "n \<le> length msg" "n < 2 ^ 32"
  shows "digest_ok (take n msg) \<and> m = drop 32 msg"
proof -
  let ?r = "takeWhile (\<lambda>c. c \<noteq> NUL) (take 32 msg)" and ?t = "take (n - 32) (drop 32 msg)"
  have 32: "32 < n" and m: "m = drop 32 msg" and z: "strncmp (OS_MD5_Bytes (md5_stack lib) ?t) ?r 32 = 0"
    using c by (auto simp: CheckSum_def Let_def split: if_splits)
  have md: "OS_MD5_Bytes (md5_stack lib) ?t = md5_hex (md5_spec ?t)"
    using n by (intro md5_of_lib [OF lib]) simp
  have r: "c_string ?r" "length ?r \<le> 32"
    using length_takeWhile_le [of "\<lambda>c. c \<noteq> NUL" "take 32 msg"] by (auto simp: c_string_def dest: set_takeWhileD)
  have "take 32 (md5_hex (md5_spec ?t)) = take 32 ?r"
    using z r(1) by (simp add: md strncmp_eq_0)
  then have eq: "md5_hex (md5_spec ?t) = ?r"
    using r(2) by simp
  then have "length ?r = 32"
    by (metis length_md5_hex length_md5_spec mult_2 numeral_Bit0)
  then have "?r = take 32 msg"
    using 32 n(1) by (intro takeWhile_full) simp
  then have "take 32 msg = md5_hex (md5_spec ?t)"
    using eq by metis
  then show ?thesis
    using m 32 n(1) by (simp add: digest_ok_def drop_take min_def)
qed

text \<open>The frame decrypts under the agent's key and carries a matching digest, in the compressed
  or in the old format.\<close>

definition authenticated :: "crypto_lib \<Rightarrow> keyentry \<Rightarrow> string \<Rightarrow> string \<Rightarrow> nat \<Rightarrow> frame \<Rightarrow> bool" where
  "authenticated lib e buffer cleartext n fr \<longleftrightarrow>
     (\<exists>b clear1. suffix b buffer
        \<and> decrypt_body lib (fr_method fr) (ke_key e) b n (cleartext[0 := NUL]) = (True, clear1)
        \<and> fr_clear fr = clear1[n := NUL]
        \<and> ((\<exists>src k w. uncompress lib src k = (True, w) \<and> digest_ok w \<and> sublist src (fr_clear fr))
           \<or> digest_ok (take n (drop 1 (fr_clear fr)))))"

lemma open_compressed_auth:
  assumes lib: "crypto_ok lib" and o: "open_compressed lib buffer lim clear n = (Inr x, b)" and m: "lim < 2 ^ 32"
  shows "\<exists>src k w. uncompress lib src k = (True, w) \<and> digest_ok w \<and> sublist src clear"
proof -
  let ?p = "length (takeWhile (\<lambda>c. c = CHR ''!'') clear)"
  let ?src = "take (n - ?p) (drop ?p clear)"
  obtain ok w where u: "uncompress lib ?src (lim - 1) = (ok, w)" by force
  have ok: "ok" "\<not> lim < 1" "length w \<noteq> 0"
    using o u by (auto simp: open_compressed_def os_zlib_uncompress_def Let_def split: if_splits)
  let ?b = "poke buffer 0 (w @ [NUL])"
  obtain m where c: "CheckSum lib ?b (length w) = Some m"
    using o u ok by (auto simp: open_compressed_def os_zlib_uncompress_def Let_def split: if_splits option.splits)
  have "length w \<le> lim - 1"
    using lib u unfolding crypto_ok_def by blast
  then have "digest_ok (take (length w) ?b)"
    using CheckSum_Some [OF lib c] m by simp
  then have "digest_ok w" by simp
  moreover have "sublist ?src clear"
    by (metis sublist_take sublist_drop sublist_order.order_trans)
  moreover have "uncompress lib ?src (lim - 1) = (True, w)"
    using u ok(1) by simp
  ultimately show ?thesis by blast
qed

lemma length_decrypt_body:
  assumes "crypto_ok lib" "decrypt_body lib m k b n clear = (ok, clear1)" "n < length clear"
  shows "length clear \<le> length clear1"
  using assms(2) by (auto simp: decrypt_body_def split: crypt_method.splits prod.splits)

lemma open_body_auth:
  assumes lib: "crypto_ok lib" and o: "fr_opened (open_body lib m (ke_key e) pre b2 max2 cleartext n) = Inr x"
    and m: "max2 < 2 ^ 32" and c: "length cleartext = OS_MAXSTR + 1" and suf: "suffix b2 buffer"
  shows "authenticated lib e buffer cleartext n (open_body lib m (ke_key e) pre b2 max2 cleartext n)"
proof -
  let ?fr = "open_body lib m (ke_key e) pre b2 max2 cleartext n" and ?clear0 = "cleartext[0 := NUL]"
  obtain ok clear1 where d: "decrypt_body lib m (ke_key e) b2 n ?clear0 = (ok, clear1)" by force
  have n: "n \<le> OS_MAXSTR" and ok: "ok"
    and cases: "fr_clear ?fr = clear1[n := NUL] \<and> fr_method ?fr = m \<and>
       ((\<exists>b. open_compressed lib b2 max2 (clear1[n := NUL]) n = (Inr x, b)) \<or> open_old lib (clear1[n := NUL]) n = Inr x)"
    using o d unfolding open_body_def Let_def by (auto split: if_splits prod.splits)
  have auth: "authenticated lib e buffer cleartext n ?fr"
    if "(\<exists>src k w. uncompress lib src k = (True, w) \<and> digest_ok w \<and> sublist src (fr_clear ?fr))
          \<or> digest_ok (take n (drop 1 (fr_clear ?fr)))"
    unfolding authenticated_def using that d ok cases suf by (intro exI [of _ b2] exI [of _ clear1]) simp
  from cases consider b where "open_compressed lib b2 max2 (clear1[n := NUL]) n = (Inr x, b)"
    | w where "CheckSum lib (drop 1 (clear1[n := NUL])) n = Some w"
    by (auto simp: open_old_def split: option.splits)
  then show ?thesis
  proof cases
    case 1
    from open_compressed_auth [OF lib this m] show ?thesis
      using cases by (intro auth) simp
  next
    case 2
    have "length ?clear0 \<le> length clear1"
      by (rule length_decrypt_body [OF lib d]) (use c n in simp)
    then show ?thesis
      using CheckSum_Some [OF lib 2] c n cases by (intro auth) (simp add: OS_MAXSTR_def)
  qed
qed

lemma open_frame_auth:
  assumes lib: "crypto_ok lib" and o: "fr_opened (open_frame lib client e buffer buffer_max cleartext n) = Inr x"
    and m: "buffer_max < 2 ^ 32" and c: "length cleartext = OS_MAXSTR + 1"
  shows "authenticated lib e buffer cleartext n (open_frame lib client e buffer buffer_max cleartext n)"
proof -
  define k where "k = (if take 4 buffer = ''#AES'' then 4 else 0 :: nat)"
  obtain md where fr: "open_frame lib client e buffer buffer_max cleartext n
      = open_body lib md (ke_key e) (take (k + 1) buffer) (drop (k + 1) buffer) (buffer_max - k - 1) cleartext n"
    using o unfolding open_frame_def Let_def k_def [symmetric] by (auto split: if_splits)
  have "buffer_max - k - 1 < 2 ^ 32"
    using m by simp
  then show ?thesis
    using open_body_auth [OF lib o [unfolded fr] _ c suffix_drop] unfolding fr by blast
qed


lemma digits_val_NUL: "set s \<subseteq> {NUL} \<Longrightarrow> digits_val 0 s = 0"
  by (cases s) (auto simp: c_isdigit_def)

lemma noise_not_authenticated:
  assumes "set (fr_clear fr) \<subseteq> {NUL}"
  shows "\<not> authenticated demo_lib e buffer cleartext n fr"
proof -
  have "w = []" if u: "uncompress demo_lib src k = (True, w)" and s: "sublist src (fr_clear fr)" for src k w
  proof -
    have "set (take 8 (drop 1 src)) \<subseteq> {NUL}"
      using set_mono_sublist [OF s] assms by (auto dest!: in_set_takeD in_set_dropD)
    then show ?thesis
      using u digits_val_NUL [of "take 8 (drop 1 src)"]
      by (auto simp: demo_lib_def demo_uncompress_def Let_def split: if_splits)
  qed
  moreover have "\<not> digest_ok (take n (drop 1 (fr_clear fr)))"
  proof
    let ?w = "take n (drop 1 (fr_clear fr))"
    assume d: "digest_ok ?w"
    have "set (take 32 ?w) \<subseteq> {NUL}"
      using assms by (auto dest!: in_set_takeD in_set_dropD)
    moreover have "c_string (take 32 ?w)" "take 32 ?w \<noteq> []"
      using d by (auto simp: digest_ok_def)
    ultimately show False
      by (cases "take 32 ?w") (auto simp: c_string_def)
  qed
  moreover have "\<not> digest_ok []"
    by (simp add: digest_ok_def)
  ultimately show ?thesis
    unfolding authenticated_def by blast
qed



section \<open>What the counter files hold\<close>

definition cnt :: "u32 \<times> u32 \<Rightarrow> nat" where
  "cnt c = unat (fst c) * 2 ^ 32 + unat (snd c)"

lemma newer_cnt: "newer g l e \<longleftrightarrow> cnt (ke_global e, ke_local e) < cnt (g, l)"
proof -
  have "unat x < 2 ^ 32" for x :: u32
    using unsigned_less [of x] by simp
  from this [of l] this [of "ke_local e"] show ?thesis
    unfolding newer_def cnt_def word_less_nat_alt word_unat_eq_iff fst_conv snd_conv
    by (auto simp: algebra_simps; linarith)
qed

definition file_pair :: "rids_fs \<Rightarrow> string \<Rightarrow> u32 \<times> u32" where
  "file_pair fs name =
     (case dir fs (rids_file name) of
        None \<Rightarrow> (0, 0)
      | Some i \<Rightarrow> (case scan_counter (data fs i) of Some c \<Rightarrow> c | None \<Rightarrow> (0, 0)))"

lemma scan_counter_Nil [simp]: "scan_counter [] = None"
  by (simp add: scan_counter_def scan_u_def)

lemma fopen_rids_pair:
  assumes "fs_ok fs" "fopen_rids fs f = (r, fs')"
  shows "file_pair fs' name = file_pair fs name"
proof (cases "dir fs (rids_file name)")
  case None
  then show ?thesis
    using assms(2)
    by (auto simp: file_pair_def fopen_rids_def fopen_update_def fopen_write_def split: if_splits option.splits)
next
  case (Some i)
  from fopen_rids_data [OF assms Some] show ?thesis
    by (simp add: file_pair_def Some)
qed

lemma rids_file_inj:
  assumes "length x < KEYSIZE" "length y < KEYSIZE" "rids_file x = rids_file y"
  shows "x = y"
proof -
  have "rids_file z = ''/queue/rids/'' @ z" if "length z < KEYSIZE" for z
    using that by (simp add: rids_file_def OS_FLSIZE_def KEYSIZE_def)
  with assms show ?thesis by simp
qed

lemma sender_short: "length SENDER_COUNTER < KEYSIZE"
  by (simp add: SENDER_COUNTER_def KEYSIZE_def)

lemma file_pair_write:
  assumes "fs_ok fs" "dir fs (rids_file x) = Some i" "length x < KEYSIZE" "length y < KEYSIZE"
  shows "file_pair (write_counter i g l fs) y = (if y = x then (g, l) else file_pair fs y)"
proof (cases "y = x")
  case False
  then have "rids_file y \<noteq> rids_file x"
    using rids_file_inj assms(3,4) by blast
  then have "dir fs (rids_file y) \<noteq> Some i"
    using fs_ok_inj [OF assms(1,2)] by metis
  with False show ?thesis
    by (auto simp: file_pair_def split: option.splits)
qed (simp add: file_pair_def assms(2))

section \<open>The state between two events\<close>

definition entry_ok :: "rids_fs \<Rightarrow> keyentry \<Rightarrow> bool" where
  "entry_ok fs e \<longleftrightarrow> length (ke_id e) < KEYSIZE \<and> ke_id e \<noteq> SENDER_COUNTER
     \<and> (\<exists>i. ke_fp e = Some i \<and> dir fs (rids_file (ke_id e)) = Some i \<and> ke_inode e = i)"

definition safe :: "secmsg_state \<Rightarrow> bool" where
  "safe st \<longleftrightarrow> fs_ok (rids st) \<and> (\<forall>f. can_open (rids st) f) \<and> verify_counter st
     \<and> distinct (map ke_id (keyentries st)) \<and> (\<forall>e\<in>set (keyentries st). entry_ok (rids st) e)
     \<and> (\<forall>j. sender_fp st = Some j \<longrightarrow> dir (rids st) (rids_file SENDER_COUNTER) = Some j)"

text \<open>The last counters of an agent: in its entry, or in its file when it has none.\<close>

definition counter_of :: "secmsg_state \<Rightarrow> string \<Rightarrow> nat" where
  "counter_of st name =
     (case find (\<lambda>e. ke_id e = name) (keyentries st) of
        Some e \<Rightarrow> cnt (ke_global e, ke_local e)
      | None \<Rightarrow> cnt (file_pair (rids st) name))"

lemma find_distinct:
  "distinct (map f es) \<Longrightarrow> i < length es \<Longrightarrow> find (\<lambda>e. f e = f (es ! i)) es = Some (es ! i)"
proof (induction es arbitrary: i)
  case (Cons e es)
  show ?case
  proof (cases i)
    case (Suc j)
    then have "f e \<noteq> f (es ! j)"
      using Cons.prems by (auto dest: nth_mem)
    then show ?thesis
      using Cons Suc by simp
  qed simp
qed simp

lemma counter_of_entry:
  "safe st \<Longrightarrow> i < length (keyentries st) \<Longrightarrow>
     counter_of st (ke_id (keyentries st ! i)) = cnt (ke_global (keyentries st ! i), ke_local (keyentries st ! i))"
  by (simp add: counter_of_def safe_def find_distinct)

lemma safe_stable: "safe st \<Longrightarrow> i < length (keyentries st) \<Longrightarrow> counter_stable st i"
  by (auto simp: safe_def entry_ok_def counter_stable_def File_Inode_def dest!: nth_mem split: option.splits)


lemma find_update_other: "\<not> P (es ! i) \<Longrightarrow> \<not> P x \<Longrightarrow> find P (es[i := x]) = find P es"
proof (induction es arbitrary: i)
  case (Cons e es)
  then show ?case by (cases i) auto
qed simp

text \<open>Changes of an entry that leave its number and its file.\<close>

definition keeps_file :: "(keyentry \<Rightarrow> keyentry) \<Rightarrow> bool" where
  "keeps_file f \<longleftrightarrow> (\<forall>e. ke_id (f e) = ke_id e \<and> ke_fp (f e) = ke_fp e \<and> ke_inode (f e) = ke_inode e)"

lemma map_id_update: "keeps_file f \<Longrightarrow> map ke_id (es[i := f (es ! i)]) = map ke_id es"
  by (cases "i < length es") (simp_all add: keeps_file_def map_update list_update_same_conv list_update_beyond)

lemma safe_set_entry:
  assumes "keeps_file f" "safe st" "i < length (keyentries st)"
  shows "safe (set_entry i f st)"
proof -
  let ?es = "keyentries st"
  have "entry_ok (rids st) (f (?es ! i))"
    using assms nth_mem [OF assms(3)] by (simp add: safe_def entry_ok_def keeps_file_def)
  then have "\<forall>e\<in>set (?es[i := f (?es ! i)]). entry_ok (rids st) e"
    using assms(2) set_update_subset_insert [of ?es i "f (?es ! i)"] by (auto simp: safe_def)
  then show ?thesis
    using assms(2) map_id_update [OF assms(1), of ?es i] by (simp add: safe_def set_entry_def)
qed

lemma counter_of_set_entry:
  assumes "keeps_file f" "safe st" "i < length (keyentries st)"
  shows "counter_of (set_entry i f st) name =
    (if name = ke_id (keyentries st ! i) then cnt (ke_global (f (keyentries st ! i)), ke_local (f (keyentries st ! i)))
     else counter_of st name)"
proof (cases "name = ke_id (keyentries st ! i)")
  case True
  from counter_of_entry [OF safe_set_entry [OF assms], of i] show ?thesis
    using assms True by (simp add: set_entry_def keeps_file_def)
next
  case False
  then show ?thesis
    using assms(1) find_update_other [of "\<lambda>e. ke_id e = name" "keyentries st" i "f (keyentries st ! i)"]
    by (auto simp: counter_of_def set_entry_def keeps_file_def split: option.splits)
qed

lemma entry_ok_write [simp]: "entry_ok (write_counter j g l fs) e = entry_ok fs e"
  by (simp add: entry_ok_def)

lemma safe_write: "safe st \<Longrightarrow> safe (st\<lparr>rids := write_counter j g l (rids st)\<rparr>)"
  by (simp add: safe_def)

lemma safe_rcv_count [simp]: "safe (st\<lparr>rcv_count := n\<rparr>) = safe st" "counter_of (st\<lparr>rcv_count := n\<rparr>) name = counter_of st name"
  by (auto simp: safe_def counter_of_def split: option.splits)

text \<open>Writing the counter of an agent into its file changes the last counters of nobody else.\<close>

lemma counter_of_store:
  assumes "safe st" "i < length (keyentries st)" "length name < KEYSIZE"
  shows "counter_of (StoreCounter i g l st) name = counter_of st name" "safe (StoreCounter i g l st)"
proof -
  let ?e = "keyentries st ! i"
  obtain j where j: "ke_fp ?e = Some j" "dir (rids st) (rids_file (ke_id ?e)) = Some j" "length (ke_id ?e) < KEYSIZE"
    using assms(1,2) by (auto simp: safe_def entry_ok_def dest!: nth_mem)
  show "safe (StoreCounter i g l st)"
    using safe_write [OF assms(1)] by (simp add: StoreCounter_def j(1))
  show "counter_of (StoreCounter i g l st) name = counter_of st name"
  proof (cases "name = ke_id ?e")
    case True
    then show ?thesis
      using assms find_distinct [of ke_id "keyentries st" i] by (simp add: counter_of_def StoreCounter_def j(1) safe_def)
  next
    case False
    then show ?thesis
      using file_pair_write [of "rids st" "ke_id ?e" j name] assms j
      by (auto simp: counter_of_def StoreCounter_def safe_def split: option.splits)
  qed
qed

lemma flush_safe:
  assumes "safe st" "i < length (keyentries st)" "length name < KEYSIZE"
  shows "safe (flush_counter i g l st)" "counter_of (flush_counter i g l st) name = counter_of st name"
  using counter_of_store [OF assms] assms(1) by (simp_all add: flush_counter_def Let_def)

text \<open>The step of an accepted message: the entry holds the new counters, nobody else's change.\<close>

definition accepted_step :: "secmsg_state \<Rightarrow> secmsg_state \<Rightarrow> nat \<Rightarrow> u32 \<times> u32 \<Rightarrow> bool" where
  "accepted_step st st' i c \<longleftrightarrow> safe st' \<and> counter_of st (ke_id (keyentries st ! i)) < cnt c
     \<and> (\<forall>name. length name < KEYSIZE \<longrightarrow>
          counter_of st' name = (if name = ke_id (keyentries st ! i) then cnt c else counter_of st name))"

lemma accepted_set_entry:
  assumes "safe st" "i < length (keyentries st)" "keeps_file f"
    and "newer g l (keyentries st ! i)" "ke_global (f (keyentries st ! i)) = g" "ke_local (f (keyentries st ! i)) = l"
  shows "accepted_step st (set_entry i f st) i (g, l)"
  using assms safe_set_entry counter_of_set_entry by (simp add: accepted_step_def newer_cnt counter_of_entry)

lemma accepted_flush:
  assumes "accepted_step st st' i c" "i < length (keyentries st')"
  shows "accepted_step st (flush_counter i g l st') i c"
  using assms flush_safe [of st' i _ g l] flush_safe(1) [of st' i "[]" g l] by (simp add: accepted_step_def KEYSIZE_def)

lemma accept_compressed_step:
  assumes "safe st" "i < length (keyentries st)" "accept_compressed i m g l f n st = (r, st')"
  shows "(\<exists>err. r = Inl err) \<and> st' = st \<or> (\<exists>x. r = Inr x) \<and> accepted_step st st' i (g, l)"
proof -
  have v: "verify_counter st"
    using assms(1) by (simp add: safe_def)
  have "(if rcv_count st \<ge> recv_flush st then ReloadCounter i (ke_id (keyentries st ! i)) st else st) = st"
    using ReloadCounter_stable [OF safe_stable [OF assms(1,2)]] by simp
  note c = assms(3) [unfolded accept_compressed_def Let_def this]
  show ?thesis
  proof (cases "newer g l (keyentries st ! i)")
    case True
    have "accepted_step st (accept_entry i g l m st) i (g, l)"
      unfolding accept_entry_def by (rule accepted_set_entry [OF assms(1,2) _ True]) (simp_all add: keeps_file_def)
    from accepted_flush [OF this, of g l] show ?thesis
      using c v True assms(2) by (auto simp: accept_entry_def set_entry_def)
  next
    case False
    then show ?thesis
      using c v by (auto split: if_splits)
  qed
qed

lemma old_message_method: "\<exists>h. keeps_file h \<and> (\<forall>e. ke_global (h e) = ke_global e \<and> ke_local (h e) = ke_local e)
    \<and> snd (old_message i m f n st) = set_entry i h st"
proof (cases "snd (old_message i m f n st) = st")
  case True
  then show ?thesis
    by (intro exI [of _ "\<lambda>e. e"]) (simp add: keeps_file_def set_entry_def)
next
  case False
  then show ?thesis
    by (intro exI [of _ "\<lambda>e. e\<lparr>ke_crypto_method := m\<rparr>"]) (auto simp: keeps_file_def old_message_def Let_def)
qed

lemma set_entry_twice: "i < length (keyentries st) \<Longrightarrow> set_entry i h (set_entry i f st) = set_entry i (\<lambda>e. h (f e)) st"
  by (simp add: set_entry_def)

lemma accept_old_step:
  assumes "safe st" "i < length (keyentries st)" "accept_old i m t c f n st = (r, st')"
  shows "(\<exists>err. r = Inl err) \<and> st' = st \<or> accepted_step st st' i (t, c)"
proof (cases "newer t c (keyentries st ! i)")
  case True
  let ?f = "\<lambda>e. e\<lparr>ke_global := t, ke_local := c\<rparr>"
  have "st' = snd (old_message i m f n (set_entry i ?f st))"
    using assms(1,3) True by (simp add: accept_old_def safe_def)
  then obtain h where "keeps_file h" "\<forall>e. ke_global (h e) = ke_global e \<and> ke_local (h e) = ke_local e"
      "st' = set_entry i (\<lambda>e. h (?f e)) st"
    using old_message_method [of i m f n "set_entry i ?f st"] set_entry_twice [OF assms(2)] by metis
  then show ?thesis
    using accepted_set_entry [OF assms(1,2) _ True, of "\<lambda>e. h (?f e)"] by (auto simp: keeps_file_def)
next
  case False
  then show ?thesis
    using assms by (auto simp: accept_old_def safe_def Let_def split: if_splits)
qed


section \<open>The steps keep the counters\<close>

text \<open>The numbers of agents: \<open>sender_counter\<close> is the name of another file.\<close>

definition agent_name :: "string \<Rightarrow> bool" where
  "agent_name n \<longleftrightarrow> length n < KEYSIZE \<and> n \<noteq> SENDER_COUNTER"

definition keeps :: "secmsg_state \<Rightarrow> secmsg_state \<Rightarrow> bool" where
  "keeps st st' \<longleftrightarrow> safe st' \<and> (\<forall>n. agent_name n \<longrightarrow> counter_of st' n = counter_of st n)"

text \<open>The counters of the message in a frame.\<close>

definition frame_counter :: "frame \<Rightarrow> (u32 \<times> u32) option" where
  "frame_counter fr =
     (case fr_opened fr of
        Inr (Compressed g l _ _) \<Rightarrow> Some (g, l)
      | Inr (OldFormat t c _ _) \<Rightarrow> Some (t, c)
      | Inl _ \<Rightarrow> None)"

lemma ReadSecMSG_step:
  assumes "safe st" "i < length (keyentries st)" "ReadSecMSG lib client i buffer room cleartext n st = (r, st', fr)"
  shows "(\<exists>err. r = Inl err) \<and> st' = st \<or> (\<exists>c. frame_counter fr = Some c \<and> accepted_step st st' i c)"
proof (cases "fr_opened (open_frame lib client (keyentries st ! i) buffer room cleartext n)")
  case (Inl err)
  then show ?thesis
    using assms(3) by (auto simp: ReadSecMSG_def Let_def)
next
  case (Inr x)
  show ?thesis
  proof (cases x)
    case (Compressed g l f k)
    then show ?thesis
      using assms(3) Inr accept_compressed_step [OF assms(1,2)]
      by (fastforce simp: ReadSecMSG_def Let_def frame_counter_def split: prod.splits)
  next
    case (OldFormat t c f k)
    then show ?thesis
      using assms(3) Inr accept_old_step [OF assms(1,2)]
      by (fastforce simp: ReadSecMSG_def Let_def frame_counter_def split: prod.splits)
  qed
qed

lemma counter_of_rids:
  "keyentries st' = keyentries st \<Longrightarrow> file_pair (rids st') n = file_pair (rids st) n \<Longrightarrow> counter_of st' n = counter_of st n"
  by (auto simp: counter_of_def split: option.splits)

lemma entry_ok_opened:
  assumes "fs_ok fs" "fopen_rids fs f = (r, fs')" "entry_ok fs e"
  shows "entry_ok fs' e"
  using fopen_rids_data(2) [OF assms(1,2)] assms(3) by (auto simp: entry_ok_def)

lemma can_open_opened: "fopen_rids fs f = (r, fs') \<Longrightarrow> can_open fs' = can_open fs"
  by (auto simp: fopen_rids_def fopen_update_def fopen_write_def split: if_splits option.splits)

lemma ReloadSenderCounter_keeps:
  assumes s: "safe st"
  shows "keeps st (ReloadSenderCounter st)"
proof -
  obtain r fs where f: "fopen_rids (rids st) (rids_file SENDER_COUNTER) = (r, fs)" by force
  let ?st = "ReloadSenderCounter st"
  have st: "keyentries ?st = keyentries st \<and> verify_counter ?st = verify_counter st
     \<and> (?st = st \<or> rids ?st = fs \<and> sender_fp ?st = r)"
    using f by (auto simp: ReloadSenderCounter_def Let_def split: option.splits prod.splits)
  have ok: "fs_ok (rids st)" and e: "\<forall>e\<in>set (keyentries st). entry_ok fs e"
    using s entry_ok_opened [OF _ f] by (auto simp: safe_def)
  have "r = Some j \<Longrightarrow> dir fs (rids_file SENDER_COUNTER) = Some j" for j
    using fopen_rids_Some(1) f by auto
  then have "safe ?st"
    using st s e fopen_rids_ok [OF ok f] can_open_opened [OF f] by (auto simp: safe_def)
  moreover have "file_pair (rids ?st) n = file_pair (rids st) n" for n
    using st fopen_rids_pair [OF ok f] by auto
  ultimately show ?thesis
    using st by (auto simp: keeps_def intro!: counter_of_rids)
qed

lemma store_sender_keeps:
  assumes s: "safe st"
  shows "keeps st (store_sender_counter g l st)"
proof (cases "sender_fp st")
  case None
  then show ?thesis
    using s by (simp add: keeps_def store_sender_counter_def)
next
  case (Some j)
  then have j: "fs_ok (rids st)" "dir (rids st) (rids_file SENDER_COUNTER) = Some j"
    using s by (auto simp: safe_def)
  let ?st = "st\<lparr>rids := write_counter j g l (rids st)\<rparr>"
  have "counter_of ?st n = counter_of st n" if "agent_name n" for n
    using that by (intro counter_of_rids) (auto simp: agent_name_def file_pair_write [OF j sender_short])
  then show ?thesis
    using safe_write [OF s] Some by (simp add: keeps_def store_sender_counter_def)
qed

lemma bump_keeps: "safe st \<Longrightarrow> keeps st (bump_counter st)"
  by (auto simp: keeps_def bump_counter_def Let_def safe_def counter_of_def split: option.splits)

lemma keeps_trans: "keeps a b \<Longrightarrow> keeps b c \<Longrightarrow> keeps a c"
  by (simp add: keeps_def)

lemma keeps_refl: "safe st \<Longrightarrow> keeps st st"
  by (simp add: keeps_def)

lemma CreateSecMSG_keeps:
  assumes "safe st"
  shows "keeps st (snd (snd (CreateSecMSG lib client rand1 iv msg buf i st)))"
proof -
  let ?st1 = "bump_counter (ReloadSenderCounter st)"
  let ?st2 = "store_sender_counter (global_count ?st1) (local_count ?st1) ?st1"
  have r: "safe (ReloadSenderCounter st)"
    using ReloadSenderCounter_keeps [OF assms] by (simp add: keeps_def)
  then have b: "safe ?st1"
    using bump_keeps by (simp add: keeps_def)
  have "keeps st ?st2"
    using ReloadSenderCounter_keeps [OF assms] bump_keeps [OF r] store_sender_keeps [OF b] keeps_trans by blast
  moreover have "snd (snd (CreateSecMSG lib client rand1 iv msg buf i st)) \<in> {st, ?st2}"
    by (simp add: CreateSecMSG_def Let_def split: option.splits crypt_method.splits prod.splits)
  ultimately show ?thesis
    using keeps_refl [OF assms] by auto
qed


section \<open>Reloading the keys keeps the counters\<close>

text \<open>\<open>OS_StoreAgentCounters\<close> leaves every counter in its file.\<close>

lemma StoreCounter_entries [simp]: "keyentries (StoreCounter i g l st) = keyentries st"
  by (auto simp: StoreCounter_def split: option.splits)

lemma store_some:
  assumes "safe st" "xs = [0..<k]" "k \<le> length (keyentries st)"
    and st': "st' = fold (\<lambda>i s. StoreCounter i (ke_global (keyentries s ! i)) (ke_local (keyentries s ! i)) s) xs st"
  shows "keeps st st' \<and> keyentries st' = keyentries st
     \<and> (\<forall>n. agent_name n \<longrightarrow> n \<notin> ke_id ` set (drop k (keyentries st)) \<longrightarrow> cnt (file_pair (rids st') n) = counter_of st n)"
  using assms(2,3) st'
proof (induction k arbitrary: xs st')
  case 0
  have "find (\<lambda>e. ke_id e = n) (keyentries st) = None" if "n \<notin> ke_id ` set (keyentries st)" for n
    using that by (auto simp: find_None_iff)
  then show ?case
    using 0 keeps_refl [OF assms(1)] by (simp add: counter_of_def)
next
  case (Suc k)
  define st1 where "st1 = fold (\<lambda>i s. StoreCounter i (ke_global (keyentries s ! i)) (ke_local (keyentries s ! i)) s) [0..<k] st"
  let ?e = "keyentries st ! k"
  have k: "k < length (keyentries st)"
    using Suc.prems(2) by simp
  have IH: "keeps st st1" "keyentries st1 = keyentries st"
    "\<And>n. agent_name n \<Longrightarrow> n \<notin> ke_id ` set (drop k (keyentries st)) \<Longrightarrow> cnt (file_pair (rids st1) n) = counter_of st n"
    using Suc.IH [OF refl _ st1_def] k by simp_all
  have st': "st' = StoreCounter k (ke_global ?e) (ke_local ?e) st1"
    using Suc.prems(1,3) IH(2) by (simp add: st1_def)
  have s1: "safe st1"
    using IH(1) by (simp add: keeps_def)
  have "entry_ok (rids st1) ?e"
    using s1 IH(2) k by (simp add: safe_def)
  then obtain j where j: "ke_fp ?e = Some j" "dir (rids st1) (rids_file (ke_id ?e)) = Some j" "length (ke_id ?e) < KEYSIZE"
    by (auto simp: entry_ok_def)
  have store: "keeps st1 st'"
    using counter_of_store [OF s1, of k _ "ke_global ?e" "ke_local ?e"]
      counter_of_store(2) [OF s1, of k "[]" "ke_global ?e" "ke_local ?e"] k IH(2)
    by (simp add: st' keeps_def agent_name_def KEYSIZE_def)
  have d: "drop k (keyentries st) = ?e # drop (Suc k) (keyentries st)"
    using k by (rule Cons_nth_drop_Suc [symmetric])
  have fp: "fs_ok (rids st1)"
    using s1 by (simp add: safe_def)
  have "cnt (file_pair (rids st') n) = counter_of st n"
    if "agent_name n" "n \<notin> ke_id ` set (drop (Suc k) (keyentries st))" for n
    using that j IH k d counter_of_entry [OF assms(1) k]
    by (auto simp: st' StoreCounter_def file_pair_write [OF fp j(2,3)] agent_name_def)
  then show ?case
    using keeps_trans [OF IH(1) store] IH(2) by (simp add: st')
qed

lemma OS_FreeKeys_keeps:
  assumes "safe st"
  shows "keeps st (OS_FreeKeys st) \<and> keyentries (OS_FreeKeys st) = [] \<and> sender_fp (OS_FreeKeys st) = None"
proof -
  let ?st1 = "OS_StoreAgentCounters st"
  have a: "keeps st ?st1" "\<And>n. agent_name n \<Longrightarrow> cnt (file_pair (rids ?st1) n) = counter_of st n"
    using store_some [OF assms refl order_refl OS_StoreAgentCounters_def] by simp_all
  have "rids (OS_FreeKeys st) = rids ?st1" "keyentries (OS_FreeKeys st) = []" "sender_fp (OS_FreeKeys st) = None"
    "verify_counter (OS_FreeKeys st) = verify_counter ?st1"
    by (simp_all add: OS_FreeKeys_def OS_CloseSenderCounter_def)
  then show ?thesis
    using a by (simp add: keeps_def safe_def counter_of_def)
qed


text \<open>The numbers in a key file, as \<open>OS_ReadKeys\<close> reads them.\<close>

function key_lines :: "string \<Rightarrow> key_line list" where
  "key_lines input =
     (if input = [] then []
      else (let (line, rest) = fgets (OS_BUFFER_SIZE - 1) input in parse_key_line line # key_lines rest))"
  by pat_completeness auto
termination key_lines
  by (relation "measure length") (auto simp: OS_BUFFER_SIZE_def dest: fgets_less)

declare key_lines.simps [simp del]

fun line_ids :: "key_line list \<Rightarrow> string list" where
  "line_ids [] = []"
| "line_ids (Key_Line aid _ _ _ # ls) = aid # line_ids ls"
| "line_ids (_ # ls) = line_ids ls"

definition file_ids :: "string \<Rightarrow> string list" where
  "file_ids input = line_ids (key_lines input)"

lemma chash_entry:
  "chash lib p aid name ip key st = Inr st' \<Longrightarrow>
     map ke_id (keyentries st') = map ke_id (keyentries st) @ [aid]
     \<and> rids st' = rids st \<and> sender_fp st' = sender_fp st \<and> verify_counter st' = verify_counter st"
  by (auto simp: chash_def Let_def split: if_splits prod.splits)

lemma read_keys_loop_ids:
  "read_keys_loop lib p n input st = Inr st' \<Longrightarrow>
     map ke_id (keyentries st') = map ke_id (keyentries st) @ file_ids input
     \<and> rids st' = rids st \<and> sender_fp st' = sender_fp st \<and> verify_counter st' = verify_counter st"
proof (induction lib p n input st rule: read_keys_loop.induct)
  case (1 lib p n input st)
  show ?case
  proof (cases "input = []")
    case False
    obtain line rest where f: "fgets (OS_BUFFER_SIZE - 1) input = (line, rest)" by force
    have ids: "line_ids (key_lines input) = line_ids (parse_key_line line # key_lines rest)"
      using False f by (simp add: key_lines.simps [of input])
    show ?thesis
    proof (cases "parse_key_line line")
      case (Key_Line aid name ip key)
      then obtain st1 where c: "chash lib p aid name ip key st = Inr st1"
          and r: "read_keys_loop lib p n rest st1 = Inr st'" "\<not> length (keyentries st1) \<ge> n - 2"
        using "1.prems" False f
        by (auto simp: read_keys_loop.simps [of lib p n input st] split: sum.splits if_splits)
      with 1(4) [OF False f [symmetric] refl Key_Line c r(2) r(1)] chash_entry [OF c] show ?thesis
        by (simp add: ids Key_Line file_ids_def)
    qed (use 1 False f ids in \<open>auto simp: read_keys_loop.simps [of lib p n input st] file_ids_def\<close>)
  qed (use "1.prems" in \<open>simp add: read_keys_loop.simps file_ids_def key_lines.simps\<close>)
qed

lemma OS_ReadKeys_ids:
  assumes "OS_ReadKeys lib p kf st = Inr st'"
  shows "\<exists>input. kf_text kf = Some input \<and> map ke_id (keyentries st') = file_ids input
    \<and> rids st' = rids st \<and> sender_fp st' = None \<and> verify_counter st' = verify_counter st"
  using assms by (auto simp: OS_ReadKeys_def dest!: read_keys_loop_ids split: if_splits option.splits sum.splits)

lemma start_entry_ok:
  assumes "fs_ok fs" "agent_name (ke_id e)" "start_entry fs e = Inr (e', fs')"
  shows "fs_ok fs' \<and> can_open fs' = can_open fs \<and> (\<forall>n. file_pair fs' n = file_pair fs n)
    \<and> (\<forall>e. entry_ok fs e \<longrightarrow> entry_ok fs' e) \<and> ke_id e' = ke_id e
    \<and> entry_ok fs' e' \<and> (ke_global e', ke_local e') = file_pair fs (ke_id e)"
proof -
  let ?f = "rids_file (ke_id e)"
  obtain i where i: "fopen_rids fs ?f = (Some i, fs')"
      and e': "e' = e\<lparr>ke_fp := Some i, ke_global := fst (file_pair fs' (ke_id e)), ke_local := snd (file_pair fs' (ke_id e)),
                    ke_inode := File_Inode fs' ?f\<rparr>"
    using assms(3) fopen_rids_Some(1) [of fs ?f]
    by (auto simp: start_entry_def file_pair_def split: option.splits prod.splits)
  show ?thesis
    using fopen_rids_Some(1) [OF i] fopen_rids_ok [OF assms(1) i] can_open_opened [OF i] fopen_rids_pair [OF assms(1) i]
      entry_ok_opened [OF assms(1) i] assms(2)
    by (simp add: e' entry_ok_def agent_name_def File_Inode_def)
qed

lemma start_entries_ok:
  "fs_ok fs \<Longrightarrow> \<forall>e\<in>set es. agent_name (ke_id e) \<Longrightarrow> start_entries fs es = Inr (es', fs') \<Longrightarrow>
     fs_ok fs' \<and> can_open fs' = can_open fs \<and> (\<forall>n. file_pair fs' n = file_pair fs n)
     \<and> (\<forall>e. entry_ok fs e \<longrightarrow> entry_ok fs' e) \<and> map ke_id es' = map ke_id es
     \<and> (\<forall>e\<in>set es'. entry_ok fs' e \<and> (ke_global e, ke_local e) = file_pair fs (ke_id e))"
proof (induction es arbitrary: fs es' fs')
  case (Cons e es)
  obtain e1 fs1 es1 where s: "start_entry fs e = Inr (e1, fs1)" "start_entries fs1 es = Inr (es1, fs')" "es' = e1 # es1"
    using Cons.prems(3) by (auto split: sum.splits prod.splits)
  have 1: "agent_name (ke_id e)" "\<forall>e\<in>set es. agent_name (ke_id e)"
    using Cons.prems(2) by simp_all
  note a = start_entry_ok [OF Cons.prems(1) 1(1) s(1)]
  note b = Cons.IH [OF conjunct1 [OF a] 1(2) s(2)]
  show ?case
    using a b by (simp add: s(3))
qed simp

text \<open>What holds after reading the key file and before the counters are started.\<close>

definition counters_in_files :: "rids_fs \<Rightarrow> string list \<Rightarrow> bool" where
  "counters_in_files fs ids \<longleftrightarrow> fs_ok fs \<and> (\<forall>f. can_open fs f) \<and> distinct ids \<and> (\<forall>n\<in>set ids. agent_name n)"

lemma find_pair:
  assumes "\<forall>e\<in>set es. (ke_global e, ke_local e) = f (ke_id e)" "find (\<lambda>e. ke_id e = n) es = Some e"
  shows "(ke_global e, ke_local e) = f n"
  using assms by (auto simp: find_Some_iff)

lemma OS_StartCounter_counters:
  assumes "counters_in_files (rids st) (map ke_id (keyentries st))" "OS_StartCounter flush True st = Inr st'"
  shows "safe st' \<and> map ke_id (keyentries st') = map ke_id (keyentries st)
     \<and> (\<forall>n. agent_name n \<longrightarrow> counter_of st' n = cnt (file_pair (rids st) n))"
proof -
  obtain es fs1 i fs2 where s: "start_entries (rids st) (keyentries st) = Inr (es, fs1)"
      and f: "fopen_rids fs1 (rids_file SENDER_COUNTER) = (Some i, fs2)"
      and st': "keyentries st' = es" "rids st' = fs2" "verify_counter st'" "sender_fp st' = Some i"
    using assms(2) by (auto simp: OS_StartCounter_def Let_def split: sum.splits prod.splits option.splits)
  have 0: "fs_ok (rids st)" "\<forall>e\<in>set (keyentries st). agent_name (ke_id e)"
    using assms(1) by (auto simp: counters_in_files_def)
  note a = start_entries_ok [OF 0 s]
  have ok: "fs_ok fs1" using a by simp
  have p: "file_pair fs2 n = file_pair (rids st) n" for n
    using a fopen_rids_pair [OF ok f] by simp
  have es: "\<forall>e\<in>set es. entry_ok fs2 e"
    using a entry_ok_opened [OF ok f] by simp
  have "safe st'"
    using assms(1) a es fopen_rids_ok [OF ok f] can_open_opened [OF f] fopen_rids_Some(1) [OF f]
    by (simp add: safe_def st' counters_in_files_def)
  moreover have "counter_of st' n = cnt (file_pair (rids st) n)" for n
    using a find_pair [of es "file_pair (rids st)" n] by (auto simp: counter_of_def st' p split: option.splits)
  ultimately show ?thesis
    using a by (simp add: st')
qed

lemma restore_entry_keeps:
  assumes "safe st"
  shows "keeps st (restore_entry e st)"
proof (cases "\<exists>i. i < length (keyentries st) \<and> restore_entry e st = set_entry i (\<lambda>x. x\<lparr>ke_rcvd := ke_rcvd e, ke_crypto_method := ke_crypto_method e\<rparr>) st")
  case True
  then obtain i where i: "i < length (keyentries st)"
    "restore_entry e st = set_entry i (\<lambda>x. x\<lparr>ke_rcvd := ke_rcvd e, ke_crypto_method := ke_crypto_method e\<rparr>) st" by blast
  have k: "keeps_file (\<lambda>x. x\<lparr>ke_rcvd := ke_rcvd e, ke_crypto_method := ke_crypto_method e\<rparr>)"
    by (simp add: keeps_file_def)
  show ?thesis
    using safe_set_entry [OF k assms i(1)] counter_of_set_entry [OF k assms i(1)] counter_of_entry [OF assms i(1)]
    by (simp add: keeps_def i(2))
next
  case False
  have "set_entry i f st = st" if "\<not> i < length (keyentries st)" for i f
    using that by (simp add: set_entry_def list_update_beyond)
  moreover have "restore_entry e st = st
      \<or> (\<exists>i. restore_entry e st = set_entry i (\<lambda>x. x\<lparr>ke_rcvd := ke_rcvd e, ke_crypto_method := ke_crypto_method e\<rparr>) st)"
    by (auto simp: restore_entry_def split: option.splits)
  ultimately have "restore_entry e st = st"
    using False by metis
  then show ?thesis
    using keeps_refl [OF assms] by simp
qed

lemma restore_entries_keeps: "safe st \<Longrightarrow> keeps st (fold restore_entry es st)"
proof (induction es arbitrary: st)
  case (Cons e es)
  have "keeps st (restore_entry e st)" "safe (restore_entry e st)"
    using restore_entry_keeps [OF Cons.prems] by (simp_all add: keeps_def)
  then show ?case
    using Cons.IH keeps_trans by auto
qed (simp add: keeps_refl)

definition good_file :: "key_file \<Rightarrow> bool" where
  "good_file kf \<longleftrightarrow> (\<forall>input. kf_text kf = Some input \<longrightarrow> distinct (file_ids input) \<and> SENDER_COUNTER \<notin> set (file_ids input))"

lemma OS_UpdateKeys_keeps:
  assumes "safe st" "good_file kf" "OS_UpdateKeys lib p flush True kf st = Inr (b, st')"
  shows "keeps st st'"
proof (cases "file_change st = kf_date kf")
  case True
  then show ?thesis
    using assms by (simp add: OS_UpdateKeys_def keeps_refl)
next
  case False
  then obtain st1 st2 where r: "OS_ReadKeys lib p kf (OS_FreeKeys st) = Inr st1" "OS_StartCounter flush True st1 = Inr st2"
      and st': "st' = fold restore_entry (keyentries st) st2"
    using assms(3) by (auto simp: OS_UpdateKeys_def split: sum.splits)
  obtain input where i: "kf_text kf = Some input" "map ke_id (keyentries st1) = file_ids input" "rids st1 = rids (OS_FreeKeys st)"
    using OS_ReadKeys_ids [OF r(1)] by blast
  have l: "\<forall>n\<in>set (file_ids input). length n < KEYSIZE"
    using OS_ReadKeys_ok [OF r(1)] i(2) [symmetric] by (auto simp: keys_ok_def in_set_conv_nth)
  have f: "keeps st (OS_FreeKeys st)" "keyentries (OS_FreeKeys st) = []"
    using OS_FreeKeys_keeps [OF assms(1)] by simp_all
  have "counters_in_files (rids st1) (map ke_id (keyentries st1))"
    using f(1) assms(2) i l by (auto simp: counters_in_files_def good_file_def agent_name_def keeps_def safe_def)
  from OS_StartCounter_counters [OF this r(2)] have s: "safe st2"
      "\<And>n. agent_name n \<Longrightarrow> counter_of st2 n = cnt (file_pair (rids st1) n)" by simp_all
  have "counter_of st2 n = counter_of st n" if "agent_name n" for n
    using s(2) [OF that] f that i(3) by (simp add: keeps_def counter_of_def)
  then have "keeps st st2"
    using s(1) by (simp add: keeps_def)
  then show ?thesis
    using restore_entries_keeps [OF s(1)] keeps_trans unfolding st' by blast
qed


section \<open>Any sequence of events\<close>

text \<open>
  What \<^verbatim>\<open>remoted\<close> does to the key store: a datagram for the entry at a position, a message sent to an
  agent, a check of the key file. Every event brings what it finds outside: the memory of the
  receive and clear text buffers and their sizes, random bytes, the state of the key file.
\<close>

datatype sec_event =
  Datagram nat string nat string nat
| Send nat "nat option" "string option" string string
| Check_Keys key_file

text \<open>A step returns the agent and the counters of a message that was accepted. \<^term>\<open>None\<close>: the process
  exited.\<close>

definition sec_step :: "crypto_lib \<Rightarrow> pton \<Rightarrow> u32 \<Rightarrow> sec_event \<Rightarrow> secmsg_state
    \<Rightarrow> ((string \<times> (u32 \<times> u32)) list \<times> secmsg_state) option" where
  "sec_step lib p flush ev st =
     (case ev of
        Datagram i buffer room cleartext n \<Rightarrow>
          if i < length (keyentries st)
          then (let (r, st', fr) = ReadSecMSG lib False i buffer room cleartext n st
                in Some (case r of Inl _ \<Rightarrow> [] | Inr _ \<Rightarrow> [(ke_id (keyentries st ! i), the (frame_counter fr))], st'))
          else Some ([], st)
      | Send i rand1 iv msg buf \<Rightarrow>
          if i < length (keyentries st)
          then Some ([], snd (snd (CreateSecMSG lib False rand1 iv msg buf i st)))
          else Some ([], st)
      | Check_Keys kf \<Rightarrow>
          (case OS_UpdateKeys lib p flush True kf st of
             Inl _ \<Rightarrow> None
           | Inr (_, st') \<Rightarrow> Some ([], st')))"

fun sec_run :: "crypto_lib \<Rightarrow> pton \<Rightarrow> u32 \<Rightarrow> sec_event list \<Rightarrow> secmsg_state \<Rightarrow> (string \<times> (u32 \<times> u32)) list" where
  "sec_run lib p flush [] st = []"
| "sec_run lib p flush (ev # evs) st =
     (case sec_step lib p flush ev st of
        None \<Rightarrow> []
      | Some (acc, st') \<Rightarrow> acc @ sec_run lib p flush evs st')"

definition good_event :: "sec_event \<Rightarrow> bool" where
  "good_event ev = (case ev of Check_Keys kf \<Rightarrow> good_file kf | _ \<Rightarrow> True)"

lemma accepted_mono:
  assumes "accepted_step st st' i c" "agent_name n"
  shows "counter_of st n \<le> counter_of st' n"
  using assms by (auto simp: accepted_step_def agent_name_def)

lemma sec_step_mono:
  assumes "safe st" "good_event ev" "sec_step lib p flush ev st = Some (acc, st')"
  shows "safe st' \<and> (\<forall>n. agent_name n \<longrightarrow> counter_of st n \<le> counter_of st' n)
    \<and> (acc = [] \<or> (\<exists>n c. acc = [(n, c)] \<and> agent_name n \<and> counter_of st n < cnt c \<and> cnt c = counter_of st' n))"
proof (cases ev)
  case (Datagram i buffer room cleartext k)
  show ?thesis
  proof (cases "i < length (keyentries st)")
    case True
    obtain r st1 fr where r: "ReadSecMSG lib False i buffer room cleartext k st = (r, st1, fr)"
      by (cases "ReadSecMSG lib False i buffer room cleartext k st")
    have a: "agent_name (ke_id (keyentries st ! i))"
      using assms(1) True nth_mem [OF True] by (auto simp: safe_def entry_ok_def agent_name_def)
    from ReadSecMSG_step [OF assms(1) True r] show ?thesis
    proof (elim disjE conjE exE)
      fix c assume c: "frame_counter fr = Some c" "accepted_step st st1 i c"
      then show ?thesis
        using assms(3) Datagram True r a accepted_mono [OF c(2)]
        by (cases r; cases c) (auto simp: sec_step_def accepted_step_def agent_name_def)
    qed (use assms(1,3) Datagram True r in \<open>auto simp: sec_step_def\<close>)
  qed (use assms(1,3) Datagram in \<open>auto simp: sec_step_def\<close>)
next
  case (Send i rand1 iv msg buf)
  then show ?thesis
    using assms(1,3) CreateSecMSG_keeps [OF assms(1), of lib False rand1 iv msg buf i]
    by (auto simp: sec_step_def keeps_def split: if_splits)
next
  case (Check_Keys kf)
  then show ?thesis
    using assms OS_UpdateKeys_keeps [OF assms(1)]
    by (auto simp: sec_step_def good_event_def keeps_def split: sum.splits prod.splits)
qed

lemma sec_run_above:
  assumes "safe st" "\<forall>ev\<in>set evs. good_event ev" "(n, c) \<in> set (sec_run lib p flush evs st)"
  shows "agent_name n \<and> counter_of st n < cnt c"
  using assms
proof (induction evs arbitrary: st)
  case (Cons ev evs)
  obtain acc st' where s: "sec_step lib p flush ev st = Some (acc, st')" "(n, c) \<in> set acc \<union> set (sec_run lib p flush evs st')"
    using Cons.prems(3) by (cases "sec_step lib p flush ev st") auto
  note m = sec_step_mono [OF Cons.prems(1) _ s(1)]
  then show ?case
    using Cons.IH [of st'] Cons.prems(2) s(2) by fastforce
qed simp

definition newer_than :: "string \<times> (u32 \<times> u32) \<Rightarrow> string \<times> (u32 \<times> u32) \<Rightarrow> bool" where
  "newer_than a b \<longleftrightarrow> (fst a = fst b \<longrightarrow> cnt (snd a) < cnt (snd b))"

lemma newer_than_pair [simp]: "newer_than (n, c) (m, d) \<longleftrightarrow> (n = m \<longrightarrow> cnt c < cnt d)"
  by (simp add: newer_than_def)

text \<open>
  C21. No replay: over any sequence of datagrams (of any content, by anybody), of messages sent and of
  reloads of the key file, the counters of the messages that the manager accepts from an agent
  strictly increase, so no message is accepted twice, also not across a reload and a removal of the
  agent from the file and its return: \<open>OS_UpdateKeys\<close> writes the counters to the files before it drops
  the entries and \<open>OS_StartCounter\<close> reads them back. The files must stay openable, the numbers in a
  key file distinct, and none may be \<open>sender_counter\<close>, the name of the file of the counter of the
  messages sent.
\<close>

theorem no_replay:
  assumes "counters_in_files (rids st0) (map ke_id (keyentries st0))" "OS_StartCounter flush True st0 = Inr st"
    and "\<forall>ev\<in>set evs. good_event ev"
  shows "sorted_wrt newer_than (sec_run lib p flush evs st)"
proof -
  have "safe st"
    using OS_StartCounter_counters [OF assms(1,2)] by simp
  then show ?thesis
    using assms(3)
  proof (induction evs arbitrary: st)
    case (Cons ev evs)
    show ?case
    proof (cases "sec_step lib p flush ev st")
      case (Some r)
      then obtain acc st' where s: "sec_step lib p flush ev st = Some (acc, st')" by (cases r) auto
      have m: "safe st'" "acc = [] \<or> (\<exists>n c. acc = [(n, c)] \<and> cnt c = counter_of st' n)"
        using sec_step_mono [OF Cons.prems(1) _ s] Cons.prems(2) by auto
      have "sorted_wrt newer_than (sec_run lib p flush evs st')"
        using Cons.IH [OF m(1)] Cons.prems(2) by simp
      then show ?thesis
        using s m Cons.prems(2) sec_run_above [OF m(1)] by fastforce
    qed simp
  qed simp
qed


text \<open>The counters can be started wherever the files can be opened.\<close>

lemma fopen_rids_opens: "can_open fs f \<Longrightarrow> \<exists>i fs'. fopen_rids fs f = (Some i, fs')"
  by (auto simp: fopen_rids_def fopen_update_def fopen_write_def split: option.splits)

lemma start_entries_start: "\<forall>f. can_open fs f \<Longrightarrow> \<exists>es' fs'. start_entries fs es = Inr (es', fs') \<and> can_open fs' = can_open fs"
proof (induction es arbitrary: fs)
  case (Cons e es)
  obtain i fs1 where f: "fopen_rids fs (rids_file (ke_id e)) = (Some i, fs1)"
    using Cons.prems fopen_rids_opens by blast
  have "\<forall>f. can_open fs1 f"
    using Cons.prems can_open_opened [OF f] by simp
  from Cons.IH [OF this] show ?case
    using can_open_opened [OF f] by (auto simp: start_entry_def f split: prod.splits)
qed simp

lemma OS_StartCounter_starts:
  assumes "\<forall>f. can_open (rids st) f"
  shows "\<exists>st'. OS_StartCounter flush verify st = Inr st'"
proof -
  obtain es fs1 where s: "start_entries (rids st) (keyentries st) = Inr (es, fs1)" "can_open fs1 = can_open (rids st)"
    using start_entries_start [OF assms] by blast
  then obtain i fs2 where "fopen_rids fs1 (rids_file SENDER_COUNTER) = (Some i, fs2)"
    using fopen_rids_opens [of fs1] assms by fastforce
  then show ?thesis
    using s(1) by (simp add: OS_StartCounter_def Let_def split: prod.split)
qed

text \<open>The manager of \<open>demo_state\<close> hears the same datagram twice, then checks a key file that is gone.\<close>

definition demo_events :: "sec_event list" where
  "demo_events =
     (let d = Datagram 0 (fst (snd demo_send)) 6145 (replicate 6145 NUL) (fst demo_send - 1)
      in [d, d, Check_Keys \<lparr>kf_date = 1, kf_text = None, kf_secrets = (None, None), kf_max_agents = 100, kf_pass_empty = False\<rparr>])"

definition no_pton :: pton where
  "no_pton = \<lparr>pton4 = \<lambda>_. None, pton6 = \<lambda>_. None\<rparr>"

theorem no_replay_witness:
  "\<exists>st. OS_StartCounter 10 True demo_state = Inr st
     \<and> sorted_wrt newer_than (sec_run demo_lib no_pton 10 demo_events st)"
proof -
  have "fs_ok no_rids" "can_open no_rids f" for f
    by (simp_all add: fs_ok_def no_rids_def)
  then have c: "counters_in_files (rids demo_state) (map ke_id (keyentries demo_state))"
    by (simp add: counters_in_files_def demo_state_def demo_entry_def agent_name_def SENDER_COUNTER_def KEYSIZE_def)
  obtain st where st: "OS_StartCounter 10 True demo_state = Inr st"
    using OS_StartCounter_starts [of demo_state 10 True] by (auto simp: demo_state_def no_rids_def)
  have "\<forall>ev\<in>set demo_events. good_event ev"
    by (simp add: demo_events_def good_event_def good_file_def Let_def)
  from no_replay [OF c st this, of demo_lib no_pton] st show ?thesis by blast
qed

end
