(* ===== verification/Agent_Keys.thy ===== *)
theory Agent_Keys
  imports Replay
begin

unbundle bit_operations_syntax

text \<open>
  \<^verbatim>\<open>addagent/validate.c\<close>: the administration of the key file by the tools and the enrolment daemon:
  looking for numbers, names and addresses in it, adding an agent under a number that is free,
  removing one by writing over its line, and the checks of names, numbers and key lines.

  The file is its text. A loop \<^verbatim>\<open>while (fgets(...))\<close> is a function on the list of the buffers it gets.
\<close>

section \<open>Lines\<close>

function fgets_lines :: "nat \<Rightarrow> string \<Rightarrow> string list" where
  "fgets_lines n s = (if s = [] \<or> n = 0 then [] else let (l, r) = fgets n s in l # fgets_lines n r)"
  by pat_completeness auto
termination fgets_lines
  by (relation "measure (\<lambda>(n, s). length s)") (auto dest: fgets_less)

declare fgets_lines.simps [simp del]

text \<open>\<open>atoi\<close> as \<^verbatim>\<open>(int) strtol\<close>.\<close>

definition c_atoi :: "string \<Rightarrow> int" where
  "c_atoi s = sint (atou s)"

definition FILE_SIZE :: nat where
  "FILE_SIZE = 257"

definition STR_SIZE :: nat where
  "STR_SIZE = 512"

definition AUTHD_FIRST_ID :: nat where
  "AUTHD_FIRST_ID = 1024"

text \<open>The key file: its text if it exists, and whether it can be read and written.\<close>

record auth_file =
  af_text :: "string option"
  af_read :: bool
  af_write :: bool

definition fopen_r :: "auth_file \<Rightarrow> string option" where
  "fopen_r f = (if af_read f then af_text f else None)"

definition fopen_rw :: "auth_file \<Rightarrow> string option" where
  "fopen_rw f = (if af_read f \<and> af_write f then af_text f else None)"

definition fopen_a :: "auth_file \<Rightarrow> string option" where
  "fopen_a f = (if af_write f then Some (case af_text f of None \<Rightarrow> [] | Some t \<Rightarrow> t) else None)"

text \<open>The buffers of the tools, with the terminating NUL left out.\<close>

definition file_lines :: "string \<Rightarrow> string list" where
  "file_lines t = map (until NUL) (fgets_lines (FILE_SIZE - 2) t)"

section \<open>Free numbers\<close>

definition SetBit :: "32 word list \<Rightarrow> nat \<Rightarrow> 32 word list" where
  "SetBit Array pos = Array[pos div 32 := Array ! (pos div 32) OR push_bit (pos mod 32) 1]"

definition TestBit :: "32 word list \<Rightarrow> nat \<Rightarrow> bool" where
  "TestBit Array pos \<longleftrightarrow> Array ! (pos div 32) AND push_bit (pos mod 32) 1 \<noteq> 0"

fun map_id_loop :: "nat \<Rightarrow> 32 word list \<Rightarrow> string list \<Rightarrow> 32 word list" where
  "map_id_loop max_agents arrayID [] = arrayID"
| "map_id_loop max_agents arrayID (line # ls) =
     (if deref line = CHR ''#'' then map_id_loop max_agents arrayID ls
      else (case strchr line (CHR '' '') of
              None \<Rightarrow> map_id_loop max_agents arrayID ls
            | Some _ \<Rightarrow>
                (let name_num = c_atoi (until (CHR '' '') line) in
                 if int AUTHD_FIRST_ID \<le> name_num \<and> name_num < int (max_agents + AUTHD_FIRST_ID)
                 then map_id_loop max_agents (SetBit arrayID (nat (name_num - int AUTHD_FIRST_ID))) ls
                 else map_id_loop max_agents arrayID ls)))"

definition MapIDToBitArray :: "nat \<Rightarrow> auth_file \<Rightarrow> 32 word list option" where
  "MapIDToBitArray max_agents f =
     (case fopen_r f of
        None \<Rightarrow> None
      | Some t \<Rightarrow> Some (map_id_loop max_agents (replicate (max_agents div 32 + 1) 0) (file_lines t)))"

text \<open>The lines that \<open>CountAgents\<close> counts.\<close>

definition counted :: "string \<Rightarrow> bool" where
  "counted line \<longleftrightarrow>
     deref line \<noteq> CHR ''#'' \<and> deref line \<noteq> CHR '' '' \<and>
     (case strchr line (CHR '' '') of
        None \<Rightarrow> False
      | Some t1 \<Rightarrow> deref (tl t1) \<noteq> CHR ''#'' \<and>
          (case strchr (tl t1) (CHR '' '') of
             None \<Rightarrow> False
           | Some t2 \<Rightarrow> strchr (tl t2) (CHR '' '') \<noteq> None))"

fun count_loop :: "nat \<Rightarrow> string list \<Rightarrow> nat" where
  "count_loop count [] = count"
| "count_loop count (line # ls) = count_loop (if counted (until NUL line) then count + 1 else count) ls"

definition CountAgents :: "auth_file \<Rightarrow> nat" where
  "CountAgents f =
     (case fopen_r f of None \<Rightarrow> 0 | Some t \<Rightarrow> count_loop 0 (fgets_lines (OS_BUFFER_SIZE - 1) t))"

text \<open>The number for a new agent, \<^verbatim>\<open>snprintf(nid, 8, "%d")\<close>.\<close>

definition new_id :: "nat \<Rightarrow> auth_file \<Rightarrow> string option" where
  "new_id max_agents f =
     (case MapIDToBitArray max_agents f of
        None \<Rightarrow> None
      | Some arrayID \<Rightarrow>
          (case find (\<lambda>i. \<not> TestBit arrayID i) [0..<max_agents] of
             None \<Rightarrow> None
           | Some i \<Rightarrow> Some (take 7 (dec_nat (i + AUTHD_FIRST_ID)))))"

section \<open>Adding an agent\<close>

text \<open>\<open>random_data\<close> are the 64 random bytes, if the system delivers them; \<open>stack\<close> is what the digest
  context holds before it is set up.\<close>

definition or_any :: "string option \<Rightarrow> string" where
  "or_any ip = (case ip of None \<Rightarrow> ''any'' | Some s \<Rightarrow> s)"

definition new_key :: "MD5Context \<Rightarrow> string \<Rightarrow> string option \<Rightarrow> string \<Rightarrow> string \<Rightarrow> string" where
  "new_key stack name ip aid random_data =
     (let rand_hex = md5_hex random_data;
          str1 = take (STR_SIZE - 1) (name @ aid @ rand_hex);
          str2 = take (STR_SIZE - 1) (or_any ip @ name @ drop 64 rand_hex)
      in OS_MD5_Str stack str1 @ OS_MD5_Str stack str2)"

definition OS_AddNewAgent ::
    "MD5Context \<Rightarrow> nat \<Rightarrow> string option \<Rightarrow> string \<Rightarrow> string option \<Rightarrow> string option \<Rightarrow> auth_file
     \<Rightarrow> string option \<times> auth_file" where
  "OS_AddNewAgent stack max_agents random_data name ip aid f =
     (if int (CountAgents f) \<ge> int max_agents - 3 then (None, f)
      else (case (case aid of None \<Rightarrow> new_id max_agents f | Some i \<Rightarrow> Some i) of
        None \<Rightarrow> (None, f)
      | Some nid \<Rightarrow>
          (case random_data of
             None \<Rightarrow> (None, f)
           | Some r \<Rightarrow>
               (case fopen_a f of
                  None \<Rightarrow> (None, f)
                | Some t \<Rightarrow>
                    (let finals = take 2047 (nid @ '' '' @ name @ '' '' @ or_any ip @ '' '' @ new_key stack name ip nid r)
                     in (Some finals, f\<lparr>af_text := Some (t @ finals @ [NL])\<rparr>))))))"

section \<open>Looking into the file\<close>

text \<open>\<open>IDExist\<close> leaves the position of the line in \<open>fp_pos\<close>; it is returned here.\<close>

fun id_exist_loop :: "nat \<Rightarrow> string \<Rightarrow> string list \<Rightarrow> nat option" where
  "id_exist_loop fp_pos aid [] = None"
| "id_exist_loop fp_pos aid (buf # ls) =
     (let line_read = until NUL buf in
      if deref line_read = CHR ''#'' then id_exist_loop (fp_pos + length buf) aid ls
      else (case strchr line_read (CHR '' '') of
              None \<Rightarrow> id_exist_loop (fp_pos + length buf) aid ls
            | Some _ \<Rightarrow> if strcmp (until (CHR '' '') line_read) aid = 0 then Some fp_pos
                        else id_exist_loop (fp_pos + length buf) aid ls))"

definition IDExist :: "string option \<Rightarrow> auth_file \<Rightarrow> nat option" where
  "IDExist aid f =
     (case aid of
        None \<Rightarrow> None
      | Some i \<Rightarrow> (case fopen_r f of None \<Rightarrow> None | Some t \<Rightarrow> id_exist_loop 0 i (fgets_lines (FILE_SIZE - 2) t)))"

fun name_exist_loop :: "string \<Rightarrow> string list \<Rightarrow> bool" where
  "name_exist_loop u_name [] = False"
| "name_exist_loop u_name (line_read # ls) =
     (if deref line_read = CHR ''#'' then name_exist_loop u_name ls
      else (case strchr line_read (CHR '' '') of
              None \<Rightarrow> name_exist_loop u_name ls
            | Some t1 \<Rightarrow>
                if deref (tl t1) = CHR ''#'' then name_exist_loop u_name ls
                else (case strchr (tl t1) (CHR '' '') of
                        None \<Rightarrow> name_exist_loop u_name ls
                      | Some t2 \<Rightarrow> if strcmp u_name (until (CHR '' '') (tl t1)) = 0 then True
                                   else name_exist_loop u_name ls)))"

definition NameExist :: "string \<Rightarrow> auth_file \<Rightarrow> bool" where
  "NameExist u_name f =
     (if deref u_name \<in> {NUL, CHR 13, NL} then False
      else (case fopen_r f of None \<Rightarrow> False | Some t \<Rightarrow> name_exist_loop u_name (file_lines t)))"

fun ip_exist_loop :: "string \<Rightarrow> string list \<Rightarrow> string option" where
  "ip_exist_loop u_ip [] = None"
| "ip_exist_loop u_ip (line_read # ls) =
     (if deref line_read = CHR ''#'' then ip_exist_loop u_ip ls
      else (case strchr line_read (CHR '' '') of
              None \<Rightarrow> ip_exist_loop u_ip ls
            | Some t1 \<Rightarrow>
                if deref (tl t1) = CHR ''#'' then ip_exist_loop u_ip ls
                else (case strchr (tl t1) (CHR '' '') of
                        None \<Rightarrow> ip_exist_loop u_ip ls
                      | Some t2 \<Rightarrow>
                          (case strchr (tl t2) (CHR '' '') of
                             None \<Rightarrow> ip_exist_loop u_ip ls
                           | Some _ \<Rightarrow> if strcmp u_ip (until (CHR '' '') (tl t2)) = 0 then Some (until (CHR '' '') line_read)
                                        else ip_exist_loop u_ip ls))))"

text \<open>The number of the agent with this address, if it is a single address.\<close>

definition IPExist :: "string option \<Rightarrow> auth_file \<Rightarrow> string option" where
  "IPExist u_ip f =
     (case u_ip of
        None \<Rightarrow> None
      | Some ip \<Rightarrow>
          if strncmp ip ''any'' 3 = 0 \<or> strchr ip (CHR ''/'') \<noteq> None then None
          else (case fopen_r f of None \<Rightarrow> None | Some t \<Rightarrow> ip_exist_loop ip (file_lines t)))"

text \<open>The name of the files about an agent: its name and its address without the prefix length.\<close>

fun fullname_loop :: "string \<Rightarrow> string list \<Rightarrow> string option" where
  "fullname_loop aid [] = None"
| "fullname_loop aid (line_read # ls) =
     (if deref line_read = CHR ''#'' then fullname_loop aid ls
      else (case strchr line_read (CHR '' '') of
              None \<Rightarrow> fullname_loop aid ls
            | Some t1 \<Rightarrow>
                if strcmp (until (CHR '' '') line_read) aid \<noteq> 0 then fullname_loop aid ls
                else if deref (tl t1) = CHR ''#'' then fullname_loop aid ls
                else (case strchr (tl t1) (CHR '' '') of
                        None \<Rightarrow> fullname_loop aid ls
                      | Some t2 \<Rightarrow>
                          (case strchr (tl t2) (CHR '' '') of
                             None \<Rightarrow> fullname_loop aid ls
                           | Some _ \<Rightarrow>
                               (let name = until (CHR '' '') (tl t1);
                                    ip = until (CHR ''/'') (until (CHR '' '') (tl t2))
                                in Some (take (FILE_SIZE - 2) (name @ ''-'' @ ip)))))))"

definition getFullnameById :: "string option \<Rightarrow> auth_file \<Rightarrow> string option" where
  "getFullnameById aid f =
     (case aid of
        None \<Rightarrow> None
      | Some i \<Rightarrow> (case fopen_r f of None \<Rightarrow> None | Some t \<Rightarrow> fullname_loop i (file_lines t)))"

section \<open>Removing an agent\<close>

text \<open>The mark that stays in the file: the number is not given out again. The files about the agent
  that \<open>delete_agentinfo\<close> removes are not part of the state.\<close>

definition tombstone :: "string \<Rightarrow> string" where
  "tombstone u_id = u_id @ '' #*#*#*#*#*#*#*#*#*#*#''"

definition OS_RemoveAgent :: "string \<Rightarrow> auth_file \<Rightarrow> rids_fs \<Rightarrow> bool \<times> auth_file \<times> rids_fs" where
  "OS_RemoveAgent u_id f fs =
     (case IDExist (Some u_id) f of
        None \<Rightarrow> (False, f, fs)
      | Some fp_pos \<Rightarrow>
          (case fopen_rw f of
             None \<Rightarrow> (False, f, fs)
           | Some t \<Rightarrow>
               (True, f\<lparr>af_text := Some (poke t fp_pos (tombstone u_id))\<rparr>, OS_RemoveCounter fs u_id)))"

section \<open>Checks\<close>

definition OS_IsValidID :: "string option \<Rightarrow> bool" where
  "OS_IsValidID aid = (case aid of None \<Rightarrow> False | Some i \<Rightarrow> length i \<le> 8 \<and> list_all c_isdigit i)"

definition c_isalnum :: "char \<Rightarrow> bool" where
  "c_isalnum c \<longleftrightarrow> c_isdigit c \<or> 65 \<le> byte c \<and> byte c \<le> 90 \<or> 97 \<le> byte c \<and> byte c \<le> 122"

definition c_isxdigit :: "char \<Rightarrow> bool" where
  "c_isxdigit c \<longleftrightarrow> c_isdigit c \<or> 65 \<le> byte c \<and> byte c \<le> 70 \<or> 97 \<le> byte c \<and> byte c \<le> 102"

definition OS_IsValidName :: "string \<Rightarrow> bool" where
  "OS_IsValidName u_name \<longleftrightarrow>
     2 \<le> length u_name \<and> length u_name \<le> 128 \<and>
     list_all (\<lambda>c. c_isalnum c \<or> c = CHR ''-'' \<or> c = CHR ''_'' \<or> c = CHR ''.'') u_name"

definition OS_IsValidAgentKeyHash :: "string \<Rightarrow> bool" where
  "OS_IsValidAgentKeyHash hash \<longleftrightarrow> length hash = 64 \<and> list_all c_isxdigit hash"

definition skip_spaces :: "string \<Rightarrow> string" where
  "skip_spaces s = dropWhile (\<lambda>c. c = CHR '' '') s"

definition OS_IsValidAgentKey :: "pton \<Rightarrow> string option \<Rightarrow> bool" where
  "OS_IsValidAgentKey p key =
     (case key of
        None \<Rightarrow> False
      | Some copy \<Rightarrow>
          copy \<noteq> [] \<and>
          (case strchr copy (CHR '' '') of
             None \<Rightarrow> False
           | Some t1 \<Rightarrow>
               (let name = skip_spaces (tl t1) in
                case strchr name (CHR '' '') of
                  None \<Rightarrow> False
                | Some t2 \<Rightarrow>
                    (let ip = skip_spaces (tl t2) in
                     case strchr ip (CHR '' '') of
                       None \<Rightarrow> False
                     | Some t3 \<Rightarrow>
                         (let hash = skip_spaces (tl t3); aid = until (CHR '' '') copy;
                              nm = until (CHR '' '') name; addr = until (CHR '' '') ip
                          in hash \<noteq> [] \<and> strchr hash (CHR '' '') = None
                             \<and> OS_IsValidID (Some aid) \<and> OS_IsValidName nm
                             \<and> (strcmp addr ''any'' = 0 \<or> fst (OS_IsValidIP p (Some addr) zero_ip) = 1)
                             \<and> OS_IsValidAgentKeyHash hash)))))"

text \<open>\<open>strtol\<close> in base 10 with the rest of the string, and \<^verbatim>\<open>%03d\<close>.\<close>

definition strtol_rest :: "string \<Rightarrow> string" where
  "strtol_rest s =
     (let t = dropWhile c_isspace s; u = (if deref t \<in> {CHR ''-'', CHR ''+''} then tl t else t)
      in if c_isdigit (deref u) then dropWhile c_isdigit u else s)"

definition fmt_03d :: "int \<Rightarrow> string" where
  "fmt_03d n = (if n < 0 then CHR ''-'' # pad_left 2 (dec_nat (nat (- n))) else pad_left 3 (dec_nat (nat n)))"

definition FormatID :: "string \<Rightarrow> string" where
  "FormatID aid = (if aid \<noteq> [] \<and> strtol_rest aid = [] then fmt_03d (c_atoi aid) else aid)"

text \<open>The number that \<^verbatim>\<open>manage_agents.c\<close> and \<^verbatim>\<open>manage_keys.c\<close> propose: one above the largest in use.\<close>

fun default_id_loop :: "nat \<Rightarrow> auth_file \<Rightarrow> nat" where
  "default_id_loop i f =
     (if IDExist (Some (take 7 (fmt_03d (int i)))) f \<noteq> None then i
      else case i of 0 \<Rightarrow> 0 | Suc j \<Rightarrow> if j = 0 then 0 else default_id_loop j f)"

declare default_id_loop.simps [simp del]

definition default_id :: "nat \<Rightarrow> auth_file \<Rightarrow> string" where
  "default_id max_agents f = take 7 (fmt_03d (int (default_id_loop (max_agents + 32512) f) + 1))"

end
