(* ===== verification/Key_Admin.thy ===== *)
theory Key_Admin
  imports Agent_Keys
begin

text \<open>
  The key file as a list of entries, alive or removed, and what the operations of \<open>Agent_Keys\<close> do to
  it: a refinement of the text of the file by its entries.
\<close>

section \<open>Lines of a file\<close>

lemma until_append [simp]: "c \<notin> set p \<Longrightarrow> until c (p @ c # v) = p"
  by (induction p) (auto simp: until_def)

lemma until_none [simp]: "c \<notin> set p \<Longrightarrow> until c p = p"
  by (induction p) (auto simp: until_def)

lemma fgets_lines_render:
  "\<forall>b\<in>set bs. NL \<notin> set b \<and> length b < n \<Longrightarrow>
     fgets_lines n (concat (map (\<lambda>b. b @ [NL]) bs)) = map (\<lambda>b. b @ [NL]) bs"
proof (induction bs)
  case (Cons b bs)
  have "fgets n (b @ NL # concat (map (\<lambda>b. b @ [NL]) bs)) = (b @ [NL], concat (map (\<lambda>b. b @ [NL]) bs))"
    using Cons.prems by (simp add: fgets_short)
  then show ?case
    using Cons by (simp add: fgets_lines.simps [of n "b @ NL # concat (map (\<lambda>b. b @ [NL]) bs)"])
qed (simp add: fgets_lines.simps)

section \<open>Entries\<close>

datatype key_entry = Agent (entry_id: string) string string string | Dead (entry_id: string) string

fun entry_text :: "key_entry \<Rightarrow> string" where
  "entry_text (Agent i name ip key) = i @ CHR '' '' # name @ CHR '' '' # ip @ CHR '' '' # key"
| "entry_text (Dead i rest) = i @ CHR '' '' # CHR ''#'' # rest"

definition render :: "key_entry list \<Rightarrow> string" where
  "render es = concat (map (\<lambda>b. b @ [NL]) (map entry_text es))"

definition field_ok :: "string \<Rightarrow> bool" where
  "field_ok s \<longleftrightarrow> s \<noteq> [] \<and> hd s \<noteq> CHR ''#'' \<and> CHR '' '' \<notin> set s \<and> NL \<notin> set s \<and> NUL \<notin> set s"

text \<open>An entry as the operations leave it: its fields have neither blanks nor line ends, its line fits
  the buffer of the tools and is at least as long as the mark of a removal.\<close>

definition entry_wf :: "key_entry \<Rightarrow> bool" where
  "entry_wf e \<longleftrightarrow> field_ok (entry_id e) \<and> length (entry_id e) < KEYSIZE \<and> entry_id e \<noteq> SENDER_COUNTER
     \<and> length (entry_text e) < FILE_SIZE - 2 \<and> length (tombstone (entry_id e)) \<le> length (entry_text e)
     \<and> (case e of
          Agent _ name ip key \<Rightarrow> field_ok name \<and> field_ok ip \<and> NL \<notin> set key \<and> NUL \<notin> set key
        | Dead _ rest \<Rightarrow> NL \<notin> set rest \<and> NUL \<notin> set rest)"

fun live :: "key_entry \<Rightarrow> bool" where
  "live (Agent _ _ _ _) = True"
| "live (Dead _ _) = False"

lemma entry_text_chars: "entry_wf e \<Longrightarrow> NL \<notin> set (entry_text e) \<and> NUL \<notin> set (entry_text e)"
  by (cases e) (auto simp: entry_wf_def field_ok_def)

lemma render_lines:
  assumes "\<forall>e\<in>set es. entry_wf e" "FILE_SIZE - 2 \<le> n"
  shows "fgets_lines n (render es) = map (\<lambda>e. entry_text e @ [NL]) es"
  unfolding render_def using assms entry_text_chars
  by (subst fgets_lines_render) (auto simp: entry_wf_def)

lemma until_NUL_line: "entry_wf e \<Longrightarrow> until NUL (entry_text e @ [NL]) = entry_text e @ [NL]"
  using entry_text_chars [of e] by simp

lemma render_file_lines:
  "\<forall>e\<in>set es. entry_wf e \<Longrightarrow> file_lines (render es) = map (\<lambda>e. entry_text e @ [NL]) es"
  by (simp add: file_lines_def render_lines until_NUL_line)

lemma line_hash: "field_ok i \<Longrightarrow> deref (i @ t) \<noteq> CHR ''#''" "field_ok i \<Longrightarrow> deref (i @ t) \<noteq> CHR '' ''"
  by (cases i; auto simp: field_ok_def)+

lemma field_ok_chars: "field_ok i \<Longrightarrow> CHR '' '' \<notin> set i" "field_ok i \<Longrightarrow> c_string i"
  by (auto simp: field_ok_def c_string_def)

lemma parse_key_line_entry:
  assumes "entry_wf e"
  shows "parse_key_line (entry_text e @ [NL]) =
    (case e of Agent i name ip key \<Rightarrow> Key_Line i (key_field name) (key_field ip) (key_field key) | Dead _ _ \<Rightarrow> Removed)"
proof (cases e)
  case (Agent i name ip key)
  then have f: "field_ok i" "field_ok name" "field_ok ip" "NL \<notin> set key" "length i < KEYSIZE"
    using assms by (simp_all add: entry_wf_def)
  from f(1-3) have c: "CHR '' '' \<notin> set i" "CHR '' '' \<notin> set name" "CHR '' '' \<notin> set ip"
    by (simp_all add: field_ok_chars)
  have "key_field i = i"
    using f(5) by (simp add: key_field_def)
  then show ?thesis
    using f c line_hash [OF f(1)] line_hash [OF f(2)] until_NUL_line [OF assms]
    by (simp add: Agent parse_key_line_def Let_def strchr_append)
next
  case (Dead i rest)
  then have f: "field_ok i"
    using assms by (simp add: entry_wf_def)
  then show ?thesis
    using line_hash [OF f] until_NUL_line [OF assms] field_ok_chars [OF f]
    by (simp add: Dead parse_key_line_def Let_def strchr_append)
qed


section \<open>The loops over the lines\<close>

definition entry_line :: "key_entry \<Rightarrow> string" where
  "entry_line e = entry_text e @ [NL]"

fun entry_tail :: "key_entry \<Rightarrow> string" where
  "entry_tail (Agent _ name ip key) = name @ CHR '' '' # ip @ CHR '' '' # key @ [NL]"
| "entry_tail (Dead _ rest) = CHR ''#'' # rest @ [NL]"

lemma entry_line_split: "entry_line e = entry_id e @ CHR '' '' # entry_tail e"
  by (cases e) (simp_all add: entry_line_def)

lemma entry_line_facts:
  assumes "entry_wf e"
  shows "deref (entry_line e) \<noteq> CHR ''#''" "deref (entry_line e) \<noteq> CHR '' ''"
    "strchr (entry_line e) (CHR '' '') = Some (CHR '' '' # entry_tail e)"
    "until (CHR '' '') (entry_line e) = entry_id e" "c_string (entry_id e)"
    "until NUL (entry_line e) = entry_line e"
proof -
  have f: "field_ok (entry_id e)"
    using assms by (simp add: entry_wf_def)
  show "until NUL (entry_line e) = entry_line e"
    using until_NUL_line [OF assms] by (simp add: entry_line_def)
  show "deref (entry_line e) \<noteq> CHR ''#''" "deref (entry_line e) \<noteq> CHR '' ''"
    "strchr (entry_line e) (CHR '' '') = Some (CHR '' '' # entry_tail e)"
    "until (CHR '' '') (entry_line e) = entry_id e" "c_string (entry_id e)"
    using f line_hash [OF f] field_ok_chars [OF f] unfolding entry_line_split by (simp_all add: strchr_append)
qed

lemma entry_tail_facts:
  assumes "entry_wf e"
  shows "deref (entry_tail e) = CHR ''#'' \<longleftrightarrow> \<not> live e"
    "e = Agent i name ip key \<Longrightarrow> strchr (entry_tail e) (CHR '' '') = Some (CHR '' '' # ip @ CHR '' '' # key @ [NL])"
    "e = Agent i name ip key \<Longrightarrow> until (CHR '' '') (entry_tail e) = name"
    "e = Agent i name ip key \<Longrightarrow> strchr (ip @ CHR '' '' # key @ [NL]) (CHR '' '') = Some (CHR '' '' # key @ [NL])"
    "e = Agent i name ip key \<Longrightarrow> until (CHR '' '') (ip @ CHR '' '' # key @ [NL]) = ip"
    "e = Agent i name ip key \<Longrightarrow> c_string name \<and> c_string ip"
  using assms line_hash(1) field_ok_chars by (cases e; auto simp: entry_wf_def strchr_append)+

lemma counted_entry: "entry_wf e \<Longrightarrow> counted (until NUL (entry_line e)) = live e"
  using entry_line_facts [of e] entry_tail_facts [of e]
  by (cases e) (simp_all add: counted_def)

lemma count_loop_entries:
  "\<forall>e\<in>set es. entry_wf e \<Longrightarrow> count_loop n (map entry_line es) = n + length (filter live es)"
  by (induction es arbitrary: n) (simp_all add: counted_entry)

lemma render_entry_lines:
  assumes "\<forall>e\<in>set es. entry_wf e"
  shows "FILE_SIZE - 2 \<le> n \<Longrightarrow> fgets_lines n (render es) = map entry_line es" "file_lines (render es) = map entry_line es"
  using render_lines [OF assms] render_file_lines [OF assms] by (simp_all add: entry_line_def)

lemma CountAgents_entries:
  "\<forall>e\<in>set es. entry_wf e \<Longrightarrow> fopen_r f = Some (render es) \<Longrightarrow> CountAgents f = length (filter live es)"
  by (simp add: CountAgents_def render_entry_lines count_loop_entries FILE_SIZE_def OS_BUFFER_SIZE_def)

lemma key_lines_fgets: "key_lines t = map parse_key_line (fgets_lines (OS_BUFFER_SIZE - 1) t)"
  by (induction t rule: key_lines.induct)
    (simp add: key_lines.simps fgets_lines.simps OS_BUFFER_SIZE_def split: prod.split)

lemma line_ids_entries:
  "\<forall>e\<in>set es. entry_wf e \<Longrightarrow> line_ids (map parse_key_line (map entry_line es)) = map entry_id (filter live es)"
  by (induction es) (auto simp: entry_line_def parse_key_line_entry split: key_entry.split)

lemma file_ids_entries:
  "\<forall>e\<in>set es. entry_wf e \<Longrightarrow> file_ids (render es) = map entry_id (filter live es)"
  using line_ids_entries [of es]
  by (simp add: file_ids_def key_lines_fgets render_entry_lines FILE_SIZE_def OS_BUFFER_SIZE_def)

lemma id_exist_entries:
  "\<forall>e\<in>set es. entry_wf e \<Longrightarrow> c_string aid \<Longrightarrow>
     id_exist_loop pos aid (map entry_line es)
       = map_option (\<lambda>i. pos + length (render (take i es))) (first_pos (\<lambda>e. entry_id e = aid) es)"
proof (induction es arbitrary: pos)
  case (Cons e es)
  then show ?case
    using entry_line_facts [of e]
    by (auto simp: strcmp_eq_0 Let_def option.map_comp comp_def render_def entry_line_def ac_simps intro!: option.map_cong)
qed simp

lemma IDExist_entries:
  "\<forall>e\<in>set es. entry_wf e \<Longrightarrow> c_string aid \<Longrightarrow> fopen_r f = Some (render es) \<Longrightarrow>
     IDExist (Some aid) f = map_option (\<lambda>i. length (render (take i es))) (first_pos (\<lambda>e. entry_id e = aid) es)"
  by (simp add: IDExist_def render_entry_lines id_exist_entries)

fun named :: "string \<Rightarrow> key_entry \<Rightarrow> bool" where
  "named n (Agent _ name _ _) = (name = n)"
| "named n (Dead _ _) = False"

fun at_ip :: "string \<Rightarrow> key_entry \<Rightarrow> bool" where
  "at_ip a (Agent _ _ ip _) = (ip = a)"
| "at_ip a (Dead _ _) = False"

lemma name_exist_entries:
  "\<forall>e\<in>set es. entry_wf e \<Longrightarrow> c_string n \<Longrightarrow> name_exist_loop n (map entry_line es) \<longleftrightarrow> (\<exists>e\<in>set es. named n e)"
proof (induction es)
  case (Cons e es)
  then show ?case
    using entry_line_facts [of e] entry_tail_facts [of e] by (cases e) (auto simp: strcmp_eq_0)
qed simp

lemma NameExist_entries:
  assumes "\<forall>e\<in>set es. entry_wf e" "c_string n" "deref n \<notin> {NUL, CHR 13, NL}" "fopen_r f = Some (render es)"
  shows "NameExist n f \<longleftrightarrow> (\<exists>e\<in>set es. named n e)"
  using assms by (simp add: NameExist_def render_entry_lines name_exist_entries)

lemma ip_exist_entries:
  "\<forall>e\<in>set es. entry_wf e \<Longrightarrow> c_string a \<Longrightarrow>
     ip_exist_loop a (map entry_line es) = map_option entry_id (find (at_ip a) es)"
proof (induction es)
  case (Cons e es)
  then show ?case
    using entry_line_facts [of e] entry_tail_facts [of e] by (cases e) (auto simp: strcmp_eq_0)
qed simp


section \<open>A free number\<close>

lemma TestBit_bit: "TestBit a p = bit (a ! (p div 32)) (p mod 32)"
  by (simp add: TestBit_def and_exp_eq_0_iff_not_bit)

lemma length_SetBit [simp]: "length (SetBit a p) = length a"
  by (simp add: SetBit_def)

lemma TestBit_SetBit: "p div 32 < length a \<Longrightarrow> TestBit (SetBit a p) q \<longleftrightarrow> p = q \<or> TestBit a q"
proof (cases "p div 32 = q div 32")
  case True
  assume "p div 32 < length a"
  moreover have "p mod 32 = q mod 32 \<longleftrightarrow> p = q"
    using True by (metis div_mult_mod_eq)
  ultimately show ?thesis
    using True by (auto simp: TestBit_bit SetBit_def bit_or_iff bit_exp_iff possible_bit_word)
next
  case False
  then show ?thesis
    by (auto simp: TestBit_bit SetBit_def)
qed

lemma TestBit_clear: "p div 32 < n \<Longrightarrow> \<not> TestBit (replicate n 0) p"
  by (simp add: TestBit_bit)

lemma map_id_entries:
  assumes "\<forall>e\<in>set es. entry_wf e" "m div 32 < length a" "p < m"
  shows "TestBit (map_id_loop m a (map entry_line es)) p \<longleftrightarrow>
     TestBit a p \<or> (\<exists>e\<in>set es. c_atoi (entry_id e) = int (p + AUTHD_FIRST_ID))"
  using assms
proof (induction es arbitrary: a)
  case (Cons e es)
  let ?v = "c_atoi (entry_id e)"
  let ?q = "nat (?v - int AUTHD_FIRST_ID)"
  have IH: "m div 32 < length b \<Longrightarrow> TestBit (map_id_loop m b (map entry_line es)) p \<longleftrightarrow>
     TestBit b p \<or> (\<exists>e\<in>set es. c_atoi (entry_id e) = int (p + AUTHD_FIRST_ID))" for b
    using Cons by simp
  show ?case
  proof (cases "int AUTHD_FIRST_ID \<le> ?v \<and> ?v < int (m + AUTHD_FIRST_ID)")
    case True
    then have "?q div 32 < length a"
      using Cons.prems(2) div_le_mono [of ?q m 32] by linarith
    then show ?thesis
      using True IH [of "SetBit a ?q"] TestBit_SetBit [of ?q a p] Cons.prems entry_line_facts [of e] by auto
  next
    case False
    then show ?thesis
      using IH [of a] Cons.prems entry_line_facts [of e] by auto
  qed
qed simp

lemma c_atoi_dec: "n < 2 ^ 31 \<Longrightarrow> c_atoi (dec_nat n) = int n"
proof -
  assume n: "n < 2 ^ 31"
  obtain c t where d: "dec_nat n = c # t"
    by (cases "dec_nat n") auto
  then have "c_isdigit c" "digits_val 0 (c # t) = n"
    using dec_nat_digits [of n] by auto
  then have "atoi (dec_nat n) = int n"
    using digit_no_space [of c] digit_no_sign [of c] by (simp add: atoi_def d)
  then have "atou (dec_nat n) = of_nat n"
    using n by (simp add: atou_def)
  moreover have "sint (of_nat n :: u32) = signed_take_bit 31 (int n)"
    by (simp add: signed_of_nat)
  ultimately have "c_atoi (dec_nat n) = signed_take_bit 31 (int n)"
    by (simp add: c_atoi_def)
  then show ?thesis
    using n by (simp add: signed_take_bit_int_eq_self)
qed

lemma new_id_fresh:
  assumes "\<forall>e\<in>set es. entry_wf e" "fopen_r f = Some (render es)" "new_id m f = Some nid" "m + AUTHD_FIRST_ID < 10 ^ 7"
  shows "\<exists>i<m. nid = dec_nat (i + AUTHD_FIRST_ID) \<and> nid \<notin> entry_id ` set es"
proof -
  let ?a = "map_id_loop m (replicate (m div 32 + 1) 0) (map entry_line es)"
  obtain i where f: "find (\<lambda>i. \<not> TestBit ?a i) [0..<m] = Some i" and nid: "nid = take 7 (dec_nat (i + AUTHD_FIRST_ID))"
    using assms(2,3) by (auto simp: new_id_def MapIDToBitArray_def render_entry_lines [OF assms(1)] split: option.splits)
  then have i: "i < m" "\<not> TestBit ?a i"
    by (auto simp: find_Some_iff)
  have n: "i + AUTHD_FIRST_ID < 10 ^ 7"
    using i(1) assms(4) by simp
  have "length (dec_nat (i + AUTHD_FIRST_ID)) \<le> 7"
    using n by (intro length_dec_nat) simp_all
  then have e: "nid = dec_nat (i + AUTHD_FIRST_ID)"
    by (simp add: nid)
  have "c_atoi nid = int (i + AUTHD_FIRST_ID)"
    unfolding e using n by (intro c_atoi_dec) simp
  then have "nid \<notin> entry_id ` set es"
    using i map_id_entries [OF assms(1) _ i(1), of "replicate (m div 32 + 1) 0"] by auto
  with i(1) e show ?thesis by blast
qed


section \<open>Adding and removing entries\<close>

text \<open>A name as the enrolment daemon may extend it by a number.\<close>

definition name_field :: "string \<Rightarrow> bool" where
  "name_field n \<longleftrightarrow> field_ok n \<and> hd n \<noteq> CHR 13 \<and> 2 \<le> length n \<and> length n \<le> 131"

lemma valid_name_field: "OS_IsValidName n \<Longrightarrow> name_field n"
  by (cases n) (auto simp: OS_IsValidName_def name_field_def field_ok_def c_isalnum_def c_isdigit_def list_all_iff)

lemma digits_field: "list_all c_isdigit i \<Longrightarrow> i \<noteq> [] \<Longrightarrow> field_ok i \<and> i \<noteq> SENDER_COUNTER"
  by (cases i) (auto simp: field_ok_def c_isdigit_def list_all_iff SENDER_COUNTER_def)

lemma md5_hex_xdigits: "list_all c_isxdigit (md5_hex d)"
proof -
  have "c_isxdigit (hex_digit n)" if "n < 16" for n
    using that by (auto simp: hex_digit_def c_isxdigit_def c_isdigit_def)
  moreover have "byte c div 16 < (16::nat)" "byte c mod 16 < (16::nat)" for c
    using byte_less_256 [of c] by linarith+
  ultimately show ?thesis
    by (auto simp: md5_hex_def list_all_iff)
qed

lemma new_key_hash:
  assumes "length (md5_in stack) = 64"
  shows "OS_IsValidAgentKeyHash (new_key stack name ip nid r)"
proof -
  have "OS_MD5_Str stack (take (STR_SIZE - 1) s) = md5_hex (md5_spec (take (STR_SIZE - 1) s))" for s
    using assms by (intro OS_MD5_Str_digest) (auto simp: STR_SIZE_def)
  then show ?thesis
    unfolding OS_IsValidAgentKeyHash_def new_key_def Let_def by (simp only:) (simp add: md5_hex_xdigits)
qed

lemma hash_chars: "OS_IsValidAgentKeyHash h \<Longrightarrow> NL \<notin> set h \<and> NUL \<notin> set h \<and> CHR '' '' \<notin> set h \<and> length h = 64"
  by (auto simp: OS_IsValidAgentKeyHash_def list_all_iff c_isxdigit_def c_isdigit_def)

definition ip_field :: "string option \<Rightarrow> bool" where
  "ip_field ip \<longleftrightarrow> field_ok (or_any ip) \<and> length (or_any ip) \<le> 45 \<and> CHR 39 \<notin> set (or_any ip)"

lemma new_entry_wf:
  assumes "name_field name" "ip_field ip" "field_ok i" "i \<noteq> SENDER_COUNTER" "length i \<le> 8" "OS_IsValidAgentKeyHash key"
  shows "entry_wf (Agent i name (or_any ip) key)"
  using hash_chars [OF assms(6)] assms(1-5)
  by (auto simp: entry_wf_def ip_field_def KEYSIZE_def FILE_SIZE_def tombstone_def name_field_def)

lemma render_Cons: "render (e # es) = entry_text e @ NL # render es"
  by (simp add: render_def)

lemma render_append: "render (a @ b) = render a @ render b"
  by (simp add: render_def)

lemma render_snoc: "render (es @ [e]) = render es @ entry_text e @ [NL]"
  by (simp add: render_def)

text \<open>What a caller may ask for as a number: none, or one that it has checked.\<close>

definition id_free :: "string option \<Rightarrow> key_entry list \<Rightarrow> bool" where
  "id_free aid es \<longleftrightarrow> (\<forall>i. aid = Some i \<longrightarrow> OS_IsValidID (Some i) \<and> i \<noteq> [] \<and> i \<notin> entry_id ` set es)"

lemma OS_AddNewAgent_entries:
  assumes "\<forall>e\<in>set es. entry_wf e" "fopen_r f = Some (render es)" "length (md5_in stack) = 64" "m + AUTHD_FIRST_ID < 10 ^ 7"
    and "name_field name" "ip_field ip" "id_free aid es"
    and "OS_AddNewAgent stack m rnd name ip aid f = (Some finals, f')"
  shows "\<exists>nid key. entry_wf (Agent nid name (or_any ip) key) \<and> nid \<notin> entry_id ` set es \<and> OS_IsValidID (Some nid)
    \<and> OS_IsValidAgentKeyHash key \<and> finals = entry_text (Agent nid name (or_any ip) key)
    \<and> f' = f\<lparr>af_text := Some (render (es @ [Agent nid name (or_any ip) key]))\<rparr> \<and> length (filter live es) + 3 < m"
proof -
  have t: "af_text f = Some (render es)"
    using assms(2) by (auto simp: fopen_r_def split: if_splits)
  obtain nid r where nid: "(case aid of None \<Rightarrow> new_id m f | Some i \<Rightarrow> Some i) = Some nid"
      and f': "finals = take 2047 (nid @ '' '' @ name @ '' '' @ or_any ip @ '' '' @ new_key stack name ip nid r)"
        "f' = f\<lparr>af_text := Some (render es @ finals @ [NL])\<rparr>"
      and c: "\<not> int (CountAgents f) \<ge> int m - 3"
    using assms(8) t by (auto simp: OS_AddNewAgent_def fopen_a_def Let_def split: if_splits option.splits)
  have i: "OS_IsValidID (Some nid)" "nid \<noteq> []" "nid \<notin> entry_id ` set es"
  proof -
    have "OS_IsValidID (Some nid) \<and> nid \<noteq> [] \<and> nid \<notin> entry_id ` set es"
    proof (cases aid)
      case None
      then have "new_id m f = Some nid"
        using nid by simp
      from new_id_fresh [OF assms(1,2) this assms(4)] obtain k where k: "k < m" "nid = dec_nat (k + AUTHD_FIRST_ID)"
        "nid \<notin> entry_id ` set es" by blast
      have "length nid \<le> 7"
        unfolding k(2) using k(1) assms(4) by (intro length_dec_nat) simp_all
      then show ?thesis
        using k dec_nat_digits [of "k + AUTHD_FIRST_ID"] by (simp add: OS_IsValidID_def list_all_iff)
    qed (use nid assms(7) in \<open>simp add: id_free_def\<close>)
    then show "OS_IsValidID (Some nid)" "nid \<noteq> []" "nid \<notin> entry_id ` set es" by simp_all
  qed
  let ?key = "new_key stack name ip nid r"
  let ?e = "Agent nid name (or_any ip) ?key"
  have h: "OS_IsValidAgentKeyHash ?key"
    by (rule new_key_hash [OF assms(3)])
  have w: "entry_wf ?e"
    using digits_field [of nid] i(1,2) by (intro new_entry_wf [OF assms(5,6) _ _ _ h]) (auto simp: OS_IsValidID_def)
  have "length (entry_text ?e) \<le> 2047"
    using w by (simp add: entry_wf_def FILE_SIZE_def)
  then have "finals = entry_text ?e"
    unfolding f'(1) by (subst take_all) simp_all
  moreover have "length (filter live es) + 3 < m"
    using c CountAgents_entries [OF assms(1,2)] by linarith
  ultimately show ?thesis
    using w i h f'(2) by (intro exI [of _ nid] exI [of _ ?key]) (simp add: render_snoc)
qed

definition removed :: "key_entry \<Rightarrow> key_entry" where
  "removed e = Dead (entry_id e) (''*#*#*#*#*#*#*#*#*#*#'' @ drop (length (tombstone (entry_id e))) (entry_text e))"

lemma removed_text:
  "entry_text (removed e) = tombstone (entry_id e) @ drop (length (tombstone (entry_id e))) (entry_text e)"
  by (simp add: removed_def tombstone_def)

lemma removed_wf: "entry_wf e \<Longrightarrow> entry_wf (removed e)"
  using entry_text_chars [of e]
  by (auto simp: entry_wf_def removed_text) (auto simp: removed_def tombstone_def dest: in_set_dropD)

lemma poke_mid: "length s \<le> length b \<Longrightarrow> poke (a @ b @ c) (length a) s = a @ s @ drop (length s) b @ c"
  by (simp add: poke_def)

lemma render_split:
  assumes "i < length es"
  shows "render es = render (take i es) @ entry_text (es ! i) @ NL # render (drop (Suc i) es)"
    "render (es[i := x]) = render (take i es) @ entry_text x @ NL # render (drop (Suc i) es)"
  using arg_cong [OF id_take_nth_drop [OF assms], of render] assms
  by (simp_all add: render_append render_Cons upd_conv_take_nth_drop)

lemma OS_RemoveAgent_entries:
  assumes "\<forall>e\<in>set es. entry_wf e" "fopen_rw f = Some (render es)" "c_string u_id"
  shows "OS_RemoveAgent u_id f fs =
    (case first_pos (\<lambda>e. entry_id e = u_id) es of
       None \<Rightarrow> (False, f, fs)
     | Some i \<Rightarrow> (True, f\<lparr>af_text := Some (render (es[i := removed (es ! i)]))\<rparr>, OS_RemoveCounter fs u_id))"
proof -
  have r: "fopen_r f = Some (render es)"
    using assms(2) by (auto simp: fopen_r_def fopen_rw_def split: if_splits)
  show ?thesis
  proof (cases "first_pos (\<lambda>e. entry_id e = u_id) es")
    case (Some i)
    from first_pos_Some [OF Some] have i: "i < length es" "entry_id (es ! i) = u_id" by simp_all
    have w: "entry_wf (es ! i)"
      using assms(1) i(1) by simp
    then have l: "length (tombstone u_id) \<le> length (entry_text (es ! i))"
      using i(2) by (simp add: entry_wf_def)
    have "poke (render es) (length (render (take i es))) (tombstone u_id) = render (es[i := removed (es ! i)])"
      unfolding render_split [OF i(1)] removed_text i(2)
      using poke_mid [OF l, of "render (take i es)" "NL # render (drop (Suc i) es)"] by simp
    then show ?thesis
      using Some IDExist_entries [OF assms(1,3) r] assms(2) by (simp add: OS_RemoveAgent_def)
  qed (use IDExist_entries [OF assms(1,3) r] in \<open>simp add: OS_RemoveAgent_def\<close>)
qed


section \<open>The proposed number\<close>

lemma default_id_loop_above:
  "default_id_loop i f < j \<Longrightarrow> j \<le> i \<Longrightarrow> IDExist (Some (take 7 (fmt_03d (int j)))) f = None"
proof (induction i f rule: default_id_loop.induct)
  case (1 i f)
  then show ?case
    by (cases "j = i") (auto simp: default_id_loop.simps [of i f] split: if_splits nat.splits)
qed

lemma default_id_free:
  "default_id_loop (m + 32512) f < m + 32512 \<Longrightarrow> IDExist (Some (default_id m f)) f = None"
  using default_id_loop_above [of "m + 32512" f "Suc (default_id_loop (m + 32512) f)"]
  by (simp add: default_id_def ac_simps)

end
