(* ===== verification/Enrol.thy ===== *)
theory Enrol
  imports Key_Admin
begin

text \<open>
  Enrolment: the request of \<^verbatim>\<open>os_auth/main-client.c\<close>, its handling by \<^verbatim>\<open>os_auth/auth_conn.c\<close> and what
  the client makes of the answer. The TLS connection is the list of messages written. On top of it
  the life of a key file: enrolments, agents added by hand and removals in any order.
\<close>

section \<open>The request\<close>

definition agent_auth_request :: "string option \<Rightarrow> string \<Rightarrow> string option" where
  "agent_auth_request authpass agentname =
     (let req = (case authpass of
                   Some pw \<Rightarrow> ''OSSEC PASS: '' @ pw @ '' OSSEC A:'' @ CHR 39 # agentname @ [CHR 39, NL]
                 | None \<Rightarrow> ''OSSEC A:'' @ CHR 39 # agentname @ [CHR 39, NL])
      in if length req \<ge> 4097 then None else Some req)"

text \<open>The agent name in a request, behind the password if one is set: a wrong password, no request, or
  the name.\<close>

datatype auth_parse = Bad_Password | Bad_Request | Request string

definition parse_name :: "string \<Rightarrow> auth_parse" where
  "parse_name tmpstr =
     (if strncmp tmpstr (''OSSEC A:'' @ [CHR 39]) 9 = 0
      then (let s = drop 9 tmpstr in if CHR 39 \<in> set s then Request (until (CHR 39) s) else Bad_Request)
      else Bad_Request)"

definition parse_request :: "string option \<Rightarrow> string \<Rightarrow> auth_parse" where
  "parse_request authpass buf =
     (case authpass of
        None \<Rightarrow> parse_name buf
      | Some pw \<Rightarrow>
          if strncmp buf ''OSSEC PASS: '' 12 \<noteq> 0 then Bad_Password
          else (let t = drop 12 buf in
            if length t > length pw \<and> strncmp t pw (length pw) = 0 then
              (let u = drop (length pw) t in if deref u = CHR '' '' then parse_name (tl u) else Bad_Password)
            else Bad_Password))"

section \<open>Its handling\<close>

text \<open>A name that is not in the file: the one asked for, or with a number behind it.\<close>

function unique_name :: "auth_file \<Rightarrow> string \<Rightarrow> nat \<Rightarrow> string \<Rightarrow> string option" where
  "unique_name f agentname acount fname =
     (if NameExist fname f
      then (if acount + 1 > 256 then None
            else unique_name f agentname (acount + 1) (take 2047 (agentname @ dec_nat acount)))
      else Some fname)"
  by pat_completeness auto
termination unique_name
  by (relation "measure (\<lambda>(f, a, acount, n). 256 - acount)") auto

declare unique_name.simps [simp del]

definition response :: "string \<Rightarrow> string" where
  "response s = take 2047 (s @ [NL, NL])"

definition unable :: string where
  "unable = response ''ERROR: Unable to add agent.''"

text \<open>\<open>auth_connection_worker\<close> behind the handshake: the messages it writes and the file.\<close>

definition auth_connection_worker ::
    "MD5Context \<Rightarrow> nat \<Rightarrow> string option \<Rightarrow> bool \<Rightarrow> string \<Rightarrow> string \<Rightarrow> string option \<Rightarrow> auth_file
     \<Rightarrow> string list \<times> auth_file" where
  "auth_connection_worker stack max_agents authpass use_ip_address srcip buf rnd f =
     (case parse_request authpass buf of
        Request agentname \<Rightarrow>
          if \<not> OS_IsValidName agentname then ([response (''ERROR: Invalid agent name: '' @ agentname), unable], f)
          else (case unique_name f agentname 2 (take 2048 agentname) of
            None \<Rightarrow> ([response (''ERROR: Invalid agent name: '' @ agentname), unable], f)
          | Some fname \<Rightarrow>
              (case IPExist (Some srcip) f of
                 Some check \<Rightarrow> ([response (''ERROR: Invalid IP address: '' @ check), unable], f)
               | None \<Rightarrow>
                   (case OS_AddNewAgent stack max_agents rnd fname (if use_ip_address then Some srcip else None) None f of
                      (None, f1) \<Rightarrow>
                        ([response (''ERROR: Internal manager error adding agent: '' @ fname), unable], f1)
                    | (Some finalkey, f1) \<Rightarrow> ([response (''OSSEC K:'' @ CHR 39 # finalkey @ [CHR 39])], f1))))
      | _ \<Rightarrow> ([], f))"

section \<open>The answer\<close>

text \<open>What the client does with a message: report it, leave, or install its key file.\<close>

datatype client_action = Report | Leave | Install string | Nothing

definition agent_auth_answer :: "pton \<Rightarrow> string \<Rightarrow> client_action" where
  "agent_auth_answer p buf =
     (if strncmp buf ''ERROR'' 5 = 0 then Report
      else if strncmp buf (''OSSEC K:'' @ [CHR 39]) 9 = 0 then
        (let key = drop 9 buf in
         if CHR 39 \<notin> set key then Leave
         else (let k = until (CHR 39) key in
               if OS_IsValidAgentKey p (Some k) then Install (k @ [NL]) else Leave))
      else Nothing)"

section \<open>A history of the key file\<close>

text \<open>What \<^verbatim>\<open>manage_agents.c\<close> and \<^verbatim>\<open>manage_keys.c\<close> append once they have a name, a number and an
  address: unlike \<open>OS_AddNewAgent\<close> they do not count the agents.\<close>

definition append_agent :: "MD5Context \<Rightarrow> string option \<Rightarrow> string \<Rightarrow> string \<Rightarrow> string \<Rightarrow> auth_file \<Rightarrow> auth_file" where
  "append_agent stack rnd name ip nid f =
     (case (fopen_a f, rnd) of
        (Some t, Some r) \<Rightarrow>
          f\<lparr>af_text := Some (t @ nid @ '' '' @ name @ '' '' @ ip @ '' '' @ new_key stack name (Some ip) nid r @ [NL])\<rparr>
      | _ \<Rightarrow> f)"

text \<open>An agent added by hand or in bulk, with the number that \<^verbatim>\<open>manage_agents\<close> has checked; a request of an agent;
  a removal.\<close>

datatype admin =
  By_Hand string string string "string option"
| By_Authd "string option" bool string string "string option"
| Remove_Agent string

record admin_state =
  ad_file :: auth_file
  ad_rids :: rids_fs

definition admin_step :: "MD5Context \<Rightarrow> nat \<Rightarrow> admin \<Rightarrow> admin_state \<Rightarrow> admin_state" where
  "admin_step stack m op st =
     (case op of
        By_Hand name ip nid rnd \<Rightarrow>
          if NameExist name (ad_file st) \<or> \<not> OS_IsValidName name \<or> IDExist (Some nid) (ad_file st) \<noteq> None
             \<or> \<not> OS_IsValidID (Some nid) \<or> nid = [] then st
          else st\<lparr>ad_file := append_agent stack rnd name ip nid (ad_file st)\<rparr>
      | By_Authd authpass use_ip srcip buf rnd \<Rightarrow>
          st\<lparr>ad_file := snd (auth_connection_worker stack m authpass use_ip srcip buf rnd (ad_file st))\<rparr>
      | Remove_Agent u_id \<Rightarrow>
          (let (ok, f, fs) = OS_RemoveAgent u_id (ad_file st) (ad_rids st)
           in st\<lparr>ad_file := f, ad_rids := fs\<rparr>))"


section \<open>The invariant of the file\<close>

fun live_names :: "key_entry list \<Rightarrow> string list" where
  "live_names [] = []"
| "live_names (Agent _ name _ _ # es) = name # live_names es"
| "live_names (Dead _ _ # es) = live_names es"

lemma live_names_append: "live_names (a @ b) = live_names a @ live_names b"
  by (induction a rule: live_names.induct) simp_all

lemma live_names_named: "(\<exists>e\<in>set es. named n e) \<longleftrightarrow> n \<in> set (live_names es)"
  by (induction es rule: live_names.induct) auto

definition registry :: "auth_file \<Rightarrow> key_entry list \<Rightarrow> bool" where
  "registry f es \<longleftrightarrow> af_read f \<and> af_text f = Some (render es) \<and> (\<forall>e\<in>set es. entry_wf e)
     \<and> distinct (map entry_id es) \<and> distinct (live_names es)"

lemma registry_read: "registry f es \<Longrightarrow> fopen_r f = Some (render es)"
  by (simp add: registry_def fopen_r_def)

lemma registry_add:
  assumes "registry f es" "entry_wf (Agent nid name ip key)" "nid \<notin> entry_id ` set es" "name \<notin> set (live_names es)"
  shows "registry (f\<lparr>af_text := Some (render (es @ [Agent nid name ip key]))\<rparr>) (es @ [Agent nid name ip key])"
  using assms by (auto simp: registry_def live_names_append)

lemma registry_remove:
  assumes "registry f es" "i < length es"
  shows "registry (f\<lparr>af_text := Some (render (es[i := removed (es ! i)]))\<rparr>) (es[i := removed (es ! i)])"
proof -
  have w: "entry_wf (removed (es ! i))"
    using assms by (intro removed_wf) (simp add: registry_def)
  have "map entry_id (es[i := removed (es ! i)]) = map entry_id es"
    using assms(2) by (simp add: map_update removed_def list_update_same_conv)
  moreover have "distinct (live_names (es[i := removed (es ! i)]))"
  proof -
    have "distinct (live_names (take i es @ [es ! i] @ drop (Suc i) es))"
      using assms id_take_nth_drop [OF assms(2)] by (simp add: registry_def)
    then show ?thesis
      using assms(2) by (cases "es ! i") (auto simp: upd_conv_take_nth_drop live_names_append removed_def)
  qed
  moreover have "\<forall>e\<in>set (es[i := removed (es ! i)]). entry_wf e"
    using assms w set_update_subset_insert [of es i "removed (es ! i)"] by (auto simp: registry_def)
  ultimately show ?thesis
    using assms(1) by (simp add: registry_def)
qed

lemma name_free:
  assumes "registry f es" "name_field n" "\<not> NameExist n f"
  shows "n \<notin> set (live_names es)"
proof -
  have "c_string n" "deref n \<notin> {NUL, CHR 13, NL}"
    using assms(2) by (cases n; auto simp: name_field_def field_ok_def c_string_def)+
  then show ?thesis
    using assms NameExist_entries [OF _ _ _ registry_read [OF assms(1)]] live_names_named
    by (simp add: registry_def)
qed

lemma unique_name_free: "unique_name f a c n0 = Some n \<Longrightarrow> \<not> NameExist n f"
  by (induction f a c n0 rule: unique_name.induct) (auto simp: unique_name.simps split: if_splits)

lemma numbered_name:
  assumes "OS_IsValidName a" "c \<le> 256"
  shows "name_field (take 2047 (a @ dec_nat c))"
proof -
  have "length (dec_nat c) \<le> 3"
    using assms(2) by (intro length_dec_nat) simp_all
  moreover have "length a \<le> 128" "name_field a"
    using assms(1) valid_name_field by (auto simp: OS_IsValidName_def)
  moreover have "x \<notin> set (dec_nat c)" if "\<not> c_isdigit x" for x
    using that dec_nat_digits [of c] by auto
  then have "CHR '' '' \<notin> set (dec_nat c)" "NL \<notin> set (dec_nat c)" "NUL \<notin> set (dec_nat c)"
    by (simp_all add: c_isdigit_def)
  ultimately show ?thesis
    by (auto simp: name_field_def field_ok_def)
qed

lemma unique_name_field:
  "unique_name f a c n0 = Some n \<Longrightarrow> OS_IsValidName a \<Longrightarrow> name_field n0 \<Longrightarrow> c \<le> 256 \<Longrightarrow> name_field n"
proof (induction f a c n0 rule: unique_name.induct)
  case (1 f a c n0)
  then show ?case
    using numbered_name [of a c] by (auto simp: unique_name.simps [of f a c n0] split: if_splits)
qed

lemma append_agent_entries:
  assumes "registry f es" "OS_IsValidName name" "ip_field (Some ip)" "OS_IsValidID (Some nid)" "nid \<noteq> []"
    "nid \<notin> entry_id ` set es" "name \<notin> set (live_names es)" "length (md5_in stack) = 64"
  shows "\<exists>es'. registry (append_agent stack rnd name ip nid f) (es @ es')"
proof (cases "append_agent stack rnd name ip nid f = f")
  case True
  then show ?thesis
    using assms(1) by (intro exI [of _ "[]"]) simp
next
  case False
  then obtain r where r: "rnd = Some r" "fopen_a f = Some (render es)"
    using assms(1) by (auto simp: append_agent_def registry_def fopen_a_def split: option.splits if_splits)
  let ?e = "Agent nid name ip (new_key stack name (Some ip) nid r)"
  have "entry_wf (Agent nid name (or_any (Some ip)) (new_key stack name (Some ip) nid r))"
    using digits_field [of nid] assms(4,5)
    by (intro new_entry_wf [OF valid_name_field [OF assms(2)] assms(3) _ _ _ new_key_hash [OF assms(8)]])
      (auto simp: OS_IsValidID_def)
  then have "registry (f\<lparr>af_text := Some (render (es @ [?e]))\<rparr>) (es @ [?e])"
    using assms(6,7) by (intro registry_add [OF assms(1)]) (simp_all add: or_any_def)
  moreover have "append_agent stack rnd name ip nid f = f\<lparr>af_text := Some (render (es @ [?e]))\<rparr>"
    using r by (simp add: append_agent_def render_snoc)
  ultimately show ?thesis by metis
qed

lemma worker_entries:
  assumes "registry f es" "length (md5_in stack) = 64" "m + AUTHD_FIRST_ID < 10 ^ 7" "use_ip \<longrightarrow> ip_field (Some srcip)"
    and w: "auth_connection_worker stack m authpass use_ip srcip buf rnd f = (out, f')"
  shows "f' = f \<or> (\<exists>nid name ip key agentname.
     registry f' (es @ [Agent nid name (or_any ip) key]) \<and> length (filter live es) + 3 < m
     \<and> out = [response (''OSSEC K:'' @ CHR 39 # entry_text (Agent nid name (or_any ip) key) @ [CHR 39])]
     \<and> parse_request authpass buf = Request agentname \<and> OS_IsValidName agentname
     \<and> ip = (if use_ip then Some srcip else None) \<and> OS_IsValidID (Some nid) \<and> OS_IsValidAgentKeyHash key
     \<and> unique_name f agentname 2 (take 2048 agentname) = Some name)"
proof (cases "f' = f")
  case False
  let ?ip = "if use_ip then Some srcip else None"
  obtain a name finals where a: "parse_request authpass buf = Request a" "OS_IsValidName a"
      "unique_name f a 2 (take 2048 a) = Some name"
      "OS_AddNewAgent stack m rnd name ?ip None f = (Some finals, f')"
      "out = [response (''OSSEC K:'' @ CHR 39 # finals @ [CHR 39])]"
    using w False
    by (auto simp: auth_connection_worker_def OS_AddNewAgent_def Let_def
        split: auth_parse.splits if_splits option.splits prod.splits)
  have "length a \<le> 128"
    using a(2) by (simp add: OS_IsValidName_def)
  then have n: "name_field name" "\<not> NameExist name f"
    using unique_name_field [OF a(3,2)] valid_name_field [OF a(2)] unique_name_free [OF a(3)] by simp_all
  have i: "ip_field ?ip"
    using assms(4) by (simp add: ip_field_def or_any_def field_ok_def)
  from OS_AddNewAgent_entries [OF _ registry_read [OF assms(1)] assms(2,3) n(1) i _ a(4)] assms(1)
  obtain nid key where e: "entry_wf (Agent nid name (or_any ?ip) key)" "nid \<notin> entry_id ` set es" "OS_IsValidID (Some nid)"
      "OS_IsValidAgentKeyHash key" "finals = entry_text (Agent nid name (or_any ?ip) key)"
      "f' = f\<lparr>af_text := Some (render (es @ [Agent nid name (or_any ?ip) key]))\<rparr>" "length (filter live es) + 3 < m"
    by (auto simp: registry_def id_free_def)
  have "registry f' (es @ [Agent nid name (or_any ?ip) key])"
    unfolding e(6) by (rule registry_add [OF assms(1) e(1,2) name_free [OF assms(1) n]])
  then show ?thesis
    using a e by blast
qed simp


section \<open>Histories\<close>

definition admin_ok :: "admin \<Rightarrow> bool" where
  "admin_ok op =
     (case op of
        By_Hand name ip nid rnd \<Rightarrow> ip_field (Some ip)
      | By_Authd authpass use_ip srcip buf rnd \<Rightarrow> use_ip \<longrightarrow> ip_field (Some srcip)
      | Remove_Agent u_id \<Rightarrow> c_string u_id)"

definition admin_run :: "MD5Context \<Rightarrow> nat \<Rightarrow> admin list \<Rightarrow> admin_state \<Rightarrow> admin_state" where
  "admin_run stack m ops st = fold (admin_step stack m) ops st"

lemma admin_step_registry:
  assumes r: "registry (ad_file st) es" and ok: "admin_ok op" and s: "length (md5_in stack) = 64" "m + AUTHD_FIRST_ID < 10 ^ 7"
  shows "\<exists>es' ids. registry (ad_file (admin_step stack m op st)) es' \<and> map entry_id es' = map entry_id es @ ids"
proof -
  let ?goal = "\<lambda>f. \<exists>es' ids. registry f es' \<and> map entry_id es' = map entry_id es @ ids"
  have same: "?goal (ad_file st)"
    using r by (intro exI [of _ es] exI [of _ "[]"]) simp
  have more: "?goal f" if "registry f (es @ es')" for f es'
    using that by (intro exI [of _ "es @ es'"] exI [of _ "map entry_id es'"]) simp
  show ?thesis
  proof (cases op)
    case (By_Hand name ip nid rnd)
    show ?thesis
    proof (cases "admin_step stack m op st = st")
      case False
      then have g: "\<not> NameExist name (ad_file st)" "OS_IsValidName name" "IDExist (Some nid) (ad_file st) = None"
          "OS_IsValidID (Some nid)" "nid \<noteq> []"
          "ad_file (admin_step stack m op st) = append_agent stack rnd name ip nid (ad_file st)"
        by (auto simp: By_Hand admin_step_def split: if_splits)
      have "c_string nid"
        using g(4) by (auto simp: OS_IsValidID_def list_all_iff c_string_def c_isdigit_def)
      then have "nid \<notin> entry_id ` set es"
        using g(3) IDExist_entries [OF _ _ registry_read [OF r]] r
        by (auto simp: registry_def first_pos_None)
      from append_agent_entries [OF r g(2) _ g(4,5) this name_free [OF r valid_name_field [OF g(2)] g(1)] s(1), of ip rnd]
      show ?thesis
        using ok more unfolding g(6) by (auto simp: By_Hand admin_ok_def)
    qed (use same in simp)
  next
    case (By_Authd authpass use_ip srcip buf rnd)
    obtain out f' where w: "auth_connection_worker stack m authpass use_ip srcip buf rnd (ad_file st) = (out, f')"
      by force
    have "use_ip \<longrightarrow> ip_field (Some srcip)"
      using ok by (simp add: By_Authd admin_ok_def)
    from worker_entries [OF r s this w] show ?thesis
      using same more by (auto simp: By_Authd admin_step_def w)
  next
    case (Remove_Agent u_id)
    show ?thesis
    proof (cases "admin_step stack m op st = st")
      case False
      have u: "c_string u_id"
        using ok by (simp add: Remove_Agent admin_ok_def)
      have "fopen_rw (ad_file st) \<noteq> None"
        using False by (auto simp: Remove_Agent admin_step_def OS_RemoveAgent_def split: option.splits)
      then have "fopen_rw (ad_file st) = Some (render es)"
        using r by (auto simp: fopen_rw_def registry_def split: if_splits)
      from OS_RemoveAgent_entries [OF _ this u, of "ad_rids st"] r
      have e: "OS_RemoveAgent u_id (ad_file st) (ad_rids st) =
          (case first_pos (\<lambda>e. entry_id e = u_id) es of
             None \<Rightarrow> (False, ad_file st, ad_rids st)
           | Some i \<Rightarrow> (True, (ad_file st)\<lparr>af_text := Some (render (es[i := removed (es ! i)]))\<rparr>,
               OS_RemoveCounter (ad_rids st) u_id))"
        by (simp add: registry_def)
      then obtain i where i: "first_pos (\<lambda>e. entry_id e = u_id) es = Some i"
        using False by (auto simp: Remove_Agent admin_step_def split: option.splits)
      have l: "i < length es"
        using first_pos_Some [OF i] by simp
      have "map entry_id (es[i := removed (es ! i)]) = map entry_id es"
        using l by (simp add: map_update removed_def list_update_same_conv)
      then show ?thesis
        using registry_remove [OF r l] e i
        by (intro exI [of _ "es[i := removed (es ! i)]"] exI [of _ "[]"]) (simp add: Remove_Agent admin_step_def)
    qed (use same in simp)
  qed
qed

lemma admin_run_registry:
  assumes "length (md5_in stack) = 64" "m + AUTHD_FIRST_ID < 10 ^ 7"
  shows "registry (ad_file st) es \<Longrightarrow> \<forall>op\<in>set ops. admin_ok op \<Longrightarrow>
    \<exists>es' ids. registry (ad_file (admin_run stack m ops st)) es' \<and> map entry_id es' = map entry_id es @ ids"
proof (induction ops arbitrary: st es)
  case Nil
  then show ?case
    by (intro exI [of _ es] exI [of _ "[]"]) (simp add: admin_run_def)
next
  case (Cons op ops)
  obtain es1 ids1 where 1: "registry (ad_file (admin_step stack m op st)) es1" "map entry_id es1 = map entry_id es @ ids1"
    using admin_step_registry [OF Cons.prems(1) _ assms, of op] Cons.prems(2) by auto
  from Cons.IH [OF 1(1)] obtain es2 ids2 where
    "registry (ad_file (admin_run stack m ops (admin_step stack m op st))) es2" "map entry_id es2 = map entry_id es1 @ ids2"
    using Cons.prems(2) by auto
  then show ?case
    using 1(2) by (intro exI [of _ es2] exI [of _ "ids1 @ ids2"]) (simp add: admin_run_def)
qed

section \<open>What a reader of the file sees\<close>

text \<open>The numbers and the names that the tools find in the file, those of removed agents included.\<close>

definition numbers :: "string \<Rightarrow> string list" where
  "numbers t = map (until (CHR '' '')) (file_lines t)"

definition names :: "string \<Rightarrow> string list" where
  "names t = map (\<lambda>l. until (CHR '' '') (tl (the (strchr l (CHR '' ''))))) (filter counted (file_lines t))"

lemma numbers_entries: "registry f es \<Longrightarrow> numbers (render es) = map entry_id es"
  by (auto simp: numbers_def registry_def render_entry_lines entry_line_facts)

lemma counted_line: "entry_wf e \<Longrightarrow> counted (entry_line e) = live e"
  using counted_entry [of e] entry_line_facts(6) [of e] by simp

lemma names_entries:
  assumes "registry f es"
  shows "names (render es) = live_names es"
proof -
  have "\<forall>e\<in>set es. entry_wf e \<Longrightarrow>
    map (\<lambda>l. until (CHR '' '') (tl (the (strchr l (CHR '' ''))))) (filter counted (map entry_line es)) = live_names es"
  proof (induction es rule: live_names.induct)
    case (2 i n ip k es)
    then have w: "entry_wf (Agent i n ip k)" by simp
    from entry_tail_facts(3) [OF w refl] entry_line_facts(3) [OF w] 2 show ?case
      by (simp add: counted_line)
  qed (simp_all add: counted_line)
  then show ?thesis
    using assms by (simp add: names_def registry_def render_entry_lines)
qed

text \<open>
  C25. A number names one agent for ever: whatever the enrolment daemon is asked and whatever is added
  by hand or removed, in any order, every number stands in one line of the key file, the numbers of
  removed agents included, numbers never go away or change their place, and no two agents have the same name. So the
  numbers that \<open>OS_ReadKeys\<close> loads are distinct and none is the name of the counter file of the sent
  messages, which is what the protection against replays rests on.
\<close>

theorem numbers_never_reused:
  assumes "registry (ad_file st) es" "\<forall>op\<in>set ops. admin_ok op"
    and "length (md5_in stack) = 64" "m + AUTHD_FIRST_ID < 10 ^ 7"
  shows "\<exists>t. af_text (ad_file (admin_run stack m ops st)) = Some t
    \<and> distinct (numbers t) \<and> prefix (numbers (render es)) (numbers t) \<and> distinct (names t)
    \<and> distinct (file_ids t) \<and> SENDER_COUNTER \<notin> set (file_ids t)"
proof -
  obtain es' ids where r: "registry (ad_file (admin_run stack m ops st)) es'" "map entry_id es' = map entry_id es @ ids"
    using admin_run_registry [OF assms(3,4,1,2)] by blast
  have "file_ids (render es') = map entry_id (filter live es')"
    using r(1) by (intro file_ids_entries) (simp add: registry_def)
  then have f: "distinct (file_ids (render es'))" "SENDER_COUNTER \<notin> set (file_ids (render es'))"
    using r(1) by (auto simp: registry_def distinct_map_filter entry_wf_def)
  show ?thesis
    using r f numbers_entries [OF assms(1)] numbers_entries [OF r(1)] names_entries [OF r(1)]
    by (intro exI [of _ "render es'"]) (simp add: registry_def)
qed


text \<open>An empty file, an agent added by hand, one that asks, and the removal of the first.\<close>

definition demo_admin :: admin_state where
  "demo_admin = \<lparr>ad_file = \<lparr>af_text = Some [], af_read = True, af_write = True\<rparr>, ad_rids = no_rids\<rparr>"

definition demo_ops :: "admin list" where
  "demo_ops =
     [By_Hand ''web'' ''any'' ''001'' (Some (replicate 64 (CHR ''r''))),
      By_Authd None False ''10.0.0.2'' (''OSSEC A:'' @ CHR 39 # ''db'' @ [CHR 39, NL]) (Some (replicate 64 (CHR ''s''))),
      Remove_Agent ''001'']"

lemma demo_registry: "registry (ad_file demo_admin) []"
  by (simp add: registry_def demo_admin_def render_def)

theorem numbers_never_reused_witness:
  "\<exists>t. af_text (ad_file (admin_run (md5_stack demo_lib) 256 demo_ops demo_admin)) = Some t
    \<and> distinct (numbers t) \<and> prefix (numbers (render [])) (numbers t) \<and> distinct (names t)
    \<and> distinct (file_ids t) \<and> SENDER_COUNTER \<notin> set (file_ids t)"
proof (rule numbers_never_reused [OF demo_registry])
  show "\<forall>op\<in>set demo_ops. admin_ok op"
    by (simp add: demo_ops_def admin_ok_def ip_field_def or_any_def field_ok_def c_string_def)
  show "length (md5_in (md5_stack demo_lib)) = 64"
    by (simp add: demo_lib_def)
  show "256 + AUTHD_FIRST_ID < 10 ^ 7"
    by (simp add: AUTHD_FIRST_ID_def)
qed

section \<open>Loading the file\<close>

text \<open>\<open>read_keys_loop\<close> over the lines.\<close>

fun read_lines :: "crypto_lib \<Rightarrow> pton \<Rightarrow> nat \<Rightarrow> key_line list \<Rightarrow> secmsg_state \<Rightarrow> key_exit + secmsg_state" where
  "read_lines lib p n [] st = Inr st"
| "read_lines lib p n (Key_Line aid name ip key # ls) st =
     (case chash lib p aid name ip key st of
        Inl e \<Rightarrow> Inl e
      | Inr st1 \<Rightarrow> if length (keyentries st1) \<ge> n - 2 then Inl AG_MAX_ERROR else read_lines lib p n ls st1)"
| "read_lines lib p n (_ # ls) st = read_lines lib p n ls st"

lemma read_keys_lines: "read_keys_loop lib p n t st = read_lines lib p n (key_lines t) st"
proof (induction lib p n t st rule: read_keys_loop.induct)
  case (1 lib p n t st)
  show ?case
  proof (cases "t = []")
    case False
    obtain line rest where f: "fgets (OS_BUFFER_SIZE - 1) t = (line, rest)" by force
    show ?thesis
      using 1 [OF False f [symmetric] refl] False f
      by (cases "parse_key_line line")
        (auto simp: read_keys_loop.simps [of lib p n t] key_lines.simps [of t] split: sum.split)
  qed (simp add: read_keys_loop.simps key_lines.simps)
qed

lemma read_lines_append:
  "read_lines lib p n (xs @ ys) st =
     (case read_lines lib p n xs st of Inl e \<Rightarrow> Inl e | Inr st1 \<Rightarrow> read_lines lib p n ys st1)"
proof (induction xs arbitrary: st)
  case (Cons x xs)
  then show ?case
    by (cases x) (auto split: sum.split)
qed simp

fun line_keys :: "crypto_lib \<Rightarrow> key_line list \<Rightarrow> (string \<times> string \<times> string) list" where
  "line_keys lib [] = []"
| "line_keys lib (Key_Line aid name ip key # ls) = (aid, name, final_key lib name aid key) # line_keys lib ls"
| "line_keys lib (_ # ls) = line_keys lib ls"

abbreviation entry_keys :: "keyentry \<Rightarrow> string \<times> string \<times> string" where
  "entry_keys e \<equiv> (ke_id e, ke_name e, ke_key e)"

lemma chash_keys:
  "chash lib p aid name ip key st = Inr st' \<Longrightarrow>
     map entry_keys (keyentries st') = map entry_keys (keyentries st) @ [(aid, name, final_key lib name aid key)]"
  by (auto simp: chash_def Let_def split: if_splits prod.splits)

lemma chash_ok: "fst (OS_IsValidIP p (Some ip) zero_ip) \<noteq> 0 \<Longrightarrow> \<exists>st'. chash lib p aid name ip key st = Inr st'"
  by (auto simp: chash_def Let_def split: prod.split)

lemma read_lines_keys:
  "read_lines lib p n ls st = Inr st' \<Longrightarrow>
     map entry_keys (keyentries st') = map entry_keys (keyentries st) @ line_keys lib ls"
proof (induction lib p n ls st rule: read_lines.induct)
  case (2 lib p n aid name ip key ls st)
  then obtain st1 where c: "chash lib p aid name ip key st = Inr st1" "\<not> n - 2 \<le> length (keyentries st1)"
      "read_lines lib p n ls st1 = Inr st'"
    by (auto split: sum.splits if_splits)
  from 2(1) [OF c(1,2,3)] chash_keys [OF c(1)] show ?case by simp
qed simp_all

lemma OS_ReadKeys_Inr:
  "OS_ReadKeys lib p kf st = Inr st' \<longleftrightarrow> \<not> kf_date kf < 0
    \<and> (\<exists>t h1 h2. kf_text kf = Some t \<and> OSHash_Create (fst (kf_secrets kf)) = Some h1 \<and> OSHash_Create (snd (kf_secrets kf)) = Some h2
       \<and> read_lines lib p (kf_max_agents kf) (key_lines t)
            (st\<lparr>keyentries := [], keyhash_id := Some h1, keyhash_ip := Some h2, file_change := kf_date kf,
                sender_fp := None, sender_inode := 0\<rparr>) = Inr st'
       \<and> (keyentries st' \<noteq> [] \<or> kf_pass_empty kf))"
  by (auto simp: OS_ReadKeys_def read_keys_lines split: if_splits option.splits sum.splits)

lemma OS_ReadKeys_lines:
  assumes "OS_ReadKeys lib p kf st = Inr st'" "kf_text kf = Some t"
  shows "map entry_keys (keyentries st') = line_keys lib (key_lines t)"
  using assms unfolding OS_ReadKeys_Inr by (auto dest: read_lines_keys)

lemma key_lines_entries:
  "\<forall>e\<in>set es. entry_wf e \<Longrightarrow> key_lines (render es) = map (\<lambda>e. parse_key_line (entry_line e)) es"
  by (simp add: key_lines_fgets render_entry_lines FILE_SIZE_def OS_BUFFER_SIZE_def)

lemma parse_agent_line:
  "entry_wf (Agent i name ip key) \<Longrightarrow>
     parse_key_line (entry_line (Agent i name ip key)) = Key_Line i (key_field name) (key_field ip) (key_field key)"
  using parse_key_line_entry [of "Agent i name ip key"] by (simp add: entry_line_def)

lemma request_loads:
  assumes "registry f es" "length (md5_in stack) = 64" "kf_max_agents kf + AUTHD_FIRST_ID < 10 ^ 7"
    and "use_ip \<longrightarrow> ip_field (Some srcip)"
    and "fst (OS_IsValidIP p (Some (or_any (if use_ip then Some srcip else None))) zero_ip) \<noteq> 0"
    and "auth_connection_worker stack (kf_max_agents kf) authpass use_ip srcip buf rnd f = (out, f')"
    and "OS_ReadKeys lib p (kf\<lparr>kf_text := af_text f\<rparr>) st = Inr st1"
  shows "\<exists>st2. OS_ReadKeys lib p (kf\<lparr>kf_text := af_text f'\<rparr>) st = Inr st2"
proof (cases "f' = f")
  case False
  let ?ip = "if use_ip then Some srcip else None" and ?n = "kf_max_agents kf"
  from worker_entries [OF assms(1-4,6)] False obtain nid name key where
    r: "registry f' (es @ [Agent nid name (or_any ?ip) key])" and n: "length (filter live es) + 3 < ?n"
    by blast
  let ?e = "Agent nid name (or_any ?ip) key"
  have w: "entry_wf ?e" "\<forall>e\<in>set es. entry_wf e"
    using r by (simp_all add: registry_def)
  have t: "af_text f = Some (render es)" "af_text f' = Some (render (es @ [?e]))"
    using assms(1) r by (simp_all add: registry_def)
  have "length (or_any ?ip) \<le> 45"
    using assms(4) by (simp add: ip_field_def or_any_def)
  then have ip: "key_field (or_any ?ip) = or_any ?ip"
    by (simp add: key_field_def KEYSIZE_def)
  have l: "key_lines (render (es @ [?e])) = key_lines (render es) @ [Key_Line nid (key_field name) (or_any ?ip) (key_field key)]"
    using w ip by (simp add: key_lines_entries parse_agent_line)
  obtain h1 h2 where h: "OSHash_Create (fst (kf_secrets kf)) = Some h1" "OSHash_Create (snd (kf_secrets kf)) = Some h2"
      "\<not> kf_date kf < 0"
      and 1: "read_lines lib p ?n (key_lines (render es)) (st\<lparr>keyentries := [], keyhash_id := Some h1, keyhash_ip := Some h2,
        file_change := kf_date kf, sender_fp := None, sender_inode := 0\<rparr>) = Inr st1"
    using assms(7) t(1) unfolding OS_ReadKeys_Inr by auto
  have c: "length (keyentries st1) = length (filter live es)"
    using OS_ReadKeys_ids [OF assms(7)] t(1) file_ids_entries [OF w(2)] by (auto dest: map_eq_imp_length_eq)
  obtain st2 where s: "chash lib p nid (key_field name) (or_any ?ip) (key_field key) st1 = Inr st2"
    using chash_ok [OF assms(5)] by blast
  have "length (keyentries st2) = Suc (length (keyentries st1))"
    using arg_cong [OF chash_keys [OF s], of length] by simp
  then have "read_lines lib p ?n (key_lines (render (es @ [?e]))) (st\<lparr>keyentries := [], keyhash_id := Some h1,
      keyhash_ip := Some h2, file_change := kf_date kf, sender_fp := None, sender_inode := 0\<rparr>) = Inr st2"
    using 1 s c n by (simp add: l read_lines_append)
  moreover have "keyentries st2 \<noteq> []"
    using \<open>length (keyentries st2) = Suc (length (keyentries st1))\<close> by auto
  ultimately show ?thesis
    using h t(2) unfolding OS_ReadKeys_Inr by auto
qed (use assms(7) in simp)



section \<open>From the request to the shared key\<close>

lemma unique_name_valid:
  "unique_name f a c n0 = Some n \<Longrightarrow> OS_IsValidName a \<Longrightarrow> length a \<le> 125 \<Longrightarrow> OS_IsValidName n0 \<Longrightarrow> c \<le> 256
     \<Longrightarrow> OS_IsValidName n"
proof (induction f a c n0 rule: unique_name.induct)
  case (1 f a c n0)
  have "length (dec_nat c) \<le> 3"
    using 1(6) by (intro length_dec_nat) simp_all
  then have "OS_IsValidName (take 2047 (a @ dec_nat c))"
    using 1(3,4) dec_nat_digits [of c] by (auto simp: OS_IsValidName_def list_all_iff c_isalnum_def)
  then show ?case
    using 1 by (auto simp: unique_name.simps [of f a c n0] split: if_splits)
qed

lemma no_quote: "OS_IsValidName n \<Longrightarrow> CHR 39 \<notin> set n" "OS_IsValidID (Some i) \<Longrightarrow> CHR 39 \<notin> set i"
  "OS_IsValidAgentKeyHash h \<Longrightarrow> CHR 39 \<notin> set h"
  by (auto simp: OS_IsValidName_def OS_IsValidID_def OS_IsValidAgentKeyHash_def list_all_iff c_isalnum_def c_isdigit_def
      c_isxdigit_def)

lemma strncmp_pw: "c_string pw \<Longrightarrow> strncmp (pw @ t) pw (length pw) = 0"
  by (induction pw) (auto simp: c_string_def)

lemma parse_agent_auth_request:
  assumes "agent_auth_request authpass name = Some req" "OS_IsValidName name" "\<forall>pw. authpass = Some pw \<longrightarrow> c_string pw"
  shows "parse_request authpass req = Request name"
proof -
  let ?q = "''OSSEC A:'' @ CHR 39 # name @ [CHR 39, NL]"
  have q: "parse_name ?q = Request name"
    using no_quote(1) [OF assms(2)] by (simp add: parse_name_def Let_def eval_nat_numeral)
  show ?thesis
  proof (cases authpass)
    case None
    then show ?thesis
      using assms(1) q by (auto simp: agent_auth_request_def parse_request_def Let_def split: if_splits)
  next
    case (Some pw)
    then have r: "req = ''OSSEC PASS: '' @ pw @ CHR '' '' # ?q"
      using assms(1) by (auto simp: agent_auth_request_def Let_def split: if_splits)
    have "strncmp req ''OSSEC PASS: '' 12 = 0" "drop 12 req = pw @ CHR '' '' # ?q"
      unfolding r by (simp_all add: eval_nat_numeral)
    then show ?thesis
      using strncmp_pw [of pw "CHR '' '' # ?q"] Some assms(3) q by (simp add: parse_request_def Let_def)
  qed
qed

lemma skip_spaces_field: "field_ok s \<Longrightarrow> skip_spaces (s @ t) = s @ t"
  by (cases s) (auto simp: skip_spaces_def field_ok_def)

lemma valid_key_line:
  assumes "OS_IsValidID (Some i)" "i \<noteq> []" "OS_IsValidName name" "ip_field ip" "OS_IsValidAgentKeyHash key"
    and "ip \<noteq> None \<longrightarrow> fst (OS_IsValidIP p ip zero_ip) = 1"
  shows "OS_IsValidAgentKey p (Some (entry_text (Agent i name (or_any ip) key)))"
proof -
  have f: "field_ok i" "field_ok name" "field_ok (or_any ip)"
    using assms(1-4) digits_field [of i] valid_name_field [of name] by (auto simp: OS_IsValidID_def name_field_def ip_field_def)
  have k: "CHR '' '' \<notin> set key" "key \<noteq> []" "skip_spaces key = key"
    using hash_chars [OF assms(5)] by (cases key; auto simp: skip_spaces_def)+
  have "strcmp (or_any ip) ''any'' = 0 \<or> fst (OS_IsValidIP p (Some (or_any ip)) zero_ip) = 1"
    using assms(6) by (cases ip) (simp_all add: or_any_def)
  then show ?thesis
    using assms(1,3,5) f k field_ok_chars [OF f(1)] field_ok_chars [OF f(2)] field_ok_chars [OF f(3)]
    by (simp add: OS_IsValidAgentKey_def Let_def strchr_append skip_spaces_field)
qed

lemma answer_installs:
  assumes "OS_IsValidAgentKey p (Some k)" "CHR 39 \<notin> set k" "length k < 2000"
  shows "agent_auth_answer p (response (''OSSEC K:'' @ CHR 39 # k @ [CHR 39])) = Install (k @ [NL])"
proof -
  let ?r = "''OSSEC K:'' @ CHR 39 # k @ [CHR 39, NL, NL]"
  have r: "response (''OSSEC K:'' @ CHR 39 # k @ [CHR 39]) = ?r"
    using assms(3) by (simp add: response_def)
  have "strncmp ?r ''ERROR'' 5 \<noteq> 0" "strncmp ?r (''OSSEC K:'' @ [CHR 39]) 9 = 0" "drop 9 ?r = k @ [CHR 39, NL, NL]"
    by (simp_all add: eval_nat_numeral)
  then show ?thesis
    using assms(1,2) unfolding r agent_auth_answer_def by (simp add: Let_def)
qed



section \<open>An enrolment\<close>

text \<open>The first agent asks a manager with an empty key file, which it may have.\<close>

definition demo_pton :: pton where
  "demo_pton = \<lparr>pton4 = \<lambda>_. None, pton6 = \<lambda>s. if s = ''::'' then Some (replicate 16 0) else None\<rparr>"

definition demo_file :: auth_file where
  "demo_file = \<lparr>af_text = Some [], af_read = True, af_write = True\<rparr>"

definition demo_keys :: key_file where
  "demo_keys = \<lparr>kf_date = 1, kf_text = Some [], kf_secrets = (Some (5, 7), Some (11, 13)), kf_max_agents = 8, kf_pass_empty = True\<rparr>"

definition demo_request :: string where
  "demo_request = ''OSSEC A:'' @ CHR 39 # ''db'' @ [CHR 39, NL]"

definition demo_enrol :: "string list \<times> auth_file" where
  "demo_enrol = auth_connection_worker (md5_stack demo_lib) 8 None False ''10.0.0.2'' demo_request (Some (replicate 64 (CHR ''r''))) demo_file"

lemma demo_file_registry: "registry demo_file []"
  by (simp add: registry_def demo_file_def render_def)

lemma demo_any: "fst (OS_IsValidIP demo_pton (Some ''any'') zero_ip) \<noteq> 0"
  by (simp add: OS_IsValidIP_def without_neg_def Let_def os_pton_sockaddr_def demo_pton_def atoi_def c_isspace_def
      c_isdigit_def digit_val_def)

lemma demo_loads: "\<exists>st. OS_ReadKeys demo_lib demo_pton (demo_keys\<lparr>kf_text := af_text demo_file\<rparr>) demo_state = Inr st"
proof -
  have "\<exists>h. (OSHash_Create (Some (x, y)) :: nat OSHash option) = Some h" for x y
    using os_getprime_pos [of 1024] by (simp add: OSHash_Create_def os_genseed_def Let_def)
  then obtain h1 h2 :: "nat OSHash" where "OSHash_Create (Some (5, 7)) = Some h1" "OSHash_Create (Some (11, 13)) = Some h2"
    by blast
  then show ?thesis
    unfolding OS_ReadKeys_Inr
    by (simp add: demo_keys_def demo_file_def key_lines.simps)
qed


lemma demo_adds: "snd demo_enrol \<noteq> demo_file"
proof -
  have p: "parse_request None demo_request = Request ''db''"
    by (rule parse_agent_auth_request [of None])
      (simp_all add: agent_auth_request_def demo_request_def OS_IsValidName_def c_isalnum_def)
  have "unique_name demo_file ''db'' 2 ''db'' = Some ''db''"
    by (simp add: unique_name.simps NameExist_def fopen_r_def demo_file_def file_lines_def fgets_lines.simps)
  moreover have "IPExist (Some ''10.0.0.2'') demo_file = None"
    by (simp add: IPExist_def fopen_r_def demo_file_def file_lines_def fgets_lines.simps)
  moreover have "\<exists>nid. new_id 8 demo_file = Some nid"
    by (simp add: new_id_def MapIDToBitArray_def fopen_r_def demo_file_def file_lines_def fgets_lines.simps upt_conv_Cons
        TestBit_def)
  moreover have "CountAgents demo_file = 0"
    by (simp add: CountAgents_def fopen_r_def demo_file_def fgets_lines.simps)
  ultimately show ?thesis
    by (auto simp: demo_enrol_def auth_connection_worker_def p OS_IsValidName_def c_isalnum_def c_isdigit_def OS_AddNewAgent_def
        fopen_a_def demo_file_def Let_def)
qed


end
