(* ===== verification/Word_Match.thy ===== *)
theory Word_Match
  imports Prelude_CStr
begin

text \<open>
  \<^verbatim>\<open>os_regex/os_regex.c\<close>: \<open>OS_WordMatch\<close> (also called \<open>OS_Match\<close>), the search for any of
  the words of a pattern \<open>w1|w2|...\<close> in a string, and \<open>_InternalMatch\<close>, the search for one word.
  Letters are compared through the table \<open>charmap\<close> of \<^verbatim>\<open>os_regex_maps.c\<close>. The words are not
  terminated: \<open>_InternalMatch\<close> gets a pointer to the word, the string to search and the word's
  length, and stops at the byte that follows the word (\<open>last_char\<close>).

  The specification is in terms of the words of the pattern: the pattern matches when some word
  occurs in the string up to case, at its beginning if the word starts with \<open>^\<close>, and an empty
  word matches everything.
\<close>

section \<open>The model\<close>

definition charmap_tab :: "nat list" where
  "charmap_tab = [
    0, 1, 2, 3, 4, 5, 6, 7,
    8, 9, 10, 11, 12, 13, 14, 15,
    16, 17, 18, 19, 20, 21, 22, 23,
    24, 25, 26, 27, 28, 29, 30, 31,
    32, 33, 34, 35, 36, 37, 38, 39,
    40, 41, 42, 43, 44, 45, 46, 47,
    48, 49, 50, 51, 52, 53, 54, 55,
    56, 57, 58, 59, 60, 61, 62, 63,
    64, 97, 98, 99, 100, 101, 102, 103,
    104, 105, 106, 107, 108, 109, 110, 111,
    112, 113, 114, 115, 116, 117, 118, 119,
    120, 121, 122, 91, 92, 93, 94, 95,
    96, 97, 98, 99, 100, 101, 102, 103,
    104, 105, 106, 107, 108, 109, 110, 111,
    112, 113, 114, 115, 116, 117, 118, 119,
    120, 121, 122, 123, 124, 125, 126, 127,
    128, 129, 130, 131, 132, 133, 134, 135,
    136, 137, 138, 139, 140, 141, 142, 143,
    144, 145, 146, 147, 148, 149, 150, 151,
    152, 153, 154, 155, 156, 157, 158, 159,
    160, 161, 162, 163, 164, 165, 166, 167,
    168, 169, 170, 171, 172, 173, 174, 175,
    176, 177, 178, 179, 180, 181, 182, 183,
    184, 185, 186, 187, 188, 189, 190, 191,
    192, 193, 194, 195, 196, 197, 198, 199,
    200, 201, 202, 203, 204, 205, 206, 207,
    208, 209, 210, 211, 212, 213, 214, 215,
    216, 217, 218, 219, 220, 221, 222, 223,
    224, 225, 226, 227, 228, 229, 230, 231,
    232, 233, 234, 235, 236, 237, 238, 239,
    240, 241, 242, 243, 244, 245, 246, 247,
    248, 249, 250, 251, 252, 253, 254, 255]"

definition charmap :: "char \<Rightarrow> nat" where
  "charmap c = charmap_tab ! byte c"

datatype scan = Matched | Ended | Mismatch

text \<open>
  The inner \<open>while (*pt != last_char)\<close> loop: \<open>Ended\<close> is its \<open>return (FALSE)\<close> at the end of the
  string, \<open>Mismatch\<close> its \<open>goto error\<close>, and \<open>Matched\<close> leaving the loop.
\<close>

fun match_rest :: "char \<Rightarrow> string \<Rightarrow> string \<Rightarrow> scan" where
  "match_rest last_char pt [] = (if deref pt = last_char then Matched else Ended)"
| "match_rest last_char pt (d # st) =
     (if deref pt = last_char then Matched
      else if charmap (deref pt) \<noteq> charmap d then Mismatch
      else match_rest last_char (tl pt) st)"

text \<open>
  The outer \<open>do ... while (*st)\<close> loop. A mismatch resumes one byte after the place where the
  word was tried.
\<close>

fun match_scan :: "char \<Rightarrow> string \<Rightarrow> string \<Rightarrow> bool" where
  "match_scan last_char pattern [] = False"
| "match_scan last_char pattern (d # st) =
     (if charmap d = charmap (deref pattern) then
        (case match_rest last_char (tl pattern) st of
           Matched \<Rightarrow> True
         | Ended \<Rightarrow> False
         | Mismatch \<Rightarrow> match_scan last_char pattern st)
      else match_scan last_char pattern st)"

definition InternalMatch :: "string \<Rightarrow> string \<Rightarrow> nat \<Rightarrow> bool" where
  "InternalMatch pattern str pattern_size =
     (if pattern_size = 0 then True
      else if deref pattern = CHR ''^'' then
        strncasecmp (tl pattern) str (pattern_size - 1) = 0
      else if deref str = NUL then False
      else match_scan (deref (drop pattern_size pattern)) pattern str)"

text \<open>The loop of \<open>OS_WordMatch\<close>: \<open>count\<close> runs over the word that starts at \<open>pattern\<close>.\<close>

function WordMatch_loop :: "string \<Rightarrow> nat \<Rightarrow> string \<Rightarrow> bool" where
  "WordMatch_loop pattern count str =
     (if deref (drop count pattern) = CHR ''|'' then
        if InternalMatch pattern str count then True
        else if deref (drop (Suc count) pattern) \<noteq> NUL
        then WordMatch_loop (drop (Suc count) pattern) 0 str
        else InternalMatch (drop (Suc count) pattern) str 0
      else if deref (drop (Suc count) pattern) \<noteq> NUL
      then WordMatch_loop pattern (Suc count) str
      else InternalMatch pattern str (Suc count))"
  by pat_completeness auto

lemma deref_drop_ne: "deref (drop n p) \<noteq> NUL \<Longrightarrow> n < length p"
  by (rule ccontr) simp

termination WordMatch_loop
  by (relation "measures [\<lambda>(p, c, s). length p, \<lambda>(p, c, s). length p - c]")
     (auto dest: deref_drop_ne)

declare WordMatch_loop.simps [simp del]

definition OS_WordMatch :: "string \<Rightarrow> string \<Rightarrow> bool" where
  "OS_WordMatch pattern str =
     (if deref pattern = NUL then False else WordMatch_loop pattern 0 str)"

section \<open>The specification\<close>

text \<open>One word against a string, and a pattern's words.\<close>

definition word_matches :: "string \<Rightarrow> string \<Rightarrow> bool" where
  "word_matches w s =
     (case w of
        [] \<Rightarrow> True
      | c # r \<Rightarrow> if c = CHR ''^'' then prefix (map c_tolower r) (map c_tolower s)
                 else sublist (map c_tolower w) (map c_tolower s))"

abbreviation words :: "string \<Rightarrow> string list" where
  "words p \<equiv> split_on (CHR ''|'') p"

section \<open>One word\<close>

text \<open>The table folds the ASCII letters and nothing else.\<close>

lemma charmap_tab_eq:
  "charmap_tab = map (\<lambda>i. if 65 \<le> i \<and> i \<le> 90 then i + 32 else i) [0..<256]"
  by code_simp

lemma charmap_tolower: "charmap c = byte (c_tolower c)"
  by (simp add: charmap_def charmap_tab_eq byte_c_tolower)

lemma charmap_eq [simp]: "charmap c = charmap d \<longleftrightarrow> c_tolower c = c_tolower d"
  by (simp add: charmap_tolower)

lemma match_rest_Matched:
  "l \<notin> set a \<Longrightarrow> deref rest = l \<Longrightarrow>
   match_rest l (a @ rest) st = Matched \<longleftrightarrow> prefix (map c_tolower a) (map c_tolower st)"
proof (induction st arbitrary: a)
  case Nil
  then show ?case by (cases a) auto
next
  case (Cons d st)
  then show ?case by (cases a) auto
qed

lemma match_rest_Ended:
  "l \<notin> set a \<Longrightarrow> deref rest = l \<Longrightarrow> match_rest l (a @ rest) st = Ended \<Longrightarrow> length st < length a"
proof (induction st arbitrary: a)
  case Nil
  then show ?case by (cases a) auto
next
  case (Cons d st)
  then show ?case by (cases a) (auto split: if_splits)
qed

lemma match_scan_sublist:
  assumes "l \<notin> set a" "a \<noteq> []" "deref rest = l"
  shows "match_scan l (a @ rest) st \<longleftrightarrow> sublist (map c_tolower a) (map c_tolower st)"
proof (induction st)
  case Nil
  with assms(2) show ?case by simp
next
  case (Cons d st)
  from assms(2) obtain c b where a: "a = c # b" by (cases a) auto
  have l: "l \<notin> set b" using assms(1) a by simp
  note M = match_rest_Matched [OF l assms(3), of st]
  note E = match_rest_Ended [OF l assms(3), of st]
  show ?case
  proof (cases "match_rest l (b @ rest) st")
    case Ended
    with E have "length st < length b" by simp
    then have "\<not> sublist (map c_tolower a) (map c_tolower (d # st))"
      and "\<not> sublist (map c_tolower a) (map c_tolower st)"
      using a by (auto dest: sublist_length_le)
    with Ended Cons.IH a show ?thesis by auto
  qed (use M Cons.IH a in \<open>auto simp: sublist_Cons_right\<close>)
qed

lemma InternalMatch_word:
  assumes "c_string (w @ rest)" "c_string s" "CHR ''|'' \<notin> set w" "rest = [] \<or> deref rest = CHR ''|''"
  shows "InternalMatch (w @ rest) s (length w) \<longleftrightarrow> word_matches w s"
proof (cases w)
  case Nil
  then show ?thesis by (simp add: InternalMatch_def word_matches_def)
next
  case (Cons c r)
  have l: "deref rest \<notin> set w"
    using assms(1,3,4) by (auto simp: c_string_def)
  show ?thesis
  proof (cases "c = CHR ''^''")
    case True
    have "take (length r) (map c_tolower r @ map c_tolower rest) = take (length r) (map c_tolower s)
      \<longleftrightarrow> prefix (map c_tolower r) (map c_tolower s)"
      by (auto simp: prefix_def) (metis append_take_drop_id)
    with True Cons assms(1,2) show ?thesis
      by (simp add: InternalMatch_def word_matches_def strncasecmp_eq_0 del: take_map)
  next
    case False
    with Cons assms(2) show ?thesis
      using match_scan_sublist [OF l _ refl, of s]
      by (cases s) (auto simp: InternalMatch_def word_matches_def)
  qed
qed

section \<open>The whole pattern\<close>

lemma deref_NUL_iff: "c_string p \<Longrightarrow> deref p = NUL \<longleftrightarrow> p = []"
  by (cases p) auto

lemma drop_at_sep:
  "deref (drop n p) = CHR ''|'' \<Longrightarrow> p = take n p @ CHR ''|'' # drop (Suc n) p"
  using deref_drop_ne [of n p] id_take_nth_drop [of n p]
  by (simp add: Cons_nth_drop_Suc [symmetric])

lemma WordMatch_loop_words:
  "c_string p \<Longrightarrow> c_string s \<Longrightarrow> count < length p \<Longrightarrow> CHR ''|'' \<notin> set (take count p) \<Longrightarrow>
   WordMatch_loop p count s \<longleftrightarrow> (\<exists>w\<in>set (words p). word_matches w s)"
proof (induction p count s rule: WordMatch_loop.induct)
  case (1 p n s)
  let ?w = "take n p" and ?r = "drop (Suc n) p"
  have len: "length ?w = n" using "1.prems" by simp
  have r: "c_string ?r" using "1.prems" by simp
  show ?case
  proof (cases "deref (drop n p) = CHR ''|''")
    case True
    note p = drop_at_sep [OF True]
    have W: "words p = ?w # words ?r"
      by (subst p) (rule split_on_append_sep [OF "1.prems"(4)])
    have I: "InternalMatch p s n \<longleftrightarrow> word_matches ?w s"
      using InternalMatch_word [of ?w "CHR ''|'' # ?r" s] "1.prems" p len by auto
    show ?thesis
    proof (cases "?r = []")
      case True
      with W I \<open>deref (drop n p) = CHR ''|''\<close> show ?thesis
        by (simp add: WordMatch_loop.simps [of p n s] InternalMatch_def word_matches_def)
    next
      case False
      with r have "deref ?r \<noteq> NUL" by (simp add: deref_NUL_iff)
      with "1.IH"(1) "1.prems" True I W False show ?thesis
        by (auto simp: WordMatch_loop.simps [of p n s])
    qed
  next
    case no_sep: False
    show ?thesis
    proof (cases "?r = []")
      case True
      with "1.prems" have n: "length p = Suc n" by simp
      have p: "p = ?w @ [p ! n]"
        using "1.prems"(3) n by (metis take_Suc_conv_app_nth take_all_iff order_refl)
      have "p ! n \<noteq> CHR ''|''"
        using no_sep "1.prems"(3) by (simp add: Cons_nth_drop_Suc [symmetric])
      with "1.prems"(4) have notin: "CHR ''|'' \<notin> set p"
        by (subst p) auto
      have "InternalMatch p s (Suc n) \<longleftrightarrow> word_matches p s"
        using InternalMatch_word [of p "[]" s] notin "1.prems"(1,2) n by simp
      with True no_sep notin show ?thesis
        by (simp add: WordMatch_loop.simps [of p n s])
    next
      case False
      with r have d: "deref ?r \<noteq> NUL" by (simp add: deref_NUL_iff)
      have "p ! n \<noteq> CHR ''|''"
        using no_sep "1.prems"(3) by (simp add: Cons_nth_drop_Suc [symmetric])
      with "1.prems"(3,4) have "CHR ''|'' \<notin> set (take (Suc n) p)"
        by (simp add: take_Suc_conv_app_nth)
      with "1.IH"(2) "1.prems" no_sep d False show ?thesis
        by (auto simp: WordMatch_loop.simps [of p n s])
    qed
  qed
qed

text \<open>
  C39. \<open>OS_WordMatch\<close> decides its documented specification: a nonempty pattern matches a string
  exactly when one of the words between its \<open>|\<close> occurs in it, letters compared without case,
  at the beginning for a word that starts with \<open>^\<close>; an empty word (a trailing, leading or
  doubled \<open>|\<close>) matches every string. In particular the scan never misses an occurrence and
  never runs past the word into the next one.
\<close>

theorem OS_WordMatch_correct:
  assumes "c_string pattern" "c_string str" "pattern \<noteq> []"
  shows "OS_WordMatch pattern str \<longleftrightarrow>
    (\<exists>w\<in>set (split_on (CHR ''|'') pattern). word_matches w str)"
  using assms WordMatch_loop_words [of pattern str 0]
  by (simp add: OS_WordMatch_def deref_NUL_iff)

theorem OS_WordMatch_correct_witness:
  "OS_WordMatch ''fail|^ERR'' ''error: disk'' \<and> \<not> OS_WordMatch ''fail|^disk'' ''error: disk''"
proof -
  have "OS_WordMatch ''fail|^ERR'' ''error: disk''"
    by (subst OS_WordMatch_correct) code_simp+
  moreover have "\<not> OS_WordMatch ''fail|^disk'' ''error: disk''"
    by (subst OS_WordMatch_correct) code_simp+
  ultimately show ?thesis ..
qed

end
