(* ===== verification/Linked.thy ===== *)
theory Linked
  imports "HOL-Library.Monad_Syntax"
begin

text \<open>
  The heap of list nodes that \<^verbatim>\<open>shared/list_op.c\<close>, \<^verbatim>\<open>analysisd/eventinfo_list.c\<close> and
  \<^verbatim>\<open>os_maild/sms_queue.c\<close> work on: cells addressed by numbers, a pointer is \<^term>\<open>None\<close> (NULL) or
  an address. Every access goes through \<^const>\<open>Option.bind\<close>: reading or writing through NULL or
  through a freed cell makes the whole operation \<^term>\<open>None\<close>, so that \<open>= Some _\<close> in a theorem is
  memory safety. \<open>calloc\<close> never fails and never hands out an address twice.
\<close>

record 'd dnode =
  nxt :: "nat option"
  prv :: "nat option"
  dat :: 'd

record 'd mem =
  cells :: "nat \<Rightarrow> 'd dnode option"
  brk :: nat

definition mem_ok :: "'d mem \<Rightarrow> bool" where
  "mem_ok h \<longleftrightarrow> (\<forall>a. cells h a \<noteq> None \<longrightarrow> a < brk h)"

definition malloc :: "'d mem \<Rightarrow> 'd dnode \<Rightarrow> nat \<times> 'd mem" where
  "malloc h n = (brk h, h\<lparr>cells := (cells h)(brk h \<mapsto> n), brk := brk h + 1\<rparr>)"

definition free :: "'d mem \<Rightarrow> nat option \<Rightarrow> 'd mem option" where
  "free h p =
     (case p of
        None \<Rightarrow> Some h
      | Some a \<Rightarrow> (case cells h a of None \<Rightarrow> None | Some _ \<Rightarrow> Some (h\<lparr>cells := (cells h)(a := None)\<rparr>)))"

definition load :: "'d mem \<Rightarrow> nat option \<Rightarrow> 'd dnode option" where
  "load h p = (case p of None \<Rightarrow> None | Some a \<Rightarrow> cells h a)"

definition store :: "'d mem \<Rightarrow> nat option \<Rightarrow> ('d dnode \<Rightarrow> 'd dnode) \<Rightarrow> 'd mem option" where
  "store h p f =
     do { a \<leftarrow> p; n \<leftarrow> cells h a; Some (h\<lparr>cells := (cells h)(a \<mapsto> f n)\<rparr>) }"

text \<open>\<open>p->next = q\<close> and \<open>p->prev = q\<close>.\<close>

definition set_next :: "'d mem \<Rightarrow> nat option \<Rightarrow> nat option \<Rightarrow> 'd mem option" where
  "set_next h p q = store h p (\<lambda>n. n\<lparr>nxt := q\<rparr>)"

definition set_prev :: "'d mem \<Rightarrow> nat option \<Rightarrow> nat option \<Rightarrow> 'd mem option" where
  "set_prev h p q = store h p (\<lambda>n. n\<lparr>prv := q\<rparr>)"

lemma mem_ok_upd: "mem_ok h \<Longrightarrow> cells h a \<noteq> None \<Longrightarrow> mem_ok (h\<lparr>cells := (cells h)(a := v)\<rparr>)"
  by (simp add: mem_ok_def)

lemma mem_ok_malloc: "mem_ok h \<Longrightarrow> malloc h n = (a, h') \<Longrightarrow> mem_ok h'"
  by (auto simp: mem_ok_def malloc_def less_Suc_eq)

lemmas mem_defs = malloc_def free_def load_def store_def set_next_def set_prev_def

section \<open>Doubly linked segments\<close>

text \<open>
  \<open>dseg c b p as e q\<close>: from \<open>p\<close>, whose predecessor is \<open>b\<close>, the cells \<open>as\<close> lead to \<open>q\<close>, whose
  predecessor is \<open>e\<close>.
\<close>

type_synonym 'd cells = "nat \<Rightarrow> 'd dnode option"

fun dseg :: "'d cells \<Rightarrow> nat option \<Rightarrow> nat option \<Rightarrow> nat list \<Rightarrow> nat option \<Rightarrow> nat option \<Rightarrow> bool" where
  "dseg c b p [] e q \<longleftrightarrow> p = q \<and> e = b"
| "dseg c b p (a # as) e q \<longleftrightarrow>
     p = Some a \<and> (\<exists>n. c a = Some n \<and> prv n = b \<and> dseg c (Some a) (nxt n) as e q)"

lemma dseg_append: "dseg c b p (xs @ ys) e q \<longleftrightarrow> (\<exists>m r. dseg c b p xs m r \<and> dseg c m r ys e q)"
  by (induction xs arbitrary: b p) auto

lemma dseg_frame: "a \<notin> set as \<Longrightarrow> dseg (c(a := v)) b p as e q \<longleftrightarrow> dseg c b p as e q"
  by (induction as arbitrary: b p) auto

lemma dseg_alloc: "dseg c b p as e q \<Longrightarrow> a \<in> set as \<Longrightarrow> c a \<noteq> None"
  by (induction as arbitrary: b p) auto

lemma dseg_first: "dseg c b p as e q \<Longrightarrow> p = (if as = [] then q else Some (hd as))"
  by (cases as) auto

lemma dseg_last: "dseg c b p as e q \<Longrightarrow> e = (if as = [] then b else Some (last as))"
  by (induction as arbitrary: b p) (auto split: if_splits)

text \<open>Redirecting the link out of the last cell, and the link back from the first.\<close>

lemma dseg_set_next:
  "dseg c b p (xs @ [a]) e q \<Longrightarrow> a \<notin> set xs \<Longrightarrow> c a = Some n \<Longrightarrow>
   dseg (c(a \<mapsto> n\<lparr>nxt := q'\<rparr>)) b p (xs @ [a]) e q'"
  by (auto simp: dseg_append dseg_frame)

lemma dseg_set_prev:
  "dseg c b p (a # as) e q \<Longrightarrow> a \<notin> set as \<Longrightarrow> c a = Some n \<Longrightarrow>
   dseg (c(a \<mapsto> n\<lparr>prv := b'\<rparr>)) b' p (a # as) e q"
  by (auto simp: dseg_frame)

text \<open>Two cells of a segment at different places are different.\<close>

lemma dseg_determ: "dseg c b p xs e None \<Longrightarrow> dseg c b' p ys e' None \<Longrightarrow> xs = ys"
proof (induction xs arbitrary: ys b b' p)
  case Nil
  then show ?case by (cases ys) auto
next
  case (Cons x xs)
  then show ?case by (cases ys) force+
qed

text \<open>The data of the cells.\<close>

definition vals :: "'d cells \<Rightarrow> nat list \<Rightarrow> 'd list" where
  "vals c as = map (\<lambda>a. dat (the (c a))) as"

lemma vals_simps [simp]:
  "vals c [] = []" "vals c (a # as) = dat (the (c a)) # vals c as"
  "vals c (xs @ ys) = vals c xs @ vals c ys" "length (vals c as) = length as"
  by (simp_all add: vals_def)

lemma vals_Nil_iff [simp]: "vals c as = [] \<longleftrightarrow> as = []"
  by (simp add: vals_def)

lemma vals_frame: "a \<notin> set as \<Longrightarrow> vals (c(a := v)) as = vals c as"
  by (auto simp: vals_def)

lemma vals_links [simp]:
  "c a = Some n \<Longrightarrow> vals (c(a \<mapsto> n\<lparr>nxt := q\<rparr>)) as = vals c as"
  "c a = Some n \<Longrightarrow> vals (c(a \<mapsto> n\<lparr>prv := q\<rparr>)) as = vals c as"
  by (auto simp: vals_def)

section \<open>Well-formed lists\<close>

text \<open>A whole list from \<open>first\<close> to \<open>last\<close> over the cells \<open>as\<close>.\<close>

definition dlist :: "'d mem \<Rightarrow> nat option \<Rightarrow> nat option \<Rightarrow> nat list \<Rightarrow> bool" where
  "dlist h f l as \<longleftrightarrow> mem_ok h \<and> distinct as \<and> dseg (cells h) None f as l None"

lemma dlist_first: "dlist h f l as \<Longrightarrow> f = (if as = [] then None else Some (hd as))"
  unfolding dlist_def using dseg_first by blast

lemma dlist_last: "dlist h f l as \<Longrightarrow> l = (if as = [] then None else Some (last as))"
  unfolding dlist_def using dseg_last by blast

lemma dlist_cell: "dlist h f l as \<Longrightarrow> a \<in> set as \<Longrightarrow> \<exists>n. cells h a = Some n \<and> a < brk h"
  unfolding dlist_def mem_ok_def by (meson dseg_alloc not_None_eq)

text \<open>The links of a cell in the middle.\<close>

lemma dlist_mid:
  assumes "dlist h f l (xs @ a # ys)"
  shows "\<exists>n. cells h a = Some n \<and> prv n = (if xs = [] then None else Some (last xs)) \<and>
    nxt n = (if ys = [] then None else Some (hd ys))"
proof -
  from assms obtain m where 1: "dseg (cells h) None f xs m (Some a)"
    and 2: "dseg (cells h) m (Some a) (a # ys) l None"
    by (auto simp: dlist_def dseg_append)
  from 2 obtain n where n: "cells h a = Some n" "prv n = m" "dseg (cells h) (Some a) (nxt n) ys l None"
    by auto
  from dseg_last [OF 1] dseg_first [OF n(3)] n show ?thesis by auto
qed

text \<open>Appending a fresh cell behind the last.\<close>

lemma dlist_append:
  assumes "dlist h f l as" "malloc h \<lparr>nxt = None, prv = l, dat = d\<rparr> = (a, h1)"
    "(if l = None then Some h1 else set_next h1 l (Some a)) = Some h2"
  shows "dlist h2 (if f = None then Some a else f) (Some a) (as @ [a]) \<and>
    vals (cells h2) (as @ [a]) = vals (cells h) as @ [d]"
proof (cases as rule: rev_cases)
  case Nil
  with assms(1) have "f = None" "l = None" by (auto simp: dlist_def)
  with assms Nil mem_ok_malloc [OF _ assms(2)] show ?thesis by (auto simp: dlist_def mem_defs)
next
  case (snoc xs b)
  have l: "l = Some b" "f \<noteq> None" using assms(1) snoc dlist_last dlist_first by force+
  obtain n where n: "cells h b = Some n" "b < brk h" using dlist_cell [OF assms(1), of b] snoc by auto
  have a: "a = brk h" using assms(2) by (auto simp: mem_defs)
  have fresh: "a \<notin> set as" using assms(1) a dlist_cell by fastforce
  have h2: "cells h2 = (cells h)(a \<mapsto> \<lparr>nxt = None, prv = l, dat = d\<rparr>, b \<mapsto> n\<lparr>nxt := Some a\<rparr>)"
    "brk h2 = brk h + 1"
    using assms(2,3) l n by (auto simp: mem_defs)
  let ?c = "(cells h)(a \<mapsto> \<lparr>nxt = None, prv = l, dat = d\<rparr>)"
  have ab: "b \<noteq> a" using n a by simp
  from assms(1) snoc have seg: "dseg (cells h) None f (xs @ [b]) l None" "b \<notin> set xs"
    by (auto simp: dlist_def)
  have "dseg ?c None f (xs @ [b]) l None"
    using seg(1) fresh snoc dseg_frame [of a "xs @ [b]" "cells h"] by blast
  moreover have cb: "?c b = Some n" using n ab by simp
  ultimately have "dseg (cells h2) None f (xs @ [b]) l (Some a)"
    unfolding h2 using dseg_set_next seg(2) by blast
  moreover have "dseg (cells h2) l (Some a) [a] (Some a) None"
    unfolding h2 using ab by simp
  ultimately have "dseg (cells h2) None f (as @ [a]) (Some a) None"
    unfolding snoc using dseg_append [of "cells h2" None f "xs @ [b]" "[a]"] by blast
  moreover have "vals (cells h2) as = vals (cells h) as"
    unfolding h2 using fresh cb by (simp add: vals_frame)
  moreover have "mem_ok h2" using assms(1) n a by (auto simp: dlist_def mem_ok_def h2 split: if_splits)
  ultimately show ?thesis using assms(1) fresh l ab h2 by (auto simp: dlist_def)
qed

text \<open>Putting a fresh cell before the first.\<close>

lemma dlist_prepend:
  assumes "dlist h f l as" "malloc h \<lparr>nxt = f, prv = None, dat = d\<rparr> = (a, h1)"
    "(if f = None then Some h1 else set_prev h1 f (Some a)) = Some h2"
  shows "dlist h2 (Some a) (if l = None then Some a else l) (a # as) \<and>
    vals (cells h2) (a # as) = d # vals (cells h) as"
proof (cases as)
  case Nil
  with assms(1) have "f = None" "l = None" by (auto simp: dlist_def)
  with assms Nil mem_ok_malloc [OF _ assms(2)] show ?thesis by (auto simp: dlist_def mem_defs)
next
  case (Cons b xs)
  have l: "f = Some b" "l \<noteq> None" using assms(1) Cons dlist_last dlist_first by force+
  obtain n where n: "cells h b = Some n" "b < brk h" using dlist_cell [OF assms(1), of b] Cons by auto
  have a: "a = brk h" using assms(2) by (auto simp: mem_defs)
  have fresh: "a \<notin> set as" using assms(1) a dlist_cell by fastforce
  let ?c = "(cells h)(a \<mapsto> \<lparr>nxt = f, prv = None, dat = d\<rparr>)"
  have h2: "cells h2 = ?c(b \<mapsto> n\<lparr>prv := Some a\<rparr>)" "brk h2 = brk h + 1"
    using assms(2,3) l n by (auto simp: mem_defs)
  have ab: "b \<noteq> a" using n a by simp
  from assms(1) Cons have seg: "dseg (cells h) None f (b # xs) l None" "b \<notin> set xs"
    by (auto simp: dlist_def)
  have "dseg ?c None f (b # xs) l None"
    using seg(1) fresh Cons dseg_frame [of a "b # xs" "cells h"] by blast
  moreover have cb: "?c b = Some n" using n ab by simp
  ultimately have "dseg (cells h2) (Some a) f (b # xs) l None"
    unfolding h2 using dseg_set_prev seg(2) by blast
  moreover have "cells h2 a = Some \<lparr>nxt = f, prv = None, dat = d\<rparr>" unfolding h2 using ab by simp
  ultimately have "dseg (cells h2) None (Some a) (a # as) l None" unfolding Cons by simp
  moreover have "vals (cells h2) as = vals (cells h) as"
    unfolding h2 using fresh cb by (simp add: vals_frame)
  moreover have "mem_ok h2" using assms(1) n a by (auto simp: dlist_def mem_ok_def h2 split: if_splits)
  ultimately show ?thesis using assms(1) fresh l ab h2 by (auto simp: dlist_def)
qed

text \<open>Taking a cell out: its neighbours are linked to each other, then it is freed.\<close>

definition unlink :: "'d mem \<Rightarrow> nat option \<Rightarrow> nat option \<Rightarrow> nat option \<Rightarrow> 'd mem option" where
  "unlink h p q a =
     do { h1 \<leftarrow> (if p = None then Some h else set_next h p q);
          h2 \<leftarrow> (if q = None then Some h1 else set_prev h1 q p);
          free h2 a }"

lemma dlist_unlink:
  assumes D: "dlist h f l (xs @ a # ys)"
    and p: "p = (if xs = [] then None else Some (last xs))"
    and q: "q = (if ys = [] then None else Some (hd ys))"
  shows "\<exists>h'. unlink h p q (Some a) = Some h' \<and>
    dlist h' (if xs = [] then q else f) (if ys = [] then p else l) (xs @ ys) \<and>
    vals (cells h') (xs @ ys) = vals (cells h) (xs @ ys) \<and> cells h' a = None"
proof -
  from D have dis: "distinct (xs @ a # ys)" and "mem_ok h" by (auto simp: dlist_def)
  from D obtain m where 1: "dseg (cells h) None f xs m (Some a)"
    and 2: "dseg (cells h) m (Some a) (a # ys) l None"
    by (auto simp: dlist_def dseg_append)
  from 2 obtain n where n: "cells h a = Some n" and 3: "dseg (cells h) (Some a) (nxt n) ys l None"
    by auto
  have m: "m = p" using dseg_last [OF 1] p by simp
  have nq: "nxt n = q" using dseg_first [OF 3] q by simp
  obtain h1 where h1: "(if p = None then Some h else set_next h p q) = Some h1"
    and mem1: "mem_ok h1" and s1: "dseg (cells h1) None (if xs = [] then q else f) xs p q"
    and f1: "dseg (cells h1) (Some a) q ys l None" "cells h1 a = Some n"
    and v1: "vals (cells h1) (xs @ ys) = vals (cells h) (xs @ ys)"
  proof (cases xs rule: rev_cases)
    case Nil
    with p that [of h] \<open>mem_ok h\<close> 3 n nq 1 show ?thesis by simp
  next
    case (snoc zs b)
    with p have b: "p = Some b" by simp
    obtain nb where nb: "cells h b = Some nb" using dlist_cell [OF D, of b] snoc by auto
    let ?h = "h\<lparr>cells := (cells h)(b \<mapsto> nb\<lparr>nxt := q\<rparr>)\<rparr>"
    have "b \<notin> set zs" "b \<notin> set ys" "b \<noteq> a" using dis snoc by auto
    then have "dseg (cells ?h) None f (zs @ [b]) m q"
      using dseg_set_next [OF 1 [unfolded snoc] _ nb] by simp
    moreover have "(if p = None then Some h else set_next h p q) = Some ?h"
      using b nb by (simp add: mem_defs)
    ultimately show ?thesis
      using that [of ?h] mem_ok_upd [OF \<open>mem_ok h\<close>, of b] nb snoc m 3 nq n \<open>b \<notin> set ys\<close> \<open>b \<noteq> a\<close>
      by (simp add: dseg_frame)
  qed
  obtain h2 where h2: "(if q = None then Some h1 else set_prev h1 q p) = Some h2"
    and mem2: "mem_ok h2" and s2: "dseg (cells h2) p q ys (if ys = [] then p else l) None"
    and f2: "dseg (cells h2) None (if xs = [] then q else f) xs p q" "cells h2 a = Some n"
    and v2: "vals (cells h2) (xs @ ys) = vals (cells h) (xs @ ys)"
  proof (cases ys)
    case Nil
    with q that [of h1] mem1 s1 f1 v1 show ?thesis by simp
  next
    case (Cons b zs)
    with q have b: "q = Some b" by simp
    obtain nb where nb: "cells h1 b = Some nb" using dseg_alloc [OF f1(1), of b] Cons by auto
    let ?h = "h1\<lparr>cells := (cells h1)(b \<mapsto> nb\<lparr>prv := p\<rparr>)\<rparr>"
    have "b \<notin> set zs" "b \<notin> set xs" "b \<noteq> a" using dis Cons by auto
    then have "dseg (cells ?h) p q (b # zs) l None"
      using dseg_set_prev [OF f1(1) [unfolded Cons] _ nb] by simp
    moreover have "(if q = None then Some h1 else set_prev h1 q p) = Some ?h"
      using b nb by (simp add: mem_defs)
    ultimately show ?thesis
      using that [of ?h] mem_ok_upd [OF mem1, of b] nb Cons s1 f1 v1 \<open>b \<notin> set xs\<close> \<open>b \<noteq> a\<close>
      by (simp add: dseg_frame)
  qed
  let ?h3 = "h2\<lparr>cells := (cells h2)(a := None)\<rparr>"
  have "unlink h p q (Some a) = Some ?h3"
    using f2(2) by (simp add: unlink_def h1 h2 free_def)
  moreover have "dseg (cells ?h3) None (if xs = [] then q else f) (xs @ ys) (if ys = [] then p else l) None"
    unfolding dseg_append using dis s2 f2(1) dseg_frame [of a xs "cells h2" None]
      dseg_frame [of a ys "cells h2" None] by (intro exI [of _ p] exI [of _ q]) auto
  moreover have "vals (cells ?h3) (xs @ ys) = vals (cells h) (xs @ ys)"
    using dis v2 vals_frame [of a "xs @ ys" "cells h2" None] by simp
  ultimately show ?thesis
    using dis mem_ok_upd [OF mem2, of a None] f2(2) by (auto simp: dlist_def)
qed

end
