(* ===== verification/List_Op.thy ===== *)
theory List_Op
  imports Linked
begin

text \<open>
  \<^verbatim>\<open>shared/list_op.c\<close>: the doubly linked list with a cursor and an optional maximum size. An
  operation takes the list structure and the heap and returns both; data freed through the
  list's \<open>free_data_function\<close> are returned as the list \<open>freed\<close>. \<open>int\<close> counters are unbounded
  (2 ^ 31 nodes are out of reach).
\<close>

section \<open>The model\<close>

record OSList =
  first_node :: "nat option"
  last_node :: "nat option"
  cur_node :: "nat option"
  currently_size :: int
  max_size :: int
  frees_data :: bool

definition OSList_Create :: OSList where
  "OSList_Create = \<lparr>first_node = None, last_node = None, cur_node = None, currently_size = 0,
                    max_size = 0, frees_data = False\<rparr>"

definition OSList_SetMaxSize :: "OSList option \<Rightarrow> int \<Rightarrow> int \<times> OSList option" where
  "OSList_SetMaxSize l n =
     (case l of None \<Rightarrow> (0, None)
      | Some l \<Rightarrow> if n \<le> 1 then (0, Some l) else (1, Some (l\<lparr>max_size := n\<rparr>)))"

definition OSList_SetFreeDataPointer :: "OSList option \<Rightarrow> bool \<Rightarrow> int \<times> OSList option" where
  "OSList_SetFreeDataPointer l f =
     (case l of None \<Rightarrow> (0, None) | Some l \<Rightarrow> (1, Some (l\<lparr>frees_data := f\<rparr>)))"

definition OSList_GetFirstNode :: "OSList \<Rightarrow> nat option \<times> OSList" where
  "OSList_GetFirstNode l = (first_node l, l\<lparr>cur_node := first_node l\<rparr>)"

definition OSList_GetLastNode :: "OSList \<Rightarrow> nat option \<times> OSList" where
  "OSList_GetLastNode l = (last_node l, l\<lparr>cur_node := last_node l\<rparr>)"

definition OSList_GetNextNode :: "'d mem \<Rightarrow> OSList \<Rightarrow> (nat option \<times> OSList) option" where
  "OSList_GetNextNode h l =
     (if cur_node l = None then Some (None, l)
      else do { n \<leftarrow> load h (cur_node l); Some (nxt n, l\<lparr>cur_node := nxt n\<rparr>) })"

definition OSList_GetPrevNode :: "'d mem \<Rightarrow> OSList \<Rightarrow> (nat option \<times> OSList) option" where
  "OSList_GetPrevNode h l =
     (if cur_node l = None then Some (None, l)
      else do { n \<leftarrow> load h (cur_node l); Some (prv n, l\<lparr>cur_node := prv n\<rparr>) })"

definition OSList_GetCurrentlyNode :: "OSList \<Rightarrow> nat option" where
  "OSList_GetCurrentlyNode l = cur_node l"

definition OSList_DeleteOldestNode :: "'d mem \<Rightarrow> OSList \<Rightarrow> ('d mem \<times> OSList) option" where
  "OSList_DeleteOldestNode h l =
     (if first_node l \<noteq> None then do {
        n \<leftarrow> load h (first_node l);
        (h1, l1) \<leftarrow> (if nxt n \<noteq> None then do { h1 \<leftarrow> set_prev h (nxt n) None; Some (h1, l) }
                    else Some (h, l\<lparr>last_node := nxt n\<rparr>));
        h2 \<leftarrow> free h1 (first_node l);
        Some (h2, l1\<lparr>first_node := nxt n\<rparr>)
      } else Some (h, l))"

definition OSList_DeleteThisNode :: "'d mem \<Rightarrow> OSList \<Rightarrow> nat option \<Rightarrow> ('d mem \<times> OSList) option" where
  "OSList_DeleteThisNode h l this =
     (if this = None then Some (h, l)
      else do {
        n \<leftarrow> load h this;
        let p = prv n;
        let q = nxt n;
        (h1, l1) \<leftarrow>
          (if p \<noteq> None \<and> q \<noteq> None then do { h1 \<leftarrow> set_next h p q; h2 \<leftarrow> set_prev h1 q p; Some (h2, l) }
           else if p \<noteq> None then do { h1 \<leftarrow> set_next h p None; Some (h1, l\<lparr>last_node := p\<rparr>) }
           else if q \<noteq> None then do { h1 \<leftarrow> set_prev h q None; Some (h1, l\<lparr>first_node := q\<rparr>) }
           else Some (h, l\<lparr>last_node := None, first_node := None\<rparr>));
        h2 \<leftarrow> free h1 this;
        Some (h2, l1\<lparr>cur_node := q, currently_size := currently_size l - 1\<rparr>)
      })"

text \<open>The source repeats the body of the previous function with the cursor in place of the node.\<close>

definition OSList_DeleteCurrentlyNode :: "'d mem \<Rightarrow> OSList \<Rightarrow> ('d mem \<times> OSList) option" where
  "OSList_DeleteCurrentlyNode h l =
     (if cur_node l = None then Some (h, l)
      else do {
        n \<leftarrow> load h (cur_node l);
        let p = prv n;
        let q = nxt n;
        (h1, l1) \<leftarrow>
          (if p \<noteq> None \<and> q \<noteq> None then do { h1 \<leftarrow> set_next h p q; h2 \<leftarrow> set_prev h1 q p; Some (h2, l) }
           else if p \<noteq> None then do { h1 \<leftarrow> set_next h p None; Some (h1, l\<lparr>last_node := p\<rparr>) }
           else if q \<noteq> None then do { h1 \<leftarrow> set_prev h q None; Some (h1, l\<lparr>first_node := q\<rparr>) }
           else Some (h, l\<lparr>last_node := None, first_node := None\<rparr>));
        h2 \<leftarrow> free h1 (cur_node l1);
        Some (h2, l1\<lparr>cur_node := q, currently_size := currently_size l - 1\<rparr>)
      })"

text \<open>The head goes when the list has outgrown its maximum.\<close>

definition OSList_evict :: "'d mem \<Rightarrow> OSList \<Rightarrow> ('d list \<times> 'd mem \<times> OSList) option" where
  "OSList_evict h l =
     (if max_size l = 0 then Some ([], h, l)
      else if currently_size l > max_size l then do {
        f \<leftarrow> load h (first_node l);
        (if nxt f = None then Some ([], h, l)
         else do {
           h1 \<leftarrow> set_prev h (nxt f) None;
           h2 \<leftarrow> free h1 (first_node l);
           Some (if frees_data l then [dat f] else [], h2,
                 l\<lparr>first_node := nxt f, currently_size := currently_size l - 1\<rparr>) })
      } else Some ([], h, l))"

definition OSList_AddData ::
    "'d mem \<Rightarrow> OSList \<Rightarrow> 'd \<Rightarrow> (int \<times> 'd list \<times> 'd mem \<times> OSList) option" where
  "OSList_AddData h l d = do {
     let (a, h1) = malloc h \<lparr>nxt = None, prv = last_node l, dat = d\<rparr>;
     let l1 = (if first_node l = None then l\<lparr>first_node := Some a\<rparr> else l);
     h2 \<leftarrow> (if last_node l1 = None then Some h1 else set_next h1 (last_node l1) (Some a));
     let l2 = l1\<lparr>last_node := Some a, currently_size := currently_size l1 + 1\<rparr>;
     (freed, h3, l3) \<leftarrow> OSList_evict h2 l2;
     Some (1, freed, h3, l3) }"

section \<open>Refinement to plain lists\<close>

text \<open>The heap and the structure hold the list \<open>xs\<close> of data, in the cells \<open>as\<close>.\<close>

definition holds :: "'d mem \<Rightarrow> OSList \<Rightarrow> nat list \<Rightarrow> 'd list \<Rightarrow> bool" where
  "holds h l as xs \<longleftrightarrow> dlist h (first_node l) (last_node l) as \<and> vals (cells h) as = xs"

definition counted :: "OSList \<Rightarrow> 'd list \<Rightarrow> bool" where
  "counted l xs \<longleftrightarrow> currently_size l = int (length xs) \<and> (max_size l = 0 \<or> 1 < max_size l)"

text \<open>
  What a client sees of \<open>OSList_AddData\<close>: the node that goes, and the list, for a maximum \<open>m\<close> or 0.
\<close>

definition list_add :: "int \<Rightarrow> 'd list \<Rightarrow> 'd \<Rightarrow> 'd list \<times> 'd list" where
  "list_add m xs d =
     (if m \<noteq> 0 \<and> int (length xs) \<ge> m then ([hd (xs @ [d])], tl (xs @ [d])) else ([], xs @ [d]))"

lemma list_add_length: "m \<noteq> 0 \<Longrightarrow> int (length xs) \<le> m \<Longrightarrow> int (length (snd (list_add m xs d))) \<le> m"
  by (auto simp: list_add_def)

lemma list_add_set: "set (fst (list_add m xs d)) \<union> set (snd (list_add m xs d)) = insert d (set xs)"
  by (cases xs) (auto simp: list_add_def)

lemma list_add_split: "fst (list_add m xs d) @ snd (list_add m xs d) = xs @ [d]"
  by (simp add: list_add_def)

lemma holds_length: "holds h l as xs \<Longrightarrow> length as = length xs"
  by (auto simp: holds_def)

lemma holds_Create: "mem_ok h \<Longrightarrow> holds h OSList_Create [] [] \<and> counted OSList_Create []"
  by (simp add: holds_def OSList_Create_def dlist_def counted_def)

lemma evict_holds:
  assumes "holds h l as xs" "xs \<noteq> []"
  shows "\<exists>h' l' as'. OSList_evict h l =
      Some (if max_size l \<noteq> 0 \<and> currently_size l > max_size l \<and> length xs \<noteq> 1 \<and> frees_data l
            then [hd xs] else [], h', l') \<and>
    (if max_size l \<noteq> 0 \<and> currently_size l > max_size l \<and> length xs \<noteq> 1
     then holds h' l' as' (tl xs) \<and> currently_size l' = currently_size l - 1 \<and> max_size l' = max_size l
     else (h', l', as') = (h, l, as))"
proof -
  from assms obtain a bs where as: "as = a # bs" by (cases as) (auto simp: holds_def)
  from assms(1) as have D: "dlist h (first_node l) (last_node l) ([] @ a # bs)" by (simp add: holds_def)
  from dlist_mid [OF D] obtain n where n: "cells h a = Some n" "nxt n = (if bs = [] then None else Some (hd bs))"
    by auto
  have f: "first_node l = Some a" using dlist_first [OF D] by simp
  have xs: "xs = dat n # vals (cells h) bs" using assms(1) as n by (simp add: holds_def)
  show ?thesis
  proof (cases "max_size l \<noteq> 0 \<and> currently_size l > max_size l \<and> bs \<noteq> []")
    case False
    then show ?thesis using n f xs by (auto simp: OSList_evict_def load_def)
  next
    case True
    with dlist_unlink [OF D refl refl] n obtain h' where
      u: "unlink h None (nxt n) (Some a) = Some h'" "dlist h' (nxt n) (last_node l) bs"
      "vals (cells h') bs = vals (cells h) bs" by auto
    from u(1) n True obtain h1 where "set_prev h (nxt n) None = Some h1" "free h1 (Some a) = Some h'"
      by (auto simp: unlink_def bind_eq_Some_conv)
    then show ?thesis using True n f xs u(2,3) 
      by (auto simp: OSList_evict_def load_def holds_def bind_eq_Some_conv)
  qed
qed

lemma DeleteCurrentlyNode_this:
  "OSList_DeleteCurrentlyNode h l = OSList_DeleteThisNode h l (cur_node l)"
proof (cases "load h (cur_node l)")
  case (Some n)
  then show ?thesis
    by (cases "prv n"; cases "nxt n")
      (simp_all add: OSList_DeleteCurrentlyNode_def OSList_DeleteThisNode_def Option.bind_assoc)
qed (simp add: OSList_DeleteCurrentlyNode_def OSList_DeleteThisNode_def)

lemma DeleteThisNode_holds:
  assumes "holds h l (as @ a # bs) (xs @ x # ys)" "length as = length xs"
  shows "\<exists>h' l'. OSList_DeleteThisNode h l (Some a) = Some (h', l') \<and>
    holds h' l' (as @ bs) (xs @ ys) \<and> currently_size l' = currently_size l - 1 \<and>
    max_size l' = max_size l \<and> cur_node l' = (if bs = [] then None else Some (hd bs))"
proof -
  have D: "dlist h (first_node l) (last_node l) (as @ a # bs)" using assms(1) by (simp add: holds_def)
  have v: "vals (cells h) as = xs" "vals (cells h) bs = ys"
    using assms by (auto simp: holds_def)
  let ?p = "if as = [] then None else Some (last as)" and ?q = "if bs = [] then None else Some (hd bs)"
  from dlist_mid [OF D] obtain n where n: "cells h a = Some n" "prv n = ?p" "nxt n = ?q" by blast
  from dlist_unlink [OF D refl refl] obtain h' where u: "unlink h ?p ?q (Some a) = Some h'"
    "dlist h' (if as = [] then ?q else first_node l) (if bs = [] then ?p else last_node l) (as @ bs)"
    "vals (cells h') (as @ bs) = vals (cells h) (as @ bs)" by blast
  have fl: "as = [] \<and> bs = [] \<Longrightarrow> ?q = None \<and> ?p = None" by simp
  show ?thesis
    by (cases "as = []"; cases "bs = []"; use n u v in
        \<open>auto simp: OSList_DeleteThisNode_def Let_def load_def unlink_def holds_def bind_eq_Some_conv\<close>)
qed

text \<open>
  C38. \<open>OSList_AddData\<close> on a well-formed list never touches a dangling pointer and appends: the list
  then holds the old data and the new one, or, when that is more than a maximum size that is
  set, all but the oldest, which is handed to the free function; the size field stays exact.
\<close>

theorem OSList_AddData_appends:
  assumes "holds h l as xs" "counted l xs"
  shows "\<exists>freed h' l' as'. OSList_AddData h l d = Some (1, freed, h', l') \<and>
    (let (gone, ys) = list_add (max_size l) xs d
     in holds h' l' as' ys \<and> counted l' ys \<and> freed = (if frees_data l then gone else []))"
proof -
  obtain a h1 where m: "malloc h \<lparr>nxt = None, prv = last_node l, dat = d\<rparr> = (a, h1)" by force
  have D: "dlist h (first_node l) (last_node l) as" using assms(1) by (simp add: holds_def)
  have "\<exists>h2. (if last_node l = None then Some h1 else set_next h1 (last_node l) (Some a)) = Some h2"
  proof (cases "last_node l")
    case (Some b)
    then have "b \<in> set as" using dlist_last [OF D] by (auto split: if_splits)
    then obtain n where "cells h b = Some n" "b < brk h" using dlist_cell [OF D] by blast
    then show ?thesis using Some m by (auto simp: mem_defs)
  qed simp
  then obtain h2 where h2: "(if last_node l = None then Some h1 else set_next h1 (last_node l) (Some a)) = Some h2"
    by blast
  note A = dlist_append [OF D m h2]
  define l1 where "l1 = l\<lparr>first_node := (if first_node l = None then Some a else first_node l),
    last_node := Some a, currently_size := currently_size l + 1\<rparr>"
  have H: "holds h2 l1 (as @ [a]) (xs @ [d])" using A assms(1) by (simp add: holds_def l1_def)
  have l1: "l1 = (if first_node l = None then l\<lparr>first_node := Some a\<rparr> else l)
      \<lparr>last_node := Some a, currently_size := currently_size l + 1\<rparr>"
    by (simp add: l1_def)
  let ?full = "max_size l \<noteq> 0 \<and> int (length xs) \<ge> max_size l"
  have full: "(max_size l1 \<noteq> 0 \<and> currently_size l1 > max_size l1 \<and> length (xs @ [d]) \<noteq> 1) \<longleftrightarrow> ?full"
    using assms(2) by (auto simp: l1_def counted_def)
  have keep: "max_size l1 = max_size l" "currently_size l1 = int (length xs) + 1" "frees_data l1 = frees_data l"
    using assms(2) by (simp_all add: l1_def counted_def)
  from evict_holds [OF H] full keep obtain h' l' as' where
    e: "OSList_evict h2 l1 = Some (if ?full \<and> frees_data l then [hd (xs @ [d])] else [], h', l')"
    and c: "if ?full then holds h' l' as' (tl (xs @ [d])) \<and> currently_size l' = int (length xs) \<and> max_size l' = max_size l
      else (h', l', as') = (h2, l1, as @ [a])" by force
  have "OSList_AddData h l d = Some (1, if ?full \<and> frees_data l then [hd (xs @ [d])] else [], h', l')"
    using m h2 e unfolding OSList_AddData_def l1
    by (cases "first_node l"; cases "last_node l") simp_all
  moreover have "holds h' l' as' (if ?full then tl (xs @ [d]) else xs @ [d])"
    using c H by (simp split: if_splits)
  moreover have "counted l' (if ?full then tl (xs @ [d]) else xs @ [d])"
    using c keep assms(2) by (auto simp: counted_def split: if_splits)
  ultimately show ?thesis by (auto simp: list_add_def split: if_splits)
qed

text \<open>
  C37. \<open>OSList_DeleteThisNode\<close> takes exactly the given node out of a well-formed list without
  touching a dangling pointer, moves the cursor to the next node, and keeps the size exact;
  \<open>OSList_DeleteCurrentlyNode\<close> does the same for the node under the cursor.
\<close>

theorem OSList_DeleteThisNode_removes:
  assumes "holds h l (as @ a # bs) (xs @ x # ys)" "length as = length xs" "counted l (xs @ x # ys)"
  shows "\<exists>h' l'. OSList_DeleteThisNode h l (Some a) = Some (h', l') \<and>
    (cur_node l = Some a \<longrightarrow> OSList_DeleteCurrentlyNode h l = Some (h', l')) \<and>
    holds h' l' (as @ bs) (xs @ ys) \<and> counted l' (xs @ ys) \<and>
    OSList_GetCurrentlyNode l' = (if bs = [] then None else Some (hd bs))"
proof -
  from DeleteThisNode_holds [OF assms(1,2)] obtain h' l' where
    "OSList_DeleteThisNode h l (Some a) = Some (h', l')" "holds h' l' (as @ bs) (xs @ ys)"
    "currently_size l' = currently_size l - 1" "max_size l' = max_size l"
    "cur_node l' = (if bs = [] then None else Some (hd bs))" by blast
  moreover from this assms(3) have "counted l' (xs @ ys)" by (simp add: counted_def)
  ultimately show ?thesis by (auto simp: DeleteCurrentlyNode_this OSList_GetCurrentlyNode_def)
qed

text \<open>
  C39. \<open>OSList_DeleteOldestNode\<close> takes the first node out but leaves the size field one too high,
  and a cursor that stood on the first node points to freed memory: the next step of an
  iteration reads it.
\<close>

theorem OSList_DeleteOldestNode_miscounts:
  assumes "holds h l as xs" "counted l xs" "xs \<noteq> []"
  shows "\<exists>h' l'. OSList_DeleteOldestNode h l = Some (h', l') \<and> holds h' l' (tl as) (tl xs) \<and>
    currently_size l' = int (length (tl xs)) + 1 \<and> \<not> counted l' (tl xs) \<and>
    (cur_node l = first_node l \<longrightarrow> OSList_GetNextNode h' l' = None)"
proof -
  from assms obtain a bs where as: "as = a # bs" by (cases as) (auto simp: holds_def)
  from assms(1) as have D: "dlist h (first_node l) (last_node l) ([] @ a # bs)" by (simp add: holds_def)
  from dlist_mid [OF D] obtain n where n: "cells h a = Some n" "nxt n = (if bs = [] then None else Some (hd bs))"
    by auto
  have f: "first_node l = Some a" using dlist_first [OF D] by simp
  from dlist_unlink [OF D refl refl] n obtain h' where
    u: "unlink h None (nxt n) (Some a) = Some h'" "dlist h' (nxt n) (if bs = [] then None else last_node l) bs"
    "vals (cells h') bs = vals (cells h) bs" "cells h' a = None" by (cases "bs = []") auto
  let ?l = "l\<lparr>first_node := nxt n, last_node := (if bs = [] then None else last_node l)\<rparr>"
  have "OSList_DeleteOldestNode h l = Some (h', ?l)"
    using u(1) n f
    by (cases "bs = []") (auto simp: OSList_DeleteOldestNode_def load_def unlink_def bind_eq_Some_conv)
  moreover have "holds h' ?l bs (tl xs)" using assms(1) as u(2,3) by (auto simp: holds_def)
  moreover have "cur_node l = Some a \<longrightarrow> OSList_GetNextNode h' ?l = None"
    using u(4) by (simp add: OSList_GetNextNode_def load_def)
  moreover obtain x zs where "xs = x # zs" using assms(3) by (cases xs) auto
  ultimately show ?thesis using assms as f
    by (intro exI [of _ h'] exI [of _ ?l]) (auto simp: counted_def)
qed

subsection \<open>Witnesses\<close>

definition small_mem :: "nat mem" where
  "small_mem = \<lparr>cells = [0 \<mapsto> \<lparr>nxt = Some 1, prv = None, dat = 10\<rparr>,
                         1 \<mapsto> \<lparr>nxt = None, prv = Some 0, dat = 20\<rparr>], brk = 2\<rparr>"

definition small_list :: OSList where
  "small_list = \<lparr>first_node = Some 0, last_node = Some 1, cur_node = Some 0, currently_size = 2,
                 max_size = 2, frees_data = True\<rparr>"

lemma small_holds: "holds small_mem small_list [0, 1] [10, 20] \<and> counted small_list [10, 20::nat]"
  by (simp add: holds_def counted_def dlist_def mem_ok_def vals_def small_mem_def small_list_def)

theorem OSList_AddData_appends_witness:
  "\<exists>h' l' as'. OSList_AddData small_mem small_list 30 = Some (1, [10], h', l') \<and>
     holds h' l' as' [20, 30]"
  using OSList_AddData_appends [OF conjunct1 [OF small_holds] conjunct2 [OF small_holds], of 30]
  by (auto simp: small_list_def list_add_def)

theorem OSList_DeleteThisNode_removes_witness:
  "\<exists>h' l'. OSList_DeleteThisNode small_mem small_list (Some 0) = Some (h', l') \<and>
     holds h' l' [1] [20]"
  using OSList_DeleteThisNode_removes [of small_mem small_list "[]" 0 "[1]" "[]" 10 "[20]"] small_holds
  by auto

theorem OSList_DeleteOldestNode_miscounts_witness:
  "\<exists>h' l'. OSList_DeleteOldestNode small_mem small_list = Some (h', l') \<and>
     holds h' l' [1] [20] \<and> currently_size l' = 2"
  using OSList_DeleteOldestNode_miscounts [of small_mem small_list "[0, 1]" "[10, 20]"] small_holds
  by auto

end
