(* ===== verification/Correlation.thy ===== *)
theory Correlation
  imports Analysis_Types
begin

text \<open>
  \<^verbatim>\<open>analysisd/eventinfo.c\<close>: the searches behind the composite rules (\<open>if_matched_sid\<close>,
  \<open>if_matched_group\<close>, \<open>if_matched_regex\<close>), which walk a history of earlier events from the newest
  to the oldest and count those that agree with the current one, and the buffer of log lines a rule
  collects for its alert. The three loops repeat each other in the source and do so here; the
  lemmas are proved once, for the loop \<open>correlate\<close> that all three are instances of.

  Events are shared: \<open>evs\<close> is the store, a history is a list of addresses, oldest first (the
  content of the \<open>OSList\<close> of \<^verbatim>\<open>List_Op\<close>), newest first for the event list, whose head is the
  newest. The matcher behind \<open>if_matched_regex\<close> is an argument.
\<close>

section \<open>The buffer of last events\<close>

definition OS_FreeRuleLastEvents :: "('m, 'l) RuleInfo \<Rightarrow> ('m, 'l) RuleInfo" where
  "OS_FreeRuleLastEvents rule =
     (case r_last_events rule of
        None \<Rightarrow> rule
      | Some b \<Rightarrow>
          if \<not> r_last_events_copied rule then rule
          else rule\<lparr>r_last_events := Some (map (\<lambda>_. None) b), r_last_events_copied := False\<rparr>)"

definition OS_SetRuleLastEvent :: "('m, 'l) RuleInfo \<Rightarrow> int \<Rightarrow> string \<Rightarrow> ('m, 'l) RuleInfo" where
  "OS_SetRuleLastEvent rule idx log =
     (case r_last_events rule of
        None \<Rightarrow> rule
      | Some b \<Rightarrow>
          if idx < 0 \<or> int MAX_LAST_EVENTS < idx then rule
          else let b1 = b[nat idx := Some log];
                   b2 = (if idx < int MAX_LAST_EVENTS then b1[nat idx + 1 := None] else b1)
               in rule\<lparr>r_last_events := Some b2, r_last_events_copied := True\<rparr>)"

definition OS_MoveRuleLastEvents ::
    "('m, 'l) RuleInfo \<Rightarrow> Eventinfo \<Rightarrow> ('m, 'l) RuleInfo \<times> Eventinfo" where
  "OS_MoveRuleLastEvents rule lf =
     (case r_last_events rule of
        None \<Rightarrow> (rule, lf)
      | Some b \<Rightarrow>
          if \<not> r_last_events_copied rule then (rule, lf)
          else (rule\<lparr>r_last_events := Some (map (\<lambda>_. None) b), r_last_events_copied := False\<rparr>,
                lf\<lparr>lf_alert_last_events := Some b\<rparr>))"

section \<open>Conditions between two events\<close>

definition same_str :: "string option \<Rightarrow> string option \<Rightarrow> bool" where
  "same_str a b = (case (a, b) of (Some x, Some y) \<Rightarrow> strcmp x y = 0 | _ \<Rightarrow> False)"

definition diff_str :: "string option \<Rightarrow> string option \<Rightarrow> bool" where
  "diff_str a b = (case (a, b) of (Some x, Some y) \<Rightarrow> strcmp x y \<noteq> 0 | _ \<Rightarrow> False)"

definition country :: "Eventinfo \<Rightarrow> string option" where
  "country lf = (if lf_src_country lf \<noteq> None then lf_src_country lf else lf_srcgeoip lf)"

text \<open>The checks of the two list searches, from SAME\_ID to DIFFERENT\_SRCGEOIP.\<close>

definition list_checks :: "('m, 'l) RuleInfo \<Rightarrow> Eventinfo \<Rightarrow> Eventinfo \<Rightarrow> bool" where
  "list_checks rule lf my_lf \<longleftrightarrow>
     (has_bit (r_context_opts rule) SAME_ID \<longrightarrow> same_str (lf_id lf) (lf_id my_lf)) \<and>
     (has_bit (r_context_opts rule) SAME_SRCIP \<longrightarrow> same_str (lf_srcip lf) (lf_srcip my_lf)) \<and>
     (has_bit (r_alert_opts rule) SAME_EXTRAINFO \<longrightarrow>
       (has_bit (r_context_opts rule) SAME_SRCPORT \<longrightarrow> same_str (lf_srcport lf) (lf_srcport my_lf)) \<and>
       (has_bit (r_context_opts rule) SAME_DSTPORT \<longrightarrow> same_str (lf_dstport lf) (lf_dstport my_lf)) \<and>
       (has_bit (r_context_opts rule) SAME_USER \<longrightarrow> same_str (lf_dstuser lf) (lf_dstuser my_lf)) \<and>
       (has_bit (r_context_opts rule) SAME_LOCATION \<longrightarrow>
         same_str (lf_location lf) (lf_location my_lf)) \<and>
       (has_bit (r_context_opts rule) DIFFERENT_URL \<longrightarrow> diff_str (lf_url lf) (lf_url my_lf)) \<and>
       (has_bit (r_context_opts rule) DIFFERENT_SRCGEOIP \<longrightarrow> diff_str (country lf) (country my_lf)))"

text \<open>Those of the search through the event list: other order, no ports, no location.\<close>

definition event_checks ::
    "('m \<Rightarrow> string \<Rightarrow> bool) \<Rightarrow> ('m, 'l) RuleInfo \<Rightarrow> Eventinfo \<Rightarrow> Eventinfo \<Rightarrow> bool" where
  "event_checks OSRegex_Execute rule lf my_lf \<longleftrightarrow>
     di_type (lf_decoder_info lf) = di_type (lf_decoder_info my_lf) \<and>
     (case r_if_matched_regex rule of None \<Rightarrow> True | Some re \<Rightarrow> OSRegex_Execute re (lf_log lf)) \<and>
     (has_bit (r_context_opts rule) SAME_USER \<longrightarrow> same_str (lf_dstuser lf) (lf_dstuser my_lf)) \<and>
     (has_bit (r_context_opts rule) SAME_ID \<longrightarrow> same_str (lf_id lf) (lf_id my_lf)) \<and>
     (has_bit (r_context_opts rule) SAME_SRCIP \<longrightarrow> same_str (lf_srcip lf) (lf_srcip my_lf)) \<and>
     (has_bit (r_context_opts rule) DIFFERENT_URL \<longrightarrow> diff_str (lf_url lf) (lf_url my_lf)) \<and>
     (has_bit (r_context_opts rule) DIFFERENT_SRCGEOIP \<longrightarrow> diff_str (country lf) (country my_lf))"

section \<open>The searches\<close>

type_synonym events = "nat \<Rightarrow> Eventinfo"

text \<open>\<open>my_lf->matched = lf->matched = first_lf->matched = rule->level\<close>.\<close>

definition set_matched :: "events \<Rightarrow> nat \<Rightarrow> int \<Rightarrow> events" where
  "set_matched evs a lev = evs(a := (evs a)\<lparr>lf_matched := lev\<rparr>)"

definition mark_matched :: "events \<Rightarrow> nat \<Rightarrow> nat \<Rightarrow> nat \<Rightarrow> int \<Rightarrow> events" where
  "mark_matched evs my_lf lf first_lf lev =
     set_matched (set_matched (set_matched evs my_lf lev) lf lev) first_lf lev"

text \<open>\<open>if (rule->__frequency <= 10) OS_SetRuleLastEvent(rule, rule->__frequency, log)\<close>.\<close>

definition keep_line :: "('m, 'l) RuleInfo \<Rightarrow> string \<Rightarrow> ('m, 'l) RuleInfo" where
  "keep_line rule log =
     (if r_cur_frequency rule \<le> 10 then OS_SetRuleLastEvent rule (r_cur_frequency rule) log
      else rule)"

fun Search_LastSids_loop :: "events \<Rightarrow> nat \<Rightarrow> nat \<Rightarrow> ('m, 'l) RuleInfo \<Rightarrow> nat list
    \<Rightarrow> nat option \<times> events \<times> ('m, 'l) RuleInfo" where
  "Search_LastSids_loop evs my_lf first_lf rule [] = (None, evs, rule)"
| "Search_LastSids_loop evs my_lf first_lf rule (lf # prev) =
     (if lf_time (evs my_lf) - lf_time (evs lf) > r_timeframe rule then (None, evs, rule)
      else if lf_matched (evs lf) \<ge> r_level rule then (None, evs, rule)
      else if \<not> list_checks rule (evs lf) (evs my_lf) then
        Search_LastSids_loop evs my_lf first_lf rule prev
      else if \<not> has_bit (r_alert_opts rule) SAME_EXTRAINFO \<and> lf_matched (evs lf) \<ge> r_level rule
      then (None, evs, rule)
      else
        let rule1 = keep_line rule (lf_full_log (evs lf))
        in if r_cur_frequency rule1 < r_frequency rule1 then
             Search_LastSids_loop evs my_lf first_lf
               (rule1\<lparr>r_cur_frequency := r_cur_frequency rule1 + 1\<rparr>) prev
           else
             let rule2 = rule1\<lparr>r_cur_frequency := r_cur_frequency rule1 + 1\<rparr>
             in (Some lf, mark_matched evs my_lf lf first_lf (r_level rule2), rule2))"

fun Search_LastGroups_loop :: "events \<Rightarrow> nat \<Rightarrow> nat \<Rightarrow> ('m, 'l) RuleInfo \<Rightarrow> nat list
    \<Rightarrow> nat option \<times> events \<times> ('m, 'l) RuleInfo" where
  "Search_LastGroups_loop evs my_lf first_lf rule [] = (None, evs, rule)"
| "Search_LastGroups_loop evs my_lf first_lf rule (lf # prev) =
     (if lf_time (evs my_lf) - lf_time (evs lf) > r_timeframe rule then (None, evs, rule)
      else if lf_matched (evs lf) \<ge> r_level rule then (None, evs, rule)
      else if \<not> list_checks rule (evs lf) (evs my_lf) then
        Search_LastGroups_loop evs my_lf first_lf rule prev
      else if \<not> has_bit (r_alert_opts rule) SAME_EXTRAINFO \<and> lf_matched (evs lf) \<ge> r_level rule
      then (None, evs, rule)
      else if r_cur_frequency rule < r_frequency rule then
        let rule1 = keep_line rule (lf_full_log (evs lf))
        in Search_LastGroups_loop evs my_lf first_lf
             (rule1\<lparr>r_cur_frequency := r_cur_frequency rule1 + 1\<rparr>) prev
      else (Some lf, mark_matched evs my_lf lf first_lf (r_level rule), rule))"

fun Search_LastEvents_loop :: "('m \<Rightarrow> string \<Rightarrow> bool) \<Rightarrow> events \<Rightarrow> nat \<Rightarrow> nat \<Rightarrow> ('m, 'l) RuleInfo
    \<Rightarrow> nat list \<Rightarrow> nat option \<times> events \<times> ('m, 'l) RuleInfo" where
  "Search_LastEvents_loop exec evs my_lf first_lf rule [] = (None, evs, rule)"
| "Search_LastEvents_loop exec evs my_lf first_lf rule (lf # next) =
     (if lf_time (evs my_lf) - lf_time (evs lf) > r_timeframe rule then (None, evs, rule)
      else if lf_matched (evs lf) \<ge> r_level rule then (None, evs, rule)
      else if \<not> event_checks exec rule (evs lf) (evs my_lf) then
        Search_LastEvents_loop exec evs my_lf first_lf rule next
      else if \<not> has_bit (r_context_opts rule) DIFFERENT_SRCGEOIP \<and>
              lf_matched (evs lf) \<ge> r_level rule
      then (None, evs, rule)
      else if r_cur_frequency rule < r_frequency rule then
        let rule1 = keep_line rule (lf_full_log (evs lf))
        in Search_LastEvents_loop exec evs my_lf first_lf
             (rule1\<lparr>r_cur_frequency := r_cur_frequency rule1 + 1\<rparr>) next
      else (Some lf, mark_matched evs my_lf lf first_lf (r_level rule), rule))"

text \<open>Behind the label \<open>out\<close>: the log lines go to the event when something was found.\<close>

definition search_out :: "nat \<Rightarrow> nat option \<times> events \<times> ('m, 'l) RuleInfo
    \<Rightarrow> nat option \<times> events \<times> ('m, 'l) RuleInfo" where
  "search_out my_lf r =
     (case r of
        (None, evs, rule) \<Rightarrow> (None, evs, rule)
      | (Some lf, evs, rule) \<Rightarrow>
          let (rule1, ev) = OS_MoveRuleLastEvents rule (evs my_lf)
          in (Some lf, evs(my_lf := ev), rule1))"

definition Search_LastSids :: "(nat \<Rightarrow> nat list) \<Rightarrow> events \<Rightarrow> nat \<Rightarrow> ('m, 'l) RuleInfo
    \<Rightarrow> nat option \<times> events \<times> ('m, 'l) RuleInfo" where
  "Search_LastSids hist evs my_lf rule =
     (let rule0 = OS_FreeRuleLastEvents (rule\<lparr>r_cur_frequency := 0\<rparr>) in
      case r_sid_search rule0 of
        None \<Rightarrow> (None, evs, rule0)
      | Some l \<Rightarrow>
          (case rev (hist l) of
             [] \<Rightarrow> (None, evs, rule0)
           | lf # prev \<Rightarrow> search_out my_lf (Search_LastSids_loop evs my_lf lf rule0 (lf # prev))))"

definition Search_LastGroups :: "(nat \<Rightarrow> nat list) \<Rightarrow> events \<Rightarrow> nat \<Rightarrow> ('m, 'l) RuleInfo
    \<Rightarrow> nat option \<times> events \<times> ('m, 'l) RuleInfo" where
  "Search_LastGroups hist evs my_lf rule =
     (let rule0 = OS_FreeRuleLastEvents (rule\<lparr>r_cur_frequency := 0\<rparr>) in
      case r_group_search rule0 of
        None \<Rightarrow> (None, evs, rule0)
      | Some l \<Rightarrow>
          (case rev (hist l) of
             [] \<Rightarrow> (None, evs, rule0)
           | lf # prev \<Rightarrow> search_out my_lf (Search_LastGroups_loop evs my_lf lf rule0 (lf # prev))))"

definition Search_LastEvents :: "('m \<Rightarrow> string \<Rightarrow> bool) \<Rightarrow> nat list \<Rightarrow> events \<Rightarrow> nat
    \<Rightarrow> ('m, 'l) RuleInfo \<Rightarrow> nat option \<times> events \<times> ('m, 'l) RuleInfo" where
  "Search_LastEvents exec elist evs my_lf rule =
     (let rule0 = OS_FreeRuleLastEvents (rule\<lparr>r_cur_frequency := 0\<rparr>) in
      case elist of
        [] \<Rightarrow> (None, evs, rule0)
      | lf # next \<Rightarrow> search_out my_lf (Search_LastEvents_loop exec evs my_lf lf rule0 (lf # next)))"

section \<open>The common loop\<close>

text \<open>
  What the three loops share: \<open>stop\<close> leaves the loop, \<open>ok\<close> counts an event. The list search by
  signature (\<open>late\<close>) stores the log line before it compares the count, the other two after.
\<close>

fun correlate :: "bool \<Rightarrow> (nat \<Rightarrow> bool) \<Rightarrow> (nat \<Rightarrow> bool) \<Rightarrow> (nat \<Rightarrow> string) \<Rightarrow> ('m, 'l) RuleInfo \<Rightarrow> nat list
    \<Rightarrow> nat option \<times> ('m, 'l) RuleInfo" where
  "correlate late stop ok log rule [] = (None, rule)"
| "correlate late stop ok log rule (n # ns) =
     (if stop n then (None, rule)
      else if \<not> ok n then correlate late stop ok log rule ns
      else
        let rule1 = (keep_line rule (log n))\<lparr>r_cur_frequency := r_cur_frequency rule + 1\<rparr>
        in if r_cur_frequency rule < r_frequency rule then correlate late stop ok log rule1 ns
           else (Some n, if late then rule1 else rule))"

definition stops :: "events \<Rightarrow> nat \<Rightarrow> ('m, 'l) RuleInfo \<Rightarrow> nat \<Rightarrow> bool" where
  "stops evs my_lf rule n \<longleftrightarrow>
     lf_time (evs my_lf) - lf_time (evs n) > r_timeframe rule \<or> lf_matched (evs n) \<ge> r_level rule"

lemma set_last_keeps [simp]:
  "r_level (OS_SetRuleLastEvent r i s) = r_level r"
  "r_timeframe (OS_SetRuleLastEvent r i s) = r_timeframe r"
  "r_frequency (OS_SetRuleLastEvent r i s) = r_frequency r"
  "r_cur_frequency (OS_SetRuleLastEvent r i s) = r_cur_frequency r"
  "r_alert_opts (OS_SetRuleLastEvent r i s) = r_alert_opts r"
  "r_context_opts (OS_SetRuleLastEvent r i s) = r_context_opts r"
  "r_if_matched_regex (OS_SetRuleLastEvent r i s) = r_if_matched_regex r"
  by (simp_all add: OS_SetRuleLastEvent_def Let_def split: option.splits)

lemma keep_line_keeps [simp]:
  "r_level (keep_line r s) = r_level r"
  "r_timeframe (keep_line r s) = r_timeframe r"
  "r_frequency (keep_line r s) = r_frequency r"
  "r_cur_frequency (keep_line r s) = r_cur_frequency r"
  "r_alert_opts (keep_line r s) = r_alert_opts r"
  "r_context_opts (keep_line r s) = r_context_opts r"
  "r_if_matched_regex (keep_line r s) = r_if_matched_regex r"
  by (simp_all add: keep_line_def)

lemma free_last_keeps [simp]:
  "r_level (OS_FreeRuleLastEvents r) = r_level r"
  "r_timeframe (OS_FreeRuleLastEvents r) = r_timeframe r"
  "r_frequency (OS_FreeRuleLastEvents r) = r_frequency r"
  "r_cur_frequency (OS_FreeRuleLastEvents r) = r_cur_frequency r"
  "r_alert_opts (OS_FreeRuleLastEvents r) = r_alert_opts r"
  "r_context_opts (OS_FreeRuleLastEvents r) = r_context_opts r"
  "r_if_matched_regex (OS_FreeRuleLastEvents r) = r_if_matched_regex r"
  "r_sid_search (OS_FreeRuleLastEvents r) = r_sid_search r"
  "r_group_search (OS_FreeRuleLastEvents r) = r_group_search r"
  by (simp_all add: OS_FreeRuleLastEvents_def split: option.splits)

text \<open>The checks and the stop test read nothing the loop changes.\<close>

lemma checks_cong:
  "r_alert_opts r' = r_alert_opts r \<Longrightarrow> r_context_opts r' = r_context_opts r \<Longrightarrow>
   list_checks r' = list_checks r"
  "r_if_matched_regex r' = r_if_matched_regex r \<Longrightarrow> r_context_opts r' = r_context_opts r \<Longrightarrow>
   event_checks exec r' = event_checks exec r"
  "r_timeframe r' = r_timeframe r \<Longrightarrow> r_level r' = r_level r \<Longrightarrow> stops evs my r' = stops evs my r"
  by (simp_all add: list_checks_def event_checks_def stops_def fun_eq_iff)

lemma checks_keep_line [simp]:
  "list_checks (keep_line r s) = list_checks r"
  "list_checks (r\<lparr>r_cur_frequency := f\<rparr>) = list_checks r"
  "list_checks (OS_FreeRuleLastEvents r) = list_checks r"
  "event_checks exec (keep_line r s) = event_checks exec r"
  "event_checks exec (r\<lparr>r_cur_frequency := f\<rparr>) = event_checks exec r"
  "event_checks exec (OS_FreeRuleLastEvents r) = event_checks exec r"
  "stops evs my (keep_line r s) = stops evs my r"
  "stops evs my (r\<lparr>r_cur_frequency := f\<rparr>) = stops evs my r"
  "stops evs my (OS_FreeRuleLastEvents r) = stops evs my r"
  by (rule checks_cong; simp)+

definition mark_found :: "events \<Rightarrow> nat \<Rightarrow> nat \<Rightarrow> int \<Rightarrow> nat option \<Rightarrow> events" where
  "mark_found evs my_lf first_lf lev h =
     (case h of None \<Rightarrow> evs | Some lf \<Rightarrow> mark_matched evs my_lf lf first_lf lev)"

lemma mark_found_Some: "mark_found evs my_lf f lev (Some lf) = mark_matched evs my_lf lf f lev"
  "mark_found evs my_lf f lev None = evs"
  by (simp_all add: mark_found_def)

definition found :: "events \<Rightarrow> nat \<Rightarrow> nat \<Rightarrow> int \<Rightarrow> nat option \<times> ('m, 'l) RuleInfo
    \<Rightarrow> nat option \<times> events \<times> ('m, 'l) RuleInfo" where
  "found evs my_lf first_lf lev r =
     (fst r, mark_found evs my_lf first_lf lev (fst r), snd r)"

lemma sids_correlate:
  "Search_LastSids_loop evs my first rule ns =
   found evs my first (r_level rule) (correlate True (stops evs my rule)
     (\<lambda>n. list_checks rule (evs n) (evs my)) (\<lambda>n. lf_full_log (evs n)) rule ns)"
proof (induction ns arbitrary: rule)
  case (Cons n ns)
  note S = stops_def [of evs my rule n]
  show ?case using Cons.IH by (simp add: found_def S Let_def mark_found_Some)
qed (simp add: found_def mark_found_Some)

lemma groups_correlate:
  "Search_LastGroups_loop evs my first rule ns =
   found evs my first (r_level rule) (correlate False (stops evs my rule)
     (\<lambda>n. list_checks rule (evs n) (evs my)) (\<lambda>n. lf_full_log (evs n)) rule ns)"
proof (induction ns arbitrary: rule)
  case (Cons n ns)
  note S = stops_def [of evs my rule n]
  show ?case using Cons.IH by (simp add: found_def S Let_def mark_found_Some)
qed (simp add: found_def mark_found_Some)

lemma events_correlate:
  "Search_LastEvents_loop exec evs my first rule ns =
   found evs my first (r_level rule) (correlate False (stops evs my rule)
     (\<lambda>n. event_checks exec rule (evs n) (evs my)) (\<lambda>n. lf_full_log (evs n)) rule ns)"
proof (induction ns arbitrary: rule)
  case (Cons n ns)
  note S = stops_def [of evs my rule n]
  show ?case using Cons.IH by (simp add: found_def S Let_def mark_found_Some)
qed (simp add: found_def mark_found_Some)

text \<open>The events that count: those that agree, up to the first stop.\<close>

definition candidates :: "(nat \<Rightarrow> bool) \<Rightarrow> (nat \<Rightarrow> bool) \<Rightarrow> nat list \<Rightarrow> nat list" where
  "candidates stop ok ns = filter ok (takeWhile (\<lambda>n. \<not> stop n) ns)"

lemma candidates_simps [simp]:
  "candidates stop ok [] = []"
  "candidates stop ok (n # ns) =
     (if stop n then [] else if ok n then n # candidates stop ok ns else candidates stop ok ns)"
  by (simp_all add: candidates_def)

lemma correlate_step:
  "\<not> stop n \<Longrightarrow> ok n \<Longrightarrow> r_cur_frequency rule < r_frequency rule \<Longrightarrow>
   correlate late stop ok log rule (n # ns) =
     correlate late stop ok log ((keep_line rule (log n))\<lparr>r_cur_frequency := r_cur_frequency rule + 1\<rparr>) ns"
  "\<not> stop n \<Longrightarrow> ok n \<Longrightarrow> r_cur_frequency rule \<ge> r_frequency rule \<Longrightarrow>
   correlate late stop ok log rule (n # ns) =
     (Some n, if late then (keep_line rule (log n))\<lparr>r_cur_frequency := r_cur_frequency rule + 1\<rparr> else rule)"
  "\<not> stop n \<Longrightarrow> \<not> ok n \<Longrightarrow> correlate late stop ok log rule (n # ns) = correlate late stop ok log rule ns"
  "stop n \<Longrightarrow> correlate late stop ok log rule (n # ns) = (None, rule)"
  by (simp_all add: Let_def)

text \<open>How many more are needed, one counted.\<close>

lemma still_missing:
  "r_cur_frequency rule < r_frequency rule \<Longrightarrow>
   nat (r_frequency rule - r_cur_frequency rule) =
     Suc (nat (r_frequency rule - (r_cur_frequency rule + 1)))"
  by simp

lemma correlate_found:
  "r_cur_frequency rule \<le> r_frequency rule \<Longrightarrow>
   fst (correlate late stop ok log rule ns) =
     (let c = candidates stop ok ns; k = nat (r_frequency rule - r_cur_frequency rule)
      in if k < length c then Some (c ! k) else None)"
proof (induction ns arbitrary: rule)
  case (Cons n ns)
  consider "stop n" | "\<not> stop n" "\<not> ok n"
    | "\<not> stop n" "ok n" "r_cur_frequency rule < r_frequency rule"
    | "\<not> stop n" "ok n" "r_cur_frequency rule \<ge> r_frequency rule" by linarith
  then show ?case
  proof cases
    case 3
    then show ?thesis
      using Cons.IH [of "(keep_line rule (log n))\<lparr>r_cur_frequency := r_cur_frequency rule + 1\<rparr>"]
      by (simp only: correlate_step still_missing) (simp add: Let_def)
  qed (use Cons in \<open>simp_all add: Let_def correlate_step del: correlate.simps\<close>)
qed simp

text \<open>The buffer: its first cells hold the lines \<open>xs\<close>, the others are NULL.\<close>

definition buffered :: "('m, 'l) RuleInfo \<Rightarrow> string list \<Rightarrow> bool" where
  "buffered rule xs \<longleftrightarrow> length xs \<le> MAX_LAST_EVENTS \<and>
     r_last_events rule = Some (map Some xs @ replicate (MAX_LAST_EVENTS + 1 - length xs) None) \<and>
     (r_last_events_copied rule \<longleftrightarrow> xs \<noteq> [])"

lemma buffered_cur [simp]: "buffered (rule\<lparr>r_cur_frequency := f\<rparr>) xs = buffered rule xs"
  by (simp add: buffered_def)

lemma buffered_set:
  assumes "buffered rule xs" "length xs < MAX_LAST_EVENTS"
  shows "buffered (OS_SetRuleLastEvent rule (int (length xs)) s) (xs @ [s])"
proof -
  define m where "m = MAX_LAST_EVENTS - 1 - length xs"
  have m: "MAX_LAST_EVENTS + 1 - length xs = Suc (Suc m)"
    "MAX_LAST_EVENTS + 1 - length (xs @ [s]) = Suc m"
    using assms(2) by (simp_all add: m_def)
  let ?b = "map Some xs @ None # None # replicate m None"
  have b: "r_last_events rule = Some ?b" using assms(1) m(1) by (simp add: buffered_def)
  have 1: "?b[length xs := Some s] = map Some xs @ Some s # None # replicate m None"
    using list_update_length [of "map Some xs"] by simp
  have 2: "(map Some xs @ Some s # None # replicate m None)[length xs + 1 := None] =
      map Some xs @ Some s # None # replicate m None"
    using list_update_length [of "map Some xs @ [Some s]"] by simp
  have "OS_SetRuleLastEvent rule (int (length xs)) s =
      rule\<lparr>r_last_events := Some (map Some xs @ Some s # None # replicate m None),
           r_last_events_copied := True\<rparr>"
    unfolding OS_SetRuleLastEvent_def using b 1 2 assms(2) by (simp only: option.case Let_def) simp
  then show ?thesis unfolding buffered_def m(2) using assms(2) by simp
qed

definition filled :: "('m, 'l) RuleInfo \<Rightarrow> string list \<Rightarrow> bool" where
  "filled rule xs \<longleftrightarrow> buffered rule (take MAX_LAST_EVENTS xs) \<and> r_cur_frequency rule = int (length xs)"

lemma filled_keep_line:
  assumes "filled rule xs"
  shows "filled ((keep_line rule s)\<lparr>r_cur_frequency := r_cur_frequency rule + 1\<rparr>) (xs @ [s])"
proof (cases "length xs < MAX_LAST_EVENTS")
  case True
  then have "keep_line rule s = OS_SetRuleLastEvent rule (int (length xs)) s"
    using assms by (simp add: filled_def keep_line_def MAX_LAST_EVENTS_def)
  with True assms buffered_set [of rule xs s] show ?thesis by (simp add: filled_def)
next
  case False
  then have "keep_line rule s = rule"
    using assms by (simp add: filled_def keep_line_def MAX_LAST_EVENTS_def)
  with False assms show ?thesis by (simp add: filled_def)
qed

lemma correlate_lines:
  "filled rule xs \<Longrightarrow> int (length xs) \<le> r_frequency rule \<Longrightarrow>
   correlate late stop ok log rule ns = (Some n, rule') \<Longrightarrow>
   filled rule' (xs @ map log (take (nat (r_frequency rule) - length xs + (if late then 1 else 0))
     (candidates stop ok ns)))"
proof (induction ns arbitrary: rule xs)
  case (Cons m ns)
  let ?r = "(keep_line rule (log m))\<lparr>r_cur_frequency := r_cur_frequency rule + 1\<rparr>"
  have f: "r_cur_frequency rule = int (length xs)" using Cons.prems(1) by (simp add: filled_def)
  consider "stop m" | "\<not> stop m" "\<not> ok m"
    | "\<not> stop m" "ok m" "r_cur_frequency rule < r_frequency rule"
    | "\<not> stop m" "ok m" "r_cur_frequency rule \<ge> r_frequency rule" by linarith
  then show ?case
  proof cases
    case 3
    have "nat (r_frequency rule) - length xs = Suc (nat (r_frequency rule) - length (xs @ [log m]))"
      using 3 f by simp
    then show ?thesis
      using Cons.IH [of ?r "xs @ [log m]"] 3 f Cons.prems filled_keep_line [OF Cons.prems(1), of "log m"]
      by (simp add: correlate_step del: correlate.simps)
  next
    case 4
    then show ?thesis
      using Cons.prems f filled_keep_line [OF Cons.prems(1), of "log m"]
      by (auto simp: correlate_step simp del: correlate.simps split: if_splits)
  qed (use Cons in \<open>simp_all add: correlate_step del: correlate.simps\<close>)
qed simp

section \<open>What the searches find\<close>

text \<open>The buffer of a rule with context: allocated, and empty unless the flag says otherwise.\<close>

definition buffer_ok :: "('m, 'l) RuleInfo \<Rightarrow> bool" where
  "buffer_ok rule \<longleftrightarrow>
     (\<exists>b. r_last_events rule = Some b \<and> length b = MAX_LAST_EVENTS + 1 \<and>
          (\<not> r_last_events_copied rule \<longrightarrow> b = replicate (MAX_LAST_EVENTS + 1) None))"

lemma filled_start:
  "buffer_ok rule \<Longrightarrow> filled (OS_FreeRuleLastEvents (rule\<lparr>r_cur_frequency := 0\<rparr>)) []"
  by (cases "r_last_events_copied rule")
    (auto simp: buffer_ok_def filled_def buffered_def OS_FreeRuleLastEvents_def map_replicate_const)

text \<open>The alert's log lines, as the event carries them after the move: a NULL-terminated array.\<close>

definition alert_lines :: "string list \<Rightarrow> string option list" where
  "alert_lines xs = map Some (take MAX_LAST_EVENTS xs) @
     replicate (MAX_LAST_EVENTS + 1 - length (take MAX_LAST_EVENTS xs)) None"

text \<open>
  The outcome of a search over the history \<open>ns\<close>, newest first: too few candidates, and nothing
  changes; or enough, and the one that makes the count up is returned, it, the newest and the
  current event are marked with the rule's level, and the current event carries the log lines of
  those that were counted.
\<close>

definition search_spec :: "bool \<Rightarrow> (nat \<Rightarrow> bool) \<Rightarrow> events \<Rightarrow> nat \<Rightarrow> ('m, 'l) RuleInfo \<Rightarrow> nat list
    \<Rightarrow> nat option \<times> events \<times> ('m, 'l) RuleInfo \<Rightarrow> bool" where
  "search_spec late ok evs my_lf rule ns result \<longleftrightarrow>
     (let c = candidates (stops evs my_lf rule) ok ns; k = nat (r_frequency rule);
          (res, evs', rule') = result
      in if length c \<le> k then res = None \<and> evs' = evs
         else res = Some (c ! k) \<and>
           (\<forall>a. lf_matched (evs' a) =
              (if a \<in> {my_lf, c ! k, hd ns} then r_level rule else lf_matched (evs a))) \<and>
           (let ls = map (\<lambda>n. lf_full_log (evs n)) (take (k + (if late then 1 else 0)) c)
            in lf_alert_last_events (evs' my_lf) =
                 (if ls = [] then lf_alert_last_events (evs my_lf) else Some (alert_lines ls))))"

lemma set_matched_sel [simp]:
  "lf_matched (set_matched evs a lev b) = (if b = a then lev else lf_matched (evs b))"
  "lf_alert_last_events (set_matched evs a lev b) = lf_alert_last_events (evs b)"
  by (simp_all add: set_matched_def)

lemma mark_matched_sel [simp]:
  "lf_matched (mark_matched evs a b c lev d) = (if d \<in> {a, b, c} then lev else lf_matched (evs d))"
  "lf_alert_last_events (mark_matched evs a b c lev d) = lf_alert_last_events (evs d)"
  by (simp_all add: mark_matched_def)

lemma move_filled:
  assumes "filled rule xs"
  shows "snd (OS_MoveRuleLastEvents rule lf) =
    (if xs = [] then lf else lf\<lparr>lf_alert_last_events := Some (alert_lines xs)\<rparr>)"
  using assms by (auto simp: filled_def buffered_def OS_MoveRuleLastEvents_def alert_lines_def
      MAX_LAST_EVENTS_def)

lemma search_meets_spec:
  assumes b: "buffer_ok rule" and f: "0 \<le> r_frequency rule"
    and r0: "rule0 = OS_FreeRuleLastEvents (rule\<lparr>r_cur_frequency := 0\<rparr>)"
  shows "search_spec late ok evs my_lf rule (n # ns)
    (search_out my_lf (found evs my_lf n (r_level rule0)
       (correlate late (stops evs my_lf rule0) ok (\<lambda>n. lf_full_log (evs n)) rule0 (n # ns))))"
proof -
  let ?corr = "correlate late (stops evs my_lf rule0) ok (\<lambda>n. lf_full_log (evs n)) rule0 (n # ns)"
  let ?c = "candidates (stops evs my_lf rule) ok (n # ns)" and ?k = "nat (r_frequency rule)"
  have F: "filled rule0 []" unfolding r0 by (rule filled_start [OF b])
  have same: "stops evs my_lf rule0 = stops evs my_lf rule" "r_frequency rule0 = r_frequency rule"
    "r_level rule0 = r_level rule" "r_cur_frequency rule0 = 0" by (simp_all add: r0)
  obtain h rule' where C: "?corr = (h, rule')" by force
  have h: "h = (if ?k < length ?c then Some (?c ! ?k) else None)"
    using correlate_found [of rule0 late "stops evs my_lf rule0" ok "\<lambda>n. lf_full_log (evs n)" "n # ns"]
      C same f by (simp add: Let_def del: correlate.simps candidates_simps)
  show ?thesis
  proof (cases "?k < length ?c")
    case False
    with h C show ?thesis
      by (simp add: search_spec_def search_out_def found_def mark_found_def
          del: correlate.simps candidates_simps)
  next
    case True
    with h have hs: "h = Some (?c ! ?k)" by simp
    have L: "filled rule' (map (\<lambda>n. lf_full_log (evs n)) (take (?k + (if late then 1 else 0)) ?c))"
      using correlate_lines [OF F _ C [unfolded hs]] f same by (simp del: candidates_simps)
    obtain rule'' ev where M: "OS_MoveRuleLastEvents rule'
        (mark_matched evs my_lf (?c ! ?k) n (r_level rule0) my_lf) = (rule'', ev)" by force
    from move_filled [OF L] M have ev: "ev = snd (OS_MoveRuleLastEvents rule'
        (mark_matched evs my_lf (?c ! ?k) n (r_level rule0) my_lf))" by simp
    have out: "search_out my_lf (found evs my_lf n (r_level rule0) ?corr) =
        (Some (?c ! ?k), (mark_matched evs my_lf (?c ! ?k) n (r_level rule0))(my_lf := ev), rule'')"
      using C hs M by (simp add: search_out_def found_def mark_found_Some
          del: correlate.simps candidates_simps)
    have "lf_matched ev = r_level rule" unfolding ev move_filled [OF L] using same by simp
    moreover have "lf_alert_last_events ev =
        (let ls = map (\<lambda>n. lf_full_log (evs n)) (take (?k + (if late then 1 else 0)) ?c)
         in if ls = [] then lf_alert_last_events (evs my_lf) else Some (alert_lines ls))"
      unfolding ev move_filled [OF L] by (simp add: Let_def del: candidates_simps)
    ultimately show ?thesis
      using True same unfolding out search_spec_def
      by (simp add: Let_def del: candidates_simps)
  qed
qed

section \<open>Properties\<close>

text \<open>
  C12. \<open>Search_LastSids\<close>: of the events the watched signature fired on, from the newest back to the
  first that is too old or was used for an alert of this level, those that agree with the current
  event in the fields the rule names are counted; the search succeeds exactly when there are more
  than \<open>frequency\<close> of them, then marks three events and hands the collected log lines (at most
  eleven) to the current event; otherwise it leaves all events as they were.
\<close>

theorem Search_LastSids_correct:
  assumes "buffer_ok rule" "0 \<le> r_frequency rule" "r_sid_search rule = Some l" "hist l \<noteq> []"
  shows "search_spec True (\<lambda>n. list_checks rule (evs n) (evs my_lf)) evs my_lf rule (rev (hist l))
    (Search_LastSids hist evs my_lf rule)"
proof -
  obtain n ns where h: "rev (hist l) = n # ns" using assms(4) by (cases "rev (hist l)") auto
  from search_meets_spec [OF assms(1,2) refl, of True "\<lambda>n. list_checks rule (evs n) (evs my_lf)" evs my_lf n ns]
  show ?thesis
    by (simp add: Search_LastSids_def assms(3) h sids_correlate
        del: correlate.simps Search_LastSids_loop.simps)
qed

text \<open>
  C13. \<open>Search_LastGroups\<close> counts the same way in the history of the watched group; only the log
  line of the event that completes the count is not among those handed over.
\<close>

theorem Search_LastGroups_correct:
  assumes "buffer_ok rule" "0 \<le> r_frequency rule" "r_group_search rule = Some l" "hist l \<noteq> []"
  shows "search_spec False (\<lambda>n. list_checks rule (evs n) (evs my_lf)) evs my_lf rule (rev (hist l))
    (Search_LastGroups hist evs my_lf rule)"
proof -
  obtain n ns where h: "rev (hist l) = n # ns" using assms(4) by (cases "rev (hist l)") auto
  from search_meets_spec [OF assms(1,2) refl, of False "\<lambda>n. list_checks rule (evs n) (evs my_lf)" evs my_lf n ns]
  show ?thesis
    by (simp add: Search_LastGroups_def assms(3) h groups_correlate
        del: correlate.simps Search_LastGroups_loop.simps)
qed

text \<open>
  C9. \<open>Search_LastEvents\<close> counts in the list of all recent events those of the same category that
  match the rule's expression and agree in the named fields.
\<close>

theorem Search_LastEvents_correct:
  assumes "buffer_ok rule" "0 \<le> r_frequency rule" "elist \<noteq> []"
  shows "search_spec False (\<lambda>n. event_checks exec rule (evs n) (evs my_lf)) evs my_lf rule elist
    (Search_LastEvents exec elist evs my_lf rule)"
proof -
  obtain n ns where h: "elist = n # ns" using assms(3) by (cases elist) auto
  from search_meets_spec [OF assms(1,2) refl, of False "\<lambda>n. event_checks exec rule (evs n) (evs my_lf)" evs my_lf n ns]
  show ?thesis
    by (simp add: Search_LastEvents_def h events_correlate
        del: correlate.simps Search_LastEvents_loop.simps)
qed

subsection \<open>Witnesses\<close>

text \<open>Three failed logins; the rule asks for more than one with the same source address.\<close>

definition login_rule :: "(nat, nat) RuleInfo" where
  "login_rule = zero_rule\<lparr>r_level := 10, r_frequency := 1, r_timeframe := 120,
     r_context_opts := SAME_SRCIP, r_sid_search := Some 5, r_group_search := Some 5,
     r_last_events := Some (replicate 12 None)\<rparr>"

definition login_events :: events where
  "login_events n = zero_event\<lparr>lf_time := int n * 10, lf_srcip := Some ''10.0.0.1''\<rparr>"

lemma login_rule_ok: "buffer_ok login_rule" "0 \<le> r_frequency login_rule"
  "r_sid_search login_rule = Some 5" "r_group_search login_rule = Some 5"
  by (simp_all add: buffer_ok_def login_rule_def zero_rule_def MAX_LAST_EVENTS_def eval_nat_numeral)

lemma login_frequency: "r_frequency login_rule = 1"
  by (simp add: login_rule_def zero_rule_def)

lemma login_candidates:
  "candidates (stops login_events 5 login_rule)
     (\<lambda>n. list_checks login_rule (login_events n) (login_events 5)) [4, 3, 2] = [4, 3, 2]"
  "candidates (stops login_events 5 login_rule)
     (\<lambda>n. event_checks (\<lambda>_ _. True) login_rule (login_events n) (login_events 5)) [4, 3, 2] = [4, 3, 2]"
  by (simp_all add: stops_def list_checks_def event_checks_def login_events_def login_rule_def
      zero_rule_def zero_event_def has_bit_def same_str_def strcmp_eq_0 c_string_def)

lemma found_Some:
  "search_spec late ok evs my rule ns r \<Longrightarrow>
   nat (r_frequency rule) < length (candidates (stops evs my rule) ok ns) \<Longrightarrow>
   fst r = Some (candidates (stops evs my rule) ok ns ! nat (r_frequency rule))"
  by (cases r) (auto simp: search_spec_def Let_def)

theorem Search_LastSids_correct_witness:
  "fst (Search_LastSids (\<lambda>_. [2, 3, 4]) login_events 5 login_rule) = Some 3"
  using found_Some [OF Search_LastSids_correct [OF login_rule_ok(1,2,3), of "\<lambda>_. [2, 3, 4]" login_events 5]]
  by (simp add: login_candidates login_frequency del: candidates_simps)

theorem Search_LastGroups_correct_witness:
  "fst (Search_LastGroups (\<lambda>_. [2, 3, 4]) login_events 5 login_rule) = Some 3"
  using found_Some [OF Search_LastGroups_correct [OF login_rule_ok(1,2,4), of "\<lambda>_. [2, 3, 4]" login_events 5]]
  by (simp add: login_candidates login_frequency del: candidates_simps)

theorem Search_LastEvents_correct_witness:
  "fst (Search_LastEvents (\<lambda>_ _. True) [4, 3, 2] login_events 5 login_rule) = Some 3"
  using found_Some [OF Search_LastEvents_correct [OF login_rule_ok(1,2), of "[4, 3, 2]" "\<lambda>_ _. True" login_events 5]]
  by (simp add: login_candidates login_frequency del: candidates_simps)

end
