(* ===== verification/Rules_List.thy ===== *)
theory Rules_List
  imports Word_Match List_Op Correlation "HOL-Library.Multiset"
begin

text \<open>
  \<^verbatim>\<open>analysisd/rules_list.c\<close>: the tree of rules, and the end of the loop in \<^verbatim>\<open>analysisd/rules.c\<close> that
  puts a parsed rule into it. Every sibling list is kept in descending order of level, so that of
  the rules that match, the most severe is found first. A node holds a pointer to its rule: the
  same rule may hang under many parents, and every node of it sees an update of the rule.

  The state is the root list, the store of rules and the histories (\<open>OSList\<close>) created so far, whose
  pointers are indices. \<open>ErrorExit\<close> ends the program: the left side of the result.
\<close>

section \<open>The model\<close>

datatype RuleNode = RuleNode (ruleinfo: nat) (child: "RuleNode list")

type_synonym ('m, 'l) rules = "nat \<Rightarrow> ('m, 'l) RuleInfo"

datatype rules_error =
  SidNotFound int | SidNotInteger | LevelNotFound int | GroupNotFound string
  | CategoryNotFound nat | OverwriteNotFound int | NoMaxSize

fun OS_AddRule_internal :: "('m, 'l) rules \<Rightarrow> RuleNode list \<Rightarrow> nat \<Rightarrow> RuleNode list" where
  "OS_AddRule_internal rules [] read_rule = [RuleNode read_rule []]"
| "OS_AddRule_internal rules (n # ns) read_rule =
     (if r_level (rules read_rule) > r_level (rules (ruleinfo n))
      then RuleNode read_rule [] # n # ns
      else n # OS_AddRule_internal rules ns read_rule)"

definition inherit_events :: "('m, 'l) rules \<Rightarrow> nat \<Rightarrow> nat \<Rightarrow> ('m, 'l) rules" where
  "inherit_events rules read_rule parent =
     (if r_last_events (rules read_rule) = None \<and> r_last_events (rules parent) \<noteq> None
      then rules(read_rule := (rules read_rule)\<lparr>r_last_events := r_last_events (rules parent)\<rparr>)
      else rules)"

definition set_category :: "('m, 'l) rules \<Rightarrow> nat \<Rightarrow> nat \<Rightarrow> ('m, 'l) rules" where
  "set_category rules read_rule parent =
     rules(read_rule := (rules read_rule)\<lparr>r_category := r_category (rules parent)\<rparr>)"

text \<open>
  The chain of conditions on one node: return 1, skip the node with its children, or go down into
  the children, having matched (and gained a child) or not.
\<close>

datatype ('m, 'l) visit =
  Return RuleNode "('m, 'l) rules" | Skip | Descend bool RuleNode "('m, 'l) rules"

definition add_here :: "('m, 'l) rules \<Rightarrow> RuleNode \<Rightarrow> nat \<Rightarrow> RuleNode" where
  "add_here rules n read_rule = RuleNode (ruleinfo n) (OS_AddRule_internal rules (child n) read_rule)"

definition visit_node :: "int \<Rightarrow> int \<Rightarrow> string option \<Rightarrow> nat \<Rightarrow> RuleNode \<Rightarrow> ('m, 'l) rules
    \<Rightarrow> ('m, 'l) visit" where
  "visit_node sid level grp read_rule n rules =
     (let info = rules (ruleinfo n) in
      if sid \<noteq> 0 then
        if r_sigid info = sid then
          let rules1 = inherit_events (set_category rules read_rule (ruleinfo n)) read_rule (ruleinfo n)
          in Return (add_here rules1 n read_rule) rules1
        else Descend False n rules
      else case grp of
        Some g \<Rightarrow>
          if OS_WordMatch g (r_group info) \<and> r_sigid info \<noteq> r_sigid (rules read_rule) then
            let rules1 = inherit_events rules read_rule (ruleinfo n)
            in Descend True (add_here rules1 n read_rule) rules1
          else Descend False n rules
      | None \<Rightarrow>
          if level \<noteq> 0 then
            if r_level info \<ge> level \<and> r_sigid info \<noteq> r_sigid (rules read_rule)
            then Descend True (add_here rules n read_rule) rules
            else Descend False n rules
          else if r_category (rules read_rule) \<noteq> r_category info then Skip
          else
            let rules1 = set_category rules read_rule (ruleinfo n)
            in Return (add_here rules1 n read_rule) rules1)"

text \<open>The size of a tree for the recursion: nodes of the new rule count less than others.\<close>

fun weight :: "nat \<Rightarrow> RuleNode \<Rightarrow> nat" where
  "weight r (RuleNode i ch) = (if i = r then 1 else 2) + sum_list (map (weight r) ch)"

lemma weight_add_rule:
  "sum_list (map (weight r) (OS_AddRule_internal rules ns r)) = Suc (sum_list (map (weight r) ns))"
  by (induction ns) auto

lemma visit_weight:
  assumes "visit_node sid level grp r n rules = Descend c n' rules'"
  shows "sum_list (map (weight r) (child n')) < weight r n"
  using assms
  by (cases n) (auto simp: visit_node_def add_here_def Let_def weight_add_rule
      split: if_splits option.splits)

function AddtoRule :: "int \<Rightarrow> int \<Rightarrow> string option \<Rightarrow> nat \<Rightarrow> RuleNode list \<Rightarrow> ('m, 'l) rules
    \<Rightarrow> bool \<times> RuleNode list \<times> ('m, 'l) rules" where
  "AddtoRule sid level grp read_rule [] rules = (False, [], rules)"
| "AddtoRule sid level grp read_rule (n # ns) rules =
     (case visit_node sid level grp read_rule n rules of
        Return n' rules1 \<Rightarrow> (True, n' # ns, rules1)
      | Skip \<Rightarrow>
          let (c, ns', rules1) = AddtoRule sid level grp read_rule ns rules in (c, n # ns', rules1)
      | Descend c n' rules1 \<Rightarrow>
          let (c1, ch, rules2) = AddtoRule sid level grp read_rule (child n') rules1;
              (c2, ns', rules3) = AddtoRule sid level grp read_rule ns rules2
          in (c \<or> c1 \<or> c2, RuleNode (ruleinfo n') ch # ns', rules3))"
  by pat_completeness auto

lemma weight_pos [simp]: "0 < weight r n"
  by (cases n) simp

termination AddtoRule
  by (relation "measure (\<lambda>(_, _, _, r, ns, _). sum_list (map (weight r) ns))")
    (auto dest: visit_weight)

record ('m, 'l) rule_state =
  rulenode :: "RuleNode list"
  rules :: "('m, 'l) rules"
  os_lists :: "OSList list"

definition OS_CreateRuleList :: "('m, 'l) rule_state \<Rightarrow> ('m, 'l) rule_state" where
  "OS_CreateRuleList st = st\<lparr>rulenode := []\<rparr>"

definition OS_AddRule :: "('m, 'l) rule_state \<Rightarrow> nat \<Rightarrow> ('m, 'l) rule_state" where
  "OS_AddRule st read_rule = st\<lparr>rulenode := OS_AddRule_internal (rules st) (rulenode st) read_rule\<rparr>"

text \<open>\<open>_AddtoRule\<close> from the root of the tree.\<close>

definition add_from_root :: "int \<Rightarrow> int \<Rightarrow> string option \<Rightarrow> nat \<Rightarrow> ('m, 'l) rule_state
    \<Rightarrow> bool \<times> ('m, 'l) rule_state" where
  "add_from_root sid level grp read_rule st =
     (let (c, ns, rs) = AddtoRule sid level grp read_rule (rulenode st) (rules st)
      in (c, st\<lparr>rulenode := ns, rules := rs\<rparr>))"

text \<open>The loop over \<open>if_sid\<close>, the terminating NUL byte included; \<open>val\<close> marks a number in progress.\<close>

fun if_sid_loop :: "bool \<Rightarrow> string \<Rightarrow> nat \<Rightarrow> ('m, 'l) rule_state
    \<Rightarrow> rules_error + ('m, 'l) rule_state" where
  "if_sid_loop val [] read_rule st =
     (if \<not> val then
        let (c, st1) = add_from_root (atoi []) 0 None read_rule st
        in if c then Inr st1 else Inl (SidNotFound (atoi []))
      else Inr st)"
| "if_sid_loop val (c # sid) read_rule st =
     (if c = CHR '','' \<or> c = CHR '' '' then if_sid_loop False sid read_rule st
      else if c_isdigit c then
        if \<not> val then
          let (ok, st1) = add_from_root (atoi (c # sid)) 0 None read_rule st
          in if ok then if_sid_loop True sid read_rule st1 else Inl (SidNotFound (atoi (c # sid)))
        else if_sid_loop val sid read_rule st
      else Inl SidNotInteger)"

definition OS_AddChild :: "nat \<Rightarrow> ('m, 'l) rule_state \<Rightarrow> rules_error + int \<times> ('m, 'l) rule_state" where
  "OS_AddChild read_rule st =
     (let r = rules st read_rule in
      case r_if_sid r of
        Some sid \<Rightarrow> map_sum id (Pair 0) (if_sid_loop False sid read_rule st)
      | None \<Rightarrow>
      (case r_if_level r of
        Some l \<Rightarrow>
          if atoi l = 0 then Inr (1, st)
          else let ilevel = atoi l * 100; (c, st1) = add_from_root 0 ilevel None read_rule st
               in if c then Inr (0, st1) else Inl (LevelNotFound ilevel)
      | None \<Rightarrow>
      (case r_if_group r of
        Some g \<Rightarrow>
          let (c, st1) = add_from_root 0 0 (Some g) read_rule st
          in if c then Inr (0, st1) else Inl (GroupNotFound g)
      | None \<Rightarrow>
          let (c, st1) = add_from_root 0 0 None read_rule st
          in if c then Inr (0, st1) else Inl (CategoryNotFound (r_category r)))))"

text \<open>The rules of the nodes in the order the walks visit them: a node, its children, its siblings.\<close>

fun preorder_node :: "RuleNode \<Rightarrow> nat list" where
  "preorder_node (RuleNode i ch) = i # concat (map preorder_node ch)"

definition preorder :: "RuleNode list \<Rightarrow> nat list" where
  "preorder ns = concat (map preorder_node ns)"

text \<open>What an overwrite copies, field by field in the order of the source.\<close>

definition overwrite_rule :: "('m, 'l) RuleInfo \<Rightarrow> ('m, 'l) RuleInfo \<Rightarrow> ('m, 'l) RuleInfo" where
  "overwrite_rule r new =
     (let r1 = r\<lparr>r_level := r_level new, r_maxsize := r_maxsize new,
                 r_frequency := r_frequency new, r_timeframe := r_timeframe new,
                 r_ignore_time := r_ignore_time new, r_group := r_group new, r_match := r_match new,
                 r_regex := r_regex new, r_day_time := r_day_time new, r_week_day := r_week_day new\<rparr>;
          r2 = r1\<lparr>r_srcip := r_srcip new, r_dstip := r_dstip new, r_srcport := r_srcport new,
                  r_dstport := r_dstport new, r_user := r_user new, r_url := r_url new,
                  r_id := r_id new, r_status := r_status new, r_hostname := r_hostname new,
                  r_program_name := r_program_name new, r_extra_data := r_extra_data new,
                  r_action := r_action new\<rparr>;
          r3 = r2\<lparr>r_if_matched_regex := r_if_matched_regex new,
                  r_if_matched_group := r_if_matched_group new,
                  r_if_matched_sid := r_if_matched_sid new, r_alert_opts := r_alert_opts new,
                  r_context_opts := r_context_opts new, r_context := r_context new,
                  r_decoded_as := r_decoded_as new, r_compiled_rule := r_compiled_rule new\<rparr>
      in if has_bit (r_context_opts new) SAME_DODIFF \<and> r_last_events r3 = None
         then r3\<lparr>r_last_events := r_last_events new\<rparr> else r3)"

definition OS_AddRuleInfo :: "nat \<Rightarrow> int \<Rightarrow> ('m, 'l) rule_state \<Rightarrow> bool \<times> ('m, 'l) rule_state" where
  "OS_AddRuleInfo newrule sid st =
     (if sid = 0 then (False, st)
      else case find (\<lambda>i. r_sigid (rules st i) = sid) (preorder (rulenode st)) of
        None \<Rightarrow> (False, st)
      | Some i \<Rightarrow>
          (True, st\<lparr>rules := (rules st)(i := overwrite_rule (rules st i) (rules st newrule))\<rparr>))"

text \<open>\<open>sid_max\<close> is the configured \<open>analysisd.sid_prev_matched_max\<close>.\<close>

definition mark_id_node :: "int \<Rightarrow> nat \<Rightarrow> nat \<Rightarrow> ('m, 'l) rule_state
    \<Rightarrow> rules_error + ('m, 'l) rule_state" where
  "mark_id_node sid_max orig i st =
     (if r_sigid (rules st i) \<noteq> r_if_matched_sid (rules st orig) then Inr st
      else
        let made =
          (if r_sid_prev_matched (rules st i) = None then
             let (_, l) = OSList_SetFreeDataPointer (Some OSList_Create) True;
                 (ok, l') = OSList_SetMaxSize l sid_max
             in if ok = 0 then Inl NoMaxSize
                else Inr (st\<lparr>os_lists := os_lists st @ [the l'],
                             rules := (rules st)(i := (rules st i)
                               \<lparr>r_sid_prev_matched := Some (length (os_lists st))\<rparr>)\<rparr>)
           else Inr st)
        in case made of
             Inl e \<Rightarrow> Inl e
           | Inr st1 \<Rightarrow>
               Inr (st1\<lparr>rules := (rules st1)(orig := (rules st1 orig)
                      \<lparr>r_sid_search := r_sid_prev_matched (rules st1 i)\<rparr>)\<rparr>))"

fun mark_id_nodes :: "int \<Rightarrow> nat \<Rightarrow> nat list \<Rightarrow> ('m, 'l) rule_state
    \<Rightarrow> rules_error + ('m, 'l) rule_state" where
  "mark_id_nodes sid_max orig [] st = Inr st"
| "mark_id_nodes sid_max orig (i # is) st =
     (case mark_id_node sid_max orig i st of
        Inl e \<Rightarrow> Inl e
      | Inr st1 \<Rightarrow> mark_id_nodes sid_max orig is st1)"

definition OS_MarkID :: "int \<Rightarrow> nat \<Rightarrow> ('m, 'l) rule_state \<Rightarrow> rules_error + ('m, 'l) rule_state" where
  "OS_MarkID sid_max orig st = mark_id_nodes sid_max orig (preorder (rulenode st)) st"

text \<open>
  \<open>group_prev_matched\<close> is a NULL-terminated array of lists, here without the NULL. The matcher is
  an argument.
\<close>

definition mark_group_node :: "('m \<Rightarrow> string \<Rightarrow> bool) \<Rightarrow> nat \<Rightarrow> nat \<Rightarrow> ('m, 'l) rules \<Rightarrow> ('m, 'l) rules" where
  "mark_group_node exec orig i rs =
     (case (r_if_matched_group (rs orig), r_group_search (rs orig)) of
        (Some m, Some l) \<Rightarrow>
          if exec m (r_group (rs i)) then
            rs(i := (rs i)\<lparr>r_group_prev_matched := r_group_prev_matched (rs i) @ [l]\<rparr>)
          else rs
      | _ \<Rightarrow> rs)"

definition OS_MarkGroup :: "('m \<Rightarrow> string \<Rightarrow> bool) \<Rightarrow> nat \<Rightarrow> ('m, 'l) rule_state \<Rightarrow> ('m, 'l) rule_state" where
  "OS_MarkGroup exec orig st =
     st\<lparr>rules := fold (mark_group_node exec orig) (preorder (rulenode st)) (rules st)\<rparr>"

text \<open>\<^verbatim>\<open>analysisd/rules.c\<close>: a rule just parsed goes into the tree and gets its search function.\<close>

definition place_rule :: "nat \<Rightarrow> ('m, 'l) rule_state \<Rightarrow> rules_error + ('m, 'l) rule_state" where
  "place_rule r st =
     (if r_sigid (rules st r) < 10 then Inr (OS_AddRule st r)
      else if has_bit (r_alert_opts (rules st r)) DO_OVERWRITE then
        let (ok, st1) = OS_AddRuleInfo r (r_sigid (rules st r)) st
        in if ok then Inr st1 else Inl (OverwriteNotFound (r_sigid (rules st r)))
      else map_sum id snd (OS_AddChild r st))"

definition modify_rule :: "nat \<Rightarrow> (('m, 'l) RuleInfo \<Rightarrow> ('m, 'l) RuleInfo) \<Rightarrow> ('m, 'l) rule_state
    \<Rightarrow> ('m, 'l) rule_state" where
  "modify_rule r f st = st\<lparr>rules := (rules st)(r := f (rules st r))\<rparr>"

definition set_search :: "('m \<Rightarrow> string \<Rightarrow> bool) \<Rightarrow> int \<Rightarrow> nat \<Rightarrow> ('m, 'l) rule_state
    \<Rightarrow> rules_error + ('m, 'l) rule_state" where
  "set_search exec sid_max r st =
     (if r_if_matched_sid (rules st r) \<noteq> 0 then
        OS_MarkID sid_max r (modify_rule r (\<lambda>ri. ri\<lparr>r_event_search := Some LastSids\<rparr>) st)
      else if r_if_matched_group (rules st r) \<noteq> None then
        let st1 = modify_rule r (\<lambda>ri. ri\<lparr>r_group_search := Some (length (os_lists st))\<rparr>)
                    (st\<lparr>os_lists := os_lists st @ [OSList_Create]\<rparr>);
            st2 = OS_MarkGroup exec r st1
        in Inr (modify_rule r (\<lambda>ri. ri\<lparr>r_event_search := Some LastGroups\<rparr>) st2)
      else if r_context (rules st r) \<noteq> 0 then
        if r_context (rules st r) = 1 \<and> has_bit (r_context_opts (rules st r)) SAME_DODIFF
        then Inr (modify_rule r (\<lambda>ri. ri\<lparr>r_context := 0\<rparr>) st)
        else Inr (modify_rule r (\<lambda>ri. ri\<lparr>r_event_search := Some LastEvents\<rparr>) st)
      else Inr st)"

definition install_rule :: "('m \<Rightarrow> string \<Rightarrow> bool) \<Rightarrow> int \<Rightarrow> nat \<Rightarrow> ('m, 'l) rule_state
    \<Rightarrow> rules_error + ('m, 'l) rule_state" where
  "install_rule exec sid_max r st =
     (case place_rule r st of
        Inl e \<Rightarrow> Inl e
      | Inr st1 \<Rightarrow>
          set_search exec sid_max r (modify_rule r (\<lambda>ri. ri\<lparr>r_if_group := None\<rparr>) st1))"

section \<open>What an insertion keeps of the rules\<close>

text \<open>
  Putting a rule into the tree rewrites its category and its buffer only, the category only when a
  parent is searched by signature or by category, where the parent's is taken over.
\<close>

definition same_rules :: "('m, 'l) rules \<Rightarrow> ('m, 'l) rules \<Rightarrow> bool" where
  "same_rules rs rs' \<longleftrightarrow>
     (\<forall>i. r_sigid (rs' i) = r_sigid (rs i) \<and> r_level (rs' i) = r_level (rs i) \<and>
          r_group (rs' i) = r_group (rs i) \<and> r_alert_opts (rs' i) = r_alert_opts (rs i))"

lemma same_rules_refl [simp]: "same_rules rs rs"
  by (simp add: same_rules_def)

lemma same_rules_trans: "same_rules a b \<Longrightarrow> same_rules b c \<Longrightarrow> same_rules a c"
  by (simp add: same_rules_def)

lemma same_rules_step [simp]:
  "same_rules rs (inherit_events rs r p)" "same_rules rs (set_category rs r p)"
  by (simp_all add: same_rules_def inherit_events_def set_category_def)

text \<open>Whether a node is one the new rule belongs under.\<close>

definition fits :: "int \<Rightarrow> int \<Rightarrow> string option \<Rightarrow> nat \<Rightarrow> ('m, 'l) rules \<Rightarrow> nat \<Rightarrow> bool" where
  "fits sid level grp r rs i \<longleftrightarrow>
     (if sid \<noteq> 0 then r_sigid (rs i) = sid
      else case grp of
        Some g \<Rightarrow> OS_WordMatch g (r_group (rs i)) \<and> r_sigid (rs i) \<noteq> r_sigid (rs r)
      | None \<Rightarrow> if level \<noteq> 0 then r_level (rs i) \<ge> level \<and> r_sigid (rs i) \<noteq> r_sigid (rs r)
                else r_category (rs i) = r_category (rs r))"

lemma visit_Return:
  assumes "visit_node sid level grp r n rs = Return n' rs'"
  shows "same_rules rs rs' \<and> n' = add_here rs' n r \<and> fits sid level grp r rs (ruleinfo n) \<and>
    (sid \<noteq> 0 \<or> grp = None \<and> level = 0)"
proof (cases "sid = 0")
  case True
  with assms show ?thesis
    by (cases grp) (auto simp: visit_node_def fits_def Let_def split: if_splits)
next
  case False
  then have "r_sigid (rs (ruleinfo n)) = sid"
    "rs' = inherit_events (set_category rs r (ruleinfo n)) r (ruleinfo n)" "n' = add_here rs' n r"
    using assms by (auto simp: visit_node_def Let_def split: if_splits)
  moreover have "same_rules rs (inherit_events (set_category rs r p) r q)" for p q
    by (rule same_rules_trans [OF same_rules_step(2) same_rules_step(1)])
  ultimately show ?thesis using False by (simp add: fits_def)
qed

lemma visit_Descend:
  assumes "visit_node sid level grp r n rs = Descend c n' rs'"
  shows "same_rules rs rs' \<and> n' = (if c then add_here rs' n r else n) \<and>
    (c \<longleftrightarrow> fits sid level grp r rs (ruleinfo n)) \<and> (c \<longrightarrow> sid = 0) \<and> (sid \<noteq> 0 \<or> grp \<noteq> None \<or> level \<noteq> 0)"
proof (cases "sid = 0")
  case True
  with assms show ?thesis
    by (cases grp) (auto simp: visit_node_def fits_def Let_def split: if_splits)
next
  case False
  with assms show ?thesis by (auto simp: visit_node_def fits_def Let_def split: if_splits)
qed

lemma visit_Skip:
  assumes "visit_node sid level grp r n rs = Skip"
  shows "sid = 0 \<and> grp = None \<and> level = 0 \<and> \<not> fits sid level grp r rs (ruleinfo n)"
  using assms by (cases grp) (auto simp: visit_node_def fits_def Let_def split: if_splits)

text \<open>Induction over a walk, with the four outcomes of a visit as its cases.\<close>

lemma AddtoRule_walk [consumes 1, case_names Nil Ret Skp Desc]:
  assumes "AddtoRule sid level grp r ns rs = (c, ns', rs')"
    and "\<And>rs. P [] rs False [] rs"
    and "\<And>n ns rs n' rs1. visit_node sid level grp r n rs = Return n' rs1 \<Longrightarrow>
      P (n # ns) rs True (n' # ns) rs1"
    and "\<And>n ns rs c ns' rs1. visit_node sid level grp r n rs = Skip \<Longrightarrow> P ns rs c ns' rs1 \<Longrightarrow>
      same_rules rs rs1 \<Longrightarrow> P (n # ns) rs c (n # ns') rs1"
    and "\<And>n ns rs d n1 rs1 c1 ch rs2 c2 ms rs3. visit_node sid level grp r n rs = Descend d n1 rs1 \<Longrightarrow>
      P (child n1) rs1 c1 ch rs2 \<Longrightarrow> P ns rs2 c2 ms rs3 \<Longrightarrow> same_rules rs1 rs2 \<Longrightarrow> same_rules rs2 rs3 \<Longrightarrow>
      P (n # ns) rs (d \<or> c1 \<or> c2) (RuleNode (ruleinfo n1) ch # ms) rs3"
  shows "P ns rs c ns' rs' \<and> same_rules rs rs'"
  using assms(1)
proof (induction sid \<equiv> sid level \<equiv> level grp \<equiv> grp r \<equiv> r ns rs arbitrary: c ns' rs' rule: AddtoRule.induct)
  case (1 rs)
  then show ?case using assms(2) by simp
next
  case (2 n ns rs)
  show ?case
  proof (cases "visit_node sid level grp r n rs")
    case (Return n1 rs1)
    with 2(4) visit_Return [OF this] assms(3) [OF this] show ?thesis by auto
  next
    case Skip
    obtain c1 ms rs1 where "AddtoRule sid level grp r ns rs = (c1, ms, rs1)" by (metis prod_cases3)
    with 2(1) [OF Skip this] 2(4) Skip assms(4) [OF Skip] show ?thesis by auto
  next
    case (Descend d n1 rs1)
    obtain c1 ch rs2 where a: "AddtoRule sid level grp r (child n1) rs1 = (c1, ch, rs2)"
      by (metis prod_cases3)
    obtain c2 ms rs3 where b: "AddtoRule sid level grp r ns rs2 = (c2, ms, rs3)" by (metis prod_cases3)
    have h1: "P (child n1) rs1 c1 ch rs2 \<and> same_rules rs1 rs2" by (rule 2(2) [OF Descend a])
    have h2: "P ns rs2 c2 ms rs3 \<and> same_rules rs2 rs3"
      by (rule 2(3) [OF Descend a [symmetric] refl refl b])
    from 2(4) Descend a b have "c = (d \<or> c1 \<or> c2)" "ns' = RuleNode (ruleinfo n1) ch # ms" "rs' = rs3"
      by simp_all
    moreover have "P (n # ns) rs (d \<or> c1 \<or> c2) (RuleNode (ruleinfo n1) ch # ms) rs3"
      using assms(5) [OF Descend] h1 h2 by blast
    moreover have "same_rules rs rs3"
      using visit_Descend [OF Descend] h1 h2 same_rules_trans by blast
    ultimately show ?thesis by simp
  qed
qed

section \<open>The order of the tree\<close>

fun tree_sorted :: "('m, 'l) rules \<Rightarrow> RuleNode \<Rightarrow> bool" where
  "tree_sorted rs (RuleNode i ch) \<longleftrightarrow>
     sorted_wrt (\<lambda>a b. r_level (rs (ruleinfo b)) \<le> r_level (rs (ruleinfo a))) ch \<and>
     (\<forall>n\<in>set ch. tree_sorted rs n)"

definition levels_sorted :: "('m, 'l) rules \<Rightarrow> RuleNode list \<Rightarrow> bool" where
  "levels_sorted rs ns \<longleftrightarrow>
     sorted_wrt (\<lambda>a b. r_level (rs (ruleinfo b)) \<le> r_level (rs (ruleinfo a))) ns \<and>
     (\<forall>n\<in>set ns. tree_sorted rs n)"

lemma tree_sorted_child: "tree_sorted rs n \<longleftrightarrow> levels_sorted rs (child n)"
  by (cases n) (simp add: levels_sorted_def)

lemma levels_sorted_Cons:
  "levels_sorted rs (n # ns) \<longleftrightarrow> levels_sorted rs (child n) \<and> levels_sorted rs ns \<and>
     (\<forall>m\<in>set ns. r_level (rs (ruleinfo m)) \<le> r_level (rs (ruleinfo n)))"
  by (cases n) (auto simp: levels_sorted_def)

lemma levels_sorted_Nil [simp]: "levels_sorted rs []"
  by (simp add: levels_sorted_def)

lemma levels_sorted_same:
  assumes "\<forall>i. r_level (rs' i) = r_level (rs i)"
  shows "levels_sorted rs' ns = levels_sorted rs ns"
proof -
  have e: "r_level (rs' i) = r_level (rs i)" for i using assms by blast
  have "tree_sorted rs' n = tree_sorted rs n" for n
    by (induction n) (simp add: e)
  then show ?thesis by (simp add: levels_sorted_def e)
qed

lemma set_OS_AddRule_internal:
  "set (OS_AddRule_internal rs ns r) = insert (RuleNode r []) (set ns)"
  by (induction ns) auto

lemma levels_sorted_add:
  "levels_sorted rs ns \<Longrightarrow> levels_sorted rs (OS_AddRule_internal rs ns r)"
proof (induction ns)
  case (Cons n ns)
  have 1: "\<forall>m\<in>set ns. r_level (rs (ruleinfo m)) \<le> r_level (rs (ruleinfo n))"
    and 2: "levels_sorted rs (child n)" "levels_sorted rs ns"
    using Cons.prems by (simp_all add: levels_sorted_Cons)
  show ?case
  proof (cases "r_level (rs r) > r_level (rs (ruleinfo n))")
    case True
    with 1 have "\<forall>m\<in>set (n # ns). r_level (rs (ruleinfo m)) \<le> r_level (rs r)" by auto
    with True Cons.prems show ?thesis by (simp add: levels_sorted_Cons [of _ "RuleNode r []"])
  next
    case False
    with 1 have "\<forall>m\<in>set (OS_AddRule_internal rs ns r). r_level (rs (ruleinfo m)) \<le> r_level (rs (ruleinfo n))"
      by (simp add: set_OS_AddRule_internal)
    with False Cons.IH 2 show ?thesis by (simp add: levels_sorted_Cons [of _ n])
  qed
qed (simp add: levels_sorted_Cons)

lemma add_here_sorted:
  assumes "same_rules rs rs'" "levels_sorted rs (child n)"
  shows "levels_sorted rs' (child (add_here rs' n r))"
  using levels_sorted_add [of rs' "child n" r] levels_sorted_same [of rs' rs "child n"] assms
  by (simp add: add_here_def same_rules_def)

lemma ruleinfo_add_here [simp]: "ruleinfo (add_here rs n r) = ruleinfo n"
  by (simp add: add_here_def)

lemma same_levels: "same_rules rs rs' \<Longrightarrow> levels_sorted rs' ns = levels_sorted rs ns"
  by (rule levels_sorted_same) (simp add: same_rules_def)

lemma roots_below:
  assumes "map ruleinfo ns' = map ruleinfo ns"
  shows "(\<forall>m\<in>set ns'. Q (ruleinfo m)) \<longleftrightarrow> (\<forall>m\<in>set ns. Q (ruleinfo m))"
proof -
  have "(\<forall>m\<in>set ns. Q (ruleinfo m)) \<longleftrightarrow> list_all Q (map ruleinfo ns)" for ns
    by (simp add: list_all_iff)
  with assms show ?thesis by simp
qed

text \<open>The roots stay the same rules in the same order.\<close>

lemma AddtoRule_sorted:
  assumes "AddtoRule sid level grp r ns rs = (c, ns', rs')"
  shows "((levels_sorted rs ns \<longrightarrow> levels_sorted rs' ns') \<and> map ruleinfo ns' = map ruleinfo ns) \<and>
    same_rules rs rs'"
  using assms
proof (induction rule: AddtoRule_walk)
  case (Ret n ns rs n' rs1)
  note V = visit_Return [OF Ret]
  then have L: "r_level (rs1 i) = r_level (rs i)" for i by (simp add: same_rules_def)
  have "same_rules rs rs1" "n' = add_here rs1 n r" using V by blast+
  with add_here_sorted [of rs rs1 n r] same_levels [of rs rs1 ns] show ?case
    by (simp add: levels_sorted_Cons L)
next
  case (Skp n ns rs c ns' rs1)
  then have I: "levels_sorted rs ns \<longrightarrow> levels_sorted rs1 ns'" "map ruleinfo ns' = map ruleinfo ns"
    "same_rules rs rs1" by blast+
  then have L: "r_level (rs1 i) = r_level (rs i)" for i by (simp add: same_rules_def)
  from I same_levels [OF I(3), of "child n"]
    roots_below [OF I(2), of "\<lambda>i. r_level (rs i) \<le> r_level (rs (ruleinfo n))"]
  show ?case by (simp add: levels_sorted_Cons L)
next
  case (Desc n ns rs d n1 rs1 c1 ch rs2 c2 ms rs3)
  note V = visit_Descend [OF Desc(1)]
  have S: "same_rules rs rs1" "same_rules rs1 rs2" "same_rules rs2 rs3" and r: "ruleinfo n1 = ruleinfo n"
    using V Desc by (auto split: if_splits)
  have "same_rules rs rs3" "same_rules rs rs2" "same_rules rs2 rs3" using S same_rules_trans by blast+
  then have L: "r_level (rs3 i) = r_level (rs i)" for i by (simp add: same_rules_def)
  have I: "map ruleinfo ms = map ruleinfo ns" using Desc by blast
  have "levels_sorted rs (child n) \<Longrightarrow> levels_sorted rs1 (child n1)"
    using V S(1) add_here_sorted [OF S(1)] same_levels [OF S(1)] by (auto split: if_splits)
  then have C: "levels_sorted rs (child n) \<Longrightarrow> levels_sorted rs3 ch"
    using Desc same_levels [OF S(3)] by blast
  have M: "levels_sorted rs ns \<Longrightarrow> levels_sorted rs3 ms"
    using Desc same_levels [OF \<open>same_rules rs rs2\<close>] by blast
  from C M I r roots_below [OF I, of "\<lambda>i. r_level (rs i) \<le> r_level (rs (ruleinfo n))"]
  show ?case by (simp add: levels_sorted_Cons L)
qed simp

section \<open>The parents of a new rule\<close>

text \<open>The pairs (parent, child) of a tree, one for every node below the roots.\<close>

fun edges_node :: "RuleNode \<Rightarrow> (nat \<times> nat) list" where
  "edges_node (RuleNode i ch) = map (\<lambda>c. (i, ruleinfo c)) ch @ concat (map edges_node ch)"

definition edges :: "RuleNode list \<Rightarrow> (nat \<times> nat) list" where
  "edges ns = concat (map edges_node ns)"

lemma edges_node_child: "edges_node n = map (Pair (ruleinfo n)) (map ruleinfo (child n)) @ edges (child n)"
  by (cases n) (simp add: edges_def comp_def)

lemma edges_Cons [simp]: "edges (n # ns) = edges_node n @ edges ns" "edges [] = []"
  by (simp_all add: edges_def)

lemma preorder_Cons [simp]: "preorder (n # ns) = ruleinfo n # preorder (child n) @ preorder ns"
  "preorder [] = []"
  by (cases n; simp add: preorder_def) (simp add: preorder_def)

lemma mset_add_rule:
  "mset (preorder (OS_AddRule_internal rs ns r)) = add_mset r (mset (preorder ns))"
  "mset (edges (OS_AddRule_internal rs ns r)) = mset (edges ns)"
  "mset (map ruleinfo (OS_AddRule_internal rs ns r)) = add_mset r (mset (map ruleinfo ns))"
  by (induction ns) auto

lemma fits_same:
  "same_rules rs rs' \<Longrightarrow> sid \<noteq> 0 \<or> grp \<noteq> None \<or> level \<noteq> 0 \<Longrightarrow>
   fits sid level grp r rs' = fits sid level grp r rs"
  by (auto simp: same_rules_def fits_def fun_eq_iff split: option.splits)

lemma fits_self: "sid = 0 \<Longrightarrow> grp \<noteq> None \<or> level \<noteq> 0 \<Longrightarrow> \<not> fits sid level grp r rs r"
  by (auto simp: fits_def split: option.splits)

text \<open>
  The tree \<open>ns'\<close> is \<open>ns\<close> with the rule added under the nodes \<open>ps\<close>: nothing else moved, every one of
  them fits, and a search by group or level found all that fit.
\<close>

definition placed :: "int \<Rightarrow> int \<Rightarrow> string option \<Rightarrow> nat \<Rightarrow> ('m, 'l) rules \<Rightarrow> RuleNode list
    \<Rightarrow> RuleNode list \<Rightarrow> nat list \<Rightarrow> bool" where
  "placed sid level grp r rs ns ns' ps \<longleftrightarrow>
     map ruleinfo ns' = map ruleinfo ns \<and>
     mset (edges ns') = mset (edges ns) + mset (map (\<lambda>p. (p, r)) ps) \<and>
     list_all (fits sid level grp r rs) ps \<and>
     (sid = 0 \<and> (grp \<noteq> None \<or> level \<noteq> 0) \<longrightarrow>
       mset ps = mset (filter (fits sid level grp r rs) (preorder ns))) \<and>
     (sid \<noteq> 0 \<longrightarrow> (ps = [] \<longleftrightarrow> \<not> list_ex (fits sid level grp r rs) (preorder ns)))"

lemma edges_add_here:
  "mset (edges_node (add_here rs n r)) = add_mset (ruleinfo n, r) (mset (edges_node n))"
proof -
  have "mset (map (Pair i) (map ruleinfo (OS_AddRule_internal rs ns r))) =
      add_mset (i, r) (mset (map (Pair i) (map ruleinfo ns)))" for i ns
    using mset_add_rule(3) [of rs ns r] by (metis image_mset_add_mset mset_map)
  then show ?thesis
    by (simp add: edges_node_child add_here_def mset_add_rule(2) del: map_map)
qed

lemma AddtoRule_placed:
  assumes "AddtoRule sid level grp r ns rs = (c, ns', rs')"
  shows "(\<exists>ps. placed sid level grp r rs ns ns' ps \<and> (c \<longleftrightarrow> ps \<noteq> [])) \<and> same_rules rs rs'"
  using assms
proof (induction rule: AddtoRule_walk)
  case (Nil rs)
  then show ?case by (intro exI [of _ "[]"]) (simp add: placed_def)
next
  case (Ret n ns rs n' rs1)
  note V = visit_Return [OF Ret]
  then have "placed sid level grp r rs (n # ns) (n' # ns) [ruleinfo n]"
    by (auto simp: placed_def edges_add_here)
  then show ?case by blast
next
  case (Skp n ns rs c ns' rs1)
  note V = visit_Skip [OF Skp(1)]
  from Skp obtain ps where "placed sid level grp r rs ns ns' ps" "c \<longleftrightarrow> ps \<noteq> []" by blast
  with V show ?case by (intro exI [of _ ps]) (simp add: placed_def)
next
  case (Desc n ns rs d n1 rs1 c1 ch rs2 c2 ms rs3)
  note V = visit_Descend [OF Desc(1)]
  from Desc obtain p1 p2 where p1: "placed sid level grp r rs1 (child n1) ch p1" "c1 \<longleftrightarrow> p1 \<noteq> []"
    and p2: "placed sid level grp r rs2 ns ms p2" "c2 \<longleftrightarrow> p2 \<noteq> []" by blast
  have mode: "sid \<noteq> 0 \<or> grp \<noteq> None \<or> level \<noteq> 0" using V by blast
  have S: "same_rules rs rs1" "same_rules rs rs2" using V Desc same_rules_trans by blast+
  let ?f = "fits sid level grp r rs"
  have F: "fits sid level grp r rs1 = ?f" "fits sid level grp r rs2 = ?f"
    using fits_same [OF S(1) mode] fits_same [OF S(2) mode] by blast+
  let ?ps = "(if d then [ruleinfo n] else []) @ p1 @ p2"
  have r1: "ruleinfo n1 = ruleinfo n" using V by (auto split: if_splits)
  have e1: "mset (edges_node n1) = mset (edges_node n) + mset (map (\<lambda>p. (p, r)) (if d then [ruleinfo n] else []))"
    using V edges_add_here [of rs1 n r] by auto
  have roots: "map ruleinfo ch = map ruleinfo (child n1)" "map ruleinfo ms = map ruleinfo ns"
    using p1(1) p2(1) by (simp_all add: placed_def)
  have "mset (edges_node (RuleNode (ruleinfo n1) ch)) = mset (edges_node n1) + mset (map (\<lambda>p. (p, r)) p1)"
    using p1(1) by (simp only: placed_def edges_node_child [of n1] roots(1) mset_append
        edges_node_child [of "RuleNode (ruleinfo n1) ch"] RuleNode.sel union_assoc)
  then have E: "mset (edges (RuleNode (ruleinfo n1) ch # ms)) = mset (edges (n # ns)) + mset (map (\<lambda>p. (p, r)) ?ps)"
    using e1 p2(1) by (simp add: placed_def)
  have "list_all ?f ?ps" using V p1(1) p2(1) F by (auto simp: placed_def)
  moreover have "mset ?ps = mset (filter ?f (preorder (n # ns)))" if "sid = 0"
  proof -
    have self: "\<not> ?f r" using fits_self [OF that] mode that by simp
    have "mset (filter ?f (preorder (child n1))) = mset (filter ?f (preorder (child n)))"
    proof (cases d)
      case True
      then have "mset (preorder (child n1)) = add_mset r (mset (preorder (child n)))"
        using V by (simp add: add_here_def mset_add_rule)
      then show ?thesis using self by (metis filter_mset_add_mset mset_filter)
    qed (use V in simp)
    moreover have "mset p1 = mset (filter ?f (preorder (child n1)))"
      "mset p2 = mset (filter ?f (preorder ns))"
      using p1(1) p2(1) F mode that unfolding placed_def by metis+
    moreover have "d \<longleftrightarrow> ?f (ruleinfo n)" using V by blast
    ultimately show ?thesis by simp
  qed
  moreover have "?ps = [] \<longleftrightarrow> \<not> list_ex ?f (preorder (n # ns))" if "sid \<noteq> 0"
    using V p1(1) p2(1) F that by (auto simp: placed_def)
  ultimately have "placed sid level grp r rs (n # ns) (RuleNode (ruleinfo n1) ch # ms) ?ps"
    using E roots r1 by (simp add: placed_def)
  moreover have "(d \<or> c1 \<or> c2) \<longleftrightarrow> ?ps \<noteq> []" using p1(2) p2(2) by auto
  ultimately show ?case by blast
qed

section \<open>Properties\<close>

definition sorted_state :: "('m, 'l) rule_state \<Rightarrow> bool" where
  "sorted_state st \<longleftrightarrow> levels_sorted (rules st) (rulenode st)"

lemma add_from_root_sorted:
  "add_from_root sid level grp r st = (c, st') \<Longrightarrow> sorted_state st \<Longrightarrow>
   sorted_state st' \<and> same_rules (rules st) (rules st')"
  using AddtoRule_sorted [of sid level grp r "rulenode st" "rules st"]
  by (auto simp: add_from_root_def sorted_state_def split: prod.splits)

lemma if_sid_loop_sorted:
  "if_sid_loop val sid r st = Inr st' \<Longrightarrow> sorted_state st \<Longrightarrow> sorted_state st'"
proof (induction val sid r st rule: if_sid_loop.induct)
  case (1 val r st)
  then show ?case using add_from_root_sorted [of "atoi []" 0 None r st]
    by (auto split: if_splits prod.splits)
next
  case (2 val c sid r st)
  obtain ok st1 where a: "add_from_root (atoi (c # sid)) 0 None r st = (ok, st1)" by force
  from add_from_root_sorted [OF a "2.prems"(2)] have "sorted_state st1" by blast
  with 2 a show ?case by (auto split: if_splits)
qed

lemma OS_AddChild_sorted:
  "OS_AddChild r st = Inr (code, st') \<Longrightarrow> sorted_state st \<Longrightarrow> sorted_state st'"
  by (auto simp: OS_AddChild_def Let_def map_sum_def
      dest: add_from_root_sorted if_sid_loop_sorted
      split: option.splits if_splits prod.splits sum.splits)

lemma sorted_state_levels:
  "rulenode st' = rulenode st \<Longrightarrow> \<forall>i. r_level (rules st' i) = r_level (rules st i) \<Longrightarrow>
   sorted_state st' = sorted_state st"
  using levels_sorted_same [of "rules st'" "rules st"] by (simp add: sorted_state_def)

lemma modify_rule_sorted:
  "\<forall>ri. r_level (f ri) = r_level ri \<Longrightarrow> sorted_state (modify_rule r f st) = sorted_state st"
  by (rule sorted_state_levels) (simp_all add: modify_rule_def)

lemma mark_id_node_sorted:
  "mark_id_node m orig i st = Inr st' \<Longrightarrow> sorted_state st' = sorted_state st"
  by (rule sorted_state_levels)
    (auto simp: mark_id_node_def Let_def split: if_splits sum.splits prod.splits)

lemma mark_id_nodes_sorted:
  "mark_id_nodes m orig is st = Inr st' \<Longrightarrow> sorted_state st' = sorted_state st"
  by (induction m orig "is" st rule: mark_id_nodes.induct)
    (auto dest: mark_id_node_sorted split: sum.splits)

lemma mark_group_node_levels [simp]:
  "r_level (mark_group_node exec orig j rs i) = r_level (rs i)"
  by (auto simp: mark_group_node_def split: option.splits)

lemma fold_mark_group_levels [simp]:
  "r_level (fold (mark_group_node exec orig) js rs i) = r_level (rs i)"
  by (induction js arbitrary: rs) simp_all

lemma OS_MarkGroup_sorted: "sorted_state (OS_MarkGroup exec orig st) = sorted_state st"
  by (rule sorted_state_levels) (simp_all add: OS_MarkGroup_def)

lemma set_search_sorted:
  assumes "set_search exec m r st = Inr st'"
  shows "sorted_state st' = sorted_state st"
proof -
  have l: "sorted_state (st\<lparr>os_lists := x\<rparr>) = sorted_state st" for x
    by (rule sorted_state_levels) simp_all
  show ?thesis
    using assms
    by (auto simp: set_search_def OS_MarkID_def Let_def modify_rule_sorted OS_MarkGroup_sorted l
        dest!: mark_id_nodes_sorted split: if_splits)
qed

text \<open>
  C11. Reading a rule file keeps every sibling list of the tree in descending order of level: a
  rule that is not an overwrite is put in without breaking the order, whichever way its parents
  are named.
\<close>

theorem install_rule_keeps_order:
  assumes "sorted_state st" "install_rule exec sid_max r st = Inr st'"
    "r_sigid (rules st r) < 10 \<or> \<not> has_bit (r_alert_opts (rules st r)) DO_OVERWRITE"
  shows "sorted_state st'"
proof -
  from assms(2) obtain st1 where p: "place_rule r st = Inr st1"
    and s: "set_search exec sid_max r (modify_rule r (\<lambda>ri. ri\<lparr>r_if_group := None\<rparr>) st1) = Inr st'"
    by (auto simp: install_rule_def split: sum.splits)
  have "sorted_state st1"
  proof (cases "r_sigid (rules st r) < 10")
    case True
    with p assms(1) levels_sorted_add show ?thesis
      by (auto simp: place_rule_def OS_AddRule_def sorted_state_def)
  next
    case False
    with p assms(3) obtain code where "OS_AddChild r st = Inr (code, st1)"
      by (auto simp: place_rule_def map_sum_def split: sum.splits)
    with assms(1) OS_AddChild_sorted show ?thesis by blast
  qed
  with set_search_sorted [OF s] show ?thesis by (simp add: modify_rule_sorted)
qed

text \<open>
  C7. The insertion of a rule (\<open>if_sid\<close>, \<open>if_level\<close>, \<open>if_group\<close>, or by category) moves nothing in
  the tree and adds the rule only under nodes that meet the condition; with a group or a level
  under every one of them, with a signature under at least one if there is one; it reports success
  exactly when a parent was found.
\<close>

theorem add_from_root_placed:
  assumes "add_from_root sid level grp r st = (c, st')"
  shows "\<exists>ps. placed sid level grp r (rules st) (rulenode st) (rulenode st') ps \<and> (c \<longleftrightarrow> ps \<noteq> []) \<and>
    same_rules (rules st) (rules st')"
proof -
  obtain ns rs where a: "AddtoRule sid level grp r (rulenode st) (rules st) = (c, ns, rs)"
    and st': "st' = st\<lparr>rulenode := ns, rules := rs\<rparr>"
    using assms by (auto simp: add_from_root_def split: prod.splits)
  from AddtoRule_placed [OF a] show ?thesis by (auto simp: st')
qed

text \<open>
  An overwrite replaces the fields it names in the first rule with the signature, but the rule
  stays where it is in the tree whatever its new level, and its old PCRE2 expressions, agent name,
  location, GeoIP and list conditions stay while those of the new definition are dropped.
\<close>

theorem OS_AddRuleInfo_partial:
  assumes "OS_AddRuleInfo new sid st = (True, st')"
  shows "rulenode st' = rulenode st \<and>
    (\<exists>i. i \<in> set (preorder (rulenode st)) \<and> r_sigid (rules st i) = sid \<and>
      (let old = rules st i; n = rules st new; r = rules st' i in
        r_level r = r_level n \<and> r_match r = r_match n \<and> r_regex r = r_regex n \<and>
        r_if_matched_sid r = r_if_matched_sid n \<and>
        r_match_pcre2 r = r_match_pcre2 old \<and> r_pcre2 r = r_pcre2 old \<and>
        r_agent_name r = r_agent_name old \<and> r_location r = r_location old \<and>
        r_srcgeoip r = r_srcgeoip old \<and> r_lists r = r_lists old \<and>
        r_event_search r = r_event_search old \<and> r_sid_search r = r_sid_search old))"
proof -
  obtain i where "find (\<lambda>i. r_sigid (rules st i) = sid) (preorder (rulenode st)) = Some i"
    and st': "st' = st\<lparr>rules := (rules st)(i := overwrite_rule (rules st i) (rules st new))\<rparr>"
    using assms by (auto simp: OS_AddRuleInfo_def split: if_splits option.splits)
  then have "i \<in> set (preorder (rulenode st))" "r_sigid (rules st i) = sid"
    by (auto simp: find_Some_iff)
  then show ?thesis by (auto simp: st' overwrite_rule_def Let_def)
qed

lemma fold_mark_group:
  assumes "r_if_matched_group (rs orig) = Some m" "r_group_search (rs orig) = Some l"
  shows "r_group_prev_matched (fold (mark_group_node exec orig) js rs i) =
    r_group_prev_matched (rs i) @
      (if exec m (r_group (rs i)) then replicate (count_list js i) l else [])"
  using assms
proof (induction js arbitrary: rs)
  case (Cons j js)
  let ?rs = "mark_group_node exec orig j rs"
  have "r_if_matched_group (?rs orig) = Some m" "r_group_search (?rs orig) = Some l"
    "r_group (?rs i) = r_group (rs i)"
    using Cons.prems by (auto simp: mark_group_node_def)
  with Cons show ?case by (auto simp: mark_group_node_def)
qed simp

text \<open>
  C37. \<open>OS_MarkGroup\<close> gives every rule of the watched group a pointer to the history, once for each
  node of the tree the rule hangs at: a rule with several parents feeds each of its events into
  the same history several times, and the composite rule counts it as often.
\<close>

theorem OS_MarkGroup_duplicates:
  assumes "r_if_matched_group (rules st orig) = Some m" "r_group_search (rules st orig) = Some l"
  shows "r_group_prev_matched (rules (OS_MarkGroup exec orig st) i) =
    r_group_prev_matched (rules st i) @
      (if exec m (r_group (rules st i))
       then replicate (count_list (preorder (rulenode st)) i) l else [])"
  using fold_mark_group [of "rules st" orig m l exec "preorder (rulenode st)" i] assms
  by (simp add: OS_MarkGroup_def)

subsection \<open>Witnesses\<close>

text \<open>Two template rules and a rule that hangs under both.\<close>

definition tiny_rules :: "(nat, nat) rules" where
  "tiny_rules = (\<lambda>_. zero_rule)(
     1 := zero_rule\<lparr>r_sigid := 1, r_level := 0, r_category := 1, r_group := ''syslog,''\<rparr>,
     2 := zero_rule\<lparr>r_sigid := 2, r_level := 3, r_category := 2, r_group := ''ids,''\<rparr>,
     3 := zero_rule\<lparr>r_sigid := 100, r_level := 5, r_group := ''login,''\<rparr>,
     4 := zero_rule\<lparr>r_sigid := 200, r_level := 10, r_if_level := Some ''0'', r_if_sid := Some ''1'',
                    r_if_matched_group := Some 7, r_group_search := Some 9\<rparr>)"

definition tiny_state :: "(nat, nat) rule_state" where
  "tiny_state = \<lparr>rulenode = [RuleNode 2 [RuleNode 3 []], RuleNode 1 [RuleNode 3 []]],
                 rules = tiny_rules, os_lists = []\<rparr>"

lemma tiny_sorted: "sorted_state tiny_state"
  by (simp add: sorted_state_def levels_sorted_def tiny_state_def tiny_rules_def zero_rule_def)

lemma tiny_add: "add_from_root 1 0 None 4 tiny_state =
    (True, tiny_state\<lparr>rulenode := [RuleNode 2 [RuleNode 3 []], RuleNode 1 [RuleNode 4 [], RuleNode 3 []]],
       rules := tiny_rules(4 := (tiny_rules 4)\<lparr>r_category := 1\<rparr>)\<rparr>)"
  by (simp add: add_from_root_def tiny_state_def visit_node_def tiny_rules_def zero_rule_def
      add_here_def inherit_events_def set_category_def Let_def)

theorem add_from_root_placed_witness:
  "\<exists>ps. placed 1 0 None 4 tiny_rules (rulenode tiny_state)
     [RuleNode 2 [RuleNode 3 []], RuleNode 1 [RuleNode 4 [], RuleNode 3 []]] ps \<and> ps \<noteq> []"
  using add_from_root_placed [OF tiny_add] by (auto simp: tiny_state_def)

theorem install_rule_keeps_order_witness:
  "\<exists>st. install_rule (\<lambda>_ _. False) 64 5 tiny_state = Inr st \<and> sorted_state st"
proof -
  have "r_sigid (tiny_rules 5) = 0" by (simp add: tiny_rules_def zero_rule_def)
  moreover have "\<exists>st. install_rule (\<lambda>_ _. False) 64 5 tiny_state = Inr st"
    by (simp add: install_rule_def place_rule_def set_search_def modify_rule_def OS_AddRule_def
        tiny_state_def tiny_rules_def zero_rule_def)
  ultimately show ?thesis
    using install_rule_keeps_order [OF tiny_sorted, of "\<lambda>_ _. False" 64 5] by (auto simp: tiny_state_def)
qed

theorem OS_AddRuleInfo_partial_witness:
  "\<exists>st. OS_AddRuleInfo 4 100 tiny_state = (True, st) \<and> rulenode st = rulenode tiny_state"
proof -
  have "\<exists>st. OS_AddRuleInfo 4 100 tiny_state = (True, st)"
    by (simp add: OS_AddRuleInfo_def tiny_state_def tiny_rules_def zero_rule_def)
  then show ?thesis using OS_AddRuleInfo_partial by blast
qed

theorem OS_MarkGroup_duplicates_witness:
  "r_group_prev_matched (rules (OS_MarkGroup (\<lambda>_ g. g = ''login,'') 4 tiny_state) 3) = [9, 9]"
  using OS_MarkGroup_duplicates [of tiny_state 4 7 9 "\<lambda>_ g. g = ''login,''" 3]
  by (simp add: tiny_state_def tiny_rules_def zero_rule_def eval_nat_numeral)

end
