(* ===== verification/Rule_Match.thy ===== *)
theory Rule_Match
  imports Rules_List
begin

text \<open>
  \<^verbatim>\<open>analysisd/analysisd.c\<close>: \<open>OS_CheckIfRuleMatch\<close>, which decides whether a rule, or a rule below
  it, fires for an event. The source is one function of straight-line checks; here it is cut at its
  comments: the conditions that only read the event and the rule, the list lookups, then the three
  that have effects, in the order the source tries them (diff, first-time-seen, composite search).

  The record \<open>env\<close> holds what belongs to other modules: the pattern matchers (PCRE2), the address
  and time checks of \<^verbatim>\<open>shared/validate_op.c\<close>, the CDB lookup, the compiled rules, the diff of
  \<^verbatim>\<open>dodiff.c\<close> and the first-time-seen store of \<^verbatim>\<open>fts.c\<close>; their files are the component \<open>ext\<close> of the
  state.
\<close>

section \<open>The environment and the state\<close>

record ('m, 'l, 'x) env =
  OSMatch_Execute :: "'m \<Rightarrow> string \<Rightarrow> bool"
  OSPcre2_Execute :: "'m \<Rightarrow> string \<Rightarrow> bool"
  OSRegex_Execute :: "'m \<Rightarrow> string \<Rightarrow> bool"
  OS_IPFoundList :: "string \<Rightarrow> string list \<Rightarrow> bool"
  OS_IsonTime :: "string \<Rightarrow> string \<Rightarrow> bool"
  OS_IsonDay :: "nat \<Rightarrow> string \<Rightarrow> bool"
  OS_DBSearch :: "'l \<Rightarrow> string \<Rightarrow> bool"
  compiled_rule :: "nat \<Rightarrow> Eventinfo \<Rightarrow> bool"
  diff_file :: "int \<Rightarrow> Eventinfo \<Rightarrow> 'x \<Rightarrow> string option \<times> 'x"
  FTS :: "Eventinfo \<Rightarrow> 'x \<Rightarrow> bool \<times> 'x"
  crt_wday :: nat
  decoder_order_size :: nat

record ('m, 'l, 'x) world =
  events :: events
  w_rules :: "('m, 'l) rules"
  hist :: "nat \<Rightarrow> nat list"
  elist :: "nat list"
  hourly_alerts :: nat
  ext :: 'x

section \<open>Conditions on the event and the rule\<close>

text \<open>
  \<open>if (rule->x) { if (!lf->x) fail; if (!OSMatch_Execute(lf->x, rule->x)) fail; }
  else if (rule->x_pcre2) { ... }\<close>
\<close>

definition pattern_ok :: "('m, 'l, 'x) env \<Rightarrow> 'm option \<Rightarrow> 'm option \<Rightarrow> string option \<Rightarrow> bool" where
  "pattern_ok env m p s =
     (case m of
        Some re \<Rightarrow> (case s of None \<Rightarrow> False | Some x \<Rightarrow> OSMatch_Execute env re x)
      | None \<Rightarrow>
          (case p of
             Some re \<Rightarrow> (case s of None \<Rightarrow> False | Some x \<Rightarrow> OSPcre2_Execute env re x)
           | None \<Rightarrow> True))"

definition decoded_ok :: "('m, 'l) RuleInfo \<Rightarrow> Eventinfo \<Rightarrow> bool" where
  "decoded_ok rule lf \<longleftrightarrow> r_decoded_as rule = 0 \<or> r_decoded_as rule = di_id (lf_decoder_info lf)"

text \<open>\<open>match\<close>, \<open>regex\<close> and their PCRE2 forms run on the log line itself.\<close>

definition log_ok :: "('m, 'l, 'x) env \<Rightarrow> ('m, 'l) RuleInfo \<Rightarrow> Eventinfo \<Rightarrow> bool" where
  "log_ok env rule lf \<longleftrightarrow>
     pattern_ok env (r_match rule) (r_match_pcre2 rule) (Some (lf_log lf)) \<and>
     (case r_regex rule of
        Some re \<Rightarrow> OSRegex_Execute env re (lf_log lf)
      | None \<Rightarrow> (case r_pcre2 rule of Some re \<Rightarrow> OSPcre2_Execute env re (lf_log lf) | None \<Rightarrow> True))"

definition action_ok :: "('m, 'l) RuleInfo \<Rightarrow> Eventinfo \<Rightarrow> bool" where
  "action_ok rule lf =
     (case r_action rule of
        None \<Rightarrow> True
      | Some a \<Rightarrow> (case lf_action lf of None \<Rightarrow> False | Some b \<Rightarrow> strcmp a b = 0))"

text \<open>
  A dynamic field: the first place of the decoder's table with the name; the value there, which
  \<open>OSRegex_Execute\<close> refuses when it is NULL. The event's table has \<open>decoder_order_size\<close> slots.
\<close>

fun field_index :: "nat \<Rightarrow> string option list \<Rightarrow> string \<Rightarrow> nat option" where
  "field_index j [] name = None"
| "field_index j (f # fs) name =
     (case f of
        None \<Rightarrow> field_index (j + 1) fs name
      | Some g \<Rightarrow> if strcasecmp g name = 0 then Some j else field_index (j + 1) fs name)"

definition field_ok :: "('m, 'l, 'x) env \<Rightarrow> Eventinfo \<Rightarrow> string option list \<Rightarrow> string \<times> 'm \<Rightarrow> bool" where
  "field_ok env lf names f =
     (case field_index 0 (take (decoder_order_size env) names) (fst f) of
        None \<Rightarrow> False
      | Some j \<Rightarrow>
          (case lf_fields lf ! j of None \<Rightarrow> False | Some s \<Rightarrow> OSRegex_Execute env (snd f) s))"

definition fields_ok :: "('m, 'l, 'x) env \<Rightarrow> ('m, 'l) RuleInfo \<Rightarrow> Eventinfo \<Rightarrow> bool" where
  "fields_ok env rule lf =
     (if r_fields rule = [] then True
      else case di_fields (lf_decoder_info lf) of
        None \<Rightarrow> False
      | Some names \<Rightarrow> list_all (field_ok env lf names) (take (decoder_order_size env) (r_fields rule)))"

definition addresses_ok :: "('m, 'l, 'x) env \<Rightarrow> string list option \<Rightarrow> string option \<Rightarrow> bool" where
  "addresses_ok env ips s =
     (case ips of
        None \<Rightarrow> True
      | Some l \<Rightarrow> (case s of None \<Rightarrow> False | Some x \<Rightarrow> OS_IPFoundList env x l))"

definition packet_ok :: "('m, 'l, 'x) env \<Rightarrow> ('m, 'l) RuleInfo \<Rightarrow> Eventinfo \<Rightarrow> bool" where
  "packet_ok env rule lf \<longleftrightarrow>
     addresses_ok env (r_srcip rule) (lf_srcip lf) \<and>
     addresses_ok env (r_dstip rule) (lf_dstip lf) \<and>
     pattern_ok env (r_srcport rule) (r_srcport_pcre2 rule) (lf_srcport lf) \<and>
     pattern_ok env (r_dstport rule) (r_dstport_pcre2 rule) (lf_dstport lf)"

text \<open>The conditions of the extra information from the event's size on.\<close>

definition extra_tail_ok :: "('m, 'l, 'x) env \<Rightarrow> ('m, 'l) RuleInfo \<Rightarrow> Eventinfo \<Rightarrow> bool" where
  "extra_tail_ok env rule lf \<longleftrightarrow>
     (r_maxsize rule = 0 \<or> \<not> lf_size lf < r_maxsize rule) \<and>
     (case r_day_time rule of None \<Rightarrow> True | Some t \<Rightarrow> OS_IsonTime env (lf_hour lf) t) \<and>
     (case r_week_day rule of None \<Rightarrow> True | Some d \<Rightarrow> OS_IsonDay env (crt_wday env) d) \<and>
     pattern_ok env (r_extra_data rule) (r_extra_data_pcre2 rule) (lf_data lf) \<and>
     pattern_ok env (r_hostname rule) (r_hostname_pcre2 rule) (lf_hostname lf) \<and>
     pattern_ok env (r_agent_name rule) (r_agent_name_pcre2 rule) (lf_agent_name lf) \<and>
     pattern_ok env (r_location rule) (r_location_pcre2 rule) (lf_location lf) \<and>
     pattern_ok env (r_status rule) (r_status_pcre2 rule) (lf_status lf)"

text \<open>The user is the destination user if there is one, else the source user.\<close>

definition extra_ok :: "('m, 'l, 'x) env \<Rightarrow> ('m, 'l) RuleInfo \<Rightarrow> Eventinfo \<Rightarrow> bool" where
  "extra_ok env rule lf \<longleftrightarrow>
     (case r_compiled_rule rule of None \<Rightarrow> True | Some c \<Rightarrow> compiled_rule env c lf) \<and>
     pattern_ok env (r_user rule) (r_user_pcre2 rule)
       (if lf_dstuser lf \<noteq> None then lf_dstuser lf else lf_srcuser lf) \<and>
     pattern_ok env (r_srcgeoip rule) (r_srcgeoip_pcre2 rule) (lf_srcgeoip lf) \<and>
     pattern_ok env (r_src_country rule) (r_src_country_pcre2 rule) (lf_src_country lf) \<and>
     pattern_ok env (r_srcasn rule) (r_srcasn_pcre2 rule) (lf_srcasn lf) \<and>
     pattern_ok env (r_dstgeoip rule) (r_dstgeoip_pcre2 rule) (lf_dstgeoip lf) \<and>
     extra_tail_ok env rule lf"

text \<open>Everything up to the diff check. The two forms of \<open>url\<close> are not alternatives.\<close>

definition conditions :: "('m, 'l, 'x) env \<Rightarrow> ('m, 'l) RuleInfo \<Rightarrow> Eventinfo \<Rightarrow> bool" where
  "conditions env rule lf \<longleftrightarrow>
     decoded_ok rule lf \<and>
     pattern_ok env (r_program_name rule) (r_program_name_pcre2 rule) (lf_program_name lf) \<and>
     pattern_ok env (r_id rule) (r_id_pcre2 rule) (lf_id lf) \<and>
     log_ok env rule lf \<and>
     action_ok rule lf \<and>
     pattern_ok env (r_url rule) None (lf_url lf) \<and>
     pattern_ok env None (r_url_pcre2 rule) (lf_url lf) \<and>
     fields_ok env rule lf \<and>
     (has_bit (r_alert_opts rule) DO_PACKETINFO \<longrightarrow> packet_ok env rule lf) \<and>
     (has_bit (r_alert_opts rule) DO_EXTRAINFO \<longrightarrow> extra_ok env rule lf)"

section \<open>List lookups\<close>

definition list_field_of :: "list_field \<Rightarrow> Eventinfo \<Rightarrow> string option" where
  "list_field_of f lf =
     (case f of
        RULE_SRCIP \<Rightarrow> lf_srcip lf | RULE_SRCPORT \<Rightarrow> lf_srcport lf | RULE_DSTIP \<Rightarrow> lf_dstip lf
      | RULE_DSTPORT \<Rightarrow> lf_dstport lf
      | RULE_USER \<Rightarrow> if lf_srcuser lf \<noteq> None then lf_srcuser lf else lf_dstuser lf
      | RULE_URL \<Rightarrow> lf_url lf | RULE_ID \<Rightarrow> lf_id lf | RULE_HOSTNAME \<Rightarrow> lf_hostname lf
      | RULE_PROGRAM_NAME \<Rightarrow> lf_program_name lf | RULE_SYSTEM_NAME \<Rightarrow> lf_systemname lf
      | RULE_STATUS \<Rightarrow> lf_status lf | RULE_ACTION \<Rightarrow> lf_action lf | RULE_OTHER \<Rightarrow> None)"

definition lists_ok :: "('m, 'l, 'x) env \<Rightarrow> ('m, 'l) RuleInfo \<Rightarrow> Eventinfo \<Rightarrow> bool" where
  "lists_ok env rule lf \<longleftrightarrow>
     list_all (\<lambda>(f, l). case list_field_of f lf of None \<Rightarrow> False | Some s \<Rightarrow> OS_DBSearch env l s)
       (r_lists rule)"

section \<open>Conditions with effects\<close>

definition put_rule :: "nat \<Rightarrow> ('m, 'l) RuleInfo \<Rightarrow> ('m, 'l, 'x) world \<Rightarrow> ('m, 'l, 'x) world" where
  "put_rule r ri w = w\<lparr>w_rules := (w_rules w)(r := ri)\<rparr>"

definition put_event :: "nat \<Rightarrow> Eventinfo \<Rightarrow> ('m, 'l, 'x) world \<Rightarrow> ('m, 'l, 'x) world" where
  "put_event a ev w = w\<lparr>events := (events w)(a := ev)\<rparr>"

text \<open>
  \<open>doDiff\<close> (\<^verbatim>\<open>analysisd/dodiff.c\<close>) frees the rule's buffer; when the content of the file changed it
  hands the old text to the event through that buffer. The part that works on the file is
  \<open>diff_file\<close>: the old text, if it differs.
\<close>

definition doDiff :: "('m, 'l, 'x) env \<Rightarrow> ('m, 'l) RuleInfo \<Rightarrow> Eventinfo \<Rightarrow> 'x
    \<Rightarrow> bool \<times> ('m, 'l) RuleInfo \<times> Eventinfo \<times> 'x" where
  "doDiff env rule lf x =
     (let rule1 = OS_FreeRuleLastEvents rule; (old, x1) = diff_file env (r_sigid rule1) lf x in
      case old of
        None \<Rightarrow> (False, rule1, lf, x1)
      | Some flastcontent \<Rightarrow>
          let rule2 = OS_SetRuleLastEvent rule1 0 ''Previous output:'';
              rule3 = OS_SetRuleLastEvent rule2 1 flastcontent;
              (rule4, lf1) = OS_MoveRuleLastEvents rule3 lf
          in (True, rule4, lf1, x1))"

definition diff_check :: "('m, 'l, 'x) env \<Rightarrow> nat \<Rightarrow> nat \<Rightarrow> ('m, 'l, 'x) world
    \<Rightarrow> bool \<times> ('m, 'l, 'x) world" where
  "diff_check env my_lf r w =
     (let rule = w_rules w r in
      if has_bit (r_alert_opts rule) DO_EXTRAINFO \<and> has_bit (r_context_opts rule) SAME_DODIFF then
        let (ok, rule1, lf1, x) = doDiff env rule (events w my_lf) (ext w)
        in (ok, put_event my_lf lf1 (put_rule r rule1 (w\<lparr>ext := x\<rparr>)))
      else (True, w))"

definition fts_check :: "('m, 'l, 'x) env \<Rightarrow> nat \<Rightarrow> nat \<Rightarrow> ('m, 'l, 'x) world
    \<Rightarrow> bool \<times> ('m, 'l, 'x) world" where
  "fts_check env my_lf r w =
     (let rule = w_rules w r; lf = events w my_lf in
      if has_bit (r_alert_opts rule) DO_FTS then
        if di_fts (lf_decoder_info lf) \<noteq> 0 then
          if di_fts (lf_decoder_info lf) div FTS_DONE mod 2 = 1 then (True, w)
          else let (ok, x) = FTS env lf (ext w) in (ok, w\<lparr>ext := x\<rparr>)
        else (False, w)
      else (True, w))"

definition search :: "('m, 'l, 'x) env \<Rightarrow> event_search \<Rightarrow> nat \<Rightarrow> nat \<Rightarrow> ('m, 'l, 'x) world
    \<Rightarrow> bool \<times> ('m, 'l, 'x) world" where
  "search env kind my_lf r w =
     (let rule = w_rules w r;
          (res, evs, rule1) =
            (case kind of
               LastEvents \<Rightarrow> Search_LastEvents (OSRegex_Execute env) (elist w) (events w) my_lf rule
             | LastSids \<Rightarrow> Search_LastSids (hist w) (events w) my_lf rule
             | LastGroups \<Rightarrow> Search_LastGroups (hist w) (events w) my_lf rule)
      in (res \<noteq> None, put_rule r rule1 (w\<lparr>events := evs\<rparr>)))"

definition context_check :: "('m, 'l, 'x) env \<Rightarrow> nat \<Rightarrow> nat \<Rightarrow> ('m, 'l, 'x) world
    \<Rightarrow> bool \<times> ('m, 'l, 'x) world" where
  "context_check env my_lf r w =
     (let rule = w_rules w r in
      if r_context rule = 1 \<and> \<not> has_bit (r_context_opts rule) SAME_DODIFF then
        (case r_event_search rule of None \<Rightarrow> (True, w) | Some kind \<Rightarrow> search env kind my_lf r w)
      else (True, w))"

text \<open>All checks of one rule, up to the search for dependent rules.\<close>

definition rule_holds :: "('m, 'l, 'x) env \<Rightarrow> nat \<Rightarrow> nat \<Rightarrow> ('m, 'l, 'x) world
    \<Rightarrow> bool \<times> ('m, 'l, 'x) world" where
  "rule_holds env my_lf r w =
     (if \<not> conditions env (w_rules w r) (events w my_lf) then (False, w)
      else let (ok1, w1) = diff_check env my_lf r w in
      if \<not> ok1 then (False, w1)
      else let (ok2, w2) = fts_check env my_lf r w1 in
      if \<not> ok2 then (False, w2)
      else if \<not> lists_ok env (w_rules w2 r) (events w2 my_lf) then (False, w2)
      else context_check env my_lf r w2)"

text \<open>The alert is counted, for the hour and for the rule.\<close>

definition count_alert :: "nat \<Rightarrow> ('m, 'l, 'x) world \<Rightarrow> ('m, 'l, 'x) world" where
  "count_alert r w =
     put_rule r ((w_rules w r)\<lparr>r_firedtimes := r_firedtimes (w_rules w r) + 1\<rparr>)
       (w\<lparr>hourly_alerts := hourly_alerts w + 1\<rparr>)"

fun OS_CheckIfRuleMatch :: "('m, 'l, 'x) env \<Rightarrow> nat \<Rightarrow> RuleNode \<Rightarrow> ('m, 'l, 'x) world
    \<Rightarrow> nat option \<times> ('m, 'l, 'x) world"
and check_children :: "('m, 'l, 'x) env \<Rightarrow> nat \<Rightarrow> RuleNode list \<Rightarrow> ('m, 'l, 'x) world
    \<Rightarrow> nat option \<times> ('m, 'l, 'x) world" where
  "OS_CheckIfRuleMatch env my_lf (RuleNode r ch) w =
     (let (ok, w1) = rule_holds env my_lf r w in
      if \<not> ok then (None, w1)
      else
        let (c, w2) = check_children env my_lf ch w1
        in if c \<noteq> None then (c, w2)
           else if has_bit (r_alert_opts (w_rules w2 r)) NO_ALERT then (None, w2)
           else (Some r, count_alert r w2))"
| "check_children env my_lf [] w = (None, w)"
| "check_children env my_lf (n # ns) w =
     (let (c, w1) = OS_CheckIfRuleMatch env my_lf n w
      in if c \<noteq> None then (c, w1) else check_children env my_lf ns w1)"

section \<open>What the checks leave alone\<close>

text \<open>
  The effects touch the correlation state only: what the conditions of a rule read, its options and
  its counter stay as they were.
\<close>

definition readonly_rule :: "('m, 'l) RuleInfo \<Rightarrow> ('m, 'l) RuleInfo" where
  "readonly_rule ri = ri\<lparr>r_cur_frequency := 0, r_last_events := None, r_last_events_copied := False\<rparr>"

definition readonly_event :: "Eventinfo \<Rightarrow> Eventinfo" where
  "readonly_event ev = ev\<lparr>lf_matched := 0, lf_alert_last_events := None\<rparr>"

definition undisturbed :: "('m, 'l, 'x) world \<Rightarrow> ('m, 'l, 'x) world \<Rightarrow> bool" where
  "undisturbed w w' \<longleftrightarrow>
     (\<forall>r. readonly_rule (w_rules w' r) = readonly_rule (w_rules w r)) \<and>
     (\<forall>a. readonly_event (events w' a) = readonly_event (events w a)) \<and>
     hourly_alerts w' = hourly_alerts w \<and> hist w' = hist w \<and> elist w' = elist w"

lemma undisturbed_refl [simp]: "undisturbed w w"
  by (simp add: undisturbed_def)

lemma undisturbed_trans: "undisturbed a b \<Longrightarrow> undisturbed b c \<Longrightarrow> undisturbed a c"
  by (simp add: undisturbed_def)

lemma readonly_set_last [simp]:
  "readonly_rule (OS_SetRuleLastEvent ri i s) = readonly_rule ri"
  "readonly_rule (OS_FreeRuleLastEvents ri) = readonly_rule ri"
  "readonly_rule (keep_line ri s) = readonly_rule ri"
  "readonly_rule (ri\<lparr>r_cur_frequency := f\<rparr>) = readonly_rule ri"
  "readonly_rule (fst (OS_MoveRuleLastEvents ri lf)) = readonly_rule ri"
  "readonly_event (snd (OS_MoveRuleLastEvents ri lf)) = readonly_event lf"
  by (simp_all add: readonly_rule_def readonly_event_def OS_SetRuleLastEvent_def
      OS_FreeRuleLastEvents_def OS_MoveRuleLastEvents_def keep_line_def Let_def split: option.splits)

lemma readonly_mark [simp]:
  "readonly_event (mark_matched evs a b c lev d) = readonly_event (evs d)"
  by (simp add: readonly_event_def mark_matched_def set_matched_def)

lemma readonly_correlate:
  "readonly_rule (snd (correlate late stop ok log ri ns)) = readonly_rule ri"
  by (induction late stop ok log ri ns rule: correlate.induct) (simp_all add: Let_def)

lemma readonly_found:
  assumes "found evs my f lev (correlate late stop ok log ri ns) = (res, evs', ri')"
  shows "readonly_rule ri' = readonly_rule ri \<and> (\<forall>a. readonly_event (evs' a) = readonly_event (evs a))"
proof -
  have "ri' = snd (correlate late stop ok log ri ns)"
    "evs' = mark_found evs my f lev (fst (correlate late stop ok log ri ns))"
    using assms by (auto simp: found_def)
  then show ?thesis
    by (simp add: readonly_correlate mark_found_def split: option.split)
qed

lemma readonly_search_out:
  assumes "readonly_rule ri = q" "\<forall>a. readonly_event (evs a) = e a"
    "search_out my (r, evs, ri) = (res, evs', ri')"
  shows "readonly_rule ri' = q \<and> (\<forall>a. readonly_event (evs' a) = e a)"
proof (cases r)
  case None
  with assms show ?thesis by (auto simp: search_out_def)
next
  case (Some lf)
  obtain ri1 ev where m: "OS_MoveRuleLastEvents ri (evs my) = (ri1, ev)" by force
  with readonly_set_last(5) [of ri "evs my"] readonly_set_last(6) [of ri "evs my"]
  have "readonly_rule ri1 = readonly_rule ri" "readonly_event ev = readonly_event (evs my)" by simp_all
  with assms Some m show ?thesis by (auto simp: search_out_def)
qed

text \<open>All three searches end with \<open>search_out\<close> of a common loop, or return at once.\<close>

lemma search_readonly:
  assumes "r0 = OS_FreeRuleLastEvents (ri\<lparr>r_cur_frequency := 0\<rparr>)"
    "(res, evs', ri') = (None, evs, r0) \<or>
     (\<exists>late stop ok log f lev ns.
        (res, evs', ri') = search_out my (found evs my f lev (correlate late stop ok log r0 ns)))"
  shows "readonly_rule ri' = readonly_rule ri \<and> (\<forall>a. readonly_event (evs' a) = readonly_event (evs a))"
  using assms(2)
proof (elim disjE exE)
  assume "(res, evs', ri') = (None, evs, r0)"
  then show ?thesis by (simp add: assms(1))
next
  fix late stop ok log f lev ns
  assume o: "(res, evs', ri') = search_out my (found evs my f lev (correlate late stop ok log r0 ns))"
  obtain h e1 r1 where F: "found evs my f lev (correlate late stop ok log r0 ns) = (h, e1, r1)"
    by (metis prod_cases3)
  from readonly_found [OF F] have q: "readonly_rule r1 = readonly_rule ri"
    "\<forall>a. readonly_event (e1 a) = readonly_event (evs a)" by (simp_all add: assms(1))
  show ?thesis using readonly_search_out [OF q] o F by metis
qed

lemma Search_forms:
  "r0 = OS_FreeRuleLastEvents (ri\<lparr>r_cur_frequency := 0\<rparr>) \<Longrightarrow>
   x = Search_LastSids hi evs my ri \<or> x = Search_LastGroups hi evs my ri \<or>
   x = Search_LastEvents exec el evs my ri \<Longrightarrow>
   x = (None, evs, r0) \<or> (\<exists>late stop ok log f lev ns.
     x = search_out my (found evs my f lev (correlate late stop ok log r0 ns)))"
proof (elim disjE)
  assume r0: "r0 = OS_FreeRuleLastEvents (ri\<lparr>r_cur_frequency := 0\<rparr>)"
    and x: "x = Search_LastSids hi evs my ri"
  show ?thesis
  proof (cases "r_sid_search r0")
    case (Some l)
    then show ?thesis
      by (cases "rev (hi l)") (use x r0 in \<open>simp only: Search_LastSids_def Let_def option.case list.case
        sids_correlate, blast\<close>)+
  qed (use x r0 in \<open>simp add: Search_LastSids_def\<close>)
next
  assume r0: "r0 = OS_FreeRuleLastEvents (ri\<lparr>r_cur_frequency := 0\<rparr>)"
    and x: "x = Search_LastGroups hi evs my ri"
  show ?thesis
  proof (cases "r_group_search r0")
    case (Some l)
    then show ?thesis
      by (cases "rev (hi l)") (use x r0 in \<open>simp only: Search_LastGroups_def Let_def option.case list.case
        groups_correlate, blast\<close>)+
  qed (use x r0 in \<open>simp add: Search_LastGroups_def\<close>)
next
  assume r0: "r0 = OS_FreeRuleLastEvents (ri\<lparr>r_cur_frequency := 0\<rparr>)"
    and x: "x = Search_LastEvents exec el evs my ri"
  show ?thesis
    by (cases el) (use x r0 in \<open>simp only: Search_LastEvents_def Let_def list.case events_correlate, blast\<close>)+
qed

lemma search_undisturbed:
  assumes "search env kind my r w = (ok, w')"
  shows "undisturbed w w'"
proof -
  obtain res evs ri where c: "(res, evs, ri) = (case kind of
       LastEvents \<Rightarrow> Search_LastEvents (OSRegex_Execute env) (elist w) (events w) my (w_rules w r)
     | LastSids \<Rightarrow> Search_LastSids (hist w) (events w) my (w_rules w r)
     | LastGroups \<Rightarrow> Search_LastGroups (hist w) (events w) my (w_rules w r))"
    by (metis prod_cases3)
  then have "(res, evs, ri) = Search_LastSids (hist w) (events w) my (w_rules w r) \<or>
    (res, evs, ri) = Search_LastGroups (hist w) (events w) my (w_rules w r) \<or>
    (res, evs, ri) = Search_LastEvents (OSRegex_Execute env) (elist w) (events w) my (w_rules w r)"
    by (cases kind) auto
  from search_readonly [OF refl Search_forms [OF refl this]]
  have "readonly_rule ri = readonly_rule (w_rules w r)"
    "\<forall>a. readonly_event (evs a) = readonly_event (events w a)" by blast+
  moreover have "w' = put_rule r ri (w\<lparr>events := evs\<rparr>)"
    using assms c by (simp add: search_def Let_def split: prod.splits)
  ultimately show ?thesis by (simp add: undisturbed_def put_rule_def)
qed

lemma doDiff_readonly:
  assumes "doDiff env rule lf x = (ok, rule1, lf1, x1)"
  shows "readonly_rule rule1 = readonly_rule rule \<and> readonly_event lf1 = readonly_event lf"
proof (cases "fst (diff_file env (r_sigid (OS_FreeRuleLastEvents rule)) lf x)")
  case None
  with assms show ?thesis by (auto simp: doDiff_def Let_def split: prod.splits)
next
  case (Some s)
  let ?r3 = "OS_SetRuleLastEvent (OS_SetRuleLastEvent (OS_FreeRuleLastEvents rule) 0 ''Previous output:'') 1 s"
  obtain r4 l4 where m: "OS_MoveRuleLastEvents ?r3 lf = (r4, l4)" by force
  have "readonly_rule r4 = readonly_rule rule" "readonly_event l4 = readonly_event lf"
    using readonly_set_last(5) [of ?r3 lf] readonly_set_last(6) [of ?r3 lf] m by simp_all
  with assms Some m show ?thesis by (auto simp: doDiff_def Let_def split: prod.splits)
qed

lemma diff_undisturbed: "diff_check env my r w = (ok, w') \<Longrightarrow> undisturbed w w'"
  by (auto simp: diff_check_def undisturbed_def put_rule_def put_event_def Let_def dest: doDiff_readonly
      split: if_splits prod.splits)

lemma fts_undisturbed: "fts_check env my r w = (ok, w') \<Longrightarrow> undisturbed w w'"
  by (auto simp: fts_check_def undisturbed_def Let_def split: if_splits prod.splits)

lemma context_undisturbed: "context_check env my r w = (ok, w') \<Longrightarrow> undisturbed w w'"
  by (auto simp: context_check_def Let_def split: if_splits option.splits dest: search_undisturbed)

text \<open>
  The conditions read only what stays, provided the compiled rules do (they compare strings of the
  event: \<^verbatim>\<open>analysisd/compiled_rules\<close>).
\<close>

definition compiled_ok :: "('m, 'l, 'x) env \<Rightarrow> bool" where
  "compiled_ok env \<longleftrightarrow> (\<forall>c lf. compiled_rule env c (readonly_event lf) = compiled_rule env c lf)"

lemma readonly_event_sel [simp]:
  "lf_log (readonly_event lf) = lf_log lf" "lf_hour (readonly_event lf) = lf_hour lf"
  "lf_action (readonly_event lf) = lf_action lf" "lf_fields (readonly_event lf) = lf_fields lf"
  "lf_decoder_info (readonly_event lf) = lf_decoder_info lf" "lf_size (readonly_event lf) = lf_size lf"
  by (simp_all add: readonly_event_def)

lemma readonly_rule_sel [simp]:
  "r_alert_opts (readonly_rule ri) = r_alert_opts ri" "r_lists (readonly_rule ri) = r_lists ri"
  "r_firedtimes (readonly_rule ri) = r_firedtimes ri" "r_pcre2 (readonly_rule ri) = r_pcre2 ri"
  "r_fields (readonly_rule ri) = r_fields ri"
  by (simp_all add: readonly_rule_def)

lemma field_ok_readonly: "field_ok env (readonly_event lf) = field_ok env lf"
  unfolding field_ok_def readonly_event_sel by (rule refl)

lemma extra_readonly:
  assumes "compiled_ok env"
  shows "extra_ok env (readonly_rule ri) (readonly_event lf) = extra_ok env ri lf"
proof -
  have c: "compiled_rule env c (readonly_event lf) = compiled_rule env c lf" for c
    using assms by (simp add: compiled_ok_def)
  have "extra_ok env (readonly_rule ri) (readonly_event lf) = extra_ok env (readonly_rule ri) lf"
    unfolding extra_ok_def extra_tail_ok_def c readonly_event_sel by (simp add: readonly_event_def)
  also have "\<dots> = extra_ok env ri lf" unfolding extra_ok_def extra_tail_ok_def by (simp add: readonly_rule_def)
  finally show ?thesis .
qed

lemma conditions_readonly:
  assumes "compiled_ok env"
  shows "conditions env (readonly_rule ri) (readonly_event lf) = conditions env ri lf"
proof -
  have "decoded_ok (readonly_rule ri) (readonly_event lf) = decoded_ok ri lf"
    "packet_ok env (readonly_rule ri) (readonly_event lf) = packet_ok env ri lf"
    by (simp_all add: decoded_ok_def packet_ok_def readonly_rule_def readonly_event_def)
  moreover have "log_ok env (readonly_rule ri) (readonly_event lf) = log_ok env ri lf"
    unfolding log_ok_def readonly_event_sel readonly_rule_sel by (simp add: readonly_rule_def)
  moreover have "action_ok (readonly_rule ri) (readonly_event lf) = action_ok ri lf"
    unfolding action_ok_def readonly_event_sel by (simp add: readonly_rule_def)
  moreover have "fields_ok env (readonly_rule ri) (readonly_event lf) = fields_ok env ri lf"
    unfolding fields_ok_def field_ok_readonly readonly_event_sel readonly_rule_sel by (rule refl)
  ultimately show ?thesis
    unfolding conditions_def extra_readonly [OF assms]
    by (simp add: readonly_rule_def readonly_event_def)
qed

lemma lists_readonly: "lists_ok env (readonly_rule ri) (readonly_event lf) = lists_ok env ri lf"
proof -
  have "list_field_of f (readonly_event lf) = list_field_of f lf" for f
    by (cases f) (simp_all add: list_field_of_def readonly_event_def)
  then show ?thesis by (simp add: lists_ok_def)
qed

lemma undisturbed_checks:
  assumes "undisturbed w w'"
  shows "compiled_ok env \<Longrightarrow> conditions env (w_rules w' r) (events w' a) = conditions env (w_rules w r) (events w a)"
    and "lists_ok env (w_rules w' r) (events w' a) = lists_ok env (w_rules w r) (events w a)"
    and "r_alert_opts (w_rules w' r) = r_alert_opts (w_rules w r)"
    and "r_firedtimes (w_rules w' r) = r_firedtimes (w_rules w r)"
proof -
  have r: "readonly_rule (w_rules w' r) = readonly_rule (w_rules w r)"
    and e: "readonly_event (events w' a) = readonly_event (events w a)"
    using assms by (simp_all add: undisturbed_def)
  show "compiled_ok env \<Longrightarrow> conditions env (w_rules w' r) (events w' a) = conditions env (w_rules w r) (events w a)"
    using conditions_readonly r e by metis
  show "lists_ok env (w_rules w' r) (events w' a) = lists_ok env (w_rules w r) (events w a)"
    using lists_readonly r e by metis
  show "r_alert_opts (w_rules w' r) = r_alert_opts (w_rules w r)"
    "r_firedtimes (w_rules w' r) = r_firedtimes (w_rules w r)"
    using r readonly_rule_sel by metis+
qed

lemma rule_holds_undisturbed:
  assumes "rule_holds env my r w = (ok, w')"
  shows "undisturbed w w' \<and> (ok \<longrightarrow> conditions env (w_rules w r) (events w my) \<and>
    lists_ok env (w_rules w r) (events w my))"
proof (cases "conditions env (w_rules w r) (events w my)")
  case True
  obtain ok1 w1 where d: "diff_check env my r w = (ok1, w1)" by force
  obtain ok2 w2 where f: "fts_check env my r w1 = (ok2, w2)" by force
  obtain ok3 w3 where c: "context_check env my r w2 = (ok3, w3)" by force
  note u1 = diff_undisturbed [OF d] and u2 = undisturbed_trans [OF diff_undisturbed [OF d] fts_undisturbed [OF f]]
  note u3 = undisturbed_trans [OF u2 context_undisturbed [OF c]]
  from assms True d f c u1 u2 u3 undisturbed_checks(2) [OF u2, of env r my] show ?thesis
    by (auto simp: rule_holds_def split: if_splits)
next
  case False
  with assms show ?thesis by (simp add: rule_holds_def)
qed

section \<open>Properties\<close>

text \<open>A match ends in a counted alert after undisturbed checks; no match leaves all undisturbed.\<close>

definition outcome_ok :: "('m, 'l, 'x) world \<Rightarrow> nat option \<Rightarrow> ('m, 'l, 'x) world \<Rightarrow> bool" where
  "outcome_ok w res w' \<longleftrightarrow>
     (case res of
        None \<Rightarrow> undisturbed w w'
      | Some r \<Rightarrow> (\<exists>w1. undisturbed w w1 \<and> w' = count_alert r w1))"

lemma outcome_after: "undisturbed w w1 \<Longrightarrow> outcome_ok w1 res w' \<Longrightarrow> outcome_ok w res w'"
  by (auto simp: outcome_ok_def split: option.splits intro: undisturbed_trans)

lemma check_outcome:
  "OS_CheckIfRuleMatch env my n w = (res, w') \<Longrightarrow> outcome_ok w res w'"
  "check_children env my ns w = (res, w') \<Longrightarrow> outcome_ok w res w'"
proof (induction env my n w and env my ns w arbitrary: res w' and res w'
    rule: OS_CheckIfRuleMatch_check_children.induct)
  case (1 env my r ch w)
  obtain ok w1 where h: "rule_holds env my r w = (ok, w1)" by force
  obtain c w2 where k: "check_children env my ch w1 = (c, w2)" by force
  have u: "undisturbed w w1" using rule_holds_undisturbed [OF h] by blast
  show ?case
  proof (cases ok)
    case True
    note IH = outcome_after [OF u 1(1) [OF h [symmetric] refl, unfolded not_not, OF True k]]
    show ?thesis
    proof (cases c)
      case None
      with IH have "undisturbed w w2" by (simp add: outcome_ok_def)
      with "1.prems" True h k None show ?thesis by (auto simp: outcome_ok_def split: if_splits)
    qed (use IH "1.prems" True h k in auto)
  qed (use "1.prems" h u in \<open>auto simp: outcome_ok_def\<close>)
next
  case (2 env my w)
  then show ?case by (simp add: outcome_ok_def)
next
  case (3 env my n ns w)
  obtain c w1 where h: "OS_CheckIfRuleMatch env my n w = (c, w1)" by force
  note IH1 = "3.IH"(1) [OF h]
  show ?case
  proof (cases c)
    case None
    then have "undisturbed w w1" using IH1 by (simp add: outcome_ok_def)
    moreover have "outcome_ok w1 res w'"
      using "3.IH"(2) [OF h [symmetric] refl] "3.prems" h None by auto
    ultimately show ?thesis by (rule outcome_after)
  qed (use IH1 "3.prems" h in auto)
qed

text \<open>
  Trying a rule and its tree on an event never changes what the rules test, and counts an
  alert exactly when it returns one: then the hourly total and the counter of the returned rule
  go up by one and no other rule's does.
\<close>

theorem OS_CheckIfRuleMatch_counts:
  assumes "OS_CheckIfRuleMatch env my_lf n w = (res, w')"
  shows "hourly_alerts w' = hourly_alerts w + (if res = None then 0 else 1) \<and>
    r_firedtimes (w_rules w' r) = r_firedtimes (w_rules w r) + (if res = Some r then 1 else 0) \<and>
    r_alert_opts (w_rules w' r) = r_alert_opts (w_rules w r) \<and> hist w' = hist w \<and> elist w' = elist w"
proof (cases res)
  case None
  with check_outcome(1) [OF assms] have "undisturbed w w'" by (simp add: outcome_ok_def)
  with undisturbed_checks(3,4) [OF this, of r] None show ?thesis by (simp add: undisturbed_def)
next
  case (Some q)
  with check_outcome(1) [OF assms] obtain w1 where u: "undisturbed w w1" "w' = count_alert q w1"
    by (auto simp: outcome_ok_def)
  from undisturbed_checks(3,4) [OF u(1), of r] u Some show ?thesis
    by (cases "r = q") (simp_all add: undisturbed_def count_alert_def put_rule_def)
qed

text \<open>A path down the tree, and the children of the node it ends at.\<close>

inductive tree_path :: "RuleNode \<Rightarrow> nat list \<Rightarrow> bool" where
  stop: "tree_path (RuleNode r ch) [r]"
| down: "c \<in> set ch \<Longrightarrow> tree_path c ps \<Longrightarrow> tree_path (RuleNode r ch) (r # ps)"

lemma tree_path_ne: "tree_path n ps \<Longrightarrow> ps \<noteq> []"
  by (induction rule: tree_path.induct) auto

definition passes :: "('m, 'l, 'x) env \<Rightarrow> nat \<Rightarrow> ('m, 'l, 'x) world \<Rightarrow> nat \<Rightarrow> bool" where
  "passes env my w i \<longleftrightarrow>
     conditions env (w_rules w i) (events w my) \<and> lists_ok env (w_rules w i) (events w my)"

lemma passes_undisturbed:
  "undisturbed w w' \<Longrightarrow> compiled_ok env \<Longrightarrow> passes env my w' = passes env my w"
  using undisturbed_checks(1,2) by (fastforce simp: passes_def fun_eq_iff)

definition reaches :: "('m, 'l, 'x) env \<Rightarrow> nat \<Rightarrow> ('m, 'l, 'x) world \<Rightarrow> RuleNode \<Rightarrow> nat \<Rightarrow> bool" where
  "reaches env my w n r \<longleftrightarrow>
     (\<exists>ps. tree_path n ps \<and> last ps = r \<and> list_all (passes env my w) ps) \<and>
     \<not> has_bit (r_alert_opts (w_rules w r)) NO_ALERT"

lemma reaches_undisturbed:
  "undisturbed w w' \<Longrightarrow> compiled_ok env \<Longrightarrow> reaches env my w' n r = reaches env my w n r"
  using undisturbed_checks(3) [of w w' r] by (simp add: reaches_def passes_undisturbed)

lemma reaches_down:
  assumes "c \<in> set ch" "reaches env my w c r" "passes env my w i"
  shows "reaches env my w (RuleNode i ch) r"
proof -
  from assms(2) obtain ps where "tree_path c ps" "last ps = r" "list_all (passes env my w) ps"
    "\<not> has_bit (r_alert_opts (w_rules w r)) NO_ALERT" by (auto simp: reaches_def)
  with tree_path.down [OF assms(1) this(1), of i] tree_path_ne [OF this(1)] assms(3) show ?thesis
    unfolding reaches_def by (intro conjI exI [of _ "i # ps"]) simp_all
qed

lemma check_reaches:
  "OS_CheckIfRuleMatch env my n w = (Some r, w') \<Longrightarrow> compiled_ok env \<Longrightarrow> reaches env my w n r"
  "check_children env my ns w = (Some r, w') \<Longrightarrow> compiled_ok env \<Longrightarrow> \<exists>n\<in>set ns. reaches env my w n r"
proof (induction env my n w and env my ns w arbitrary: w' and w'
    rule: OS_CheckIfRuleMatch_check_children.induct)
  case (1 env my i ch w)
  obtain ok w1 where h: "rule_holds env my i w = (ok, w1)" by force
  obtain c w2 where k: "check_children env my ch w1 = (c, w2)" by force
  have ok using "1.prems"(1) h by (cases ok) auto
  then have u: "undisturbed w w1" "passes env my w i"
    using rule_holds_undisturbed [OF h] by (auto simp: passes_def)
  show ?case
  proof (cases c)
    case None
    then have "undisturbed w1 w2" using check_outcome(2) [OF k] by (simp add: outcome_ok_def)
    then have u2: "undisturbed w w2" using u(1) undisturbed_trans by blast
    from "1.prems"(1) \<open>ok\<close> h k None have "r = i" "\<not> has_bit (r_alert_opts (w_rules w2 i)) NO_ALERT"
      by (auto split: if_splits)
    with undisturbed_checks(3) [OF u2, of i] u(2) show ?thesis
      using tree_path.stop [of i ch] by (auto simp: reaches_def intro: exI [of _ "[i]"])
  next
    case (Some q)
    with "1.prems"(1) \<open>ok\<close> h k have "q = r" by auto
    with 1(1) [OF h [symmetric] refl, unfolded not_not, OF \<open>ok\<close>, of w2] k Some "1.prems"(2)
    obtain n where "n \<in> set ch" "reaches env my w1 n r" by auto
    with reaches_undisturbed [OF u(1) "1.prems"(2)] reaches_down u(2) show ?thesis by blast
  qed
next
  case (3 env my n ns w)
  obtain c w1 where h: "OS_CheckIfRuleMatch env my n w = (c, w1)" by force
  show ?case
  proof (cases c)
    case None
    then have u: "undisturbed w w1" using check_outcome(1) [OF h] by (simp add: outcome_ok_def)
    have "check_children env my ns w1 = (Some r, w')" using "3.prems"(1) h None by simp
    from "3.IH"(2) [OF h [symmetric] refl] None this "3.prems"(2)
    obtain m where "m \<in> set ns" "reaches env my w1 m r" by auto
    with reaches_undisturbed [OF u "3.prems"(2)] show ?thesis by auto
  next
    case (Some q)
    with "3.IH"(1) h "3.prems" show ?thesis by auto
  qed
qed simp

text \<open>
  C9. The rule that fires is reached from the tried node along a path of the tree on which every
  rule's conditions and list lookups hold for the event as it came in, and it is not marked
  \<open>noalert\<close>.
\<close>

theorem OS_CheckIfRuleMatch_path:
  assumes "OS_CheckIfRuleMatch env my_lf n w = (Some r, w')" "compiled_ok env"
  shows "\<not> has_bit (r_alert_opts (w_rules w r)) NO_ALERT \<and>
    (\<exists>ps. tree_path n ps \<and> last ps = r \<and>
      list_all (\<lambda>i. conditions env (w_rules w i) (events w my_lf) \<and>
                    lists_ok env (w_rules w i) (events w my_lf)) ps)"
  using check_reaches(1) [OF assms] by (auto simp: reaches_def passes_def [abs_def])

section \<open>The order in which rules are tried\<close>

text \<open>A rule without the three checks that have effects.\<close>

definition plain_rule :: "('m, 'l) RuleInfo \<Rightarrow> bool" where
  "plain_rule ri \<longleftrightarrow> \<not> has_bit (r_alert_opts ri) DO_FTS \<and>
     \<not> (has_bit (r_alert_opts ri) DO_EXTRAINFO \<and> has_bit (r_context_opts ri) SAME_DODIFF) \<and>
     r_context ri \<noteq> 1"

lemma plain_rule_holds: "plain_rule (w_rules w r) \<Longrightarrow> rule_holds env my r w = (passes env my w r, w)"
  by (auto simp: plain_rule_def rule_holds_def passes_def diff_check_def fts_check_def context_check_def)

fun plain_tree :: "('m, 'l, 'x) world \<Rightarrow> RuleNode \<Rightarrow> bool" where
  "plain_tree w (RuleNode r ch) \<longleftrightarrow> plain_rule (w_rules w r) \<and> list_all (plain_tree w) ch"

text \<open>
  The rules that may alert for the event, in the order of a walk that looks below a rule before it
  takes the rule itself.
\<close>

fun alerting :: "('m, 'l, 'x) env \<Rightarrow> nat \<Rightarrow> ('m, 'l, 'x) world \<Rightarrow> RuleNode \<Rightarrow> nat list" where
  "alerting env my w (RuleNode r ch) =
     (if passes env my w r
      then concat (map (alerting env my w) ch) @
           (if has_bit (r_alert_opts (w_rules w r)) NO_ALERT then [] else [r])
      else [])"

definition first_alert :: "nat list \<Rightarrow> ('m, 'l, 'x) world \<Rightarrow> nat option \<times> ('m, 'l, 'x) world" where
  "first_alert rs w = (case rs of [] \<Rightarrow> (None, w) | r # _ \<Rightarrow> (Some r, count_alert r w))"

lemma check_plain:
  "plain_tree w n \<Longrightarrow> OS_CheckIfRuleMatch env my n w = first_alert (alerting env my w n) w"
  "list_all (plain_tree w) ns \<Longrightarrow>
   check_children env my ns w = first_alert (concat (map (alerting env my w) ns)) w"
proof (induction env my n w and env my ns w rule: OS_CheckIfRuleMatch_check_children.induct)
  case (1 env my r ch w)
  then have p: "plain_rule (w_rules w r)" and l: "list_all (plain_tree w) ch" by auto
  show ?case
  proof (cases "passes env my w r")
    case True
    define rs where "rs = concat (map (alerting env my w) ch)"
    have k: "check_children env my ch w = first_alert rs w"
      unfolding rs_def using 1(1) [OF plain_rule_holds [OF p, symmetric] refl] True l by simp
    have "alerting env my w (RuleNode r ch) =
        rs @ (if has_bit (r_alert_opts (w_rules w r)) NO_ALERT then [] else [r])"
      using True by (simp add: rs_def)
    then show ?thesis
      using k by (cases rs) (simp_all add: plain_rule_holds [OF p] True first_alert_def del: alerting.simps)
  qed (simp add: plain_rule_holds [OF p] first_alert_def)
next
  case (3 env my n ns w)
  then have a: "OS_CheckIfRuleMatch env my n w = first_alert (alerting env my w n) w" by simp
  show ?case
  proof (cases "alerting env my w n")
    case Nil
    with a have "OS_CheckIfRuleMatch env my n w = (None, w)" by (simp add: first_alert_def)
    with "3.IH"(2) [OF this [symmetric] refl] 3(3) Nil show ?thesis by simp
  qed (use a in \<open>simp add: first_alert_def\<close>)
qed (simp add: first_alert_def)

text \<open>
  C10. For rules without diff, first-time-seen and composite conditions the answer is the first
  rule in depth-first order that may alert, children before their parent and siblings in the order
  of the tree (highest level first), and the only effect is that its alert is counted.
\<close>

theorem OS_CheckIfRuleMatch_first:
  assumes "plain_tree w n"
  shows "OS_CheckIfRuleMatch env my_lf n w =
    (case alerting env my_lf w n of [] \<Rightarrow> (None, w) | r # _ \<Rightarrow> (Some r, count_alert r w))"
  using check_plain(1) [OF assms] by (simp add: first_alert_def)

subsection \<open>Witnesses\<close>

text \<open>Patterns are strings, matching is equality; the tree of \<^const>\<open>tiny_state\<close> with one pattern.\<close>

definition tiny_env :: "(nat, nat, unit) env" where
  "tiny_env = \<lparr>OSMatch_Execute = (\<lambda>m s. m = length s), OSPcre2_Execute = (\<lambda>_ _. False),
     OSRegex_Execute = (\<lambda>_ _. False), OS_IPFoundList = (\<lambda>_ _. False), OS_IsonTime = (\<lambda>_ _. True),
     OS_IsonDay = (\<lambda>_ _. True), OS_DBSearch = (\<lambda>_ _. False), compiled_rule = (\<lambda>_ _. False),
     diff_file = (\<lambda>_ _ x. (None, x)), FTS = (\<lambda>_ x. (False, x)), crt_wday = 1, decoder_order_size = 8\<rparr>"

definition tiny_world :: "(nat, nat, unit) world" where
  "tiny_world = \<lparr>events = (\<lambda>_. zero_event), w_rules = tiny_rules, hist = (\<lambda>_. []), elist = [],
     hourly_alerts = 0, ext = ()\<rparr>"

lemma tiny_passes: "passes tiny_env 5 tiny_world i" if "i \<in> {2, 3}"
  using that
  by (auto simp: passes_def conditions_def decoded_ok_def pattern_ok_def log_ok_def action_ok_def
      fields_ok_def lists_ok_def has_bit_def tiny_world_def tiny_rules_def zero_rule_def)

lemma tiny_plain: "plain_tree tiny_world (RuleNode 2 [RuleNode 3 []])"
  by (simp add: plain_rule_def tiny_world_def tiny_rules_def zero_rule_def has_bit_def)

lemma tiny_options: "\<not> has_bit (r_alert_opts (w_rules tiny_world 3)) NO_ALERT"
  by (simp add: tiny_world_def tiny_rules_def zero_rule_def has_bit_def)

lemma tiny_fires: "OS_CheckIfRuleMatch tiny_env 5 (RuleNode 2 [RuleNode 3 []]) tiny_world =
    (Some 3, count_alert 3 tiny_world)"
  using check_plain(1) [OF tiny_plain, of tiny_env 5]
  by (simp add: tiny_passes tiny_options first_alert_def)

theorem OS_CheckIfRuleMatch_first_witness:
  "OS_CheckIfRuleMatch tiny_env 5 (RuleNode 2 [RuleNode 3 []]) tiny_world =
     (Some 3, count_alert 3 tiny_world)"
  using OS_CheckIfRuleMatch_first [OF tiny_plain, of tiny_env 5]
  by (simp add: tiny_passes tiny_options)

theorem OS_CheckIfRuleMatch_counts_witness:
  "r_firedtimes (w_rules (count_alert 3 tiny_world) 3) = r_firedtimes (w_rules tiny_world 3) + 1"
  using OS_CheckIfRuleMatch_counts [OF tiny_fires, of 3] by simp

theorem OS_CheckIfRuleMatch_path_witness:
  "\<exists>ps. tree_path (RuleNode 2 [RuleNode 3 []]) ps \<and> last ps = 3"
proof -
  have "compiled_ok tiny_env" by (simp add: compiled_ok_def tiny_env_def)
  with OS_CheckIfRuleMatch_path [OF tiny_fires] show ?thesis by blast
qed

end
