(* ===== verification/Event_List.thy ===== *)
theory Event_List
  imports Linked Analysis_Types
begin

text \<open>
  \<^verbatim>\<open>analysisd/eventinfo_list.c\<close>: the list of recent events that the searches without a watched
  signature walk. New events go in front; when the list outgrows its maximum, at least ten of the
  oldest are dropped, and more while they are older than \<open>_max_freq\<close> seconds. The nodes live on the
  heap of \<^verbatim>\<open>Linked\<close>; the source frees the dropped ones after it released the list's mutex, here
  they are freed as they are dropped, in the returned order.
\<close>

section \<open>The model\<close>

record EventList =
  el_first :: "nat option"
  el_last :: "nat option"
  memoryused :: int
  memorymaxsize :: int

definition os_eventlist_init :: "int \<Rightarrow> EventList" where
  "os_eventlist_init maxsize =
     \<lparr>el_first = None, el_last = None, memoryused = 0, memorymaxsize = maxsize\<rparr>"

definition OS_GetLastEvent_List :: "EventList option \<Rightarrow> nat option" where
  "OS_GetLastEvent_List l = (case l of None \<Rightarrow> None | Some l \<Rightarrow> el_first l)"

text \<open>The loop that drops from the end; \<open>victims\<close> are the dropped events, the latest first.\<close>

partial_function (option) drop_loop :: "(nat \<Rightarrow> int) \<Rightarrow> int \<Rightarrow> int \<Rightarrow> nat \<Rightarrow> nat list \<Rightarrow> nat mem \<Rightarrow> EventList
    \<Rightarrow> (nat list \<times> nat mem \<times> EventList) option" where
  "drop_loop time_of now max_freq i victims h l =
     (if el_last l = None then Some (victims, h, l)
      else do {
        n \<leftarrow> load h (el_last l);
        (if i < 10 \<or> now - time_of (dat n) > max_freq then do {
           let oldlast = el_last l;
           let l1 = l\<lparr>el_last := prv n\<rparr>;
           (h1, l2) \<leftarrow> (if prv n \<noteq> None then do { h1 \<leftarrow> set_next h (prv n) None; Some (h1, l1) }
                        else Some (h, l1\<lparr>el_first := None\<rparr>));
           h2 \<leftarrow> free h1 oldlast;
           drop_loop time_of now max_freq (i + 1) (dat n # victims) h2
             (l2\<lparr>memoryused := memoryused l2 - 1\<rparr>)
         } else Some (victims, h, l))
      })"

definition retain :: "(nat \<Rightarrow> Eventinfo) \<Rightarrow> nat \<Rightarrow> nat \<Rightarrow> Eventinfo" where
  "retain evs lf = evs(lf := (evs lf)\<lparr>lf_list_retained := True\<rparr>)"

definition OS_AddEvent_List :: "int \<Rightarrow> nat \<Rightarrow> (nat \<Rightarrow> Eventinfo) \<Rightarrow> nat mem \<Rightarrow> EventList
    \<Rightarrow> (nat list \<times> (nat \<Rightarrow> Eventinfo) \<times> nat mem \<times> EventList) option" where
  "OS_AddEvent_List max_freq lf evs h l =
     (if el_first l \<noteq> None then do {
        let (a, h1) = malloc h \<lparr>nxt = el_first l, prv = None, dat = lf\<rparr>;
        h2 \<leftarrow> set_prev h1 (el_first l) (Some a);
        let l1 = l\<lparr>el_first := Some a, memoryused := memoryused l + 1\<rparr>;
        (victims, h3, l2) \<leftarrow>
          (if memoryused l1 > memorymaxsize l1
           then drop_loop (\<lambda>a. lf_time (evs a)) (lf_time (evs lf)) max_freq 0 [] h2 l1
           else Some ([], h2, l1));
        Some (victims, retain evs lf, h3, l2)
      } else do {
        let (a, h1) = malloc h \<lparr>nxt = None, prv = None, dat = lf\<rparr>;
        Some ([], retain evs lf, h1,
              l\<lparr>el_first := Some a, el_last := Some a, memoryused := 1\<rparr>)
      })"

section \<open>Refinement to plain lists\<close>

text \<open>The list holds the events \<open>xs\<close>, newest first, and counts them.\<close>

definition el_holds :: "nat mem \<Rightarrow> EventList \<Rightarrow> nat list \<Rightarrow> nat list \<Rightarrow> bool" where
  "el_holds h l as xs \<longleftrightarrow> dlist h (el_first l) (el_last l) as \<and> vals (cells h) as = xs \<and>
     memoryused l = int (length xs)"

text \<open>What is kept of a list given oldest first: ten go anyway, then those that are too old.\<close>

definition kept :: "(nat \<Rightarrow> int) \<Rightarrow> int \<Rightarrow> int \<Rightarrow> nat \<Rightarrow> nat list \<Rightarrow> nat list" where
  "kept time_of now max_freq i ys =
     dropWhile (\<lambda>y. now - time_of y > max_freq) (drop (10 - i) ys)"

lemma kept_Cons:
  "kept time_of now mf i (y # ys) =
     (if i < 10 \<or> now - time_of y > mf then kept time_of now mf (i + 1) ys else y # ys)"
proof (cases "i < 10")
  case True
  then have "10 - i = Suc (10 - (i + 1))" by simp
  then have "drop (10 - i) (y # ys) = drop (10 - (i + 1)) ys" by simp
  with True show ?thesis by (simp only: kept_def) simp
qed (simp add: kept_def)

lemma kept_drop: "kept time_of now mf i ys = drop (length ys - length (kept time_of now mf i ys)) ys"
proof -
  obtain n where n: "kept time_of now mf i ys = drop n ys"
    unfolding kept_def dropWhile_eq_drop drop_drop by blast
  show ?thesis unfolding n by (cases "n \<le> length ys") simp_all
qed

lemma drop_loop_spec:
  "el_holds h l as (rev ys) \<Longrightarrow>
   \<exists>h' l' as'. drop_loop time_of now mf i vs h l =
       Some (rev (take (length ys - length (kept time_of now mf i ys)) ys) @ vs, h', l') \<and>
     el_holds h' l' as' (rev (kept time_of now mf i ys)) \<and> memorymaxsize l' = memorymaxsize l"
proof (induction ys arbitrary: i vs h l as)
  case Nil
  then have "el_last l = None" by (auto simp: el_holds_def dlist_def)
  with Nil show ?case
    by (subst drop_loop.simps) (auto simp: kept_def)
next
  case (Cons y ys)
  then have "as \<noteq> []" by (auto simp: el_holds_def)
  then obtain bs a where as: "as = bs @ [a]" by (cases as rule: rev_cases) auto
  have D: "dlist h (el_first l) (el_last l) (bs @ a # [])" using Cons.prems as by (simp add: el_holds_def)
  from dlist_mid [OF D] obtain n where n: "cells h a = Some n"
    "prv n = (if bs = [] then None else Some (last bs))" by blast
  have lst: "el_last l = Some a" using dlist_last [OF D] by simp
  have v: "vals (cells h) bs = rev ys" "dat n = y"
    using Cons.prems as n by (auto simp: el_holds_def)
  show ?case
  proof (cases "i < 10 \<or> now - time_of y > mf")
    case False
    then have "drop_loop time_of now mf i vs h l = Some (vs, h, l)"
      using lst n v by (subst drop_loop.simps) (auto simp: load_def)
    with False Cons.prems show ?thesis by (auto simp: kept_Cons)
  next
    case True
    from dlist_unlink [OF D refl refl] n obtain h' where
      u: "unlink h (prv n) None (Some a) = Some h'"
        "dlist h' (if bs = [] then None else el_first l) (prv n) bs"
        "vals (cells h') bs = vals (cells h) bs" by (cases "bs = []") auto
    let ?l = "l\<lparr>el_last := prv n, el_first := (if bs = [] then None else el_first l),
                memoryused := memoryused l - 1\<rparr>"
    have step: "drop_loop time_of now mf i vs h l = drop_loop time_of now mf (i + 1) (y # vs) h' ?l"
    proof (cases "bs = []")
      case True
      then show ?thesis using \<open>i < 10 \<or> now - time_of y > mf\<close> lst n v u(1)
        by (subst drop_loop.simps) (auto simp: load_def unlink_def bind_eq_Some_conv)
    next
      case False
      then obtain h1 where "set_next h (prv n) None = Some h1" "free h1 (Some a) = Some h'"
        using u(1) n by (auto simp: unlink_def bind_eq_Some_conv)
      then show ?thesis using False \<open>i < 10 \<or> now - time_of y > mf\<close> lst n v
        by (subst drop_loop.simps) (auto simp: load_def)
    qed
    have H: "el_holds h' ?l bs (rev ys)"
      using u v Cons.prems n by (auto simp: el_holds_def)
    have len: "length (kept time_of now mf (i + 1) ys) \<le> length ys"
      by (metis kept_def diff_le_self dual_order.trans length_dropWhile_le length_drop)
    from Cons.IH [OF H, of "i + 1" "y # vs"] obtain h2 l2 as2 where
      "drop_loop time_of now mf (i + 1) (y # vs) h' ?l =
         Some (rev (take (length ys - length (kept time_of now mf (i + 1) ys)) ys) @ y # vs, h2, l2)"
      "el_holds h2 l2 as2 (rev (kept time_of now mf (i + 1) ys))" "memorymaxsize l2 = memorymaxsize l"
      by auto
    with step True len show ?thesis
      by (intro exI [of _ h2] exI [of _ l2] exI [of _ as2]) (simp add: kept_Cons Suc_diff_le)
  qed
qed

section \<open>Property\<close>

text \<open>
  What a client sees: the list, newest first, after the event came in, and the events that went.
\<close>

definition event_trim :: "int \<Rightarrow> int \<Rightarrow> (nat \<Rightarrow> Eventinfo) \<Rightarrow> nat \<Rightarrow> nat list \<Rightarrow> nat list \<times> nat list" where
  "event_trim max_freq maxsize evs lf xs =
     (let old = (\<lambda>y. lf_time (evs lf) - lf_time (evs y) > max_freq);
          stay = (if int (length xs) + 1 > maxsize then rev (dropWhile old (drop 10 (rev (lf # xs)))) else lf # xs)
      in (stay, drop (length stay) (lf # xs)))"

lemma event_trim_parts: "event_trim mf m evs lf xs = (stay, gone) \<Longrightarrow> stay @ gone = lf # xs"
proof -
  assume t: "event_trim mf m evs lf xs = (stay, gone)"
  have "\<exists>zs. rev (dropWhile P (drop 10 (rev ys))) @ zs = ys" for P and ys :: "nat list"
  proof -
    have "\<exists>us. rev ys = us @ dropWhile P (drop 10 (rev ys))"
      by (metis append_assoc append_take_drop_id takeWhile_dropWhile_id)
    then obtain us where "rev ys = us @ dropWhile P (drop 10 (rev ys))" ..
    then have "ys = rev (dropWhile P (drop 10 (rev ys))) @ rev us" by (metis rev_append rev_rev_ident)
    then show ?thesis by metis
  qed
  note split = this
  have "\<exists>zs. (if b then rev (dropWhile P (drop 10 (rev (lf # xs)))) else lf # xs) @ zs = lf # xs" for b P
    using split [of P "lf # xs"] by (cases b) (simp_all only: if_True if_False append_self_conv ex_simps simp_thms)
  moreover have "stay = (if int (length xs) + 1 > m
      then rev (dropWhile (\<lambda>y. lf_time (evs lf) - lf_time (evs y) > mf) (drop 10 (rev (lf # xs)))) else lf # xs)"
    using t by (simp add: event_trim_def Let_def)
  ultimately obtain zs where "stay @ zs = lf # xs" by metis
  moreover from this have "drop (length stay) (lf # xs) = zs" by (metis append_eq_conv_conj)
  ultimately show ?thesis using t by (auto simp: event_trim_def Let_def)
qed

lemma add_event_trims:
  assumes "el_holds h l as xs" "1 \<le> memorymaxsize l"
  shows "\<exists>h' l' as' victims evs'. OS_AddEvent_List max_freq lf evs h l = Some (victims, evs', h', l') \<and>
    evs' = retain evs lf \<and> memorymaxsize l' = memorymaxsize l \<and>
    (let old = (\<lambda>y. lf_time (evs lf) - lf_time (evs y) > max_freq);
         stay = (if int (length xs) + 1 > memorymaxsize l
                 then rev (dropWhile old (drop 10 (rev (lf # xs)))) else lf # xs)
     in el_holds h' l' as' stay \<and> stay @ victims = lf # xs)"
proof (cases "el_first l")
  case None
  with assms have "as = []" "xs = []" by (auto simp: el_holds_def dest: dlist_first split: if_splits)
  with assms None have "el_last l = None" "mem_ok h" by (auto simp: el_holds_def dlist_def)
  with None \<open>as = []\<close> \<open>xs = []\<close> assms mem_ok_malloc [of h] show ?thesis
    by (auto simp: OS_AddEvent_List_def el_holds_def dlist_def malloc_def retain_def mem_ok_def
        less_Suc_eq intro!: exI [of _ "[brk h]"])
next
  case (Some b)
  let ?kp = "kept (\<lambda>a. lf_time (evs a)) (lf_time (evs lf)) max_freq 0 (rev (lf # xs))"
  have D: "dlist h (el_first l) (el_last l) as" using assms(1) by (simp add: el_holds_def)
  obtain a h1 where m: "malloc h \<lparr>nxt = el_first l, prv = None, dat = lf\<rparr> = (a, h1)" by force
  have "b \<in> set as" using dlist_first [OF D] Some by (auto split: if_splits)
  then obtain n where "cells h b = Some n" "b < brk h" using dlist_cell [OF D] by blast
  then obtain h2 where h2: "set_prev h1 (el_first l) (Some a) = Some h2"
    using Some m by (auto simp: mem_defs)
  have ne: "el_last l \<noteq> None" using dlist_last [OF D] dlist_first [OF D] Some by (auto split: if_splits)
  let ?l = "l\<lparr>el_first := Some a, memoryused := memoryused l + 1\<rparr>"
  have H: "el_holds h2 ?l (a # as) (lf # xs)"
    using dlist_prepend [OF D m, of h2] h2 Some ne assms(1) by (auto simp: el_holds_def)
  show ?thesis
  proof (cases "memoryused ?l > memorymaxsize ?l")
    case False
    then show ?thesis using m h2 Some H assms(1)
      by (auto simp: OS_AddEvent_List_def el_holds_def retain_def)
  next
    case True
    have "el_holds h2 ?l (a # as) (rev (rev (lf # xs)))" using H by simp
    from drop_loop_spec [OF this, of "\<lambda>a. lf_time (evs a)" "lf_time (evs lf)" max_freq 0 "[]"]
    obtain h3 l3 as3 where d: "drop_loop (\<lambda>a. lf_time (evs a)) (lf_time (evs lf)) max_freq 0 [] h2 ?l =
        Some (rev (take (length (lf # xs) - length ?kp) (rev (lf # xs))), h3, l3)"
      "el_holds h3 l3 as3 (rev ?kp)" "memorymaxsize l3 = memorymaxsize l" by auto
    have k: "?kp = drop (length (lf # xs) - length ?kp) (rev (lf # xs))"
      using kept_drop [of _ _ _ 0 "rev (lf # xs)"] by (simp only: length_rev)
    then have part: "rev ?kp @ rev (take (length (lf # xs) - length ?kp) (rev (lf # xs))) = lf # xs"
      by (metis append_take_drop_id rev_append rev_rev_ident)
    have stay: "rev (dropWhile (\<lambda>y. lf_time (evs lf) - lf_time (evs y) > max_freq)
        (drop 10 (rev (lf # xs)))) = rev ?kp" by (simp add: kept_def)
    have "OS_AddEvent_List max_freq lf evs h l =
        Some (rev (take (length (lf # xs) - length ?kp) (rev (lf # xs))), retain evs lf, h3, l3)"
      using m h2 Some True d(1) by (simp add: OS_AddEvent_List_def)
    then show ?thesis using d(2,3) part True assms(1) unfolding Let_def stay
      by (intro exI [of _ h3] exI [of _ l3] exI [of _ as3] exI conjI)
        (auto simp: retain_def el_holds_def)
  qed
qed

text \<open>
  C34. \<open>OS_AddEvent_List\<close> never follows a dangling pointer and puts the event in front. When that
  makes the list longer than its maximum, the ten oldest events are dropped, and from the next on
  all up to the first that is at most \<open>_max_freq\<close> seconds older than the new event; the dropped
  ones are released, the others kept in order, and the count stays exact.
\<close>

theorem OS_AddEvent_List_trims:
  assumes "el_holds h l as xs" "1 \<le> memorymaxsize l" "event_trim max_freq (memorymaxsize l) evs lf xs = (stay, gone)"
  shows "\<exists>h' l' as' evs'. OS_AddEvent_List max_freq lf evs h l = Some (gone, evs', h', l') \<and>
    evs' = retain evs lf \<and> el_holds h' l' as' stay \<and> memorymaxsize l' = memorymaxsize l \<and>
    stay @ gone = lf # xs \<and>
    (int (length xs) < memorymaxsize l \<longrightarrow> gone = []) \<and> (gone \<noteq> [] \<longrightarrow> 10 \<le> length gone \<or> stay = [])"
proof -
  note P = event_trim_parts [OF assms(3)]
  from add_event_trims [OF assms(1,2), of max_freq lf evs] obtain h' l' as' victims evs' where
    A: "OS_AddEvent_List max_freq lf evs h l = Some (victims, evs', h', l')" "evs' = retain evs lf"
      "memorymaxsize l' = memorymaxsize l" "el_holds h' l' as' stay" "stay @ victims = lf # xs"
    using assms(3) by (auto simp: event_trim_def Let_def)
  then have "victims = gone" using P by (metis same_append_eq)
  moreover have "int (length xs) < memorymaxsize l \<longrightarrow> gone = []"
    using assms(3) by (auto simp: event_trim_def Let_def)
  moreover have "10 \<le> length gone \<or> stay = []" if "gone \<noteq> []"
  proof -
    have "length (dropWhile Q (drop 10 (rev (lf # xs)))) \<le> length xs + 1 - 10" for Q
      using length_dropWhile_le [of Q "drop 10 (rev (lf # xs))"] by simp
    moreover have "stay = rev (dropWhile (\<lambda>y. lf_time (evs lf) - lf_time (evs y) > max_freq) (drop 10 (rev (lf # xs))))"
      using that assms(3) by (simp add: event_trim_def Let_def split: if_splits)
    ultimately have "length stay \<le> length xs + 1 - 10" by (simp only: length_rev)
    moreover have "length stay + length gone = length xs + 1" using arg_cong [OF P, of length] by simp
    ultimately have "0 < length stay \<longrightarrow> 10 \<le> length gone" by linarith
    then show ?thesis by auto
  qed
  ultimately show ?thesis using A P by blast
qed

subsection \<open>Witness\<close>

definition one_event_mem :: "nat mem" where
  "one_event_mem = \<lparr>cells = [0 \<mapsto> \<lparr>nxt = None, prv = None, dat = 5\<rparr>], brk = 1\<rparr>"

definition one_event_list :: EventList where
  "one_event_list = \<lparr>el_first = Some 0, el_last = Some 0, memoryused = 1, memorymaxsize = 20\<rparr>"

lemma one_event_holds: "el_holds one_event_mem one_event_list [0] [5]"
  by (simp add: el_holds_def dlist_def mem_ok_def vals_def one_event_mem_def one_event_list_def)

theorem OS_AddEvent_List_trims_witness:
  "\<exists>h' l' as' evs'. OS_AddEvent_List 8 6 (\<lambda>_. zero_event) one_event_mem one_event_list =
     Some ([], evs', h', l') \<and> el_holds h' l' as' [6, 5]"
proof -
  have l: "1 \<le> memorymaxsize one_event_list" by (simp add: one_event_list_def)
  have "event_trim 8 (memorymaxsize one_event_list) (\<lambda>_. zero_event) 6 [5] = ([6, 5], [])"
    by (simp add: event_trim_def one_event_list_def)
  from OS_AddEvent_List_trims [OF one_event_holds l this] show ?thesis by blast
qed

end
