(* ===== verification/Fts.thy ===== *)
theory Fts
  imports Analysis_Types Hash_Table List_Op Str_Utils
begin

text \<open>
  \<^verbatim>\<open>analysisd/fts.c\<close>: the memory of the engine. \<open>FTS\<close> tells whether an event is seen for the first
  time, \<open>IGnore\<close> whether it is to be ignored because \<open>AddtoIGnore\<close> put its like on the ignore list.
  Both keep their records three times: in a hash table for the lookup, in a bounded list that
  says which record is the oldest, and in a file that survives a restart and is rewritten when
  half of it is out of date. The hash table is the one of \<open>Hash_Table\<close>, the list is given by its
  contents (\<open>list_add\<close> of \<open>List_Op\<close>), a file is its bytes. The writer queue is left out: records are
  written at once, as the code does when there is no queue.
\<close>

section \<open>The model\<close>

definition OS_FLSIZE :: nat where
  "OS_FLSIZE = 256"

abbreviation "IDS \<equiv> (2 :: nat)"

record fts_state =
  fts_minsize_for_str :: nat
  fts_list :: "string list"
  fts_list_size :: int
  fts_store :: "string OSHash"
  fts_store_list :: "string list"
  fts_store_size :: int
  fts_file :: string
  fts_file_lines :: int
  ig_store :: "string OSHash"
  ig_list :: "string list"
  ig_list_size :: int
  ig_file :: string
  ig_file_lines :: int

text \<open>\<open>FTS_Free\<close> and \<open>IG_Free\<close>, on the records that the list dropped.\<close>

definition forget :: "string list \<Rightarrow> string OSHash \<Rightarrow> string OSHash" where
  "forget gone h = fold (\<lambda>k h. snd (OSHash_Delete h k)) gone h"

definition FTS_Add :: "string \<Rightarrow> fts_state \<Rightarrow> bool \<times> fts_state" where
  "FTS_Add line st =
     (let (result, h) = OSHash_Add (fts_store st) line (Some line) in
      if result \<le> 1 then (False, st)
      else let (gone, l) = list_add (fts_store_size st) (fts_store_list st) line
           in (True, st\<lparr>fts_store := forget gone h, fts_store_list := l\<rparr>))"

text \<open>The lines as \<open>fprintf\<close> writes them.\<close>

definition print_lines :: "string list \<Rightarrow> string" where
  "print_lines ls = concat (map (\<lambda>l. l @ [NL]) ls)"

definition FTS_Compact :: "fts_state \<Rightarrow> fts_state" where
  "FTS_Compact st =
     (if fts_file_lines st < 2 * fts_store_size st then st
      else st\<lparr>fts_file := print_lines (fts_store_list st),
              fts_file_lines := int (length (fts_store_list st))\<rparr>)"

definition FTS_Fprintf :: "string \<Rightarrow> fts_state \<Rightarrow> fts_state" where
  "FTS_Fprintf line st =
     FTS_Compact (st\<lparr>fts_file := fts_file st @ line @ [NL], fts_file_lines := fts_file_lines st + 1\<rparr>)"

definition IG_Add :: "string \<Rightarrow> fts_state \<Rightarrow> bool \<times> fts_state" where
  "IG_Add line st =
     (let (result, h) = OSHash_Add (ig_store st) line (Some line) in
      if result \<le> 1 then (False, st)
      else let (gone, l) = list_add (ig_list_size st) (ig_list st) line
           in (True, st\<lparr>ig_store := forget gone h, ig_list := l\<rparr>))"

definition IG_Compact :: "fts_state \<Rightarrow> fts_state" where
  "IG_Compact st =
     (if ig_file_lines st < 2 * ig_list_size st then st
      else st\<lparr>ig_file := print_lines (ig_list st), ig_file_lines := int (length (ig_list st))\<rparr>)"

subsection \<open>Start\<close>

text \<open>The first loop of \<open>FTS_Init\<close>: a line longer than one read becomes several records.\<close>

function fts_load :: "string \<Rightarrow> fts_state \<Rightarrow> fts_state" where
  "fts_load file st =
     (if file = [] then st
      else
        let (line, rest) = fgets (OS_FLSIZE - 1) file; line = takeWhile (\<lambda>c. c \<noteq> NL) line in
        if line = [] then fts_load rest st
        else fts_load rest (snd (FTS_Add line (st\<lparr>fts_file_lines := fts_file_lines st + 1\<rparr>))))"
  by pat_completeness auto

termination fts_load
proof (relation "measure (\<lambda>(file, _). length file)", goal_cases)
  case (2 q st x line rest la)
  then show ?case using fgets_less [of line rest "OS_FLSIZE - 1" q] by (simp add: OS_FLSIZE_def)
next
  case (3 q st x line rest la)
  then show ?case using fgets_less [of line rest "OS_FLSIZE - 1" q] by (simp add: OS_FLSIZE_def)
qed simp

declare fts_load.simps [simp del]

text \<open>The second loop: the rest of a line that is too long is thrown away.\<close>

function ig_load :: "string \<Rightarrow> fts_state \<Rightarrow> fts_state" where
  "ig_load file st =
     (if file = [] then st
      else
        let (line, rest) = fgets (OS_FLSIZE - 1) file;
            rest = (if NL \<in> set line then rest else drop 1 (dropWhile (\<lambda>c. c \<noteq> NL) rest));
            line = takeWhile (\<lambda>c. c \<noteq> NL) line;
            st1 = st\<lparr>ig_file_lines := ig_file_lines st + 1\<rparr>
        in ig_load rest (if line \<noteq> [] then snd (IG_Add line st1) else st1))"
  by pat_completeness auto

termination ig_load
proof (relation "measure (\<lambda>(file, _). length file)", goal_cases)
  case (2 q st x line rest ra la st1)
  have "length (drop 1 (dropWhile (\<lambda>c. c \<noteq> NL) rest)) \<le> length rest"
    using length_dropWhile_le [of "\<lambda>c. c \<noteq> NL" rest] by simp
  with 2 show ?case using fgets_less [of line rest "OS_FLSIZE - 1" q]
    by (simp add: OS_FLSIZE_def split: if_splits)
qed simp

declare ig_load.simps [simp del]

text \<open>
  \<open>FTS_Init\<close>, for the values of the five options and the contents of the two files; the source gives
  up when a list or a table cannot be made (no entropy, a size that is refused).
\<close>

definition FTS_Init :: "(nat \<Rightarrow> (nat \<times> nat) option) \<Rightarrow> nat \<Rightarrow> int \<Rightarrow> int \<Rightarrow> int \<Rightarrow> string \<Rightarrow> string
    \<Rightarrow> fts_state option" where
  "FTS_Init secrets minsize list_size store_size igsize fts_queue ig_queue =
     (case (OSHash_Create (secrets 0), OSHash_Create (secrets 1)) of
        (Some h, Some g) \<Rightarrow>
          let (c, h1) = OSHash_setSize (secrets 2) h 2048; (d, g1) = OSHash_setSize (secrets 3) g 2048 in
          if c = 0 \<or> d = 0 \<or> list_size \<le> 1 \<or> store_size \<le> 1 \<or> igsize \<le> 1 then None
          else
            let st = \<lparr>fts_minsize_for_str = minsize, fts_list = [], fts_list_size = list_size,
                      fts_store = h1, fts_store_list = [], fts_store_size = store_size,
                      fts_file = fts_queue, fts_file_lines = 0,
                      ig_store = g1, ig_list = [], ig_list_size = igsize,
                      ig_file = ig_queue, ig_file_lines = 0\<rparr>
            in Some (IG_Compact (ig_load ig_queue (FTS_Compact (fts_load fts_queue st))))
      | _ \<Rightarrow> None)"

subsection \<open>The ignore list\<close>

text \<open>One field of a key: its value when the mask asks for it.\<close>

definition masked :: "nat \<Rightarrow> nat \<Rightarrow> string option \<Rightarrow> string" where
  "masked m f v = (case v of None \<Rightarrow> [] | Some s \<Rightarrow> if int_bit m f then s else [])"

definition location_part :: "nat \<Rightarrow> Eventinfo \<Rightarrow> string" where
  "location_part m lf =
     (if int_bit m FTS_LOCATION
      then (case lf_location lf of None \<Rightarrow> ''(null)'' | Some s \<Rightarrow> s) else [])"

definition key_line :: "string list \<Rightarrow> string" where
  "key_line parts = take (OS_FLSIZE - 1) (join_with (CHR '' '') parts)"

definition add_key :: "('m, 'l) RuleInfo \<Rightarrow> Eventinfo \<Rightarrow> string" where
  "add_key rule lf =
     (let m = r_ignore rule in
      key_line [masked m FTS_NAME (di_name (lf_decoder_info lf)), masked m FTS_ID (lf_id lf),
                masked m FTS_DSTUSER (lf_dstuser lf), masked m FTS_SRCIP (lf_srcip lf),
                masked m FTS_DSTIP (lf_dstip lf), masked m FTS_DATA (lf_data lf),
                masked m FTS_SYSTEMNAME (lf_systemname lf), location_part m lf])"

text \<open>The key of the check: two of its fields go by \<open>ignore\<close>, the others by \<open>ckignore\<close>.\<close>

definition check_key :: "('m, 'l) RuleInfo \<Rightarrow> Eventinfo \<Rightarrow> string" where
  "check_key rule lf =
     (let m = r_ckignore rule in
      key_line [masked m FTS_NAME (di_name (lf_decoder_info lf)), masked m FTS_ID (lf_id lf),
                masked m FTS_DSTUSER (lf_dstuser lf), masked m FTS_SRCIP (lf_srcip lf),
                masked m FTS_DSTIP (lf_dstip lf), masked (r_ignore rule) FTS_DATA (lf_data lf),
                masked (r_ignore rule) FTS_SYSTEMNAME (lf_systemname lf), location_part m lf])"

definition AddtoIGnore :: "('m, 'l) RuleInfo \<Rightarrow> Eventinfo \<Rightarrow> fts_state \<Rightarrow> fts_state" where
  "AddtoIGnore rule lf st =
     (let line = add_key rule lf; (new, st1) = IG_Add line st in
      if new then IG_Compact (st1\<lparr>ig_file := ig_file st1 @ line @ [NL],
                                  ig_file_lines := ig_file_lines st1 + 1\<rparr>)
      else st1)"

definition IGnore :: "('m, 'l) RuleInfo \<Rightarrow> Eventinfo \<Rightarrow> fts_state \<Rightarrow> bool" where
  "IGnore rule lf st \<longleftrightarrow> OSHash_Get (ig_store st) (check_key rule lf) \<noteq> None"

subsection \<open>First time seen\<close>

definition fts_key :: "Eventinfo \<Rightarrow> string" where
  "fts_key lf =
     (let di = lf_decoder_info lf; m = di_fts di in
      key_line [case di_name di of None \<Rightarrow> ''(null)'' | Some n \<Rightarrow> n, masked m FTS_ID (lf_id lf),
                masked m FTS_DSTUSER (lf_dstuser lf), masked m FTS_SRCUSER (lf_srcuser lf),
                masked m FTS_SRCIP (lf_srcip lf), masked m FTS_DSTIP (lf_dstip lf),
                masked m FTS_DATA (lf_data lf), masked m FTS_SYSTEMNAME (lf_systemname lf),
                location_part m lf])"

text \<open>
  The loop over the latest records, from the last one on: are there three that agree with the line
  in more than the minimum? (\<open>OS_StrHowClosedMatch\<close> fails on two empty strings only; the line is
  not empty.)
\<close>

fun similar_loop :: "nat \<Rightarrow> string \<Rightarrow> nat \<Rightarrow> string list \<Rightarrow> bool" where
  "similar_loop minsize line n [] = False"
| "similar_loop minsize line n (d # ds) =
     (let close = (case OS_StrHowClosedMatch (Some d) (Some line) of Inl _ \<Rightarrow> 0 | Inr k \<Rightarrow> k) in
      if close > minsize then (if n + 1 > 2 then True else similar_loop minsize line (n + 1) ds)
      else similar_loop minsize line n ds)"

definition FTS :: "Eventinfo \<Rightarrow> fts_state \<Rightarrow> bool \<times> fts_state" where
  "FTS lf st =
     (let line = fts_key lf in
      if OSHash_Get (fts_store st) line \<noteq> None then (False, st)
      else
        let (line, st1) =
          (if di_type (lf_decoder_info lf) = IDS then
             let line1 = (if similar_loop (fts_minsize_for_str st) line 0 (rev (fts_list st))
                          then take (fts_minsize_for_str st) line else line)
             in (line1, st\<lparr>fts_list := snd (list_add (fts_list_size st) (fts_list st) line1)\<rparr>)
           else (line, st));
            (new, st2) = FTS_Add line st1
        in if new then (True, FTS_Fprintf line st2) else (False, st2))"

section \<open>A bounded memory of records\<close>

text \<open>
  What the table and the list together stand for: the last records, oldest first, each once.
\<close>

definition memory_ok :: "int \<Rightarrow> string OSHash \<Rightarrow> string list \<Rightarrow> bool" where
  "memory_ok m h l \<longleftrightarrow> hash_ok h \<and> distinct l \<and> (\<forall>k\<in>set l. c_string k) \<and> 1 < m \<and> int (length l) \<le> m \<and>
     (\<forall>k. hash_map h k = (if k \<in> set l then Some (Some k) else None))"

definition remember :: "int \<Rightarrow> string \<Rightarrow> string list \<Rightarrow> string list" where
  "remember m k l = (if k \<in> set l then l else snd (list_add m l k))"

definition replay :: "int \<Rightarrow> string list \<Rightarrow> string list" where
  "replay m ls = fold (remember m) ls []"

lemma memory_get:
  "memory_ok m h l \<Longrightarrow> c_string k \<Longrightarrow> OSHash_Get h k = (if k \<in> set l then Some k else None)"
  by (simp add: memory_ok_def os_hash.get_lookup)

lemma forget_ok:
  "hash_ok h \<Longrightarrow> \<forall>k\<in>set gone. c_string k \<Longrightarrow>
   hash_ok (forget gone h) \<and> (\<forall>k. hash_map (forget gone h) k = (if k \<in> set gone then None else hash_map h k))"
proof (induction gone arbitrary: h)
  case (Cons g gs)
  obtain d h1 where d: "OSHash_Delete h g = (d, h1)" by force
  from os_hash.delete_unbinds [OF Cons.prems(1) _ d] Cons.prems(2)
  have "hash_ok h1" "\<forall>j. hash_map h1 j = (if j = g then None else hash_map h j)" by auto
  with Cons.IH [of h1] Cons.prems(2) d show ?case by (auto simp: forget_def)
qed (simp add: forget_def)

lemma list_add_distinct:
  assumes "distinct l" "k \<notin> set l"
  shows "distinct (snd (list_add m l k)) \<and> set (snd (list_add m l k)) = insert k (set l) - set (fst (list_add m l k))"
proof -
  have d: "distinct (fst (list_add m l k) @ snd (list_add m l k))" using assms by (simp add: list_add_split)
  then show ?thesis using list_add_set [of m l k] by auto
qed

lemma memory_add:
  assumes M: "memory_ok m h l" and k: "c_string k" and a: "OSHash_Add h k (Some k) = (c, h')"
  shows "if k \<in> set l then c = 1 \<and> h' = h
    else c = 2 \<and> memory_ok m (forget (fst (list_add m l k)) h') (snd (list_add m l k))"
proof (cases "k \<in> set l")
  case True
  then have "hash_map h k \<noteq> None" using M by (simp add: memory_ok_def)
  with os_hash.add_bound [of h k "Some k"] M k a True show ?thesis by (simp add: memory_ok_def)
next
  case False
  then have "hash_map h k = None" using M by (simp add: memory_ok_def)
  from os_hash.add_fresh [OF _ k this a] M
  have A: "c = 2" "hash_ok h'" "\<forall>j. hash_map h' j = (if j = k then Some (Some k) else hash_map h j)"
    by (simp_all add: memory_ok_def)
  let ?g = "fst (list_add m l k)" and ?l = "snd (list_add m l k)"
  have cs: "\<forall>j\<in>set ?g. c_string j" "\<forall>j\<in>set ?l. c_string j"
    using list_add_set [of m l k] M k by (auto simp: memory_ok_def)
  note F = forget_ok [OF A(2) cs(1)]
  have D: "distinct ?l" "set ?l = insert k (set l) - set ?g"
    using list_add_distinct [of l k m] M False by (simp_all add: memory_ok_def)
  have "hash_map (forget ?g h') j = (if j \<in> set ?l then Some (Some j) else None)" for j
    using conjunct2 [OF F, rule_format, of j] A(3) M D(2) by (auto simp: memory_ok_def)
  moreover have "int (length ?l) \<le> m" using M by (intro list_add_length) (auto simp: memory_ok_def)
  ultimately show ?thesis using False A(1) F D(1) cs(2) M by (simp add: memory_ok_def)
qed

text \<open>Reading back what is in memory gives it again.\<close>

lemma fold_remember_grow:
  "distinct (xs @ ls) \<Longrightarrow> int (length (xs @ ls)) \<le> m \<Longrightarrow> fold (remember m) ls xs = xs @ ls"
proof (induction ls arbitrary: xs)
  case (Cons k ls)
  then have "remember m k xs = xs @ [k]" by (auto simp: remember_def list_add_def)
  with Cons show ?case by simp
qed simp

lemma replay_memory: "memory_ok m h l \<Longrightarrow> replay m l = l"
  using fold_remember_grow [of "[]" l m] by (simp add: replay_def memory_ok_def)

lemma replay_snoc: "replay m (ls @ [k]) = remember m k (replay m ls)"
  by (simp add: replay_def)

text \<open>A record that a line of the file can hold.\<close>

definition line_ok :: "string \<Rightarrow> bool" where
  "line_ok k \<longleftrightarrow> k \<noteq> [] \<and> NL \<notin> set k \<and> c_string k \<and> length k \<le> OS_FLSIZE - 1"

lemma print_lines_simps [simp]:
  "print_lines [] = []" "print_lines (k # ls) = k @ NL # print_lines ls"
  "print_lines (ls @ ms) = print_lines ls @ print_lines ms"
  by (simp_all add: print_lines_def)

section \<open>Memory and file\<close>

text \<open>The lines of the file lead to the memory.\<close>

definition persisted :: "int \<Rightarrow> string \<Rightarrow> string list \<Rightarrow> bool" where
  "persisted m f l \<longleftrightarrow> (\<exists>ls. (\<forall>k\<in>set ls. line_ok k) \<and> f = print_lines ls \<and> replay m ls = l)"

text \<open>
  The contract of a memory with its file, which the first-time-seen records and the ignore list
  share: \<open>add\<close> is the step of \<open>FTS_Add\<close>; \<open>put\<close> appends a line or writes the memory anew; \<open>reload\<close> adds
  the lines of a file in order.
\<close>

locale bounded_memory =
  fixes store :: "'s \<Rightarrow> string OSHash"
    and recs :: "'s \<Rightarrow> string list"
    and cap :: "'s \<Rightarrow> int"
    and add :: "string \<Rightarrow> 's \<Rightarrow> bool \<times> 's"
  assumes add_step: "add k s = (new, s') \<Longrightarrow> OSHash_Add (store s) k (Some k) = (c, h) \<Longrightarrow>
    if c \<le> 1 then \<not> new \<and> s' = s
    else new \<and> store s' = forget (fst (list_add (cap s) (recs s) k)) h \<and>
      recs s' = snd (list_add (cap s) (recs s) k) \<and> cap s' = cap s"
begin

lemma add_ok:
  assumes "memory_ok (cap s) (store s) (recs s)" "c_string k" "add k s = (new, s')"
  shows "new = (k \<notin> set (recs s)) \<and> recs s' = remember (cap s) k (recs s) \<and> cap s' = cap s \<and>
    memory_ok (cap s') (store s') (recs s')"
proof -
  obtain c h where a: "OSHash_Add (store s) k (Some k) = (c, h)" by force
  from add_step [OF assms(3) a] memory_add [OF assms(1,2) a] assms(1) show ?thesis
    by (auto simp: remember_def split: if_splits)
qed

end

locale record_file = bounded_memory store recs cap add
  for store :: "'s \<Rightarrow> string OSHash" and recs :: "'s \<Rightarrow> string list" and cap :: "'s \<Rightarrow> int"
    and add :: "string \<Rightarrow> 's \<Rightarrow> bool \<times> 's" +
  fixes content :: "'s \<Rightarrow> string"
    and put :: "string \<Rightarrow> 's \<Rightarrow> 's"
    and reload :: "string \<Rightarrow> 's \<Rightarrow> 's"
  assumes add_file: "content (snd (add k s)) = content s"
    and put_keeps: "store (put k s) = store s \<and> recs (put k s) = recs s \<and> cap (put k s) = cap s"
    and put_file: "content (put k s) = print_lines (recs s) \<or> content (put k s) = content s @ k @ [NL]"
    and reload_nil: "reload [] s = s"
    and reload_line: "line_ok k \<Longrightarrow> \<exists>s1. reload (k @ NL # r) s = reload r (snd (add k s1)) \<and>
      store s1 = store s \<and> recs s1 = recs s \<and> cap s1 = cap s"
begin

lemma reload_replay:
  "memory_ok (cap s) (store s) (recs s) \<Longrightarrow> \<forall>k\<in>set ls. line_ok k \<Longrightarrow>
   recs (reload (print_lines ls) s) = fold (remember (cap s)) ls (recs s) \<and>
   cap (reload (print_lines ls) s) = cap s \<and>
   memory_ok (cap s) (store (reload (print_lines ls) s)) (recs (reload (print_lines ls) s))"
proof (induction ls arbitrary: s)
  case (Cons k ls)
  obtain s1 where s1: "reload (k @ NL # print_lines ls) s = reload (print_lines ls) (snd (add k s1))"
    "store s1 = store s" "recs s1 = recs s" "cap s1 = cap s" using reload_line Cons.prems(2) by (meson list.set_intros(1))
  obtain new s2 where a: "add k s1 = (new, s2)" by force
  have "c_string k" using Cons.prems(2) by (simp add: line_ok_def)
  from add_ok [OF _ this a] Cons.prems(1) s1
  have A: "recs s2 = remember (cap s) k (recs s)" "cap s2 = cap s" "memory_ok (cap s2) (store s2) (recs s2)"
    by auto
  from Cons.IH [OF A(3)] Cons.prems(2) s1 a A show ?case by auto
qed (simp add: reload_nil)

lemma add_put_persisted:
  assumes M: "memory_ok (cap s) (store s) (recs s)" "\<forall>k\<in>set (recs s). line_ok k" and P: "persisted (cap s) (content s) (recs s)"
    and k: "line_ok k" and a: "add k s = (True, s1)"
    and s2: "store s2 = store s1" "recs s2 = recs s1" "cap s2 = cap s1" "content s2 = content s1"
  shows "persisted (cap (put k s2)) (content (put k s2)) (recs (put k s2))"
proof -
  have "c_string k" using k by (simp add: line_ok_def)
  note A = add_ok [OF M(1) this a]
  have c: "content s2 = content s" using add_file [of k s] a s2 by simp
  have rec: "recs (put k s2) = recs s1" "cap (put k s2) = cap s"
    using put_keeps [of k s2] s2 A by simp_all
  show ?thesis using put_file [of k s2]
  proof
    assume w: "content (put k s2) = print_lines (recs s2)"
    have "\<forall>j\<in>set (recs s1). line_ok j"
      using A M(2) k list_add_set [of "cap s" "recs s" k] by (auto simp: remember_def)
    moreover have "replay (cap s) (recs s1) = recs s1" using A replay_memory by metis
    ultimately show ?thesis unfolding persisted_def rec using w s2 by auto
  next
    assume w: "content (put k s2) = content s2 @ k @ [NL]"
    from P obtain ls where ls: "\<forall>k\<in>set ls. line_ok k" "content s = print_lines ls" "replay (cap s) ls = recs s"
      by (auto simp: persisted_def)
    have "content (put k s2) = print_lines (ls @ [k])" using w c ls by simp
    moreover have "replay (cap s) (ls @ [k]) = recs s1" using ls A by (simp add: replay_snoc)
    ultimately show ?thesis unfolding persisted_def rec using ls(1) k by (intro exI [of _ "ls @ [k]"]) auto
  qed
qed

end

section \<open>The two memories meet the contract\<close>

lemma FTS_Add_step:
  "FTS_Add k st = (new, st') \<Longrightarrow> OSHash_Add (fts_store st) k (Some k) = (c, h) \<Longrightarrow>
   if c \<le> 1 then \<not> new \<and> st' = st
   else new \<and> fts_store st' = forget (fst (list_add (fts_store_size st) (fts_store_list st) k)) h \<and>
     fts_store_list st' = snd (list_add (fts_store_size st) (fts_store_list st) k) \<and>
     fts_store_size st' = fts_store_size st"
  by (auto simp: FTS_Add_def split: if_splits prod.splits)

lemma IG_Add_step:
  "IG_Add k st = (new, st') \<Longrightarrow> OSHash_Add (ig_store st) k (Some k) = (c, h) \<Longrightarrow>
   if c \<le> 1 then \<not> new \<and> st' = st
   else new \<and> ig_store st' = forget (fst (list_add (ig_list_size st) (ig_list st) k)) h \<and>
     ig_list st' = snd (list_add (ig_list_size st) (ig_list st) k) \<and> ig_list_size st' = ig_list_size st"
  by (auto simp: IG_Add_def split: if_splits prod.splits)

lemma FTS_Add_keeps [simp]:
  "fts_file (snd (FTS_Add k st)) = fts_file st" "fts_list_size (snd (FTS_Add k st)) = fts_list_size st"
  "fts_minsize_for_str (snd (FTS_Add k st)) = fts_minsize_for_str st"
  "ig_store (snd (FTS_Add k st)) = ig_store st" "ig_list (snd (FTS_Add k st)) = ig_list st"
  "ig_list_size (snd (FTS_Add k st)) = ig_list_size st" "ig_file (snd (FTS_Add k st)) = ig_file st"
  by (auto simp: FTS_Add_def Let_def split: prod.splits)

lemma IG_Add_keeps [simp]:
  "ig_file (snd (IG_Add k st)) = ig_file st" "fts_file (snd (IG_Add k st)) = fts_file st"
  "fts_minsize_for_str (snd (IG_Add k st)) = fts_minsize_for_str st"
  "fts_store (snd (IG_Add k st)) = fts_store st" "fts_store_list (snd (IG_Add k st)) = fts_store_list st"
  "fts_store_size (snd (IG_Add k st)) = fts_store_size st"
  by (auto simp: IG_Add_def Let_def split: prod.splits)

lemma FTS_Fprintf_keeps [simp]:
  "fts_store (FTS_Fprintf k st) = fts_store st" "fts_store_list (FTS_Fprintf k st) = fts_store_list st"
  "fts_store_size (FTS_Fprintf k st) = fts_store_size st" "ig_store (FTS_Fprintf k st) = ig_store st"
  "fts_minsize_for_str (FTS_Fprintf k st) = fts_minsize_for_str st" "ig_list (FTS_Fprintf k st) = ig_list st"
  "ig_list_size (FTS_Fprintf k st) = ig_list_size st" "ig_file (FTS_Fprintf k st) = ig_file st"
  by (simp_all add: FTS_Fprintf_def FTS_Compact_def)

text \<open>The step of \<open>AddtoIGnore\<close> after a new record.\<close>

definition ig_put :: "string \<Rightarrow> fts_state \<Rightarrow> fts_state" where
  "ig_put k st = IG_Compact (st\<lparr>ig_file := ig_file st @ k @ [NL], ig_file_lines := ig_file_lines st + 1\<rparr>)"

lemma ig_put_keeps [simp]:
  "ig_store (ig_put k st) = ig_store st" "ig_list (ig_put k st) = ig_list st"
  "ig_list_size (ig_put k st) = ig_list_size st" "fts_store (ig_put k st) = fts_store st"
  "fts_store_list (ig_put k st) = fts_store_list st" "fts_store_size (ig_put k st) = fts_store_size st"
  "fts_minsize_for_str (ig_put k st) = fts_minsize_for_str st" "fts_file (ig_put k st) = fts_file st"
  by (simp_all add: ig_put_def IG_Compact_def)

lemma takeWhile_line: "NL \<notin> set k \<Longrightarrow> takeWhile (\<lambda>c. c \<noteq> NL) (k @ NL # r) = k"
  by (induction k) auto

lemma fgets_line:
  assumes "line_ok k"
  shows "fgets (OS_FLSIZE - 1) (k @ NL # r) =
    (if length k < OS_FLSIZE - 1 then (k @ [NL], r) else (k, NL # r))"
proof (cases "length k < OS_FLSIZE - 1")
  case False
  then have "length k = OS_FLSIZE - 1" using assms by (simp add: line_ok_def)
  with fgets_exact [of k "NL # r"] assms False show ?thesis by (simp add: line_ok_def)
qed (use assms fgets_short in \<open>auto simp: line_ok_def\<close>)

lemma fts_load_newline: "fts_load (NL # r) st = fts_load r st"
  by (subst fts_load.simps) (simp add: OS_FLSIZE_def numeral_eq_Suc)

lemma fts_load_line:
  assumes "line_ok k"
  shows "fts_load (k @ NL # r) st =
    fts_load r (snd (FTS_Add k (st\<lparr>fts_file_lines := fts_file_lines st + 1\<rparr>)))"
proof -
  have k: "k \<noteq> []" "takeWhile (\<lambda>c. c \<noteq> NL) (k @ [NL]) = k" "takeWhile (\<lambda>c. c \<noteq> NL) k = k"
    using assms takeWhile_line [of k "[]"] by (auto simp: line_ok_def takeWhile_eq_all_conv)
  show ?thesis
    by (subst fts_load.simps, subst fgets_line [OF assms]) (simp add: k fts_load_newline Let_def)
qed

lemma ig_load_line:
  assumes "line_ok k"
  shows "ig_load (k @ NL # r) st = ig_load r (snd (IG_Add k (st\<lparr>ig_file_lines := ig_file_lines st + 1\<rparr>)))"
proof -
  have k: "k \<noteq> []" "NL \<notin> set k" "takeWhile (\<lambda>c. c \<noteq> NL) (k @ [NL]) = k" "takeWhile (\<lambda>c. c \<noteq> NL) k = k"
    using assms takeWhile_line [of k "[]"] by (auto simp: line_ok_def takeWhile_eq_all_conv)
  show ?thesis
    by (subst ig_load.simps, subst fgets_line [OF assms]) (simp add: k Let_def)
qed

interpretation fts_mem: record_file fts_store fts_store_list fts_store_size FTS_Add fts_file FTS_Fprintf fts_load
proof unfold_locales
  show "fts_file (FTS_Fprintf k s) = print_lines (fts_store_list s) \<or>
    fts_file (FTS_Fprintf k s) = fts_file s @ k @ [NL]" for k s
    by (simp add: FTS_Fprintf_def FTS_Compact_def)
  show "line_ok k \<Longrightarrow> \<exists>s1. fts_load (k @ NL # r) s = fts_load r (snd (FTS_Add k s1)) \<and>
      fts_store s1 = fts_store s \<and> fts_store_list s1 = fts_store_list s \<and> fts_store_size s1 = fts_store_size s"
    for k r s
    by (intro exI [of _ "s\<lparr>fts_file_lines := fts_file_lines s + 1\<rparr>"]) (simp add: fts_load_line)
  show "fts_load [] s = s" for s by (simp add: fts_load.simps)
qed (rule FTS_Add_step FTS_Add_keeps | simp)+

interpretation ig_mem: record_file ig_store ig_list ig_list_size IG_Add ig_file ig_put ig_load
proof unfold_locales
  show "ig_file (ig_put k s) = print_lines (ig_list s) \<or> ig_file (ig_put k s) = ig_file s @ k @ [NL]" for k s
    by (simp add: ig_put_def IG_Compact_def)
  show "line_ok k \<Longrightarrow> \<exists>s1. ig_load (k @ NL # r) s = ig_load r (snd (IG_Add k s1)) \<and>
      ig_store s1 = ig_store s \<and> ig_list s1 = ig_list s \<and> ig_list_size s1 = ig_list_size s" for k r s
    by (intro exI [of _ "s\<lparr>ig_file_lines := ig_file_lines s + 1\<rparr>"]) (simp add: ig_load_line)
  show "ig_load [] s = s" for s by (simp add: ig_load.simps)
qed (rule IG_Add_step IG_Add_keeps | simp)+

section \<open>Keys\<close>

definition clean :: "string option \<Rightarrow> bool" where
  "clean v = (case v of None \<Rightarrow> True | Some s \<Rightarrow> NL \<notin> set s \<and> c_string s)"

text \<open>The fields of one line of a log hold no newline.\<close>

definition clean_event :: "Eventinfo \<Rightarrow> bool" where
  "clean_event lf = list_all clean
     [di_name (lf_decoder_info lf), lf_id lf, lf_dstuser lf, lf_srcuser lf, lf_srcip lf, lf_dstip lf,
      lf_data lf, lf_systemname lf, lf_location lf]"

lemma clean_parts:
  "clean v \<Longrightarrow> NL \<notin> set (masked m f v) \<and> c_string (masked m f v)"
  "clean (lf_location lf) \<Longrightarrow> NL \<notin> set (location_part m lf) \<and> c_string (location_part m lf)"
  by (auto simp: clean_def masked_def location_part_def split: option.splits)

lemma set_join_with: "set (join_with d parts) \<subseteq> insert d (\<Union>p\<in>set parts. set p)"
  by (induction d parts rule: join_with.induct) auto

lemma key_line_ok:
  assumes "\<forall>p\<in>set (a # b # parts). NL \<notin> set p \<and> c_string p"
  shows "line_ok (key_line (a # b # parts))"
proof -
  let ?j = "join_with (CHR '' '') (a # b # parts)"
  have "NL \<notin> set ?j" "NUL \<notin> set ?j"
    using set_join_with [of "CHR '' ''" "a # b # parts"] assms by (auto simp: c_string_def)
  moreover have "?j \<noteq> []" by simp
  ultimately show ?thesis
    by (auto simp: line_ok_def key_line_def c_string_def OS_FLSIZE_def dest: in_set_takeD)
qed

lemma clean_name:
  "clean v \<Longrightarrow> NL \<notin> set (case v of None \<Rightarrow> ''(null)'' | Some n \<Rightarrow> n) \<and>
     c_string (case v of None \<Rightarrow> ''(null)'' | Some n \<Rightarrow> n)"
  by (cases v) (auto simp: clean_def)

lemma key_ok [simp]:
  assumes "clean_event lf"
  shows "line_ok (fts_key lf)" "line_ok (add_key rule lf)" "line_ok (check_key rule lf)"
proof -
  have C: "clean (di_name (lf_decoder_info lf))" "clean (lf_id lf)" "clean (lf_dstuser lf)"
    "clean (lf_srcuser lf)" "clean (lf_srcip lf)" "clean (lf_dstip lf)" "clean (lf_data lf)"
    "clean (lf_systemname lf)" "clean (lf_location lf)"
    using assms by (simp_all add: clean_event_def)
  show "line_ok (fts_key lf)" unfolding fts_key_def Let_def
    by (rule key_line_ok) (simp only: list.set ball_simps clean_name clean_parts C, simp)
  show "line_ok (add_key rule lf)" unfolding add_key_def Let_def
    by (rule key_line_ok) (simp only: list.set ball_simps clean_parts C, simp)
  show "line_ok (check_key rule lf)" unfolding check_key_def Let_def
    by (rule key_line_ok) (simp only: list.set ball_simps clean_parts C, simp)
qed

lemma line_ok_take: "line_ok k \<Longrightarrow> 0 < n \<Longrightarrow> line_ok (take n k)"
  by (auto simp: line_ok_def dest: in_set_takeD)

lemma line_ok_c_string [simp]: "line_ok k \<Longrightarrow> c_string k"
  by (simp add: line_ok_def)

section \<open>The module\<close>

definition fts_ok :: "fts_state \<Rightarrow> bool" where
  "fts_ok st \<longleftrightarrow> 0 < fts_minsize_for_str st \<and>
     memory_ok (fts_store_size st) (fts_store st) (fts_store_list st) \<and>
     memory_ok (ig_list_size st) (ig_store st) (ig_list st) \<and>
     (\<forall>k\<in>set (fts_store_list st) \<union> set (ig_list st). line_ok k)"

definition on_disk :: "fts_state \<Rightarrow> bool" where
  "on_disk st \<longleftrightarrow> persisted (fts_store_size st) (fts_file st) (fts_store_list st) \<and>
     persisted (ig_list_size st) (ig_file st) (ig_list st)"

text \<open>The line that \<open>FTS\<close> records for an event.\<close>

definition fts_line :: "Eventinfo \<Rightarrow> fts_state \<Rightarrow> string" where
  "fts_line lf st =
     (if di_type (lf_decoder_info lf) = IDS \<and>
         similar_loop (fts_minsize_for_str st) (fts_key lf) 0 (rev (fts_list st))
      then take (fts_minsize_for_str st) (fts_key lf) else fts_key lf)"

lemma FTS_form:
  "\<exists>l. FTS lf st =
     (if OSHash_Get (fts_store st) (fts_key lf) \<noteq> None then (False, st)
      else let (new, st2) = FTS_Add (fts_line lf st) (st\<lparr>fts_list := l\<rparr>)
           in if new then (True, FTS_Fprintf (fts_line lf st) st2) else (False, st2))"
proof (cases "di_type (lf_decoder_info lf) = IDS")
  case True
  then show ?thesis
    by (intro exI [of _ "snd (list_add (fts_list_size st) (fts_list st) (fts_line lf st))"])
      (simp add: FTS_def fts_line_def Let_def split: prod.split)
next
  case False
  then show ?thesis
    by (intro exI [of _ "fts_list st"]) (simp add: FTS_def fts_line_def Let_def split: prod.split)
qed

lemma fts_line_ok: "fts_ok st \<Longrightarrow> clean_event lf \<Longrightarrow> line_ok (fts_line lf st)"
  by (simp add: fts_line_def fts_ok_def line_ok_take)

lemma remember_lines: "\<forall>j\<in>set l. line_ok j \<Longrightarrow> line_ok k \<Longrightarrow> \<forall>j\<in>set (remember m k l). line_ok j"
  using list_add_set [of m l k] by (auto simp: remember_def)

lemma FTS_step:
  assumes ok: "fts_ok st" and lf: "clean_event lf" and f: "FTS lf st = (new, st')"
  shows "fts_ok st' \<and>
    new = (fts_key lf \<notin> set (fts_store_list st) \<and> fts_line lf st \<notin> set (fts_store_list st)) \<and>
    fts_store_list st' = (if fts_key lf \<in> set (fts_store_list st) then fts_store_list st
      else remember (fts_store_size st) (fts_line lf st) (fts_store_list st)) \<and>
    fts_store_size st' = fts_store_size st \<and> (on_disk st \<longrightarrow> on_disk st')"
proof -
  from FTS_form obtain l where F: "FTS lf st =
     (if OSHash_Get (fts_store st) (fts_key lf) \<noteq> None then (False, st)
      else let (new, st2) = FTS_Add (fts_line lf st) (st\<lparr>fts_list := l\<rparr>)
           in if new then (True, FTS_Fprintf (fts_line lf st) st2) else (False, st2))" by blast
  have M: "memory_ok (fts_store_size st) (fts_store st) (fts_store_list st)" using ok by (simp add: fts_ok_def)
  have g: "OSHash_Get (fts_store st) (fts_key lf) \<noteq> None \<longleftrightarrow> fts_key lf \<in> set (fts_store_list st)"
    using memory_get [OF M, of "fts_key lf"] lf by simp
  show ?thesis
  proof (cases "fts_key lf \<in> set (fts_store_list st)")
    case True
    with F g f ok show ?thesis by simp
  next
    case False
    let ?st = "st\<lparr>fts_list := l\<rparr>" and ?k = "fts_line lf st"
    obtain n st2 where a: "FTS_Add ?k ?st = (n, st2)" by force
    note k = fts_line_ok [OF ok lf]
    from fts_mem.add_ok [of ?st ?k, OF _ _ a] M k
    have A: "n = (?k \<notin> set (fts_store_list st))" "fts_store_list st2 = remember (fts_store_size st) ?k (fts_store_list st)"
      "fts_store_size st2 = fts_store_size st" "memory_ok (fts_store_size st2) (fts_store st2) (fts_store_list st2)"
      by auto
    have K: "fts_minsize_for_str st2 = fts_minsize_for_str st" "ig_store st2 = ig_store st" "ig_list st2 = ig_list st"
      "ig_list_size st2 = ig_list_size st" "ig_file st2 = ig_file st" "fts_file st2 = fts_file st"
      using FTS_Add_keeps [of ?k ?st] a by simp_all
    have L: "\<forall>j\<in>set (fts_store_list st2). line_ok j"
      unfolding A(2) by (rule remember_lines [OF _ k]) (use ok in \<open>simp add: fts_ok_def\<close>)
    have r: "(new, st') = (if n then (True, FTS_Fprintf ?k st2) else (False, st2))"
      using F g False f a by simp
    have ok2: "fts_ok st2" using ok A K L by (auto simp: fts_ok_def)
    then have "fts_ok (FTS_Fprintf ?k st2)" by (simp add: fts_ok_def)
    moreover have "on_disk st'" if "on_disk st"
    proof (cases n)
      case True
      from that have P: "persisted (fts_store_size ?st) (fts_file ?st) (fts_store_list ?st)" by (simp add: on_disk_def)
      have "\<forall>j\<in>set (fts_store_list ?st). line_ok j" using ok by (simp add: fts_ok_def)
      from fts_mem.add_put_persisted [of ?st, OF _ this P k, of st2 st2] M a True
      have "persisted (fts_store_size st2) (fts_file (FTS_Fprintf ?k st2)) (fts_store_list st2)" by simp
      then show ?thesis using that r True K by (simp add: on_disk_def)
    next
      case False
      with A have "fts_store_list st2 = fts_store_list st" by (simp add: remember_def)
      then show ?thesis using that r False K A by (simp add: on_disk_def)
    qed
    ultimately show ?thesis using r A False ok2 by (auto split: if_splits)
  qed
qed

lemma AddtoIGnore_form:
  "AddtoIGnore rule lf st =
     (let (new, st1) = IG_Add (add_key rule lf) st in if new then ig_put (add_key rule lf) st1 else st1)"
  by (simp add: AddtoIGnore_def ig_put_def Let_def split: prod.split)

lemma AddtoIGnore_step:
  assumes ok: "fts_ok st" and lf: "clean_event lf"
  shows "fts_ok (AddtoIGnore rule lf st) \<and>
    ig_list (AddtoIGnore rule lf st) = remember (ig_list_size st) (add_key rule lf) (ig_list st) \<and>
    ig_list_size (AddtoIGnore rule lf st) = ig_list_size st \<and>
    (on_disk st \<longrightarrow> on_disk (AddtoIGnore rule lf st))"
proof -
  let ?k = "add_key rule lf"
  have M: "memory_ok (ig_list_size st) (ig_store st) (ig_list st)" and L: "\<forall>j\<in>set (ig_list st). line_ok j"
    using ok by (auto simp: fts_ok_def)
  obtain n st2 where a: "IG_Add ?k st = (n, st2)" by force
  have k: "line_ok ?k" using lf by simp
  from ig_mem.add_ok [OF M _ a] k
  have A: "n = (?k \<notin> set (ig_list st))" "ig_list st2 = remember (ig_list_size st) ?k (ig_list st)"
    "ig_list_size st2 = ig_list_size st" "memory_ok (ig_list_size st2) (ig_store st2) (ig_list st2)"
    by auto
  have K: "fts_minsize_for_str st2 = fts_minsize_for_str st" "fts_store st2 = fts_store st"
    "fts_store_list st2 = fts_store_list st" "fts_store_size st2 = fts_store_size st"
    "ig_file st2 = ig_file st" "fts_file st2 = fts_file st"
    using IG_Add_keeps [of ?k st] a by simp_all
  have L2: "\<forall>j\<in>set (ig_list st2). line_ok j"
    unfolding A(2) by (rule remember_lines [OF L k])
  have ok2: "fts_ok st2" using ok A K L2 by (auto simp: fts_ok_def)
  have r: "AddtoIGnore rule lf st = (if n then ig_put ?k st2 else st2)" using a by (simp add: AddtoIGnore_form)
  have "on_disk (AddtoIGnore rule lf st)" if "on_disk st"
  proof (cases n)
    case True
    from that have P: "persisted (ig_list_size st) (ig_file st) (ig_list st)" by (simp add: on_disk_def)
    from ig_mem.add_put_persisted [OF M L P k, of st2 st2] a True
    have "persisted (ig_list_size st2) (ig_file (ig_put ?k st2)) (ig_list st2)" by simp
    then show ?thesis using that r True K by (simp add: on_disk_def)
  next
    case False
    with A have "ig_list st2 = ig_list st" by (simp add: remember_def)
    then show ?thesis using that r False K A by (simp add: on_disk_def)
  qed
  then show ?thesis using r ok2 A by (auto simp: fts_ok_def)
qed

subsection \<open>Start and restart\<close>

lemma fresh_memory: "hash_ok h \<Longrightarrow> \<forall>k. hash_map h k = None \<Longrightarrow> 1 < m \<Longrightarrow> memory_ok m h []"
  by (simp add: memory_ok_def)

lemma OSHash_setSize_fresh:
  fixes h :: "'d OSHash"
  assumes "hash_ok h" "\<forall>k. hash_map h k = None" "OSHash_setSize secret h n = (c, h')" "c \<noteq> 0"
  shows "hash_ok h' \<and> (\<forall>k. hash_map h' k = None)"
proof (cases "n \<le> rows h")
  case True
  with assms show ?thesis by (simp add: OSHash_setSize_def)
next
  case False
  let ?h = "\<lparr>rows = os_getprime n, initial_seed = initial_seed h, hash_constant = hash_constant h,
    table = replicate (os_getprime n + 1) []\<rparr>"
  obtain ok and g :: "'d OSHash" where g: "os_genseed secret ?h = (ok, g)" by force
  have "OSHash_setSize secret h n = (if ok then (1, g) else (0, g))"
    using False g os_getprime_pos [of n]
    by (cases h) (simp add: OSHash_setSize_def Let_def del: replicate_Suc)
  with assms have "ok" "h' = g" by (auto split: if_splits)
  with g show ?thesis by (intro hash_ok_fresh [OF os_getprime_pos]) auto
qed

lemma FTS_Compact_keeps [simp]:
  "fts_store (FTS_Compact st) = fts_store st" "fts_store_list (FTS_Compact st) = fts_store_list st"
  "fts_store_size (FTS_Compact st) = fts_store_size st" "fts_minsize_for_str (FTS_Compact st) = fts_minsize_for_str st"
  "ig_store (FTS_Compact st) = ig_store st" "ig_list (FTS_Compact st) = ig_list st"
  "ig_list_size (FTS_Compact st) = ig_list_size st" "ig_file (FTS_Compact st) = ig_file st"
  by (simp_all add: FTS_Compact_def)

lemma IG_Compact_keeps [simp]:
  "fts_store (IG_Compact st) = fts_store st" "fts_store_list (IG_Compact st) = fts_store_list st"
  "fts_store_size (IG_Compact st) = fts_store_size st" "fts_minsize_for_str (IG_Compact st) = fts_minsize_for_str st"
  "ig_store (IG_Compact st) = ig_store st" "ig_list (IG_Compact st) = ig_list st"
  "ig_list_size (IG_Compact st) = ig_list_size st" "fts_file (IG_Compact st) = fts_file st"
  by (simp_all add: IG_Compact_def)

lemma compact_file:
  "fts_file (FTS_Compact st) = fts_file st \<or> fts_file (FTS_Compact st) = print_lines (fts_store_list st)"
  "ig_file (IG_Compact st) = ig_file st \<or> ig_file (IG_Compact st) = print_lines (ig_list st)"
  "fts_file (IG_Compact st) = fts_file st"
  by (simp_all add: FTS_Compact_def IG_Compact_def)

lemma fts_load_keeps:
  "ig_store (fts_load q st) = ig_store st \<and> ig_list (fts_load q st) = ig_list st \<and>
   ig_list_size (fts_load q st) = ig_list_size st \<and> ig_file (fts_load q st) = ig_file st \<and>
   fts_file (fts_load q st) = fts_file st \<and> fts_minsize_for_str (fts_load q st) = fts_minsize_for_str st"
proof (induction q st rule: fts_load.induct)
  case (1 q st)
  then show ?case by (subst (1 2 3 4 5 6) fts_load.simps) (auto simp: Let_def split: prod.splits if_splits)
qed

lemma ig_load_keeps:
  "fts_store (ig_load q st) = fts_store st \<and> fts_store_list (ig_load q st) = fts_store_list st \<and>
   fts_store_size (ig_load q st) = fts_store_size st \<and> fts_file (ig_load q st) = fts_file st \<and>
   ig_file (ig_load q st) = ig_file st \<and> fts_minsize_for_str (ig_load q st) = fts_minsize_for_str st"
proof (induction q st rule: ig_load.induct)
  case (1 q st)
  then show ?case by (subst (1 2 3 4 5 6) ig_load.simps) (auto simp: Let_def split: prod.splits if_splits)
qed

lemma fold_remember_lines:
  "\<forall>k\<in>set ls \<union> set l. line_ok k \<Longrightarrow> \<forall>k\<in>set (fold (remember m) ls l). line_ok k"
proof (induction ls arbitrary: l)
  case (Cons k ls)
  then have "\<forall>j\<in>set (remember m k l). line_ok j" by (intro remember_lines) auto
  with Cons show ?case by auto
qed simp

lemma FTS_Init_ok:
  assumes "FTS_Init secrets n a b c (print_lines fl) (print_lines il) = Some st"
    and "0 < n" "\<forall>k\<in>set fl \<union> set il. line_ok k"
  shows "fts_ok st \<and> on_disk st \<and> fts_store_size st = b \<and> ig_list_size st = c \<and>
    fts_store_list st = replay b fl \<and> ig_list st = replay c il"
proof -
  obtain h g h1 g1 :: "string OSHash" and x y where H: "OSHash_Create (secrets 0) = Some h" "OSHash_Create (secrets 1) = Some g"
    "OSHash_setSize (secrets 2) h 2048 = (x, h1)" "OSHash_setSize (secrets 3) g 2048 = (y, g1)"
    "x \<noteq> 0" "y \<noteq> 0" "1 < b" "1 < c"
    using assms(1) by (auto simp: FTS_Init_def Let_def split: option.splits prod.splits if_splits)
  let ?st0 = "\<lparr>fts_minsize_for_str = n, fts_list = [], fts_list_size = a,
      fts_store = h1, fts_store_list = [], fts_store_size = b, fts_file = print_lines fl, fts_file_lines = 0,
      ig_store = g1, ig_list = [], ig_list_size = c, ig_file = print_lines il, ig_file_lines = 0\<rparr>"
  let ?st1 = "FTS_Compact (fts_load (print_lines fl) ?st0)"
  have st: "st = IG_Compact (ig_load (print_lines il) ?st1)"
    using assms(1) H by (auto simp: FTS_Init_def Let_def split: if_splits)
  have "memory_ok b h1 []" "memory_ok c g1 []"
    using OSHash_setSize_fresh [OF _ _ H(3,5)] OSHash_setSize_fresh [OF _ _ H(4,6)]
      OSHash_Create_ok [OF H(1)] OSHash_Create_ok [OF H(2)] H(7,8)
    by (blast intro: fresh_memory)+
  note M = this
  let ?ld = "fts_load (print_lines fl) ?st0"
  have "\<forall>k\<in>set fl. line_ok k" "\<forall>k\<in>set il. line_ok k" using assms(3) by auto
  note L0 = this
  have P1: "fts_store_list ?ld = replay b fl \<and> fts_store_size ?ld = b \<and> memory_ok b (fts_store ?ld) (replay b fl)"
    using fts_mem.reload_replay [of ?st0 fl] M(1) L0(1) by (auto simp: replay_def)
  have m1: "memory_ok (ig_list_size ?st1) (ig_store ?st1) (ig_list ?st1)" "ig_list_size ?st1 = c" "ig_list ?st1 = []"
    using fts_load_keeps [of "print_lines fl" ?st0] M(2) by simp_all
  let ?ld2 = "ig_load (print_lines il) ?st1"
  have P2: "ig_list ?ld2 = replay c il \<and> ig_list_size ?ld2 = c \<and> memory_ok c (ig_store ?ld2) (replay c il)"
    using ig_mem.reload_replay [OF m1(1) L0(2)] m1(2,3) by (auto simp: replay_def)
  have R: "fts_store_list st = replay b fl" "fts_store_size st = b" "memory_ok b (fts_store st) (replay b fl)"
    "ig_list st = replay c il" "ig_list_size st = c" "memory_ok c (ig_store st) (replay c il)"
    "fts_minsize_for_str st = n"
    using P1 P2 fts_load_keeps [of "print_lines fl" ?st0] ig_load_keeps [of "print_lines il" ?st1]
    by (simp_all add: st)
  have L: "\<forall>k\<in>set (replay b fl). line_ok k" "\<forall>k\<in>set (replay c il). line_ok k"
    using fold_remember_lines [of fl "[]" b] fold_remember_lines [of il "[]" c] assms(3)
    by (auto simp: replay_def)
  have "persisted b (fts_file st) (replay b fl)"
  proof -
    have "fts_file st = print_lines fl \<or> fts_file st = print_lines (replay b fl)"
      using P1 fts_load_keeps [of "print_lines fl" ?st0] ig_load_keeps [of "print_lines il" ?st1]
        compact_file(1) [of ?ld] compact_file(3) [of ?ld2]
      by (auto simp: st)
    then show ?thesis using assms(3) L(1) replay_memory [OF R(3)] by (auto simp: persisted_def)
  qed
  moreover have "persisted c (ig_file st) (replay c il)"
  proof -
    have "ig_file st = print_lines il \<or> ig_file st = print_lines (replay c il)"
      using P2 fts_load_keeps [of "print_lines fl" ?st0] ig_load_keeps [of "print_lines il" ?st1]
        compact_file(2) [of ?ld2]
      by (auto simp: st)
    then show ?thesis using assms(3) L(2) replay_memory [OF R(6)] by (auto simp: persisted_def)
  qed
  ultimately show ?thesis using R L assms(2) by (auto simp: fts_ok_def on_disk_def)
qed

section \<open>Properties\<close>

text \<open>
  C14. \<open>FTS\<close> answers yes exactly when neither the event's key nor the line it would record is among
  the remembered records; then it records the line, dropping the oldest record when the memory is
  full, so that the memory never outgrows its size, keeps every record once and the hash table in
  step with the list. Only an event of an IDS that resembles three recent ones is recorded by a
  prefix; any other event is not new when it comes a second time.
\<close>

theorem FTS_remembers:
  assumes "fts_ok st" "clean_event lf" "FTS lf st = (new, st')"
  shows "new = (fts_key lf \<notin> set (fts_store_list st) \<and> fts_line lf st \<notin> set (fts_store_list st)) \<and>
    fts_store_list st' = (if fts_key lf \<in> set (fts_store_list st) then fts_store_list st
      else remember (fts_store_size st) (fts_line lf st) (fts_store_list st)) \<and>
    fts_ok st' \<and> int (length (fts_store_list st')) \<le> fts_store_size st' \<and>
    (di_type (lf_decoder_info lf) \<noteq> IDS \<longrightarrow> \<not> fst (FTS lf st'))"
proof -
  note S = FTS_step [OF assms]
  then have ok: "fts_ok st'" by blast
  obtain n2 st2 where f2: "FTS lf st' = (n2, st2)" by force
  note S2 = FTS_step [OF ok assms(2) f2]
  have "\<not> n2" if "di_type (lf_decoder_info lf) \<noteq> IDS"
  proof -
    have l: "fts_line lf st = fts_key lf" using that by (simp add: fts_line_def)
    have "fts_key lf \<in> set (remember (fts_store_size st) (fts_key lf) (fts_store_list st))"
      using ok assms(1) by (auto simp: remember_def list_add_def fts_ok_def memory_ok_def tl_append split: list.splits)
    with S S2 l show ?thesis by (auto split: if_splits)
  qed
  then show ?thesis using S ok f2 by (auto simp: fts_ok_def memory_ok_def)
qed

lemma FTS_ig_size: "ig_list_size (snd (FTS lf st)) = ig_list_size st"
  and FTS_ig_list: "ig_list (snd (FTS lf st)) = ig_list st"
proof -
  from FTS_form obtain l where F: "FTS lf st =
     (if OSHash_Get (fts_store st) (fts_key lf) \<noteq> None then (False, st)
      else let (new, st2) = FTS_Add (fts_line lf st) (st\<lparr>fts_list := l\<rparr>)
           in if new then (True, FTS_Fprintf (fts_line lf st) st2) else (False, st2))" by blast
  obtain n s2 where a: "FTS_Add (fts_line lf st) (st\<lparr>fts_list := l\<rparr>) = (n, s2)" by force
  have "ig_list_size s2 = ig_list_size st" "ig_list s2 = ig_list st"
    using FTS_Add_keeps [of "fts_line lf st" "st\<lparr>fts_list := l\<rparr>"] a by simp_all
  then show "ig_list_size (snd (FTS lf st)) = ig_list_size st" "ig_list (snd (FTS lf st)) = ig_list st"
    by (simp_all add: F a)
qed

lemma AddtoIGnore_store_size: "fts_store_size (AddtoIGnore rule lf st) = fts_store_size st"
  using IG_Add_keeps [of "add_key rule lf" st]
  by (cases "IG_Add (add_key rule lf) st") (simp add: AddtoIGnore_form)

text \<open>
  What the module does with an event: the first-time-seen check (\<open>Inl\<close>) or the ignore list (\<open>Inr\<close>).
\<close>

definition fts_op :: "Eventinfo + ('m, 'l) RuleInfo \<times> Eventinfo \<Rightarrow> fts_state \<Rightarrow> fts_state" where
  "fts_op x st = (case x of Inl lf \<Rightarrow> snd (FTS lf st) | Inr (rule, lf) \<Rightarrow> AddtoIGnore rule lf st)"

definition clean_op :: "Eventinfo + ('m, 'l) RuleInfo \<times> Eventinfo \<Rightarrow> bool" where
  "clean_op x = (case x of Inl lf \<Rightarrow> clean_event lf | Inr (rule, lf) \<Rightarrow> clean_event lf)"

lemma fts_ops:
  "fts_ok st \<Longrightarrow> on_disk st \<Longrightarrow> list_all clean_op ops \<Longrightarrow>
   fts_ok (fold fts_op ops st) \<and> on_disk (fold fts_op ops st) \<and>
   fts_store_size (fold fts_op ops st) = fts_store_size st \<and> ig_list_size (fold fts_op ops st) = ig_list_size st"
  for ops :: "(Eventinfo + ('m, 'l) RuleInfo \<times> Eventinfo) list"
proof (induction ops arbitrary: st)
  case (Cons x ops)
  have "fts_ok (fts_op x st) \<and> on_disk (fts_op x st) \<and> fts_store_size (fts_op x st) = fts_store_size st \<and>
    ig_list_size (fts_op x st) = ig_list_size st"
  proof (cases x)
    case (Inl lf)
    then have lf: "clean_event lf" using Cons.prems(3) by (simp add: clean_op_def)
    from FTS_step [OF Cons.prems(1) lf, of "fst (FTS lf st)" "snd (FTS lf st)"] Cons.prems(2)
      FTS_ig_size [of lf st] show ?thesis by (simp add: fts_op_def Inl)
  next
    case (Inr y)
    obtain rule lf where y: "y = (rule, lf)" by force
    then have lf: "clean_event lf" using Cons.prems(3) Inr by (simp add: clean_op_def)
    from AddtoIGnore_step [OF Cons.prems(1) lf, of rule] Cons.prems(2) show ?thesis
      by (simp add: fts_op_def Inr y AddtoIGnore_store_size)
  qed
  with Cons.IH [of "fts_op x st"] Cons.prems(3) show ?case by simp
qed simp


text \<open>
  C16. \<open>AddtoIGnore\<close> puts the event's key on the ignore list, and \<open>IGnore\<close> then says yes exactly for
  events whose key is on the list, among them those whose check key is the key just added.
\<close>

theorem IGnore_exact:
  assumes "fts_ok st" "clean_event lf" "clean_event lf2"
  shows "IGnore rule2 lf2 st = (check_key rule2 lf2 \<in> set (ig_list st)) \<and>
    IGnore rule2 lf2 (AddtoIGnore rule lf st) =
      (check_key rule2 lf2 \<in> set (remember (ig_list_size st) (add_key rule lf) (ig_list st))) \<and>
    add_key rule lf \<in> set (remember (ig_list_size st) (add_key rule lf) (ig_list st))"
proof -
  have G: "IGnore rule2 lf2 s = (check_key rule2 lf2 \<in> set (ig_list s))" if "fts_ok s" for s
  proof -
    from that have M: "memory_ok (ig_list_size s) (ig_store s) (ig_list s)" by (simp add: fts_ok_def)
    from memory_get [OF M, of "check_key rule2 lf2"] assms(3) show ?thesis by (simp add: IGnore_def)
  qed
  have "add_key rule lf \<in> set (remember (ig_list_size st) (add_key rule lf) (ig_list st))"
    using assms(1) by (auto simp: remember_def list_add_def fts_ok_def memory_ok_def tl_append split: list.splits)
  with AddtoIGnore_step [OF assms(1,2), of rule] G [OF assms(1)] G show ?thesis by auto
qed

text \<open>
  C35. \<open>IGnore\<close> takes the data and the system name by the rule's \<open>ignore\<close> mask: that \<open>ckignore\<close> asks
  for these two fields (\<open>check_diff\<close> rules list them) changes nothing.
\<close>

theorem IGnore_mask:
  "IGnore (rule\<lparr>r_ckignore := m OR (FTS_DATA OR FTS_SYSTEMNAME)\<rparr>) lf st =
   IGnore (rule\<lparr>r_ckignore := m\<rparr>) lf st"
proof -
  have "masked (m OR (FTS_DATA OR FTS_SYSTEMNAME)) f v = masked m f v"
    if "f \<in> {FTS_NAME, FTS_ID, FTS_DSTUSER, FTS_SRCIP, FTS_DSTIP}" for f v
    using that by (cases v) (auto simp: masked_def int_bit_def [of 48])
  moreover have "location_part (m OR (FTS_DATA OR FTS_SYSTEMNAME)) lf = location_part m lf"
    by (simp add: location_part_def int_bit_def [of 48])
  ultimately show ?thesis by (simp add: IGnore_def check_key_def Let_def)
qed

subsection \<open>Witnesses\<close>

definition small_hash :: "string OSHash" where
  "small_hash = \<lparr>rows = 3, initial_seed = 7, hash_constant = 300, table = replicate 4 []\<rparr>"

definition small_fts :: fts_state where
  "small_fts = \<lparr>fts_minsize_for_str = 6, fts_list = [], fts_list_size = 12, fts_store = small_hash,
     fts_store_list = [], fts_store_size = 4, fts_file = [], fts_file_lines = 0, ig_store = small_hash,
     ig_list = [], ig_list_size = 4, ig_file = [], ig_file_lines = 0\<rparr>"

lemma small_fts_ok: "fts_ok small_fts"
proof -
  have "hash_ok small_hash" "\<forall>k. hash_map small_hash k = None"
    by (auto simp: hash_ok_def chain_ok_def small_hash_def hash_map_def hash_index_def OSHASH_PRIME_def
        simp del: replicate_Suc)
  then show ?thesis by (simp add: fts_ok_def small_fts_def memory_ok_def)
qed

lemma zero_clean: "clean_event zero_event"
  by (simp add: clean_event_def clean_def zero_event_def)

theorem FTS_remembers_witness:
  "fst (FTS zero_event small_fts) \<and> \<not> fst (FTS zero_event (snd (FTS zero_event small_fts)))"
proof -
  obtain n st where f: "FTS zero_event small_fts = (n, st)" by force
  from FTS_remembers [OF small_fts_ok zero_clean f] f show ?thesis
    by (simp add: small_fts_def zero_event_def)
qed

theorem IGnore_exact_witness:
  "\<not> IGnore (zero_rule :: (nat, nat) RuleInfo) zero_event small_fts \<and>
   IGnore (zero_rule :: (nat, nat) RuleInfo) zero_event
     (AddtoIGnore (zero_rule :: (nat, nat) RuleInfo) zero_event small_fts)"
proof -
  have "check_key (zero_rule :: (nat, nat) RuleInfo) zero_event = add_key (zero_rule :: (nat, nat) RuleInfo) zero_event"
    by (simp add: check_key_def add_key_def zero_rule_def)
  with IGnore_exact [OF small_fts_ok zero_clean zero_clean, of "zero_rule :: (nat, nat) RuleInfo"
      "zero_rule :: (nat, nat) RuleInfo"] show ?thesis by (simp add: small_fts_def)
qed

lemma fresh_tables:
  "\<exists>h. OSHash_Create (Some (x, y)) = Some h"
  "\<exists>h'. OSHash_setSize (Some (x, y)) h n = (1, h')"
  using os_getprime_pos [of 1024] os_getprime_pos [of n]
  by (auto simp: OSHash_Create_def OSHash_setSize_def os_genseed_def Let_def)

lemma FTS_Init_starts:
  assumes "1 < a" "1 < b" "1 < c"
  shows "\<exists>st. FTS_Init (\<lambda>_. Some (x, y)) n a b c f g = Some st"
proof -
  obtain h where h: "OSHash_Create (Some (x, y)) = Some (h :: string OSHash)" using fresh_tables by blast
  obtain h1 where "OSHash_setSize (Some (x, y)) h 2048 = (1, h1)" using fresh_tables by blast
  with h assms show ?thesis by (simp add: FTS_Init_def)
qed


end
