(* ===== verification/Stats.thy ===== *)
theory Stats
  imports Prelude_CStr
begin

text \<open>
  \<^verbatim>\<open>analysisd/stats.c\<close>: the hourly statistics, which raise an alert when an hour has far more events
  than it used to have, and the window of the last three messages, by which the engine drops
  repeated ones. An array is a function on its indices; the counters are taken to stay below
  2 ^ 31, none is ever negative, and the files the averages are written to are left out
  (\<open>Start_Hour\<close> reads them back).
\<close>

section \<open>Hourly statistics\<close>

record stats =
  RHour :: "nat \<Rightarrow> int"
  CHour :: "nat \<Rightarrow> int"
  RWHour :: "nat \<Rightarrow> nat \<Rightarrow> int"
  CWHour :: "nat \<Rightarrow> nat \<Rightarrow> int"
  cignorehour :: int
  fired :: bool
  daily_errors :: int
  maxdiff :: int
  mindiff :: int
  percent_diff :: int

definition weekdays :: "string list" where
  "weekdays = [''Sunday'', ''Monday'', ''Tuesday'', ''Wednesday'', ''Thursday'', ''Friday'', ''Saturday'']"

definition gethour :: "stats \<Rightarrow> int \<Rightarrow> int" where
  "gethour st event_number =
     (let event_diff = (event_number * percent_diff st) div 100 + 1 in
      if event_diff < mindiff st then event_number + mindiff st
      else if event_diff > maxdiff st then event_number + maxdiff st
      else event_number + event_diff)"

text \<open>The new average of one hour.\<close>

definition new_average :: "int \<Rightarrow> int \<Rightarrow> int \<Rightarrow> int \<Rightarrow> int" where
  "new_average errors days current avg =
     (if avg = 0 then current + 20
      else if errors \<ge> 3 then (3 * current + days * avg) div (days + 3) + 25
      else (current + days * avg) div (days + 1) + 5)"

definition hour_step :: "int \<Rightarrow> nat \<Rightarrow> stats \<Rightarrow> stats" where
  "hour_step days i st =
     (if i \<noteq> 24 \<and> CHour st i = 0 then st
      else st\<lparr>RHour := (if i = 24 then RHour st
                        else (RHour st)(i := new_average (daily_errors st) days (CHour st i) (RHour st i))),
              CHour := (CHour st)(i := 0)\<rparr>)"

definition week_hour_step :: "nat \<Rightarrow> int \<Rightarrow> nat \<Rightarrow> stats \<Rightarrow> stats" where
  "week_hour_step d days j st =
     (if j \<noteq> 24 \<and> CWHour st d j = 0 then st
      else st\<lparr>RWHour := (if j = 24 then RWHour st
                else (RWHour st)(d := (RWHour st d)(j :=
                       new_average (daily_errors st) days (CWHour st d j) (RWHour st d j)))),
              CWHour := (CWHour st)(d := (CWHour st d)(j := 0))\<rparr>)"

definition week_step :: "nat \<Rightarrow> stats \<Rightarrow> stats" where
  "week_step d st =
     (let st1 = st\<lparr>CWHour := (CWHour st)(d := (CWHour st d)(24 := CWHour st d 24 + 1))\<rparr>;
          days = min 7 (CWHour st1 d 24)
      in fold (week_hour_step d days) [0..<25] st1)"

definition Update_Hour :: "stats \<Rightarrow> stats" where
  "Update_Hour st =
     (let st1 = st\<lparr>RHour := (RHour st)(24 := RHour st 24 + 1)\<rparr>;
          days = min 7 (RHour st1 24);
          st2 = fold (hour_step days) [0..<25] st1;
          st3 = fold week_step [0..<7] st2
      in st3\<lparr>daily_errors := 0\<rparr>)"

definition hour_comment :: "int \<Rightarrow> string option \<Rightarrow> int \<Rightarrow> int \<Rightarrow> string" where
  "hour_comment hour day avg n =
     take 190 (''The average number of logs between '' @ dec_int hour @ '':00 and '' @ dec_int (hour + 1) @ '':00'' @
       (case day of None \<Rightarrow> [] | Some d \<Rightarrow> '' on '' @ d) @ '' is '' @ dec_int avg @
       ''. We reached '' @ dec_int n @ ''.'')"

text \<open>The check that belongs to a day of the week.\<close>

definition check_week :: "nat \<Rightarrow> nat \<Rightarrow> stats \<Rightarrow> string option \<times> stats" where
  "check_week hour wday st =
     (if RWHour st wday 24 \<le> 2 then (None, st)
      else if RWHour st wday hour \<noteq> 0 \<and> CWHour st wday hour > RWHour st wday hour \<and>
              CWHour st wday hour > gethour st (RWHour st wday hour)
      then (Some (hour_comment (int hour) (Some (weekdays ! wday)) (RWHour st wday hour) (CWHour st wday hour)),
            st\<lparr>fired := True, daily_errors := daily_errors st + 1\<rparr>)
      else (None, st))"

text \<open>Whether the counters of this hour are worth an alert; one alert per hour.\<close>

definition check_day :: "nat \<Rightarrow> nat \<Rightarrow> stats \<Rightarrow> string option \<times> stats" where
  "check_day h d st =
     (if RHour st h \<noteq> 0 \<and> CHour st h > RHour st h \<and> CHour st h > gethour st (RHour st h)
      then (Some (hour_comment (int h) None (RHour st h) (CHour st h)),
            st\<lparr>fired := True, daily_errors := daily_errors st + 1\<rparr>)
      else check_week h d st)"

definition enter_hour :: "nat \<Rightarrow> stats \<Rightarrow> stats" where
  "enter_hour h st = (if cignorehour st \<noteq> int h then st\<lparr>cignorehour := int h, fired := False\<rparr> else st)"

definition count_event :: "nat \<Rightarrow> nat \<Rightarrow> stats \<Rightarrow> stats" where
  "count_event h d st =
     st\<lparr>CHour := (CHour st)(h := CHour st h + 1),
        CWHour := (CWHour st)(d := (CWHour st d)(h := CWHour st d h + 1))\<rparr>"

text \<open>\<open>Check_Hour\<close>: the comment of an alert, if there is one.\<close>

definition Check_Hour :: "int \<Rightarrow> int \<Rightarrow> stats \<Rightarrow> string option \<times> stats" where
  "Check_Hour hour wday st =
     (if hour < 0 \<or> hour > 23 \<or> wday < 0 \<or> wday > 6 then (None, st)
      else
        let st1 = count_event (nat hour) (nat wday) st in
        if RHour st1 24 \<le> 2 then (None, st1)
        else if daily_errors st1 \<ge> 3 \<or> (fired st1 \<and> cignorehour st1 = hour) then (None, st1)
        else check_day (nat hour) (nat wday) (enter_hour (nat hour) st1))"

section \<open>The window of the last messages\<close>

text \<open>\<open>_lastmsg\<close>, \<open>_prevlast\<close> and \<open>_pprevlast\<close>; \<^term>\<open>None\<close> before the first use in a thread.\<close>

type_synonym lastmsgs = "(string \<times> string \<times> string) option"

definition lastmsg_ensure_init :: "lastmsgs \<Rightarrow> string \<times> string \<times> string" where
  "lastmsg_ensure_init m = (case m of Some w \<Rightarrow> w | None \<Rightarrow> ('' '', '' '', '' ''))"

definition LastMsg_Stats :: "lastmsgs \<Rightarrow> string \<Rightarrow> bool \<times> lastmsgs" where
  "LastMsg_Stats m log =
     (let (l, p, pp) = lastmsg_ensure_init m in
      (strcmp log l = 0 \<or> strcmp log p = 0 \<or> strcmp log pp = 0, Some (l, p, pp)))"

definition LastMsg_Change :: "lastmsgs \<Rightarrow> string \<Rightarrow> lastmsgs" where
  "LastMsg_Change m log = (let (l, p, pp) = lastmsg_ensure_init m in Some (log, l, p))"

text \<open>How the engine uses the two: which messages of a sequence it lets through.\<close>

fun let_through :: "lastmsgs \<Rightarrow> string list \<Rightarrow> string list \<times> lastmsgs" where
  "let_through m [] = ([], m)"
| "let_through m (log # logs) =
     (let (seen, m1) = LastMsg_Stats m log in
      if seen then let_through m1 logs
      else let (ls, m2) = let_through (LastMsg_Change m1 log) logs in (log # ls, m2))"

section \<open>Properties\<close>

lemma week_hour_step_keeps [simp]:
  "RWHour (week_hour_step d n j st) e 24 = RWHour st e 24"
  "daily_errors (week_hour_step d n j st) = daily_errors st"
  "RHour (week_hour_step d n j st) = RHour st" "CHour (week_hour_step d n j st) = CHour st"
  by (simp_all add: week_hour_step_def)

lemma fold_keeps:
  assumes "\<And>x s. f (step x s) = f s"
  shows "f (fold step xs s) = f s"
  using assms by (induction xs arbitrary: s) auto

lemma week_step_keeps [simp]:
  "RWHour (week_step d st) e 24 = RWHour st e 24" "RHour (week_step d st) = RHour st"
  "CHour (week_step d st) = CHour st"
  unfolding week_step_def Let_def
  by (subst fold_keeps [where f = "\<lambda>s. RWHour s e 24"] fold_keeps [where f = RHour]
      fold_keeps [where f = CHour]; simp)+

lemma hour_step_keeps [simp]:
  "RWHour (hour_step n i st) = RWHour st" "RHour (hour_step n i st) 24 = RHour st 24"
  "daily_errors (hour_step n i st) = daily_errors st"
  by (simp_all add: hour_step_def)

lemma Update_Hour_week: "RWHour (Update_Hour st) e 24 = RWHour st e 24"
  unfolding Update_Hour_def Let_def
  by (simp add: fold_keeps [where f = "\<lambda>s. RWHour s e 24"] fold_keeps [where f = RWHour])

lemma hour_helpers [simp]:
  "RWHour (count_event h d st) = RWHour st" "RHour (count_event h d st) = RHour st"
  "daily_errors (count_event h d st) = daily_errors st" "gethour (count_event h d st) = gethour st"
  "CHour (count_event h d st) h = CHour st h + 1"
  "RWHour (enter_hour h st) = RWHour st" "RHour (enter_hour h st) = RHour st"
  "daily_errors (enter_hour h st) = daily_errors st" "gethour (enter_hour h st) = gethour st"
  "CHour (enter_hour h st) = CHour st"
  by (simp_all add: count_event_def enter_hour_def gethour_def fun_eq_iff Let_def)

lemma Check_Hour_week: "RWHour (snd (Check_Hour h w st)) e 24 = RWHour st e 24"
  by (simp add: Check_Hour_def check_day_def check_week_def Let_def)

text \<open>Every comment is counted, and none comes once there are three.\<close>

definition counts_errors :: "stats \<Rightarrow> string option \<times> stats \<Rightarrow> bool" where
  "counts_errors st r \<longleftrightarrow> daily_errors (snd r) = daily_errors st + (if fst r = None then 0 else 1)"

lemma counts_errors_simps:
  "counts_errors st (None, st') \<longleftrightarrow> daily_errors st' = daily_errors st"
  "counts_errors st (Some c, st') \<longleftrightarrow> daily_errors st' = daily_errors st + 1"
  by (simp_all add: counts_errors_def)

lemma check_week_errors: "daily_errors st' = daily_errors st \<Longrightarrow> counts_errors st (check_week h d st')"
  by (simp add: check_week_def counts_errors_simps)

lemma check_day_errors: "daily_errors st' = daily_errors st \<Longrightarrow> counts_errors st (check_day h d st')"
  by (simp add: check_day_def counts_errors_simps check_week_errors)

lemma Check_Hour_errors: "counts_errors st (Check_Hour h w st)"
  by (simp add: Check_Hour_def Let_def counts_errors_simps check_day_errors)

lemma Check_Hour_three: "\<not> daily_errors st < 3 \<Longrightarrow> fst (Check_Hour h w st) = None"
  by (simp add: Check_Hour_def Let_def)

datatype stats_op = Check int int | Update

definition stats_step :: "stats_op \<Rightarrow> stats \<Rightarrow> stats" where
  "stats_step x st = (case x of Check h w \<Rightarrow> snd (Check_Hour h w st) | Update \<Rightarrow> Update_Hour st)"

lemma stats_step_week [simp]: "RWHour (stats_step x st) e 24 = RWHour st e 24"
  by (cases x) (simp_all add: stats_step_def Check_Hour_week Update_Hour_week)

text \<open>The alerts of a day: what a sequence of checks returns.\<close>

fun day_alerts :: "(int \<times> int) list \<Rightarrow> stats \<Rightarrow> string list" where
  "day_alerts [] st = []"
| "day_alerts ((h, w) # hs) st =
     (let (c, st1) = Check_Hour h w st
      in case c of None \<Rightarrow> day_alerts hs st1 | Some a \<Rightarrow> a # day_alerts hs st1)"

lemma day_alerts_errors:
  "daily_errors st \<le> 3 \<Longrightarrow> daily_errors st + int (length (day_alerts hs st)) \<le> 3"
proof (induction hs arbitrary: st)
  case (Cons x hs)
  obtain h w where x: "x = (h, w)" by force
  obtain c st1 where c: "Check_Hour h w st = (c, st1)" by force
  have "daily_errors st1 = daily_errors st + (if c = None then 0 else 1)" "c \<noteq> None \<longrightarrow> daily_errors st < 3"
    using Check_Hour_errors [of st h w] Check_Hour_three [of st h w] c by (auto simp: counts_errors_def)
  moreover from this Cons.prems have "daily_errors st1 \<le> 3" by (auto split: if_splits)
  ultimately show ?case using Cons.IH [of st1] x c by (cases c) auto
qed simp

text \<open>
  Between two daily updates the statistics raise at most three alerts, however the hours and
  the events run.
\<close>

theorem Check_Hour_three_a_day: "length (day_alerts hs (Update_Hour st)) \<le> 3"
  using day_alerts_errors [of "Update_Hour st" hs] by (simp add: Update_Hour_def Let_def)

text \<open>
  C33. The weekly check never fires. The number of weeks it waits for is read from \<open>_RWHour[i][24]\<close>,
  which \<open>Update_Hour\<close> never counts up (it counts in \<open>_CWHour\<close> and then zeroes it): from a start
  without weekly history, after any checks and updates, a comment is the one of the hourly check,
  and the events of the hour then exceed the tolerated number.
\<close>

theorem weekly_check_dead:
  assumes "list_all (\<lambda>e. RWHour st e 24 \<le> 2) [0..<7]" "st' = fold stats_step ops st"
    and "Check_Hour h w st' = (Some c, st'')"
  shows "c = hour_comment h None (RHour st' (nat h)) (CHour st' (nat h) + 1) \<and>
    gethour st' (RHour st' (nat h)) < CHour st' (nat h) + 1 \<and> RWHour st'' (nat w) 24 \<le> 2"
proof -
  have "RWHour st' e 24 = RWHour st e 24" for e
    unfolding assms(2) by (rule fold_keeps) simp
  moreover have "0 \<le> w" "w \<le> 6" using assms(3) by (auto simp: Check_Hour_def split: if_splits)
  ultimately have w: "RWHour st' (nat w) 24 \<le> 2"
    using assms(1) by (auto simp: list_all_iff)
  then have "RWHour st'' (nat w) 24 \<le> 2" using Check_Hour_week [of h w st' "nat w"] assms(3) by simp
  with w assms(3) show ?thesis
    by (auto simp: Check_Hour_def check_day_def check_week_def Let_def split: if_splits)
qed

text \<open>
  C29. For a number of events \<open>n\<close> the tolerated number is \<open>n\<close> plus its percentage, kept between the
  minimum and the maximum difference; it grows with \<open>n\<close>.
\<close>

theorem gethour_bounds:
  assumes "0 \<le> n" "0 \<le> percent_diff st" "mindiff st \<le> maxdiff st" "n \<le> m"
  shows "gethour st n = n + max (mindiff st) (min (maxdiff st) (n * percent_diff st div 100 + 1)) \<and>
    gethour st n \<le> gethour st m"
proof -
  have g: "gethour st k = k + max (mindiff st) (min (maxdiff st) (k * percent_diff st div 100 + 1))" for k
    using assms(3) by (simp add: gethour_def Let_def)
  have "n * percent_diff st \<le> m * percent_diff st" using assms(2,4) by (rule mult_right_mono [rotated])
  then have "n * percent_diff st div 100 \<le> m * percent_diff st div 100" by (rule zdiv_mono1) simp
  with assms(4) show ?thesis unfolding g by linarith
qed

text \<open>The window the three variables stand for, on the messages let through so far, latest first.\<close>

definition lastmsg_window :: "string list \<Rightarrow> string list" where
  "lastmsg_window acc = take 3 (acc @ ['' '', '' '', '' ''])"

fun window_spec :: "string list \<Rightarrow> string list \<Rightarrow> string list" where
  "window_spec acc [] = acc"
| "window_spec acc (x # xs) = window_spec (if x \<in> set (lastmsg_window acc) then acc else x # acc) xs"

lemma window_spec_acc: "\<exists>ys. window_spec acc xs = ys @ acc"
  by (induction acc xs rule: window_spec.induct) auto

lemma let_through_window:
  "list_all c_string logs \<Longrightarrow> list_all c_string acc \<Longrightarrow> lastmsg_ensure_init m = (l, p, pp) \<Longrightarrow>
   [l, p, pp] = lastmsg_window acc \<Longrightarrow> rev acc @ fst (let_through m logs) = rev (window_spec acc logs)"
proof (induction logs arbitrary: acc m l p pp)
  case (Cons x logs)
  have cs: "c_string l" "c_string p" "c_string pp"
  proof -
    have "list_all c_string (lastmsg_window acc)"
      using Cons.prems(2) by (auto simp: lastmsg_window_def list_all_iff dest!: in_set_takeD)
    then show "c_string l" "c_string p" "c_string pp" using Cons.prems(4) [symmetric] by simp_all
  qed
  have seen: "LastMsg_Stats m x = (x \<in> set (lastmsg_window acc), Some (l, p, pp))"
    using Cons.prems(1,3) cs unfolding Cons.prems(4) [symmetric]
    by (simp add: LastMsg_Stats_def strcmp_eq_0)
  show ?case
  proof (cases "x \<in> set (lastmsg_window acc)")
    case True
    from Cons.IH [of acc "Some (l, p, pp)" l p pp] Cons.prems seen True show ?thesis
      by (simp add: lastmsg_ensure_init_def)
  next
    case False
    have w: "[x, l, p] = lastmsg_window (x # acc)"
      using Cons.prems(4) by (cases acc; cases "tl acc"; cases "tl (tl acc)") (auto simp: lastmsg_window_def)
    from Cons.IH [of "x # acc" "Some (x, l, p)" x l p] Cons.prems(1,2) w seen False show ?thesis
      by (auto simp: lastmsg_ensure_init_def LastMsg_Change_def split: prod.splits)
  qed
qed simp

text \<open>
  A message is dropped exactly when it is one of the last three that were let through (at
  first a blank), whatever came in between; dropped messages do not enter the window.
\<close>

theorem LastMsg_three:
  assumes "list_all c_string logs"
  shows "fst (let_through None logs) = rev (window_spec [] logs)"
  using let_through_window [OF assms, of "[]" None "'' ''" "'' ''" "'' ''"]
  by (simp add: lastmsg_ensure_init_def lastmsg_window_def)

subsection \<open>Witnesses\<close>

definition busy_stats :: stats where
  "busy_stats = \<lparr>RHour = (\<lambda>_. 10), CHour = (\<lambda>_. 40), RWHour = (\<lambda>_ _. 0), CWHour = (\<lambda>_ _. 0),
     cignorehour = 0, fired = False, daily_errors = 0, maxdiff = 25, mindiff = 10, percent_diff = 20\<rparr>"

theorem weekly_check_dead_witness:
  "\<exists>st''. Check_Hour 5 2 busy_stats = (Some (hour_comment 5 None 10 41), st'')"
proof -
  obtain c st'' where c: "Check_Hour 5 2 busy_stats = (Some c, st'')"
    by (simp add: Check_Hour_def check_day_def busy_stats_def gethour_def enter_hour_def count_event_def)
  have "list_all (\<lambda>e. RWHour busy_stats e 24 \<le> 2) [0..<7]" by (simp add: busy_stats_def list_all_iff)
  from weekly_check_dead [OF this _ c, of "[]"] c show ?thesis by (simp add: busy_stats_def)
qed

theorem gethour_bounds_witness: "gethour busy_stats 10 = 20"
  using gethour_bounds [of 10 busy_stats 10] by (simp add: busy_stats_def)

theorem LastMsg_three_witness: "fst (let_through None [''a'', ''a'', ''b'']) = [''a'', ''b'']"
  using LastMsg_three [of "[''a'', ''a'', ''b'']"] by (simp add: lastmsg_window_def)

end
