(* ===== verification/Accumulator.thy ===== *)
theory Accumulator
  imports Analysis_Types Hash_Table
begin

text \<open>
  \<^verbatim>\<open>analysisd/accumulator.c\<close>: events that share an id (a mail queue id, say) complete each other. For
  each agent, host, decoder and id the store keeps the fields seen lately; an event takes from
  there the fields it lacks and leaves what it has. The stored record is a value in the table here,
  where the source changes it through its pointer and then rebinds the same pointer. The clock is
  an argument; there is one store (the source has one per thread, and a shared one under a mutex).
\<close>

section \<open>The model\<close>

abbreviation "OS_ACM_EXPIRE_ELM \<equiv> (120 :: int)"
abbreviation "OS_ACM_PURGE_INTERVAL \<equiv> (300 :: int)"
abbreviation "OS_ACM_PURGE_COUNT \<equiv> (200 :: int)"
abbreviation "OS_ACM_MAXKEY \<equiv> (640 :: nat)"
abbreviation "OS_ACM_MAXELM \<equiv> (81 :: nat)"

record ACM_Store =
  acm_timestamp :: int
  acm_dstuser :: "string option"
  acm_srcuser :: "string option"
  acm_dstip :: "string option"
  acm_srcip :: "string option"
  acm_dstport :: "string option"
  acm_srcport :: "string option"
  acm_data :: "string option"

record acm =
  acm_store :: "ACM_Store OSHash"
  acm_lookups :: int
  acm_purge_ts :: int

definition Accumulate_CreateStore :: "(nat \<Rightarrow> (nat \<times> nat) option) \<Rightarrow> ACM_Store OSHash option" where
  "Accumulate_CreateStore secrets =
     (case OSHash_Create (secrets 0) of
        None \<Rightarrow> None
      | Some h \<Rightarrow> let (c, h1) = OSHash_setSize (secrets 1) h 2048 in if c = 0 then None else Some h1)"

definition Accumulate_Init :: "(nat \<Rightarrow> (nat \<times> nat) option) \<Rightarrow> int \<Rightarrow> acm option" where
  "Accumulate_Init secrets now =
     (case Accumulate_CreateStore secrets of
        None \<Rightarrow> None
      | Some h \<Rightarrow> Some \<lparr>acm_store = h, acm_lookups = 0, acm_purge_ts = now\<rparr>)"

definition InitACMStore :: ACM_Store where
  "InitACMStore = \<lparr>acm_timestamp = 0, acm_dstuser = None, acm_srcuser = None, acm_dstip = None,
     acm_srcip = None, acm_dstport = None, acm_srcport = None, acm_data = None\<rparr>"

text \<open>The destination afterwards; a value that is there, and one that is too long, stays out.\<close>

definition acm_str_replace :: "string option \<Rightarrow> string option \<Rightarrow> string option" where
  "acm_str_replace dst src =
     (case src of
        None \<Rightarrow> dst
      | Some s \<Rightarrow>
          if dst \<noteq> None \<and> dst \<noteq> Some [] then dst
          else if length s = 0 \<or> length s > OS_ACM_MAXELM - 1 then dst
          else Some s)"

text \<open>
  The cleanup runs every 200th time. It is also to run when the last one is long ago, but the test
  of the time is the wrong way round: \<open>purge_ts < now + 300\<close> holds unless the clock was set back.
\<close>

definition purge_row :: "int \<Rightarrow> ACM_Store node list \<Rightarrow> ACM_Store OSHash \<Rightarrow> ACM_Store OSHash" where
  "purge_row now ns h =
     fold (\<lambda>(key, d) h.
             case d of
               None \<Rightarrow> h
             | Some e \<Rightarrow> if acm_timestamp e < now - OS_ACM_EXPIRE_ELM then snd (OSHash_Delete h key) else h)
       ns h"

definition Accumulate_CleanUp :: "int \<Rightarrow> acm \<Rightarrow> acm" where
  "Accumulate_CleanUp now st =
     (let st1 = st\<lparr>acm_lookups := acm_lookups st + 1\<rparr> in
      if acm_lookups st1 < OS_ACM_PURGE_COUNT \<and> acm_purge_ts st1 < now + OS_ACM_PURGE_INTERVAL then st1
      else st1\<lparr>acm_lookups := 0, acm_purge_ts := now,
               acm_store := fold (\<lambda>ti h. purge_row now (table h ! ti) h) [0..<rows (acm_store st1)]
                              (acm_store st1)\<rparr>)"

text \<open>The key, \<open>agent host decoder id\<close>; \<^term>\<open>None\<close> when it does not fit its buffer.\<close>

definition or_empty :: "string option \<Rightarrow> string" where
  "or_empty v = (case v of None \<Rightarrow> [] | Some s \<Rightarrow> s)"

definition acm_key :: "Eventinfo \<Rightarrow> string option" where
  "acm_key lf =
     (case (lf_id lf, di_name (lf_decoder_info lf)) of
        (Some i, Some name) \<Rightarrow>
          let k = join_with (CHR '' '') [or_empty (lf_agent_name lf), or_empty (lf_hostname lf), name, i]
          in if length k \<ge> OS_ACM_MAXKEY then None else Some k
      | _ \<Rightarrow> None)"

definition fill_event :: "ACM_Store \<Rightarrow> Eventinfo \<Rightarrow> Eventinfo" where
  "fill_event e lf = lf\<lparr>
     lf_dstuser := acm_str_replace (lf_dstuser lf) (acm_dstuser e),
     lf_srcuser := acm_str_replace (lf_srcuser lf) (acm_srcuser e),
     lf_dstip := acm_str_replace (lf_dstip lf) (acm_dstip e),
     lf_srcip := acm_str_replace (lf_srcip lf) (acm_srcip e),
     lf_dstport := acm_str_replace (lf_dstport lf) (acm_dstport e),
     lf_srcport := acm_str_replace (lf_srcport lf) (acm_srcport e),
     lf_data := acm_str_replace (lf_data lf) (acm_data e)\<rparr>"

definition save_event :: "int \<Rightarrow> Eventinfo \<Rightarrow> ACM_Store \<Rightarrow> ACM_Store" where
  "save_event now lf e = \<lparr>
     acm_timestamp = now,
     acm_dstuser = acm_str_replace (acm_dstuser e) (lf_dstuser lf),
     acm_srcuser = acm_str_replace (acm_srcuser e) (lf_srcuser lf),
     acm_dstip = acm_str_replace (acm_dstip e) (lf_dstip lf),
     acm_srcip = acm_str_replace (acm_srcip e) (lf_srcip lf),
     acm_dstport = acm_str_replace (acm_dstport e) (lf_dstport lf),
     acm_srcport = acm_str_replace (acm_srcport e) (lf_srcport lf),
     acm_data = acm_str_replace (acm_data e) (lf_data lf)\<rparr>"

text \<open>
  A stored record that is too old is deleted and replaced by an empty one; a fresh one fills the
  event first. (\<open>OSHash_Delete\<close> returns NULL for a key that is bound to NULL only.)
\<close>

definition Accumulate :: "int \<Rightarrow> Eventinfo \<Rightarrow> acm \<Rightarrow> Eventinfo \<times> acm" where
  "Accumulate now lf st =
     (if lf_id lf = None \<or> di_name (lf_decoder_info lf) = None then (lf, st)
      else
        let st1 = Accumulate_CleanUp now st in
        case acm_key lf of
          None \<Rightarrow> (lf, st1)
        | Some key \<Rightarrow>
            let h = acm_store st1 in
            (case OSHash_Get h key of
               Some e \<Rightarrow>
                 if 0 < acm_timestamp e \<and> acm_timestamp e < now - OS_ACM_EXPIRE_ELM then
                   let h1 = snd (OSHash_Delete h key);
                       h2 = snd (OSHash_Add h1 key (Some (save_event now lf InitACMStore)))
                   in (lf, st1\<lparr>acm_store := h2\<rparr>)
                 else
                   let lf1 = fill_event e lf;
                       h1 = snd (OSHash_Update h key (Some (save_event now lf1 e)))
                   in (lf1, st1\<lparr>acm_store := h1\<rparr>)
             | None \<Rightarrow>
                 let h1 = snd (OSHash_Add h key (Some (save_event now lf InitACMStore)))
                 in (lf, st1\<lparr>acm_store := h1\<rparr>)))"

section \<open>The store as a map\<close>

text \<open>All keys are C strings bound to records; the map of an accumulator.\<close>

definition store_ok :: "ACM_Store OSHash \<Rightarrow> bool" where
  "store_ok h \<longleftrightarrow> hash_ok h \<and> (\<forall>k d. hash_map h k = Some d \<longrightarrow> (\<exists>e. d = Some e \<and> 0 < acm_timestamp e))"

definition acm_ok :: "acm \<Rightarrow> bool" where
  "acm_ok st \<longleftrightarrow> store_ok (acm_store st)"

definition acm_map :: "acm \<Rightarrow> string \<Rightarrow> ACM_Store option" where
  "acm_map st k = OSHash_Get (acm_store st) k"

definition expired :: "int \<Rightarrow> ACM_Store \<Rightarrow> bool" where
  "expired now e \<longleftrightarrow> acm_timestamp e < now - OS_ACM_EXPIRE_ELM"

lemma hash_map_c_string: "hash_ok h \<Longrightarrow> hash_map h k = Some d \<Longrightarrow> c_string k"
  using hash_index_less [of h k] by (force simp: hash_ok_def chain_ok_def hash_map_def dest: map_of_SomeD)

text \<open>Deleting keys that are bound to expired records, in whatever order, loses nothing else.\<close>

definition purges :: "int \<Rightarrow> ACM_Store OSHash \<Rightarrow> ACM_Store OSHash \<Rightarrow> bool" where
  "purges now h h' \<longleftrightarrow> hash_ok h' \<and> rows h' = rows h \<and>
     (\<forall>k. hash_map h' k = hash_map h k \<or>
        hash_map h' k = None \<and> (\<exists>e. hash_map h k = Some (Some e) \<and> expired now e))"

lemma purges_trans: "purges now a b \<Longrightarrow> purges now b c \<Longrightarrow> purges now a c"
  unfolding purges_def by metis

lemma purges_refl: "hash_ok h \<Longrightarrow> purges now h h"
  by (simp add: purges_def)

lemma OSHash_Delete_rows: "rows (snd (OSHash_Delete h k)) = rows h"
  by (simp add: OSHash_Delete_def Let_def split: prod.split)

lemma purge_row_purges:
  assumes "hash_ok h" "\<forall>(k, d)\<in>set ns. hash_map h k = Some d" "distinct (map fst ns)"
  shows "purges now h (purge_row now ns h)"
  using assms
proof (induction ns arbitrary: h)
  case (Cons n ns)
  obtain k d where n: "n = (k, d)" by force
  have b: "hash_map h k = Some d" using Cons.prems(2) n by auto
  define h1 where "h1 = (case d of None \<Rightarrow> h
    | Some e \<Rightarrow> if acm_timestamp e < now - OS_ACM_EXPIRE_ELM then snd (OSHash_Delete h k) else h)"
  have P: "purges now h h1 \<and> (\<forall>j. j \<noteq> k \<longrightarrow> hash_map h1 j = hash_map h j)"
  proof (cases "\<exists>e. d = Some e \<and> acm_timestamp e < now - OS_ACM_EXPIRE_ELM")
    case True
    then obtain e where e: "d = Some e" "acm_timestamp e < now - OS_ACM_EXPIRE_ELM" by blast
    from hash_map_c_string [OF Cons.prems(1) b]
    have "hash_ok (snd (OSHash_Delete h k)) \<and>
        (\<forall>j. hash_map (snd (OSHash_Delete h k)) j = (if j = k then None else hash_map h j))"
      using os_hash.delete_unbinds [OF Cons.prems(1), of k] by (cases "OSHash_Delete h k") auto
    with e b show ?thesis by (auto simp: h1_def purges_def expired_def OSHash_Delete_rows)
  next
    case False
    then have "h1 = h" by (auto simp: h1_def split: option.split)
    with Cons.prems(1) show ?thesis by (simp add: purges_refl)
  qed
  have "\<forall>(j, d)\<in>set ns. hash_map h1 j = Some d"
    using P Cons.prems(2,3) n by (force simp: image_iff)
  with Cons.IH [of h1] P Cons.prems(3) n have "purges now h1 (purge_row now ns h1)"
    by (auto simp: purges_def)
  moreover have "purge_row now (n # ns) h = purge_row now ns h1" by (simp add: purge_row_def n h1_def)
  ultimately show ?case using P purges_trans by auto
qed (simp add: purge_row_def purges_refl)

lemma row_bound:
  assumes "hash_ok h" "i < rows h"
  shows "(\<forall>(k, d)\<in>set (table h ! i). hash_map h k = Some d) \<and> distinct (map fst (table h ! i))"
proof -
  have c: "chain_ok h i (table h ! i)" using assms by (simp add: hash_ok_def)
  then have "hash_map h k = Some d" if "(k, d) \<in> set (table h ! i)" for k d
    using that by (force simp: chain_ok_def hash_map_def intro: map_of_is_SomeI)
  with c show ?thesis by (auto simp: chain_ok_def)
qed

lemma cleanup_purges:
  assumes "hash_ok h" "\<forall>i\<in>set is. i < rows h"
  shows "purges now h (fold (\<lambda>ti h. purge_row now (table h ! ti) h) is h)"
  using assms
proof (induction "is" arbitrary: h)
  case (Cons i "is")
  let ?h1 = "purge_row now (table h ! i) h"
  have P: "purges now h ?h1"
    using row_bound [OF Cons.prems(1), of i] Cons.prems by (intro purge_row_purges) auto
  with Cons.IH [of ?h1] Cons.prems(2) have "purges now ?h1 (fold (\<lambda>ti h. purge_row now (table h ! ti) h) is ?h1)"
    by (auto simp: purges_def)
  with P purges_trans show ?case by auto
qed (simp add: purges_refl)

lemma OSHash_Get_map:
  "store_ok h \<Longrightarrow> c_string k \<Longrightarrow> hash_map h k = map_option Some (OSHash_Get h k)"
  by (cases "hash_map h k") (auto simp: store_ok_def os_hash.get_lookup dest!: spec [of _ k])

lemma purges_store_ok: "store_ok h \<Longrightarrow> purges now h h' \<Longrightarrow> store_ok h'"
  unfolding store_ok_def purges_def by (metis option.distinct(1))

lemma purges_Get:
  assumes "store_ok h" "purges now h h'" "c_string k"
  shows "OSHash_Get h' k = OSHash_Get h k \<or>
    OSHash_Get h' k = None \<and> (\<exists>e. OSHash_Get h k = Some e \<and> expired now e)"
proof -
  have "hash_map h k = map_option Some (OSHash_Get h k)" "hash_map h' k = map_option Some (OSHash_Get h' k)"
    using OSHash_Get_map assms purges_store_ok by blast+
  then show ?thesis using assms(2) unfolding purges_def
    by (cases "OSHash_Get h k"; cases "OSHash_Get h' k") (auto dest: spec [of _ k])
qed

lemma CleanUp_purges: "acm_ok st \<Longrightarrow> purges now (acm_store st) (acm_store (Accumulate_CleanUp now st))"
  using cleanup_purges [of "acm_store st" "[0..<rows (acm_store st)]" now]
  by (simp add: Accumulate_CleanUp_def Let_def acm_ok_def store_ok_def purges_refl)

text \<open>Binding a key to a new record, by an update, an addition, or a deletion and an addition.\<close>

lemma store_bind:
  assumes "store_ok h" "c_string k" "0 < acm_timestamp v"
    and "h' = snd (OSHash_Update h k (Some v)) \<and> OSHash_Get h k \<noteq> None \<or>
         h' = snd (OSHash_Add h k (Some v)) \<and> OSHash_Get h k = None \<or>
         h' = snd (OSHash_Add (snd (OSHash_Delete h k)) k (Some v))"
  shows "store_ok h' \<and> OSHash_Get h' k = Some v \<and> (\<forall>j. j \<noteq> k \<longrightarrow> hash_map h' j = hash_map h j)"
proof -
  have ok: "hash_ok h" using assms(1) by (simp add: store_ok_def)
  have g: "hash_map h k = map_option Some (OSHash_Get h k)" by (rule OSHash_Get_map) fact+
  have "hash_ok h' \<and> (\<forall>j. hash_map h' j = (if j = k then Some (Some v) else hash_map h j))"
    using assms(4)
  proof (elim disjE conjE)
    assume "h' = snd (OSHash_Update h k (Some v))" "OSHash_Get h k \<noteq> None"
    with os_hash.update_bound [OF ok assms(2), of "Some v"] g show ?thesis
      by (cases "OSHash_Update h k (Some v)") auto
  next
    assume "h' = snd (OSHash_Add h k (Some v))" "OSHash_Get h k = None"
    with os_hash.add_fresh [OF ok assms(2), of "Some v"] g show ?thesis
      by (cases "OSHash_Add h k (Some v)") auto
  next
    assume h': "h' = snd (OSHash_Add (snd (OSHash_Delete h k)) k (Some v))"
    obtain d h1 where d: "OSHash_Delete h k = (d, h1)" by force
    from os_hash.delete_unbinds [OF ok assms(2) d] os_hash.add_fresh [of h1 k "Some v"] assms(2) d h'
    show ?thesis by (cases "OSHash_Add h1 k (Some v)") auto
  qed
  with assms show ?thesis by (auto simp: store_ok_def os_hash.get_lookup)
qed

text \<open>The record that completes an event: the one under its key unless it is too old.\<close>

definition fresh_record :: "int \<Rightarrow> acm \<Rightarrow> string \<Rightarrow> ACM_Store option" where
  "fresh_record now st key =
     (case acm_map st key of None \<Rightarrow> None | Some e \<Rightarrow> if expired now e then None else Some e)"

text \<open>
  C17. \<open>Accumulate\<close> completes an event with the record of its key and with no other, never with one
  older than two minutes, and never overwrites what the event has; the record of the key then
  holds the merged fields with the current time, and every other record stays, unless it is too
  old and the cleanup dropped it.
\<close>

theorem Accumulate_merges:
  assumes "acm_ok st" "acm_key lf = Some key" "c_string key" "0 < now"
    and "Accumulate now lf st = (lf', st')"
  shows "acm_ok st' \<and>
    lf' = (case fresh_record now st key of None \<Rightarrow> lf | Some e \<Rightarrow> fill_event e lf) \<and>
    acm_map st' key = Some (save_event now lf'
      (case fresh_record now st key of None \<Rightarrow> InitACMStore | Some e \<Rightarrow> e)) \<and>
    (\<forall>j. c_string j \<longrightarrow> j \<noteq> key \<longrightarrow> acm_map st' j = acm_map st j \<or>
       acm_map st' j = None \<and> (\<exists>e. acm_map st j = Some e \<and> expired now e))"
proof -
  define st1 where "st1 = Accumulate_CleanUp now st"
  let ?h = "acm_store st1"
  have ok: "store_ok (acm_store st)" using assms(1) by (simp add: acm_ok_def)
  note P = CleanUp_purges [OF assms(1), of now, folded st1_def]
  have ok1: "store_ok ?h" using purges_store_ok [OF ok P] .
  have id: "lf_id lf \<noteq> None" "di_name (lf_decoder_info lf) \<noteq> None"
    using assms(2) by (auto simp: acm_key_def split: option.splits)
  have old: "0 < acm_timestamp e" if "OSHash_Get ?h key = Some e" for e
    using OSHash_Get_map [OF ok1 assms(3)] that ok1 by (auto simp: store_ok_def)
  note G = purges_Get [OF ok P assms(3)]
  let ?e = "case fresh_record now st key of None \<Rightarrow> InitACMStore | Some e \<Rightarrow> e"
  have "\<exists>h'. st' = st1\<lparr>acm_store := h'\<rparr> \<and>
      lf' = (case fresh_record now st key of None \<Rightarrow> lf | Some e \<Rightarrow> fill_event e lf) \<and>
      (h' = snd (OSHash_Update ?h key (Some (save_event now lf' ?e))) \<and> OSHash_Get ?h key \<noteq> None \<or>
       h' = snd (OSHash_Add ?h key (Some (save_event now lf' ?e))) \<and> OSHash_Get ?h key = None \<or>
       h' = snd (OSHash_Add (snd (OSHash_Delete ?h key)) key (Some (save_event now lf' ?e))))"
  proof (cases "OSHash_Get ?h key")
    case None
    then have "fresh_record now st key = None" using G by (auto simp: fresh_record_def acm_map_def)
    with None assms(2,5) id show ?thesis by (auto simp: Accumulate_def Let_def st1_def [symmetric])
  next
    case (Some e)
    then have s: "OSHash_Get (acm_store st) key = Some e" using G by auto
    show ?thesis
    proof (cases "expired now e")
      case True
      then have "fresh_record now st key = None" using s by (simp add: fresh_record_def acm_map_def)
      with Some True assms(2,5) id old [OF Some] show ?thesis
        by (auto simp: Accumulate_def Let_def st1_def [symmetric] expired_def)
    next
      case False
      then have "fresh_record now st key = Some e" using s by (simp add: fresh_record_def acm_map_def)
      with Some False assms(2,5) id show ?thesis
        by (auto simp: Accumulate_def Let_def st1_def [symmetric] expired_def)
    qed
  qed
  then obtain h' where h': "st' = st1\<lparr>acm_store := h'\<rparr>"
    "lf' = (case fresh_record now st key of None \<Rightarrow> lf | Some e \<Rightarrow> fill_event e lf)"
    "h' = snd (OSHash_Update ?h key (Some (save_event now lf' ?e))) \<and> OSHash_Get ?h key \<noteq> None \<or>
       h' = snd (OSHash_Add ?h key (Some (save_event now lf' ?e))) \<and> OSHash_Get ?h key = None \<or>
       h' = snd (OSHash_Add (snd (OSHash_Delete ?h key)) key (Some (save_event now lf' ?e)))" by blast
  have "0 < acm_timestamp (save_event now lf' ?e)" using assms(4) by (simp add: save_event_def)
  from store_bind [OF ok1 assms(3) this h'(3)] have B: "store_ok h'"
    "OSHash_Get h' key = Some (save_event now lf' ?e)" "\<forall>j. j \<noteq> key \<longrightarrow> hash_map h' j = hash_map ?h j" by auto
  have "OSHash_Get h' j = OSHash_Get ?h j" if "c_string j" "j \<noteq> key" for j
    using B(1,3) ok1 that by (simp add: store_ok_def os_hash.get_lookup)
  with purges_Get [OF ok P] B h'(1,2) show ?thesis by (auto simp: acm_ok_def acm_map_def)
qed

text \<open>
  Two events have the same key only when agent, host, decoder and id agree, as long as the
  first three hold no space: one agent's events never complete another's.
\<close>

theorem acm_key_separates:
  assumes "acm_key a = Some k" "acm_key b = Some k"
    and "list_all (\<lambda>v. CHR '' '' \<notin> set (or_empty v))
      [lf_agent_name a, lf_hostname a, di_name (lf_decoder_info a),
       lf_agent_name b, lf_hostname b, di_name (lf_decoder_info b)]"
  shows "or_empty (lf_agent_name a) = or_empty (lf_agent_name b) \<and>
    or_empty (lf_hostname a) = or_empty (lf_hostname b) \<and>
    di_name (lf_decoder_info a) = di_name (lf_decoder_info b) \<and> lf_id a = lf_id b"
proof -
  have split: "x = y \<and> r = s" if "x @ CHR '' '' # r = y @ CHR '' '' # s" "CHR '' '' \<notin> set x" "CHR '' '' \<notin> set y"
    for x y r s :: string
    using that by (induction x arbitrary: y) (auto simp: Cons_eq_append_conv append_eq_Cons_conv)
  obtain i n j m where ids: "lf_id a = Some i" "di_name (lf_decoder_info a) = Some n"
    "lf_id b = Some j" "di_name (lf_decoder_info b) = Some m"
    using assms(1,2) by (auto simp: acm_key_def split: option.splits)
  let ?A = "or_empty (lf_agent_name a)" and ?B = "or_empty (lf_agent_name b)"
  let ?H = "or_empty (lf_hostname a)" and ?G = "or_empty (lf_hostname b)"
  have sp: "CHR '' '' \<notin> set ?A" "CHR '' '' \<notin> set ?B" "CHR '' '' \<notin> set ?H" "CHR '' '' \<notin> set ?G"
    "CHR '' '' \<notin> set n" "CHR '' '' \<notin> set m"
    using assms(3) ids by (simp_all add: or_empty_def)
  have "?A @ CHR '' '' # ?H @ CHR '' '' # n @ CHR '' '' # i = ?B @ CHR '' '' # ?G @ CHR '' '' # m @ CHR '' '' # j"
    using assms(1,2) ids by (simp add: acm_key_def Let_def split: if_splits)
  note 1 = split [OF this sp(1,2)]
  note 2 = split [OF conjunct2 [OF 1] sp(3,4)]
  note 3 = split [OF conjunct2 [OF 2] sp(5,6)]
  show ?thesis unfolding ids using 1 2 3 by (intro conjI) simp_all
qed

subsection \<open>Witnesses\<close>

definition empty_acm :: acm where
  "empty_acm = \<lparr>acm_store = \<lparr>rows = 3, initial_seed = 7, hash_constant = 300, table = replicate 4 []\<rparr>,
     acm_lookups = 0, acm_purge_ts = 0\<rparr>"

lemma empty_acm_ok: "acm_ok empty_acm" "acm_map empty_acm k = None"
  by (auto simp: acm_ok_def store_ok_def empty_acm_def hash_ok_def chain_ok_def hash_map_def hash_index_def
      acm_map_def OSHash_Get_def OSHASH_PRIME_def nth_Cons' simp del: replicate_Suc)

definition mail_event :: Eventinfo where
  "mail_event = zero_event\<lparr>lf_id := Some ''q1'', lf_srcip := Some ''10.0.0.1'',
     lf_decoder_info := (lf_decoder_info zero_event)\<lparr>di_name := Some ''postfix''\<rparr>\<rparr>"

lemma mail_key: "acm_key mail_event = Some ''  postfix q1''"
  by (simp add: acm_key_def mail_event_def zero_event_def or_empty_def)

theorem Accumulate_merges_witness:
  "\<exists>st'. Accumulate 7 mail_event empty_acm = (mail_event, st') \<and>
     acm_map st' ''  postfix q1'' = Some (save_event 7 mail_event InitACMStore)"
proof -
  obtain lf' st' where a: "Accumulate 7 mail_event empty_acm = (lf', st')" by force
  from Accumulate_merges [OF empty_acm_ok(1) mail_key _ _ a] a show ?thesis
    by (simp add: fresh_record_def empty_acm_ok(2))
qed

theorem acm_key_separates_witness: "lf_id mail_event = Some ''q1'' \<and> lf_id mail_event = lf_id mail_event"
proof -
  have "list_all (\<lambda>v. CHR '' '' \<notin> set (or_empty v))
      [lf_agent_name mail_event, lf_hostname mail_event, di_name (lf_decoder_info mail_event),
       lf_agent_name mail_event, lf_hostname mail_event, di_name (lf_decoder_info mail_event)]"
    by (simp add: or_empty_def mail_event_def zero_event_def)
  from acm_key_separates [OF mail_key mail_key this] show ?thesis by (simp add: mail_event_def)
qed

end
