(* ===== verification/Active_Response.thy ===== *)
theory Active_Response
  imports Analysis_Types String_Op
begin

text \<open>
  \<^verbatim>\<open>shared/ar_expect.c\<close> and \<^verbatim>\<open>analysisd/alerts/exec.c\<close>: the request that an active response sends to
  \<open>execd\<close> or to the agents. The request is one line of space separated fields which the receiver
  splits again, and the log decides what some of them say; the theorems are about what cannot get
  through. Strings are C strings; an event's location is never NULL at this point.
\<close>

section \<open>ar\_expect.c\<close>

fun ar_token_eq :: "string \<Rightarrow> string \<Rightarrow> bool" where
  "ar_token_eq (a # as) (b # bs) = (if c_tolower a \<noteq> c_tolower b then False else ar_token_eq as bs)"
| "ar_token_eq as bs = (as = [] \<and> bs = [])"

definition ar_is_separator :: "char \<Rightarrow> bool" where
  "ar_is_separator c \<longleftrightarrow> c = CHR '','' \<or> c_isspace c"

definition ar_pick_username :: "string option \<Rightarrow> string option \<Rightarrow> string option" where
  "ar_pick_username dstuser srcuser =
     (let usable = (\<lambda>u. case u of None \<Rightarrow> False | Some s \<Rightarrow> s \<noteq> [] \<and> strcmp s ''-'' \<noteq> 0)
      in if usable dstuser then dstuser else if usable srcuser then srcuser else None)"

definition safe_char :: "char \<Rightarrow> bool" where
  "safe_char c \<longleftrightarrow>
     (48 \<le> byte c \<and> byte c \<le> 57) \<or> (65 \<le> byte c \<and> byte c \<le> 90) \<or> (97 \<le> byte c \<and> byte c \<le> 122) \<or>
     c = CHR ''.'' \<or> c = CHR '':'' \<or> c = CHR ''-'' \<or> c = CHR ''_'' \<or> c = CHR ''@''"

definition ar_safe_argument :: "string option \<Rightarrow> bool" where
  "ar_safe_argument v =
     (case v of
        None \<Rightarrow> False
      | Some s \<Rightarrow>
          if s = [] \<or> deref s = CHR ''-'' then False
          else if strcmp s ''.'' = 0 \<or> strcmp s ''..'' = 0 then False
          else list_all safe_char s)"

definition expect_flag :: "string \<Rightarrow> nat" where
  "expect_flag tok =
     (if ar_token_eq tok ''user'' \<or> ar_token_eq tok ''username'' then AR_USERNAME
      else if ar_token_eq tok ''srcip'' then AR_SRCIP
      else if ar_token_eq tok ''filename'' then AR_FILENAME else 0)"

function parse_expect_loop :: "nat \<Rightarrow> string \<Rightarrow> nat" where
  "parse_expect_loop expect cursor =
     (if cursor = [] then expect
      else
        let c1 = dropWhile ar_is_separator cursor in
        if c1 = [] then expect
        else
          let tok = takeWhile (\<lambda>c. \<not> ar_is_separator c) c1;
              c2 = dropWhile (\<lambda>c. \<not> ar_is_separator c) c1
          in parse_expect_loop (expect OR expect_flag tok) (drop 1 c2))"
  by pat_completeness auto

lemma drop_token_shorter:
  "c1 = dropWhile P s \<Longrightarrow> c1 \<noteq> [] \<Longrightarrow> length (drop 1 (dropWhile Q c1)) < length s"
proof -
  assume c1: "c1 = dropWhile P s" "c1 \<noteq> []"
  then have "length c1 \<le> length s" "0 < length c1" by (simp_all add: length_dropWhile_le)
  moreover have "length (dropWhile Q c1) \<le> length c1" by (rule length_dropWhile_le)
  ultimately show ?thesis unfolding length_drop by linarith
qed

termination parse_expect_loop
proof (relation "measure (\<lambda>(_, s). length s)")
  fix expect cursor c1 tok c2
  assume "c1 = dropWhile ar_is_separator cursor" "c1 \<noteq> []"
    and c2: "c2 = dropWhile (\<lambda>c. \<not> ar_is_separator c) c1"
  from drop_token_shorter [OF this(1,2)] c2
  show "((expect OR expect_flag tok, drop 1 c2), (expect, cursor)) \<in> measure (\<lambda>(_, s). length s)"
    by simp
qed simp

declare parse_expect_loop.simps [simp del]

definition ar_parse_expect :: "string option \<Rightarrow> nat" where
  "ar_parse_expect s = (case s of None \<Rightarrow> 0 | Some s \<Rightarrow> if s = [] then 0 else parse_expect_loop 0 s)"

text \<open>The header for the agents: \<^term>\<open>None\<close> is the return code -1.\<close>

definition OS_AR_FormatRemoteHdr :: "string \<Rightarrow> char \<Rightarrow> char \<Rightarrow> char \<Rightarrow> string option" where
  "OS_AR_FormatRemoteHdr location f_all f_remote f_specific =
     (let fits = (\<lambda>buf. if length buf \<ge> 1025 then None else Some buf) in
      if deref location = CHR ''('' then
        (case strstr location ''->'' of
           None \<Rightarrow> None
         | Some source_end \<Rightarrow>
             fits (take source_end location @ CHR '' '' # [f_all, f_remote, f_specific]))
      else fits (''(local_source) [] '' @ [f_all, f_remote, f_specific]))"

section \<open>exec.c\<close>

definition OS_ARUsername :: "Eventinfo \<Rightarrow> string option" where
  "OS_ARUsername lf = ar_pick_username (lf_dstuser lf) (lf_srcuser lf)"

record ar_config =
  cfg_ar :: nat
  allow_list :: "string list option"
  hostname_allow_list :: "string list option"

datatype ar_request = NoRequest | LocalRequest string | RemoteRequest string

text \<open>The source address without the IPv4-mapped prefix.\<close>

definition ar_ip :: "active_response \<Rightarrow> Eventinfo \<Rightarrow> string option" where
  "ar_ip ar lf =
     (case lf_srcip lf of
        None \<Rightarrow> None
      | Some s \<Rightarrow>
          if \<not> int_bit (ar_expect ar) AR_SRCIP then None
          else if strncmp s ''::ffff:'' 7 = 0 then Some (drop 7 s) else Some s)"

definition ar_refused :: "(string \<Rightarrow> string list \<Rightarrow> bool) \<Rightarrow> ar_config \<Rightarrow> string \<Rightarrow> bool" where
  "ar_refused ip_found cfg ip \<longleftrightarrow>
     \<not> ar_safe_argument (Some ip) \<or>
     (case allow_list cfg of None \<Rightarrow> False | Some l \<Rightarrow> ip_found ip l) \<or>
     (case hostname_allow_list cfg of
        None \<Rightarrow> False
      | Some wl \<Rightarrow> list_ex (\<lambda>h. strncmp h ip (length ip) = 0) wl)"

definition ar_user :: "active_response \<Rightarrow> Eventinfo \<Rightarrow> string" where
  "ar_user ar lf =
     (if int_bit (ar_expect ar) AR_USERNAME then
        (case OS_ARUsername lf of
           None \<Rightarrow> ''-''
         | Some u \<Rightarrow> if ar_safe_argument (Some u) then u else ''-'')
      else ''-'')"

text \<open>
  \<open>beyond\<close> is what \<open>os_shell_escape\<close> finds behind its table; it never writes out of bounds.
\<close>

definition ar_filename :: "string \<Rightarrow> active_response \<Rightarrow> Eventinfo \<Rightarrow> string option" where
  "ar_filename beyond ar lf =
     (if lf_filename lf \<noteq> None \<and> int_bit (ar_expect ar) AR_FILENAME
      then (case os_shell_escape beyond (lf_filename lf) of Inl _ \<Rightarrow> None | Inr f \<Rightarrow> f) else None)"

definition words :: "string list \<Rightarrow> string" where
  "words ws = join_with (CHR '' '') ws"

text \<open>The request, clipped to its fixed part when location and file name do not fit.\<close>

definition ar_line :: "string list \<Rightarrow> string list \<Rightarrow> string option" where
  "ar_line fixed rest =
     (let m = words (fixed @ rest) in
      if length m < 1024 then Some m
      else let m' = words (fixed @ [''-'', ''-'']) in if length m' < 1024 then Some m' else None)"

definition OS_Exec :: "(string \<Rightarrow> string list \<Rightarrow> bool) \<Rightarrow> string \<Rightarrow> ar_config \<Rightarrow> nat \<Rightarrow> int \<Rightarrow> Eventinfo
    \<Rightarrow> active_response \<Rightarrow> ar_request" where
  "OS_Exec ip_found beyond cfg crt_ftell sigid lf ar =
     (let location = (case lf_location lf of None \<Rightarrow> [] | Some l \<Rightarrow> l);
          alert_id = (if lf_alert_id lf \<noteq> 0 then lf_alert_id lf else crt_ftell) in
      if (case ar_ip ar lf of None \<Rightarrow> False | Some ip \<Rightarrow> ar_refused ip_found cfg ip) then NoRequest
      else if lf_filename lf \<noteq> None \<and> int_bit (ar_expect ar) AR_FILENAME \<and>
              location \<noteq> [] \<and> last location = CHR 0x5C
      then NoRequest
      else
        let ip = (case ar_ip ar lf of None \<Rightarrow> ''-'' | Some ip \<Rightarrow> ip);
            fixed = [ar_name ar, ar_user ar lf, ip,
                     dec_int (lf_time lf) @ CHR ''.'' # dec_nat alert_id, dec_int sigid];
            rest = [location, case ar_filename beyond ar lf of None \<Rightarrow> ''-'' | Some f \<Rightarrow> f]
        in if int_bit (ar_location ar) AS_ONLY \<or>
              (int_bit (ar_location ar) REMOTE_AGENT \<and> deref location \<noteq> CHR ''('')
           then if \<not> int_bit (cfg_ar cfg) LOCAL_AR then NoRequest
                else (case ar_line fixed rest of None \<Rightarrow> NoRequest | Some m \<Rightarrow> LocalRequest m)
           else if int_bit (cfg_ar cfg) REMOTE_AR then
             (case OS_AR_FormatRemoteHdr location
                     (if int_bit (ar_location ar) ALL_AGENTS then CHR ''A'' else CHR ''N'')
                     (if int_bit (ar_location ar) REMOTE_AGENT then CHR ''R'' else CHR ''N'')
                     (if int_bit (ar_location ar) SPECIFIC_AGENT then CHR ''S'' else CHR ''N'') of
                None \<Rightarrow> NoRequest
              | Some hdr \<Rightarrow>
                  (case ar_line ([hdr, case ar_agent_id ar of None \<Rightarrow> ''(null)'' | Some a \<Rightarrow> a] @ fixed)
                          rest of
                     None \<Rightarrow> NoRequest
                   | Some m \<Rightarrow> RemoteRequest m))
           else NoRequest)"

section \<open>Safe arguments\<close>

text \<open>What may stand in the user and address fields: a safe argument or the placeholder.\<close>

definition harmless :: "string \<Rightarrow> bool" where
  "harmless s \<longleftrightarrow> s = ''-'' \<or> (s \<noteq> [] \<and> hd s \<noteq> CHR ''-'' \<and> list_all safe_char s)"

lemma safe_harmless: "ar_safe_argument (Some s) \<Longrightarrow> harmless s"
  by (cases s) (auto simp: ar_safe_argument_def harmless_def split: if_splits)

lemma harmless_no_space:
  assumes "harmless s"
  shows "CHR '' '' \<notin> set s"
proof -
  have "\<not> safe_char CHR '' ''" by (simp add: safe_char_def)
  with assms show ?thesis by (auto simp: harmless_def list_all_iff)
qed

lemma ar_user_harmless: "harmless (ar_user ar lf)"
  by (auto simp: ar_user_def harmless_def [of "''-''"] safe_harmless split: option.split)

lemma join_with_append2:
  "ys \<noteq> [] \<Longrightarrow> join_with d (x # y # z # ys) = x @ d # y @ d # z @ d # join_with d ys"
  by (simp add: join_with_Cons)

text \<open>The fields of a line before the first \<open>n\<close> spaces.\<close>

lemma split_words:
  "CHR '' '' \<notin> set a \<Longrightarrow> split_on (CHR '' '') (words (a # b # bs)) = a # split_on (CHR '' '') (words (b # bs))"
  by (simp add: words_def split_on_append_sep)

lemma ar_line_split:
  assumes "ar_line (a # b # c # x # fixed) rest = Some m" "rest \<noteq> []"
    "CHR '' '' \<notin> set a" "CHR '' '' \<notin> set b" "CHR '' '' \<notin> set c"
  shows "length m < 1024 \<and> take 3 (split_on (CHR '' '') m) = [a, b, c]"
  using assms by (auto simp: ar_line_def Let_def split_words split: if_splits)


text \<open>
  C31. The header of a request to the agents carries of the event's location only what stands
  before the first \<open>->\<close>, the part the manager wrote, followed by the three routing flags; a
  location of an agent without an arrow is refused.
\<close>

theorem OS_AR_FormatRemoteHdr_source:
  assumes "OS_AR_FormatRemoteHdr location f_all f_remote f_specific = Some hdr"
  shows "length hdr < 1025 \<and>
    (if deref location = CHR ''(''
     then \<exists>source path. location = source @ ''->'' @ path \<and> strstr source ''->'' = None \<and>
       hdr = source @ CHR '' '' # [f_all, f_remote, f_specific]
     else hdr = ''(local_source) [] '' @ [f_all, f_remote, f_specific])"
proof (cases "deref location = CHR ''(''")
  case True
  with assms obtain k where k: "strstr location ''->'' = Some k" "length hdr < 1025"
    "hdr = take k location @ CHR '' '' # [f_all, f_remote, f_specific]"
    by (auto simp: OS_AR_FormatRemoteHdr_def Let_def split: option.splits if_splits)
  note S = strstr_Some [OF k(1)]
  then obtain path where p: "drop k location = ''->'' @ path" by (auto simp: prefix_def)
  have "strstr (take k location) ''->'' = None"
  proof (rule ccontr)
    assume "strstr (take k location) ''->'' \<noteq> None"
    then obtain j where j: "strstr (take k location) ''->'' = Some j" by auto
    from strstr_Some [OF j] obtain u where "drop j (take k location) = ''->'' @ u"
      by (auto simp: prefix_def)
    then have u: "take (k - j) (drop j location) = ''->'' @ u" by (simp add: drop_take)
    have "drop j location = take (k - j) (drop j location) @ drop (k - j) (drop j location)"
      by (rule append_take_drop_id [symmetric])
    also have "\<dots> = ''->'' @ u @ drop (k - j) (drop j location)" unfolding u by simp
    finally have "prefix ''->'' (drop j location)" unfolding prefix_def by blast
    moreover from u have "j < k" by (cases "j < k") auto
    ultimately show False using S by blast
  qed
  moreover have "location = take k location @ ''->'' @ path" using p by (metis append_take_drop_id)
  ultimately show ?thesis using True k by auto
next
  case False
  with assms show ?thesis
    by (auto simp: OS_AR_FormatRemoteHdr_def Let_def split: if_splits)
qed

section \<open>The expect string\<close>

text \<open>The words of a string between separators.\<close>

definition expect_tokens :: "string \<Rightarrow> string list" where
  "expect_tokens s =
     filter (\<lambda>t. t \<noteq> []) (split_on (CHR '','') (map (\<lambda>c. if ar_is_separator c then CHR '','' else c) s))"

lemma comma_separator [simp]: "ar_is_separator (CHR '','')"
  by (simp add: ar_is_separator_def)

lemma expect_tokens_skip: "expect_tokens (dropWhile ar_is_separator s) = expect_tokens s"
  by (induction s) (auto simp: expect_tokens_def)

lemma expect_tokens_word:
  assumes "c1 \<noteq> []" "\<not> ar_is_separator (hd c1)"
  shows "expect_tokens c1 = takeWhile (\<lambda>c. \<not> ar_is_separator c) c1 #
    expect_tokens (drop 1 (dropWhile (\<lambda>c. \<not> ar_is_separator c) c1))"
proof -
  let ?f = "\<lambda>c. if ar_is_separator c then CHR '','' else c"
  let ?t = "takeWhile (\<lambda>c. \<not> ar_is_separator c) c1" and ?d = "dropWhile (\<lambda>c. \<not> ar_is_separator c) c1"
  have ne: "?t \<noteq> []" using assms by (cases c1) auto
  have t: "map ?f ?t = ?t" by (rule map_idI) (auto dest: set_takeWhileD)
  have no: "CHR '','' \<notin> set ?t" by (auto dest: set_takeWhileD)
  have c1: "map ?f c1 = ?t @ map ?f ?d"
  proof -
    have "map ?f c1 = map ?f (?t @ ?d)" by (simp only: takeWhile_dropWhile_id)
    then show ?thesis by (simp only: map_append t)
  qed
  show ?thesis
  proof (cases ?d)
    case Nil
    have "expect_tokens (drop 1 ?d) = []" unfolding Nil by (simp add: expect_tokens_def)
    with c1 no ne Nil show ?thesis by (simp add: expect_tokens_def)
  next
    case (Cons d r)
    then have "ar_is_separator d" by (metis dropWhile_eq_Cons_conv)
    then have "split_on (CHR '','') (map ?f c1) = ?t # split_on (CHR '','') (map ?f r)"
      unfolding c1 Cons using split_on_append_sep [OF no] by simp
    then show ?thesis using Cons ne by (simp add: expect_tokens_def)
  qed
qed

lemma parse_expect_loop_tokens:
  "int_bit (parse_expect_loop e s) f \<longleftrightarrow>
   int_bit e f \<or> (\<exists>t\<in>set (expect_tokens s). int_bit (expect_flag t) f)"
proof (induction e s rule: parse_expect_loop.induct)
  case (1 e s)
  let ?c1 = "dropWhile ar_is_separator s"
  show ?case
  proof (cases "?c1 = []")
    case True
    then have "expect_tokens s = expect_tokens []" using expect_tokens_skip [of s] by (simp only: True)
    then have "expect_tokens s = []" by (simp add: expect_tokens_def)
    with True show ?thesis by (subst parse_expect_loop.simps) (simp add: Let_def)
  next
    case False
    then have s: "s \<noteq> []" by auto
    have "\<not> ar_is_separator (hd ?c1)" using hd_dropWhile [OF False] .
    note W = expect_tokens_word [OF False this, unfolded expect_tokens_skip]
    show ?thesis
      using 1 [OF s refl False refl refl] s False
      by (subst parse_expect_loop.simps) (simp only: Let_def W if_False, auto)
  qed
qed

text \<open>
  C40. \<open>ar_parse_expect\<close> sets the bit of a field exactly when one of the words of the string,
  between commas or white space, names it, in any case of letters (\<open>user\<close> or \<open>username\<close>, \<open>srcip\<close>,
  \<open>filename\<close>); the loop over the string always ends.
\<close>

theorem ar_parse_expect_words:
  "int_bit (ar_parse_expect (Some s)) f \<longleftrightarrow> list_ex (\<lambda>t. int_bit (expect_flag t) f) (expect_tokens s)"
proof (cases "s = []")
  case True
  then show ?thesis by (simp add: ar_parse_expect_def expect_tokens_def int_bit_def)
next
  case False
  then show ?thesis
    using parse_expect_loop_tokens [of 0 s f] by (simp add: ar_parse_expect_def list_ex_iff int_bit_def)
qed

subsection \<open>Witnesses\<close>

definition block_ip :: active_response where
  "block_ip = \<lparr>ar_name = ''block'', ar_location = 8, ar_agent_id = None, ar_expect = 5\<rparr>"

definition ssh_event :: Eventinfo where
  "ssh_event = zero_event\<lparr>lf_srcip := Some ''::ffff:10.0.0.1'', lf_dstuser := Some ''bob x'',
     lf_location := Some ''/log'', lf_time := 7, lf_alert_id := 42\<rparr>"

lemma decimals: "dec_int 7 = ''7''" "dec_nat 42 = ''42''" "dec_int 5710 = ''5710''"
  by (simp_all add: dec_int_def dec_nat.simps [of 7] dec_nat.simps [of 42] dec_nat.simps [of 4]
      dec_nat.simps [of 5710] dec_nat.simps [of 571] dec_nat.simps [of 57] dec_nat.simps [of 5] char_of_def bit_iff_odd)

lemma mapped_prefix: "strncmp ''::ffff:10.0.0.1'' ''::ffff:'' 7 = 0"
  by (simp add: numeral_eq_Suc)

lemma ssh_request: "OS_Exec (\<lambda>_ _. False) [] \<lparr>cfg_ar = 3, allow_list = Some [], hostname_allow_list = None\<rparr>
    0 5710 ssh_event block_ip = LocalRequest ''block - 10.0.0.1 7.42 5710 /log -''"
  by (simp add: OS_Exec_def Let_def block_ip_def ssh_event_def zero_event_def ar_ip_def ar_refused_def ar_user_def
      OS_ARUsername_def ar_pick_username_def ar_safe_argument_def safe_char_def ar_filename_def ar_line_def words_def
      int_bit_def decimals mapped_prefix)


theorem OS_AR_FormatRemoteHdr_source_witness:
  "\<exists>source path. ''(w) 1->/l->x'' = source @ ''->'' @ path \<and> strstr source ''->'' = None \<and>
    ''(w) 1 ANS'' = source @ CHR '' '' # [CHR ''A'', CHR ''N'', CHR ''S'']"
proof -
  have "OS_AR_FormatRemoteHdr ''(w) 1->/l->x'' (CHR ''A'') (CHR ''N'') (CHR ''S'') = Some ''(w) 1 ANS''"
    by (simp add: OS_AR_FormatRemoteHdr_def)
  note T = OS_AR_FormatRemoteHdr_source [OF this]
  have "deref ''(w) 1->/l->x'' = CHR ''(''" by simp
  with conjunct2 [OF T] show ?thesis by (simp only: if_True)
qed

end
