(* ===== verification/Lists.thy ===== *)
theory Lists
  imports Prelude_CStr
begin

text \<open>
  \<^verbatim>\<open>analysisd/lists_list.c\<close>: the CDB lists that rules look values up in. The format of the
  CDB file (\<^verbatim>\<open>analysisd/cdb\<close>, D. J. Bernstein's) is a parameter: \<open>open_cdb\<close> gives the map from keys
  to values in a file, \<^term>\<open>None\<close> if the file cannot be opened. \<open>OSMatch_Execute\<close> is the matcher of
  values. The list of lists is a list of nodes, a pointer into it is an index.
\<close>

type_synonym cdb_map = "string \<Rightarrow> string option"

datatype lookup_type =
  LR_STRING_MATCH | LR_STRING_NOT_MATCH | LR_STRING_MATCH_VALUE |
  LR_ADDRESS_MATCH | LR_ADDRESS_NOT_MATCH | LR_ADDRESS_MATCH_VALUE

record ListNode =
  ln_cdb :: "cdb_map option"
  cdb_filename :: string
  txt_filename :: string

record 'm ListRule =
  lr_loaded :: bool
  lr_lookup_type :: lookup_type
  lr_matcher :: 'm
  lr_filename :: string
  lr_db :: "nat option"

definition OS_AddList :: "ListNode list \<Rightarrow> ListNode \<Rightarrow> ListNode list" where
  "OS_AddList nodes new_listnode = nodes @ [new_listnode]"

fun OS_FindList_from :: "nat \<Rightarrow> ListNode list \<Rightarrow> string \<Rightarrow> nat option" where
  "OS_FindList_from i [] listname = None"
| "OS_FindList_from i (n # ns) listname =
     (if strcmp (txt_filename n) listname = 0 \<or> strcmp (cdb_filename n) listname = 0 then Some i
      else OS_FindList_from (Suc i) ns listname)"

definition OS_FindList :: "ListNode list \<Rightarrow> string \<Rightarrow> nat option" where
  "OS_FindList nodes listname = OS_FindList_from 0 nodes listname"

text \<open>
  The conditions of a rule, chained: the loop to the end of the chain moves the head itself, which
  is what the function returns and the caller stores.
\<close>

definition OS_AddListRule :: "ListNode list \<Rightarrow> 'm ListRule list \<Rightarrow> lookup_type \<Rightarrow> string \<Rightarrow> 'm
    \<Rightarrow> 'm ListRule list" where
  "OS_AddListRule nodes first_rule_list lookup listname matcher =
     (let db = OS_FindList nodes listname;
          new = \<lparr>lr_loaded = db \<noteq> None, lr_lookup_type = lookup, lr_matcher = matcher, lr_filename = listname,
                 lr_db = db\<rparr>
      in if first_rule_list = [] then [new] else [last first_rule_list, new])"

text \<open>\<open>_OS_CDBOpen\<close>: the lookup map of the list, opened the first time.\<close>

definition OS_CDBOpen :: "(string \<Rightarrow> cdb_map option) \<Rightarrow> ListNode \<Rightarrow> cdb_map option \<times> ListNode" where
  "OS_CDBOpen open_cdb n =
     (case ln_cdb n of
        Some m \<Rightarrow> (Some m, n)
      | None \<Rightarrow> (case open_cdb (cdb_filename n) of
                  None \<Rightarrow> (None, n)
                | Some m \<Rightarrow> (Some m, n\<lparr>ln_cdb := Some m\<rparr>)))"

definition match_value :: "('m \<Rightarrow> string \<Rightarrow> bool) \<Rightarrow> 'm \<Rightarrow> string \<Rightarrow> int" where
  "match_value OSMatch_Execute matcher val = (if OSMatch_Execute matcher val then 1 else 0)"

text \<open>The loop that shortens an address to its subnets, \<open>10.1.\<close> and \<open>10.\<close>: the first value found.\<close>

function subnet_loop :: "cdb_map \<Rightarrow> string \<Rightarrow> string option" where
  "subnet_loop m tmpkey =
     (if tmpkey = [] then None
      else if last tmpkey = CHR ''.'' \<and> m tmpkey \<noteq> None then m tmpkey
      else subnet_loop m (butlast tmpkey))"
  by pat_completeness auto
termination subnet_loop
  by (relation "measure (\<lambda>(_, k). length k)") auto

declare subnet_loop.simps [simp del]

text \<open>The four lookups, on an open list; -1 and 0 are what they return when it cannot be opened.\<close>

definition OS_DBSeachKey :: "cdb_map option \<Rightarrow> string \<Rightarrow> int" where
  "OS_DBSeachKey cdb key = (case cdb of None \<Rightarrow> -1 | Some m \<Rightarrow> if m key \<noteq> None then 1 else 0)"

definition OS_DBSearchKeyValue :: "('m \<Rightarrow> string \<Rightarrow> bool) \<Rightarrow> 'm \<Rightarrow> cdb_map option \<Rightarrow> string \<Rightarrow> int" where
  "OS_DBSearchKeyValue OSMatch_Execute matcher cdb key =
     (case cdb of
        None \<Rightarrow> 0
      | Some m \<Rightarrow> (case m key of None \<Rightarrow> 0 | Some val \<Rightarrow> match_value OSMatch_Execute matcher val))"

definition OS_DBSeachKeyAddress :: "cdb_map option \<Rightarrow> string \<Rightarrow> int" where
  "OS_DBSeachKeyAddress cdb key =
     (case cdb of
        None \<Rightarrow> -1
      | Some m \<Rightarrow> if m key \<noteq> None then 1 else if subnet_loop m key \<noteq> None then 1 else 0)"

definition OS_DBSearchKeyAddressValue :: "('m \<Rightarrow> string \<Rightarrow> bool) \<Rightarrow> 'm \<Rightarrow> cdb_map option \<Rightarrow> string \<Rightarrow> int" where
  "OS_DBSearchKeyAddressValue OSMatch_Execute matcher cdb key =
     (case cdb of
        None \<Rightarrow> 0
      | Some m \<Rightarrow>
          (case m key of
             Some val \<Rightarrow> match_value OSMatch_Execute matcher val
           | None \<Rightarrow> (case subnet_loop m key of
                       None \<Rightarrow> 0
                     | Some val \<Rightarrow> match_value OSMatch_Execute matcher val)))"

definition lookup :: "('m \<Rightarrow> string \<Rightarrow> bool) \<Rightarrow> 'm ListRule \<Rightarrow> cdb_map option \<Rightarrow> string \<Rightarrow> int" where
  "lookup OSMatch_Execute lrule cdb key =
     (case lr_lookup_type lrule of
        LR_STRING_MATCH \<Rightarrow> if OS_DBSeachKey cdb key = 1 then 1 else 0
      | LR_STRING_NOT_MATCH \<Rightarrow> if OS_DBSeachKey cdb key = 1 then 0 else 1
      | LR_STRING_MATCH_VALUE \<Rightarrow> if OS_DBSearchKeyValue OSMatch_Execute (lr_matcher lrule) cdb key = 1 then 1 else 0
      | LR_ADDRESS_MATCH \<Rightarrow> OS_DBSeachKeyAddress cdb key
      | LR_ADDRESS_NOT_MATCH \<Rightarrow> if OS_DBSeachKeyAddress cdb key = 0 then 1 else 0
      | LR_ADDRESS_MATCH_VALUE \<Rightarrow>
          if OS_DBSearchKeyAddressValue OSMatch_Execute (lr_matcher lrule) cdb key = 0 then 1 else 0)"

text \<open>\<open>OS_DBSearch\<close>: the result, the condition with its list found, and the lists, one perhaps opened.\<close>

definition find_db :: "ListNode list \<Rightarrow> 'm ListRule \<Rightarrow> 'm ListRule" where
  "find_db nodes lrule =
     (if lr_loaded lrule then lrule
      else lrule\<lparr>lr_db := OS_FindList nodes (lr_filename lrule), lr_loaded := True\<rparr>)"

definition OS_DBSearch :: "(string \<Rightarrow> cdb_map option) \<Rightarrow> ('m \<Rightarrow> string \<Rightarrow> bool) \<Rightarrow> 'm ListRule \<Rightarrow> string
    \<Rightarrow> ListNode list \<Rightarrow> int \<times> 'm ListRule \<times> ListNode list" where
  "OS_DBSearch open_cdb OSMatch_Execute lrule key nodes =
     (let lrule1 = find_db nodes lrule in
      case lr_db lrule1 of
        None \<Rightarrow> (0, lrule1, nodes)
      | Some i \<Rightarrow>
          let (cdb, n) = OS_CDBOpen open_cdb (nodes ! i)
          in (lookup OSMatch_Execute lrule1 cdb key, lrule1, nodes[i := n]))"

section \<open>What a lookup finds\<close>

text \<open>The address and its subnets, longest first: what ends with a dot.\<close>

definition subnets :: "string \<Rightarrow> string list" where
  "subnets key = filter (\<lambda>k. k \<noteq> [] \<and> last k = CHR ''.'') (map (\<lambda>n. take n key) (rev [0..<Suc (length key)]))"

lemma map_take_butlast:
  "key \<noteq> [] \<Longrightarrow> map (\<lambda>n. take n key) (rev [0..<Suc (length key)]) =
     key # map (\<lambda>n. take n (butlast key)) (rev [0..<Suc (length (butlast key))])"
proof -
  assume k: "key \<noteq> []"
  then obtain k c where key: "key = k @ [c]" by (cases key rule: rev_cases) auto
  then have "map (\<lambda>n. take n key) (rev [0..<length key]) = map (\<lambda>n. take n k) (rev [0..<length key])" by simp
  then show ?thesis using key by simp
qed

lemma subnets_butlast:
  "key \<noteq> [] \<Longrightarrow> subnets key = (if last key = CHR ''.'' then [key] else []) @ subnets (butlast key)"
  unfolding subnets_def by (subst map_take_butlast) (simp_all del: upt_Suc length_butlast)

lemma subnet_loop_find:
  "subnet_loop m key = (case find (\<lambda>k. m k \<noteq> None) (subnets key) of None \<Rightarrow> None | Some k \<Rightarrow> m k)"
proof (induction m key rule: subnet_loop.induct)
  case (1 m key)
  show ?case
  proof (cases "key = []")
    case True
    then show ?thesis by (simp add: subnet_loop.simps subnets_def)
  next
    case False
    with 1 show ?thesis by (subst subnet_loop.simps) (auto simp: subnets_butlast)
  qed
qed

definition address_entry :: "cdb_map \<Rightarrow> string \<Rightarrow> string option" where
  "address_entry m key = find (\<lambda>k. m k \<noteq> None) (key # subnets key)"

text \<open>
  C31. What the lookups of a list mean, on a list that can be opened: the key is in the list, or its
  value matches; an address is found under itself or under the longest of its subnets that is in
  the list. \<open>address_match_key_value\<close> is wrong: it holds when the value does NOT match, or when
  there is no entry.
\<close>

theorem OS_DBSearch_meaning:
  assumes "lr_db (find_db nodes lrule) = Some i" "fst (OS_CDBOpen open_cdb (nodes ! i)) = Some m"
  shows "fst (OS_DBSearch open_cdb OSMatch_Execute lrule key nodes) \<noteq> 0 \<longleftrightarrow>
    (case lr_lookup_type lrule of
       LR_STRING_MATCH \<Rightarrow> m key \<noteq> None
     | LR_STRING_NOT_MATCH \<Rightarrow> m key = None
     | LR_STRING_MATCH_VALUE \<Rightarrow> (case m key of None \<Rightarrow> False | Some v \<Rightarrow> OSMatch_Execute (lr_matcher lrule) v)
     | LR_ADDRESS_MATCH \<Rightarrow> address_entry m key \<noteq> None
     | LR_ADDRESS_NOT_MATCH \<Rightarrow> address_entry m key = None
     | LR_ADDRESS_MATCH_VALUE \<Rightarrow>
         \<not> (case address_entry m key of None \<Rightarrow> False | Some k \<Rightarrow> OSMatch_Execute (lr_matcher lrule) (the (m k))))"
proof -
  obtain n where n: "OS_CDBOpen open_cdb (nodes ! i) = (Some m, n)" using assms(2) by (cases "OS_CDBOpen open_cdb (nodes ! i)") simp
  have keep: "lr_lookup_type (find_db nodes lrule) = lr_lookup_type lrule" "lr_matcher (find_db nodes lrule) = lr_matcher lrule"
    by (simp_all add: find_db_def)
  have e: "fst (OS_DBSearch open_cdb OSMatch_Execute lrule key nodes) = lookup OSMatch_Execute (find_db nodes lrule) (Some m) key"
    using assms(1) n by (simp add: OS_DBSearch_def Let_def)
  have s: "\<exists>k v. x = Some k \<and> m k = Some v" if "find (\<lambda>k. m k \<noteq> None) l = x" "x \<noteq> None" for l x
    using that by (induction l) (auto split: if_splits)
  show ?thesis
  proof (cases "lr_lookup_type lrule")
    case LR_ADDRESS_MATCH
    with e keep s [of "subnets key", OF refl] show ?thesis
      by (auto simp: lookup_def OS_DBSeachKeyAddress_def address_entry_def subnet_loop_find split: option.splits)
  next
    case LR_ADDRESS_NOT_MATCH
    with e keep s [of "subnets key", OF refl] show ?thesis
      by (auto simp: lookup_def OS_DBSeachKeyAddress_def address_entry_def subnet_loop_find split: option.splits)
  next
    case LR_ADDRESS_MATCH_VALUE
    with e keep s [of "subnets key", OF refl] show ?thesis
      by (auto simp: lookup_def OS_DBSearchKeyAddressValue_def match_value_def address_entry_def subnet_loop_find
          split: option.splits)
  qed (use e keep in \<open>auto simp: lookup_def OS_DBSeachKey_def OS_DBSearchKeyValue_def match_value_def
        split: option.splits\<close>)
qed

text \<open>
  Adding a third list condition to a rule loses the first: the chain that is left has the last
  two.
\<close>

theorem list_conditions_lost:
  "map lr_filename (OS_AddListRule nodes (OS_AddListRule nodes (OS_AddListRule nodes [] t1 a m1) t2 b m2) t3 c m3) = [b, c]"
  by (simp add: OS_AddListRule_def Let_def)

text \<open>A list whose file cannot be opened makes every \<open>address_match_key\<close> condition hold.\<close>

lemma unopened_address:
  assumes "lr_lookup_type lrule = LR_ADDRESS_MATCH" "lr_db (find_db nodes lrule) = Some i"
    "fst (OS_CDBOpen open_cdb (nodes ! i)) = None"
  shows "fst (OS_DBSearch open_cdb OSMatch_Execute lrule key nodes) = -1"
proof -
  have "lr_lookup_type (find_db nodes lrule) = LR_ADDRESS_MATCH" using assms(1) by (simp add: find_db_def)
  with assms(2,3) show ?thesis
    by (simp add: OS_DBSearch_def Let_def lookup_def OS_DBSeachKeyAddress_def split_beta)
qed

text \<open>Finding and opening lists on the way does not change later answers.\<close>

lemma OS_FindList_filenames:
  "map txt_filename a = map txt_filename b \<Longrightarrow> map cdb_filename a = map cdb_filename b \<Longrightarrow>
   OS_FindList a name = OS_FindList b name"
proof -
  have "map txt_filename a = map txt_filename b \<Longrightarrow> map cdb_filename a = map cdb_filename b \<Longrightarrow>
    OS_FindList_from i a name = OS_FindList_from i b name" for i
  proof (induction a arbitrary: b i)
    case (Cons x a)
    then show ?case by (cases b) auto
  qed simp
  then show "map txt_filename a = map txt_filename b \<Longrightarrow> map cdb_filename a = map cdb_filename b \<Longrightarrow>
    OS_FindList a name = OS_FindList b name" by (simp add: OS_FindList_def)
qed

definition db_answer :: "(string \<Rightarrow> cdb_map option) \<Rightarrow> ('m \<Rightarrow> string \<Rightarrow> bool) \<Rightarrow> ListNode list \<Rightarrow> 'm ListRule
    \<Rightarrow> string \<Rightarrow> bool" where
  "db_answer open_cdb OSMatch_Execute nodes lrule key \<longleftrightarrow>
     fst (OS_DBSearch open_cdb OSMatch_Execute lrule key nodes) \<noteq> 0"

lemma OS_CDBOpen_again:
  "fst (OS_CDBOpen open_cdb (snd (OS_CDBOpen open_cdb n))) = fst (OS_CDBOpen open_cdb n) \<and>
   txt_filename (snd (OS_CDBOpen open_cdb n)) = txt_filename n \<and>
   cdb_filename (snd (OS_CDBOpen open_cdb n)) = cdb_filename n"
  by (cases "ln_cdb n"; cases "open_cdb (cdb_filename n)"; simp add: OS_CDBOpen_def)

lemma db_answer_stable:
  assumes "OS_DBSearch open_cdb ex lrule key nodes = (r, lrule1, nodes1)"
    and "\<forall>j. lr_db (find_db nodes other) = Some j \<longrightarrow> j < length nodes"
  shows "db_answer open_cdb ex nodes1 other key2 = db_answer open_cdb ex nodes other key2"
proof (cases "lr_db (find_db nodes lrule)")
  case None
  with assms(1) show ?thesis by (simp add: OS_DBSearch_def Let_def)
next
  case (Some i)
  obtain m n where o: "OS_CDBOpen open_cdb (nodes ! i) = (m, n)" by force
  with assms(1) Some have n1: "nodes1 = nodes[i := n]" by (auto simp: OS_DBSearch_def Let_def)
  have A: "fst (OS_CDBOpen open_cdb n) = m" "txt_filename n = txt_filename (nodes ! i)"
    "cdb_filename n = cdb_filename (nodes ! i)"
    using OS_CDBOpen_again [of open_cdb "nodes ! i"] o by simp_all
  have "map txt_filename nodes1 = map txt_filename nodes" "map cdb_filename nodes1 = map cdb_filename nodes"
    using A by (simp_all add: n1 map_update) (metis list_update_id list_update_beyond map_update not_le nth_map)+
  then have f: "find_db nodes1 other = find_db nodes other"
    using OS_FindList_filenames [of nodes1 nodes] by (simp add: find_db_def)
  have "fst (OS_CDBOpen open_cdb (nodes1 ! j)) = fst (OS_CDBOpen open_cdb (nodes ! j))" if "j < length nodes" for j
    using A o that by (cases "i = j") (auto simp: n1)
  with assms(2) show ?thesis
    by (simp add: db_answer_def OS_DBSearch_def f Let_def split_beta split: option.split)
qed

section \<open>Witnesses\<close>

definition bad_nets :: ListNode where
  "bad_nets = \<lparr>ln_cdb = None, cdb_filename = ''rules/bad.cdb'', txt_filename = ''rules/bad''\<rparr>"

theorem OS_DBSearch_meaning_witness:
  "fst (OS_DBSearch (\<lambda>_. Some [''10.1.'' \<mapsto> ''x'']) (\<lambda>m v. m = v)
     \<lparr>lr_loaded = False, lr_lookup_type = LR_ADDRESS_MATCH, lr_matcher = ''x'', lr_filename = ''rules/bad'', lr_db = None\<rparr>
     ''10.1.2.3'' [bad_nets]) \<noteq> 0"
proof -
  let ?l = "\<lparr>lr_loaded = False, lr_lookup_type = LR_ADDRESS_MATCH, lr_matcher = ''x'', lr_filename = ''rules/bad'', lr_db = None\<rparr>"
  have "lr_db (find_db [bad_nets] ?l) = Some 0" by (simp add: find_db_def OS_FindList_def bad_nets_def)
  moreover have "fst (OS_CDBOpen (\<lambda>_. Some [''10.1.'' \<mapsto> ''x'']) ([bad_nets] ! 0)) = Some [''10.1.'' \<mapsto> ''x'']"
    by (simp add: OS_CDBOpen_def bad_nets_def)
  moreover have "address_entry [''10.1.'' \<mapsto> ''x''] ''10.1.2.3'' \<noteq> None"
    by (simp add: address_entry_def subnets_def)
  ultimately show ?thesis using OS_DBSearch_meaning [of "[bad_nets]" ?l 0] by simp
qed

end
