(* ===== verification/Compiled_Rules.thy ===== *)
theory Compiled_Rules
  imports Analysis_Types
begin

text \<open>
  \<^verbatim>\<open>analysisd/compiled_rules/generic_samples.c\<close>: the conditions on an event that are written in C. A
  function that returns its argument holds, one that returns NULL does not. The table that numbers
  the functions is generated by \<^verbatim>\<open>register_rule.sh\<close> at build time; here it is the order of the file.
\<close>

definition comp_srcuser_dstuser :: "Eventinfo \<Rightarrow> bool" where
  "comp_srcuser_dstuser lf =
     (case (lf_srcuser lf, lf_dstuser lf) of (Some s, Some d) \<Rightarrow> strcmp s d = 0 | _ \<Rightarrow> True)"

definition check_id_size :: "Eventinfo \<Rightarrow> bool" where
  "check_id_size lf = (case lf_id lf of None \<Rightarrow> False | Some i \<Rightarrow> length i \<ge> 10)"

text \<open>The loop over the two names: do they differ before the first one ends?\<close>

fun names_differ :: "string \<Rightarrow> string \<Rightarrow> bool" where
  "names_differ [] caller = False"
| "names_differ (c # target) caller =
     (if c \<noteq> deref caller then True
      else if c = CHR 0x09 \<or> (c = CHR '' '' \<and> deref target = CHR '' '') then False
      else names_differ target (drop 1 caller))"

definition after_colon :: "string \<Rightarrow> string \<Rightarrow> string option" where
  "after_colon log key =
     (case strstr log key of
        None \<Rightarrow> None
      | Some i \<Rightarrow> map_option (drop 1) (strchr (drop i log) (CHR '':'')))"

definition comp_mswin_targetuser_calleruser_diff :: "Eventinfo \<Rightarrow> bool" where
  "comp_mswin_targetuser_calleruser_diff lf =
     (case (after_colon (lf_log lf) ''Target Account Name'', after_colon (lf_log lf) ''Caller User Name'') of
        (Some target, Some caller) \<Rightarrow> names_differ target caller
      | _ \<Rightarrow> False)"

definition is_simple_http_request :: "Eventinfo \<Rightarrow> bool" where
  "is_simple_http_request lf =
     (case lf_url lf of
        None \<Rightarrow> False
      | Some u \<Rightarrow>
          (case lf_action lf of None \<Rightarrow> True | Some a \<Rightarrow> strcasecmp a ''GET'' = 0) \<and>
          (strcmp u ''/'' = 0 \<or> strchr u (CHR ''?'') = None))"

definition is_valid_crawler :: "Eventinfo \<Rightarrow> bool" where
  "is_valid_crawler lf \<longleftrightarrow>
     list_ex (\<lambda>p. strncmp (lf_log lf) p (length p) = 0)
       [''72.14.'', ''209.85.'', ''65.55.'', ''207.46.'', ''74.6.'', ''72.30.'', ''67.195.'']"

definition compiled_rules :: "(Eventinfo \<Rightarrow> bool) list" where
  "compiled_rules =
     [comp_srcuser_dstuser, check_id_size, comp_mswin_targetuser_calleruser_diff, is_simple_http_request,
      is_valid_crawler]"

definition compiled_rule_at :: "nat \<Rightarrow> Eventinfo \<Rightarrow> bool" where
  "compiled_rule_at c lf \<longleftrightarrow> c < length compiled_rules \<and> (compiled_rules ! c) lf"

text \<open>They read the decoded fields and the log, never what matching changes.\<close>

lemma compiled_rule_at_cong:
  assumes "lf_srcuser a = lf_srcuser b" "lf_dstuser a = lf_dstuser b" "lf_id a = lf_id b" "lf_log a = lf_log b"
    "lf_url a = lf_url b" "lf_action a = lf_action b"
  shows "compiled_rule_at c a = compiled_rule_at c b"
proof -
  have "f a = f b" if "f \<in> set compiled_rules" for f
    using that assms
    by (auto simp: compiled_rules_def comp_srcuser_dstuser_def check_id_size_def is_simple_http_request_def
        comp_mswin_targetuser_calleruser_diff_def is_valid_crawler_def cong: option.case_cong)
  then show ?thesis by (cases "c < length compiled_rules") (simp_all add: compiled_rule_at_def)
qed

text \<open>
  Two account names that end at a tabulator differ for the scan exactly when they differ, one that
  is a prefix of the other included.
\<close>

lemma names_differ_tab:
  "CHR 0x09 \<notin> set a \<Longrightarrow> CHR 0x09 \<notin> set b \<Longrightarrow> \<not> sublist ''  '' a \<Longrightarrow>
   names_differ (a @ CHR 0x09 # s) (b @ CHR 0x09 # t) \<longleftrightarrow> a \<noteq> b"
proof (induction a arbitrary: b)
  case Nil
  then show ?case by (cases b) auto
next
  case (Cons c a)
  have a: "\<not> sublist ''  '' a" using Cons.prems(3) by (simp add: sublist_Cons_right)
  have "\<not> (c = CHR '' '' \<and> deref (a @ CHR 0x09 # s) = CHR '' '')"
    using Cons.prems(3) by (cases a) (auto simp: sublist_Cons_right)
  with Cons.IH [of "drop 1 b"] Cons.prems a show ?case by (cases b) auto
qed

end
