(* ===== verification/Do_Diff.thy ===== *)
theory Do_Diff
  imports Analysis_Types File_Op
begin

text \<open>
  \<^verbatim>\<open>analysisd/dodiff.c\<close>, the part of \<open>doDiff\<close> that works on files: for each agent and rule with
  \<open>check_diff\<close> a file keeps the last output, and the rule matches when the output changed. The
  files are those of \<open>File_Op\<close>; \<open>openw\<close> says whether \<open>_add2last\<close> can write a file, its directories
  created if need be. A file that exists can be read, and its time is positive. The rest of
  \<open>doDiff\<close>, on the rule's buffer, is in \<open>Rule_Match\<close>.
\<close>

definition DIFF_DIR :: string where
  "DIFF_DIR = ''/queue/diff''"

definition DIFF_LAST_FILE :: string where
  "DIFF_LAST_FILE = ''last-entry''"

text \<open>Whose output it is: the agent, the name in the parentheses of the host name, the host name.\<close>

definition diff_owner :: "Eventinfo \<Rightarrow> string option" where
  "diff_owner lf =
     (case lf_agent_name lf of
        Some a \<Rightarrow>
          if a \<noteq> [] then Some a
          else (case lf_hostname lf of
                  None \<Rightarrow> None
                | Some h \<Rightarrow> if deref h = CHR ''('' then Some (takeWhile (\<lambda>c. c \<noteq> CHR '')'') (drop 1 h)) else Some h)
      | None \<Rightarrow>
          (case lf_hostname lf of
             None \<Rightarrow> None
           | Some h \<Rightarrow> if deref h = CHR ''('' then Some (takeWhile (\<lambda>c. c \<noteq> CHR '')'') (drop 1 h)) else Some h))"

definition flastfile :: "int \<Rightarrow> string \<Rightarrow> string" where
  "flastfile sigid owner = DIFF_DIR @ SL # owner @ SL # dec_int sigid @ SL # DIFF_LAST_FILE"

text \<open>The text and its NUL go to the file; \<open>size\<close> is the length of the text.\<close>

definition add2last :: "string \<Rightarrow> nat \<Rightarrow> string \<Rightarrow> files \<Rightarrow> files" where
  "add2last str strsize file fs =
     (if openw fs file then fwrite file (take (strsize + 1) (str @ [NUL])) fs else fs)"

definition diff_path :: "int \<Rightarrow> Eventinfo \<Rightarrow> string option" where
  "diff_path sigid lf =
     (case diff_owner lf of
        None \<Rightarrow> None
      | Some owner \<Rightarrow>
          let f = flastfile sigid owner in if length f \<ge> 2048 \<or> w_ref_parent_folder f then None else Some f)"

definition diff_last :: "int \<Rightarrow> Eventinfo \<Rightarrow> files \<Rightarrow> string option \<times> files" where
  "diff_last sigid lf fs =
     (case diff_path sigid lf of
        None \<Rightarrow> (None, fs)
      | Some f \<Rightarrow>
          if lf_size lf \<ge> 8192 then (None, fs)
          else (case contents fs f of
                  None \<Rightarrow> (None, add2last (lf_log lf) (lf_size lf) f fs)
                | Some bytes \<Rightarrow>
                    if take 8192 bytes = [] then (None, fs)
                    else
                      let flastcontent = takeWhile (\<lambda>c. c \<noteq> NUL) (take 8192 bytes)
                      in if strcmp flastcontent (lf_log lf) = 0 then (None, fs)
                         else (Some flastcontent, add2last (lf_log lf) (lf_size lf) f fs)))"

section \<open>It compares with the last output\<close>

text \<open>The answers to a sequence of checks, and the files they leave.\<close>

fun diff_run :: "(int \<times> Eventinfo) list \<Rightarrow> files \<Rightarrow> string option list \<times> files" where
  "diff_run [] fs = ([], fs)"
| "diff_run ((sigid, lf) # xs) fs =
     (let (r, fs1) = diff_last sigid lf fs; (rs, fs2) = diff_run xs fs1 in (r # rs, fs2))"

text \<open>What the answer ought to be: the last log with the same file, if it differs.\<close>

fun diff_spec :: "(string \<Rightarrow> string option) \<Rightarrow> (int \<times> Eventinfo) list \<Rightarrow> string option list" where
  "diff_spec prev [] = []"
| "diff_spec prev ((sigid, lf) # xs) =
     (let f = the (diff_path sigid lf)
      in (if prev f = Some (lf_log lf) then None else prev f) # diff_spec (prev(f \<mapsto> lf_log lf)) xs)"

definition diff_event :: "files \<Rightarrow> int \<times> Eventinfo \<Rightarrow> bool" where
  "diff_event fs x \<longleftrightarrow> (case diff_path (fst x) (snd x) of None \<Rightarrow> False | Some f \<Rightarrow> openw fs f) \<and>
     c_string (lf_log (snd x)) \<and> lf_size (snd x) = length (lf_log (snd x)) \<and> lf_size (snd x) < 8192"

lemma stored_text:
  assumes "c_string s" "length s < 8192"
  shows "takeWhile (\<lambda>c. c \<noteq> NUL) (take 8192 (s @ [NUL])) = s" "take 8192 (s @ [NUL]) \<noteq> []"
    "take (length s + 1) (s @ [NUL]) = s @ [NUL]"
proof -
  have t: "take 8192 (s @ [NUL]) = s @ [NUL]" using assms(2) by simp
  show "takeWhile (\<lambda>c. c \<noteq> NUL) (take 8192 (s @ [NUL])) = s"
    unfolding t using assms(1) by (subst takeWhile_append2) (auto simp: c_string_def)
  show "take 8192 (s @ [NUL]) \<noteq> []" unfolding t by simp
  show "take (length s + 1) (s @ [NUL]) = s @ [NUL]" by simp
qed

text \<open>
  C29. \<open>doDiff\<close> compares with the last output of the same agent and rule: over any sequence of events
  the answer to each is the previous log with the same file if there is one and it differs, and no
  match otherwise (the first output is recorded silently); other agents and rules do not interfere.
\<close>

theorem diff_compares_with_last:
  assumes "list_all (diff_event fs) xs"
    and "\<And>f. contents fs f = map_option (\<lambda>s. s @ [NUL]) (prev f)"
    and "\<And>f. case prev f of None \<Rightarrow> True | Some s \<Rightarrow> c_string s \<and> length s < 8192"
  shows "fst (diff_run xs fs) = diff_spec prev xs"
  using assms
proof (induction xs arbitrary: fs prev)
  case (Cons x xs)
  obtain sigid lf where x: "x = (sigid, lf)" by force
  let ?log = "lf_log lf"
  obtain f where f: "diff_path sigid lf = Some f" "openw fs f" and log: "c_string ?log" "lf_size lf = length ?log" "length ?log < 8192"
    using Cons.prems(1) x by (auto simp: diff_event_def split: option.splits)
  note S = stored_text [OF log(1,3)]
  have w: "add2last ?log (lf_size lf) f fs = fwrite f (?log @ [NUL]) fs"
    using f(2) S(3) log(2) by (simp add: add2last_def)
  define fs1 where "fs1 = (if prev f = Some ?log then fs else fwrite f (?log @ [NUL]) fs)"
  have d: "diff_last sigid lf fs = (if prev f = Some ?log then None else prev f, fs1)"
  proof (cases "prev f")
    case None
    then have "contents fs f = None" using Cons.prems(2) by simp
    with None f log w show ?thesis by (simp add: diff_last_def fs1_def)
  next
    case (Some s)
    then have s: "contents fs f = Some (s @ [NUL])" "c_string s" "length s < 8192"
      using Cons.prems(2) [of f] Cons.prems(3) [of f] by auto
    have "strcmp s ?log = 0 \<longleftrightarrow> s = ?log" using s(2) log(1) by (rule strcmp_eq_0)
    with stored_text [OF s(2,3)] s(1) Some f(1) log w show ?thesis
      by (simp add: diff_last_def fs1_def Let_def del: take_append)
  qed
  have "contents fs1 g = map_option (\<lambda>s. s @ [NUL]) ((prev(f \<mapsto> ?log)) g)" for g
    using Cons.prems(2) [of g] by (auto simp: fs1_def fwrite_def)
  moreover have "case (prev(f \<mapsto> ?log)) g of None \<Rightarrow> True | Some s \<Rightarrow> c_string s \<and> length s < 8192" for g
    using Cons.prems(3) [of g] log by simp
  moreover have "openw fs1 = openw fs" by (simp add: fs1_def fwrite_def)
  then have "diff_event fs1 = diff_event fs" by (simp add: fun_eq_iff diff_event_def cong: option.case_cong)
  then have "list_all (diff_event fs1) xs" using Cons.prems(1) by simp
  ultimately have "fst (diff_run xs fs1) = diff_spec (prev(f \<mapsto> ?log)) xs" using Cons.IH by blast
  with d f(1) show ?case by (simp add: x Let_def split_beta)
qed simp

text \<open>The file lies below \<open>DIFF_DIR\<close>, whatever the log line claims to be the host name.\<close>

lemma diff_path_confined:
  assumes "diff_path sigid lf = Some f" "c_string f"
  shows "\<exists>rest. f = DIFF_DIR @ SL # rest \<and> ''..'' \<notin> set (split_on SL rest)"
proof -
  from assms(1) obtain owner where f: "f = flastfile sigid owner" "\<not> w_ref_parent_folder f"
    by (auto simp: diff_path_def Let_def split: option.splits if_splits)
  then have "''..'' \<notin> set (split_on SL f)"
    using w_ref_parent_folder_exact [OF assms(2), of False] by (simp add: w_ref_parent_folder_def)
  moreover have "split_on SL (DIFF_DIR @ SL # r) = [[], ''queue'', ''diff''] @ split_on SL r" for r
    by (simp add: DIFF_DIR_def)
  ultimately show ?thesis using f(1) by (auto simp: flastfile_def)
qed

section \<open>A witness\<close>

definition df_event :: "string \<Rightarrow> Eventinfo" where
  "df_event s = zero_event\<lparr>lf_agent_name := Some ''web'', lf_log := s, lf_size := length s\<rparr>"

theorem diff_compares_with_last_witness:
  "fst (diff_run [(100, df_event ''a''), (100, df_event ''a''), (100, df_event ''b''), (7, df_event ''a''),
     (100, df_event ''a'')] no_files) = [None, None, Some ''a'', None, Some ''b'']"
proof -
  have d: "dec_int 100 = ''100''" "dec_int 7 = ''7''" by code_simp+
  have w: "\<not> w_ref_parent_folder ''/queue/diff/web/100/last-entry''" "\<not> w_ref_parent_folder ''/queue/diff/web/7/last-entry''"
    by (simp_all add: w_ref_parent_folder_def w_ref_parent_folder_ex_def slash_loop_later dotdot_def)
  have p: "diff_path 100 (df_event s) = Some ''/queue/diff/web/100/last-entry''"
    "diff_path 7 (df_event s) = Some ''/queue/diff/web/7/last-entry''" for s
    using w by (simp_all add: diff_path_def diff_owner_def df_event_def flastfile_def DIFF_DIR_def DIFF_LAST_FILE_def d)
  have l: "lf_log (df_event s) = s" "lf_size (df_event s) = length s" for s by (simp_all add: df_event_def)
  have "list_all (diff_event no_files) [(100, df_event ''a''), (100, df_event ''a''), (100, df_event ''b''),
        (7, df_event ''a''), (100, df_event ''a'')]"
    by (simp add: diff_event_def p l no_files_def)
  from diff_compares_with_last [OF this, of "\<lambda>_. None"] show ?thesis
    by (simp add: p l no_files_def)
qed

end
