(* ===== verification/Analyze.thy ===== *)
theory Analyze
  imports Rule_Match Event_List Fts Stats Accumulator Active_Response Validate Lists Compiled_Rules Do_Diff "HOL-Library.Multiset"
begin

text \<open>
  \<^verbatim>\<open>analysisd/analysisd_stages.c\<close>, from decoding on: \<open>analysisd_analyze_event\<close> takes an event through the
  flood window, the accumulator, the hourly statistics, the rules, the ignore list, the alert, the
  active responses, the histories and the event list, and \<open>analysisd_finish_event\<close>
  (\<^verbatim>\<open>analysisd/eventinfo.c\<close>) releases what nobody kept. The modules are those of the other theories;
  their states are the components of \<open>engine\<close>. A history, an \<open>OSList\<close> of events, is given by its
  contents (\<open>list_add\<close>), the event list too (\<open>event_trim\<close>). One thread analyses; queues accept or refuse
  what is pushed as the argument \<open>io\<close> says. Rollover of the log files is left out.
\<close>

section \<open>Configuration and state\<close>

record stores =
  fts :: fts_state
  diffs :: files

text \<open>The pattern matchers are PCRE2, \<open>inet_pton\<close> and the CDB format are libraries: parameters.\<close>

record 'm engine_cfg =
  exec_match :: "'m \<Rightarrow> string \<Rightarrow> bool"
  exec_pcre2 :: "'m \<Rightarrow> string \<Rightarrow> bool"
  exec_regex :: "'m \<Rightarrow> string \<Rightarrow> bool"
  OS_PRegex :: "string \<Rightarrow> string \<Rightarrow> bool"
  c_pton :: pton
  c_open_cdb :: "string \<Rightarrow> cdb_map option"
  c_lists :: "ListNode list"
  order_size :: nat
  beyond_escapes :: string
  c_ar :: ar_config
  execdq :: bool
  cfg_stats :: bool
  stats_rule :: "nat option"
  queue_log :: bool
  queue_archive :: bool
  logall :: bool
  logall_json :: bool
  memorysize :: int
  max_freq :: int
  sid_prev_matched_max :: int

text \<open>What the outside decides while one event is analysed: the clock and the queues.\<close>

record inputs =
  now :: int
  crt_hour :: int
  crt_day :: int
  alert_accepted :: bool
  archive_accepted :: bool

record 'm engine =
  core :: "('m, 'm ListRule, stores) world"
  flood :: lastmsgs
  acc :: acm
  hourly :: stats
  sid_node :: "nat \<Rightarrow> bool"
  group_nodes :: "nat \<Rightarrow> bool"
  next_alert_id :: nat
  alerts :: "Eventinfo list"
  stat_alerts :: "Eventinfo list"
  alerts_dropped :: nat
  requests :: "ar_request list"
  archived :: "Eventinfo list"
  archives_dropped :: nat
  given :: "nat list"
  released :: "nat list"

abbreviation "SYSLOG \<equiv> (1 :: nat)"
abbreviation "OSSEC_ALERT \<equiv> (12 :: nat)"

text \<open>
  The environment of the rules: the functions of the other theories, on the stores of the engine.
  A list of addresses is given by its texts, which \<open>OS_IsValidIP\<close> has read.
\<close>

definition ip_found :: "pton \<Rightarrow> string \<Rightarrow> string list \<Rightarrow> bool" where
  "ip_found p ip texts = Validate.OS_IPFoundList p ip (map (\<lambda>t. snd (OS_IsValidIP p (Some t) zero_ip)) texts)"

definition rule_env :: "'m engine_cfg \<Rightarrow> inputs \<Rightarrow> ('m, 'm ListRule, stores) env" where
  "rule_env cfg io = \<lparr>
     OSMatch_Execute = exec_match cfg,
     OSPcre2_Execute = exec_pcre2 cfg,
     OSRegex_Execute = exec_regex cfg,
     OS_IPFoundList = ip_found (c_pton cfg),
     OS_IsonTime = Validate.OS_IsonTime,
     OS_IsonDay = Validate.OS_IsonDay,
     OS_DBSearch = db_answer (c_open_cdb cfg) (exec_match cfg) (c_lists cfg),
     compiled_rule = compiled_rule_at,
     diff_file = (\<lambda>sigid lf x. let (r, f) = diff_last sigid lf (diffs x) in (r, x\<lparr>diffs := f\<rparr>)),
     FTS = (\<lambda>lf x. let (new, f) = Fts.FTS lf (fts x) in (new, x\<lparr>fts := f\<rparr>)),
     crt_wday = nat (crt_day io),
     decoder_order_size = order_size cfg\<rparr>"

definition event_of :: "'m engine \<Rightarrow> nat \<Rightarrow> Eventinfo" where
  "event_of eng lf = events (core eng) lf"

definition rule_of :: "'m engine \<Rightarrow> nat \<Rightarrow> ('m, 'm ListRule) RuleInfo" where
  "rule_of eng r = w_rules (core eng) r"

definition set_event :: "nat \<Rightarrow> (Eventinfo \<Rightarrow> Eventinfo) \<Rightarrow> 'm engine \<Rightarrow> 'm engine" where
  "set_event lf f eng = eng\<lparr>core := put_event lf (f (event_of eng lf)) (core eng)\<rparr>"

definition set_rule :: "nat \<Rightarrow> (('m, 'm ListRule) RuleInfo \<Rightarrow> ('m, 'm ListRule) RuleInfo) \<Rightarrow> 'm engine
    \<Rightarrow> 'm engine" where
  "set_rule r f eng = eng\<lparr>core := put_rule r (f (rule_of eng r)) (core eng)\<rparr>"

definition set_hist :: "nat \<Rightarrow> nat list \<Rightarrow> 'm engine \<Rightarrow> 'm engine" where
  "set_hist l xs eng = eng\<lparr>core := (core eng)\<lparr>hist := (hist (core eng))(l := xs)\<rparr>\<rparr>"

definition set_fts :: "(fts_state \<Rightarrow> fts_state) \<Rightarrow> 'm engine \<Rightarrow> 'm engine" where
  "set_fts f eng = eng\<lparr>core := (core eng)\<lparr>ext := (ext (core eng))\<lparr>fts := f (fts (ext (core eng)))\<rparr>\<rparr>\<rparr>"

section \<open>Free\_Eventinfo\<close>

text \<open>
  An event leaves the histories it is on before its memory goes: \<open>sid_node_to_delete\<close> and
  \<open>group_nodes_to_delete\<close> are its nodes there, or NULL.
\<close>

definition unlink_sid :: "nat \<Rightarrow> 'm engine \<Rightarrow> 'm engine" where
  "unlink_sid lf eng =
     (if sid_node eng lf then
        (case lf_generated_rule (event_of eng lf) of
           None \<Rightarrow> id
         | Some r \<Rightarrow>
             (case r_sid_prev_matched (rule_of eng r) of
                None \<Rightarrow> id | Some l \<Rightarrow> set_hist l (remove1 lf (hist (core eng) l))))
        (eng\<lparr>sid_node := (sid_node eng)(lf := False)\<rparr>)
      else eng)"

definition unlink_groups :: "nat \<Rightarrow> 'm engine \<Rightarrow> 'm engine" where
  "unlink_groups lf eng =
     (if group_nodes eng lf then
        (case lf_generated_rule (event_of eng lf) of
           None \<Rightarrow> id
         | Some r \<Rightarrow>
             fold (\<lambda>l e. set_hist l (remove1 lf (hist (core e) l)) e) (r_group_prev_matched (rule_of eng r)))
        (eng\<lparr>group_nodes := (group_nodes eng)(lf := False)\<rparr>)
      else eng)"

definition Free_Eventinfo :: "nat \<Rightarrow> 'm engine \<Rightarrow> 'm engine" where
  "Free_Eventinfo lf eng =
     (let eng1 = unlink_groups lf (unlink_sid lf eng) in eng1\<lparr>released := lf # released eng1\<rparr>)"

definition analysisd_finish_event :: "nat \<Rightarrow> 'm engine \<Rightarrow> 'm engine" where
  "analysisd_finish_event lf eng =
     (if \<not> lf_list_retained (event_of eng lf) then Free_Eventinfo lf eng else eng)"

section \<open>The steps for a rule that fired\<close>

text \<open>The window in which a rule stays quiet: whether to skip, and the window afterwards.\<close>

definition ignore_window :: "nat \<Rightarrow> nat \<Rightarrow> 'm engine \<Rightarrow> bool \<times> 'm engine" where
  "ignore_window lf r eng =
     (let rule = rule_of eng r; t = lf_time (event_of eng lf) in
      if r_ignore_time rule = 0 then (False, eng)
      else if r_time_ignored rule = 0 then (False, set_rule r (\<lambda>x. x\<lparr>r_time_ignored := t\<rparr>) eng)
      else if t - r_time_ignored rule < r_ignore_time rule then (True, eng)
      else (False, set_rule r (\<lambda>x. x\<lparr>r_time_ignored := t\<rparr>) eng))"

definition analysisd_claim_alert_id :: "nat \<Rightarrow> 'm engine \<Rightarrow> 'm engine" where
  "analysisd_claim_alert_id lf eng =
     set_event lf (\<lambda>e. e\<lparr>lf_alert_id := next_alert_id eng\<rparr>) (eng\<lparr>next_alert_id := next_alert_id eng + 1\<rparr>)"

text \<open>What is left in the rule's buffer moves to the copy for the writer.\<close>

definition snapshot_rule_last_events :: "Eventinfo \<Rightarrow> nat \<Rightarrow> 'm engine
    \<Rightarrow> Eventinfo \<times> 'm engine" where
  "snapshot_rule_last_events dst r eng =
     (let rule = rule_of eng r in
      if lf_alert_last_events dst \<noteq> None \<or> r_last_events rule = None \<or> \<not> r_last_events_copied rule
      then (dst, eng)
      else let (rule1, dst1) = OS_MoveRuleLastEvents rule dst in (dst1, set_rule r (\<lambda>_. rule1) eng))"

definition write_alert :: "'m engine_cfg \<Rightarrow> inputs \<Rightarrow> nat \<Rightarrow> nat \<Rightarrow> 'm engine
    \<Rightarrow> 'm engine" where
  "write_alert cfg io lf r eng =
     (if \<not> has_bit (r_alert_opts (rule_of eng r)) DO_LOGALERT then eng
      else if queue_log cfg then
        let eng1 = analysisd_claim_alert_id lf eng;
            (copy, eng2) = snapshot_rule_last_events (event_of eng1 lf) r eng1
        in if alert_accepted io then eng2\<lparr>alerts := alerts eng2 @ [copy]\<rparr>
           else eng2\<lparr>alerts_dropped := alerts_dropped eng2 + 1\<rparr>
      else
        let eng1 = (if lf_alert_id (event_of eng lf) = 0 then analysisd_claim_alert_id lf eng else eng)
        in eng1\<lparr>alerts := alerts eng1 @ [event_of eng1 lf]\<rparr>)"

text \<open>Is the event fit for the response? (\<open>do_ar\<close>)\<close>

definition ar_wanted :: "'m engine_cfg \<Rightarrow> Eventinfo \<Rightarrow> active_response \<Rightarrow> bool" where
  "ar_wanted cfg ev ar \<longleftrightarrow>
     (int_bit (ar_expect ar) AR_USERNAME \<longrightarrow>
        (case OS_ARUsername ev of None \<Rightarrow> False | Some u \<Rightarrow> OS_PRegex cfg u ''^[a-zA-Z._0-9@?-]*$'')) \<and>
     (int_bit (ar_expect ar) AR_SRCIP \<longrightarrow>
        (case lf_srcip ev of None \<Rightarrow> False | Some s \<Rightarrow> OS_PRegex cfg s ''^[a-zA-Z.:_0-9-]*$'')) \<and>
     (int_bit (ar_expect ar) AR_FILENAME \<longrightarrow> lf_filename ev \<noteq> None)"

definition respond :: "'m engine_cfg \<Rightarrow> Eventinfo \<Rightarrow> int \<Rightarrow> active_response list \<Rightarrow> ar_request list" where
  "respond cfg ev sigid ars =
     filter (\<lambda>q. q \<noteq> NoRequest)
       (map (OS_Exec (ip_found (c_pton cfg)) (beyond_escapes cfg) (c_ar cfg) (lf_alert_id ev) sigid ev)
         (filter (\<lambda>ar. ar_wanted cfg ev ar \<and> execdq cfg) ars))"

definition run_responses :: "'m engine_cfg \<Rightarrow> nat \<Rightarrow> nat \<Rightarrow> 'm engine
    \<Rightarrow> 'm engine" where
  "run_responses cfg lf r eng =
     (let ars = r_ar (rule_of eng r) in
      if ars = [] then eng
      else
        let eng1 = (if lf_alert_id (event_of eng lf) = 0 then analysisd_claim_alert_id lf eng else eng)
        in eng1\<lparr>requests := requests eng1 @ respond cfg (event_of eng1 lf) (r_sigid (rule_of eng1 r)) ars\<rparr>)"

text \<open>
  Into the histories that watch the rule. The list of a signature is bounded; an event it drops
  loses its pointer there (\<open>Mark_EventNodeDelete\<close>). The lists of groups are not bounded.
\<close>

definition add_sid_history :: "'m engine_cfg \<Rightarrow> nat \<Rightarrow> nat \<Rightarrow> 'm engine
    \<Rightarrow> 'm engine" where
  "add_sid_history cfg lf r eng =
     (case r_sid_prev_matched (rule_of eng r) of
        None \<Rightarrow> eng
      | Some l \<Rightarrow>
          let (gone, xs) = list_add (sid_prev_matched_max cfg) (hist (core eng) l) lf;
              eng1 = set_hist l xs eng
          in eng1\<lparr>sid_node := (fold (\<lambda>g s. s(g := False)) gone (sid_node eng1))(lf := True)\<rparr>)"

definition add_group_history :: "nat \<Rightarrow> nat \<Rightarrow> 'm engine \<Rightarrow> 'm engine" where
  "add_group_history lf r eng =
     (let ls = r_group_prev_matched (rule_of eng r) in
      if ls = [] then eng
      else fold (\<lambda>l e. set_hist l (hist (core e) l @ [lf]) e) ls
             (eng\<lparr>group_nodes := (group_nodes eng)(lf := True)\<rparr>))"

definition OS_AddEvent :: "'m engine_cfg \<Rightarrow> nat \<Rightarrow> 'm engine \<Rightarrow> 'm engine" where
  "OS_AddEvent cfg lf eng =
     (let (stay, gone) = event_trim (max_freq cfg) (memorysize cfg) (events (core eng)) lf (elist (core eng));
          eng1 = set_event lf (\<lambda>e. e\<lparr>lf_list_retained := True\<rparr>) eng
      in fold Free_Eventinfo gone (eng1\<lparr>core := (core eng1)\<lparr>elist := stay\<rparr>\<rparr>))"

text \<open>All that happens for the rule \<open>r\<close> that fired, up to the end of the loop over the rules.\<close>

definition fire :: "'m engine_cfg \<Rightarrow> inputs \<Rightarrow> nat \<Rightarrow> nat \<Rightarrow> 'm engine
    \<Rightarrow> 'm engine" where
  "fire cfg io lf r eng =
     (if r_level (rule_of eng r) = 0 then eng
      else let (skip, eng1) = ignore_window lf r eng in
      if skip then eng1
      else
        let eng2 = set_event lf (\<lambda>e. e\<lparr>lf_generated_rule := Some r\<rparr>) eng1;
            rule = rule_of eng2 r
        in if r_ckignore rule \<noteq> 0 \<and> IGnore rule (event_of eng2 lf) (fts (ext (core eng2)))
           then set_event lf (\<lambda>e. e\<lparr>lf_generated_rule := None\<rparr>) eng2
           else
             let eng3 = (if r_ignore rule \<noteq> 0 then set_fts (AddtoIGnore rule (event_of eng2 lf)) eng2 else eng2);
                 eng4 = write_alert cfg io lf r eng3;
                 eng5 = run_responses cfg lf r eng4;
                 eng6 = add_group_history lf r (add_sid_history cfg lf r eng5)
             in OS_AddEvent cfg lf eng6)"

text \<open>
  The loop over the rules at the top level. The flag says that the function returns at once: an
  alert of the \<open>ossec-alert\<close> decoder without its rule.
\<close>

fun rules_loop :: "'m engine_cfg \<Rightarrow> inputs \<Rightarrow> nat \<Rightarrow> RuleNode list \<Rightarrow> 'm engine
    \<Rightarrow> bool \<times> 'm engine" where
  "rules_loop cfg io lf [] eng = (False, eng)"
| "rules_loop cfg io lf (n # ns) eng =
     (if di_type (lf_decoder_info (event_of eng lf)) = OSSEC_ALERT then
        (case lf_generated_rule (event_of eng lf) of
           None \<Rightarrow> (True, eng)
         | Some r \<Rightarrow> (False, fire cfg io lf r eng))
      else if r_category (rule_of eng (ruleinfo n)) \<noteq> di_type (lf_decoder_info (event_of eng lf))
      then rules_loop cfg io lf ns eng
      else
        let (res, w) = OS_CheckIfRuleMatch (rule_env cfg io) lf n (core eng); eng1 = eng\<lparr>core := w\<rparr>
        in case res of None \<Rightarrow> rules_loop cfg io lf ns eng1 | Some r \<Rightarrow> (False, fire cfg io lf r eng1))"

section \<open>analysisd\_analyze\_event\<close>

definition LastMsg_step :: "nat \<Rightarrow> 'm engine \<Rightarrow> bool \<times> 'm engine" where
  "LastMsg_step lf eng =
     (if di_type (lf_decoder_info (event_of eng lf)) = SYSLOG then
        let (seen, m) = LastMsg_Stats (flood eng) (lf_full_log (event_of eng lf)) in
        if seen then (True, eng\<lparr>flood := m\<rparr>)
        else (False, eng\<lparr>flood := LastMsg_Change m (lf_full_log (event_of eng lf))\<rparr>)
      else (False, eng))"

definition accumulate_step :: "inputs \<Rightarrow> nat \<Rightarrow> 'm engine \<Rightarrow> 'm engine" where
  "accumulate_step io lf eng =
     (if di_accumulate (lf_decoder_info (event_of eng lf)) = 1 then
        let (lf1, a) = Accumulate (now io) (event_of eng lf) (acc eng) in set_event lf (\<lambda>_. lf1) (eng\<lparr>acc := a\<rparr>)
      else eng)"

text \<open>
  The alert of the statistics: the event is lent the statistics' rule and the comment as its log,
  and gets both back. The statistical queue is taken to exist and to accept.
\<close>

definition stats_check :: "'m engine_cfg \<Rightarrow> inputs \<Rightarrow> nat \<Rightarrow> 'm engine
    \<Rightarrow> 'm engine" where
  "stats_check cfg io lf eng =
     (if \<not> cfg_stats cfg then eng
      else
        let (comment, st) = Check_Hour (crt_hour io) (crt_day io) (hourly eng); eng1 = eng\<lparr>hourly := st\<rparr> in
        case (comment, stats_rule cfg) of
          (Some c, Some r) \<Rightarrow>
            if has_bit (r_alert_opts (rule_of eng1 r)) DO_LOGALERT then
              let eng2 = analysisd_claim_alert_id lf eng1;
                  lent = (event_of eng2 lf)\<lparr>lf_generated_rule := Some r, lf_full_log := c\<rparr>;
                  (copy, eng3) = snapshot_rule_last_events lent r eng2
              in eng3\<lparr>stat_alerts := stat_alerts eng3 @ [copy]\<rparr>
            else eng1
        | _ \<Rightarrow> eng1)"

text \<open>The archive: whether the event now belongs to the writer.\<close>

definition archive :: "'m engine_cfg \<Rightarrow> inputs \<Rightarrow> nat \<Rightarrow> 'm engine
    \<Rightarrow> bool \<times> 'm engine" where
  "archive cfg io lf eng =
     (let ev = event_of eng lf; kept = eng\<lparr>archived := archived eng @ [ev]\<rparr>;
          dropped = eng\<lparr>archives_dropped := archives_dropped eng + 1\<rparr>
      in if logall cfg then
           if queue_archive cfg then
             if \<not> archive_accepted io then (False, dropped)
             else if \<not> lf_list_retained ev then (True, kept\<lparr>given := lf # given kept\<rparr>)
             else (False, kept)
           else (False, kept)
         else if logall_json cfg then (False, kept)
         else (False, eng))"

definition analysisd_analyze_event :: "'m engine_cfg \<Rightarrow> inputs \<Rightarrow> RuleNode list \<Rightarrow> nat
    \<Rightarrow> 'm engine \<Rightarrow> bool \<times> 'm engine" where
  "analysisd_analyze_event cfg io nodes lf eng =
     (let (flooded, eng1) = LastMsg_step lf eng in
      if flooded then (False, eng1)
      else
        let eng2 = stats_check cfg io lf (accumulate_step io lf eng1);
            (ends, eng3) = rules_loop cfg io lf nodes eng2
        in if ends then (False, eng3) else archive cfg io lf eng3)"

text \<open>What a process thread does with a decoded event.\<close>

definition process_event :: "'m engine_cfg \<Rightarrow> RuleNode list \<Rightarrow> inputs \<times> nat
    \<Rightarrow> 'm engine \<Rightarrow> 'm engine" where
  "process_event cfg nodes x eng =
     (let (transferred, eng1) = analysisd_analyze_event cfg (fst x) nodes (snd x) eng
      in if \<not> transferred then analysisd_finish_event (snd x) eng1 else eng1)"

section \<open>Reading what a step left\<close>

lemma engine_simps [simp]:
  "event_of (set_event lf f eng) e = (if e = lf then f (event_of eng lf) else event_of eng e)"
  "rule_of (set_event lf f eng) r = rule_of eng r"
  "event_of (set_rule r g eng) e = event_of eng e"
  "rule_of (set_rule r g eng) q = (if q = r then g (rule_of eng r) else rule_of eng q)"
  "event_of (set_hist l xs eng) e = event_of eng e" "rule_of (set_hist l xs eng) r = rule_of eng r"
  "event_of (set_fts h eng) e = event_of eng e" "rule_of (set_fts h eng) r = rule_of eng r"
  "hist (core (set_hist l xs eng)) = (hist (core eng))(l := xs)"
  by (simp_all add: event_of_def rule_of_def set_event_def set_rule_def set_hist_def set_fts_def put_event_def
      put_rule_def)

lemma set_simps [simp]:
  "hist (core (set_event lf f eng)) = hist (core eng)" "elist (core (set_event lf f eng)) = elist (core eng)"
  "hist (core (set_rule r g eng)) = hist (core eng)" "elist (core (set_rule r g eng)) = elist (core eng)"
  "elist (core (set_hist l xs eng)) = elist (core eng)"
  "hist (core (set_fts h eng)) = hist (core eng)" "elist (core (set_fts h eng)) = elist (core eng)"
  "sid_node (set_event lf f eng) = sid_node eng" "group_nodes (set_event lf f eng) = group_nodes eng"
  "sid_node (set_rule r g eng) = sid_node eng" "group_nodes (set_rule r g eng) = group_nodes eng"
  "sid_node (set_hist l xs eng) = sid_node eng" "group_nodes (set_hist l xs eng) = group_nodes eng"
  "sid_node (set_fts h eng) = sid_node eng" "group_nodes (set_fts h eng) = group_nodes eng"
  "released (set_event lf f eng) = released eng" "given (set_event lf f eng) = given eng"
  "released (set_rule r g eng) = released eng" "given (set_rule r g eng) = given eng"
  "released (set_hist l xs eng) = released eng" "given (set_hist l xs eng) = given eng"
  "released (set_fts h eng) = released eng" "given (set_fts h eng) = given eng"
  by (simp_all add: set_event_def set_rule_def set_hist_def set_fts_def put_event_def put_rule_def)

text \<open>Updates of components that \<open>event_of\<close> and \<open>rule_of\<close> do not read.\<close>

lemma update_simps [simp]:
  "event_of (eng\<lparr>flood := x_flood\<rparr>) = event_of eng" "rule_of (eng\<lparr>flood := x_flood\<rparr>) = rule_of eng"
  "event_of (eng\<lparr>acc := x_acc\<rparr>) = event_of eng" "rule_of (eng\<lparr>acc := x_acc\<rparr>) = rule_of eng"
  "event_of (eng\<lparr>hourly := x_hourly\<rparr>) = event_of eng" "rule_of (eng\<lparr>hourly := x_hourly\<rparr>) = rule_of eng"
  "event_of (eng\<lparr>sid_node := x_sid_node\<rparr>) = event_of eng" "rule_of (eng\<lparr>sid_node := x_sid_node\<rparr>) = rule_of eng"
  "event_of (eng\<lparr>group_nodes := x_group_nodes\<rparr>) = event_of eng" "rule_of (eng\<lparr>group_nodes := x_group_nodes\<rparr>) = rule_of eng"
  "event_of (eng\<lparr>next_alert_id := x_next_alert_id\<rparr>) = event_of eng" "rule_of (eng\<lparr>next_alert_id := x_next_alert_id\<rparr>) = rule_of eng"
  "event_of (eng\<lparr>alerts := x_alerts\<rparr>) = event_of eng" "rule_of (eng\<lparr>alerts := x_alerts\<rparr>) = rule_of eng"
  "event_of (eng\<lparr>stat_alerts := x_stat_alerts\<rparr>) = event_of eng" "rule_of (eng\<lparr>stat_alerts := x_stat_alerts\<rparr>) = rule_of eng"
  "event_of (eng\<lparr>alerts_dropped := x_alerts_dropped\<rparr>) = event_of eng" "rule_of (eng\<lparr>alerts_dropped := x_alerts_dropped\<rparr>) = rule_of eng"
  "event_of (eng\<lparr>requests := x_requests\<rparr>) = event_of eng" "rule_of (eng\<lparr>requests := x_requests\<rparr>) = rule_of eng"
  "event_of (eng\<lparr>archived := x_archived\<rparr>) = event_of eng" "rule_of (eng\<lparr>archived := x_archived\<rparr>) = rule_of eng"
  "event_of (eng\<lparr>archives_dropped := x_archives_dropped\<rparr>) = event_of eng" "rule_of (eng\<lparr>archives_dropped := x_archives_dropped\<rparr>) = rule_of eng"
  "event_of (eng\<lparr>given := x_given\<rparr>) = event_of eng" "rule_of (eng\<lparr>given := x_given\<rparr>) = rule_of eng"
  "event_of (eng\<lparr>released := x_released\<rparr>) = event_of eng" "rule_of (eng\<lparr>released := x_released\<rparr>) = rule_of eng"
  by (simp_all add: event_of_def rule_of_def fun_eq_iff)

lemma Accumulate_event: "\<exists>e. fst (Accumulate t lf st) = lf \<or> fst (Accumulate t lf st) = fill_event e lf"
  by (auto simp: Accumulate_def Let_def split: option.splits)

lemma fold_set_hist [simp]:
  "event_of (fold (\<lambda>l e. set_hist l (f l e) e) ls eng) = event_of eng"
  "rule_of (fold (\<lambda>l e. set_hist l (f l e) e) ls eng) = rule_of eng"
  "elist (core (fold (\<lambda>l e. set_hist l (f l e) e) ls eng)) = elist (core eng)"
  "sid_node (fold (\<lambda>l e. set_hist l (f l e) e) ls eng) = sid_node eng"
  "group_nodes (fold (\<lambda>l e. set_hist l (f l e) e) ls eng) = group_nodes eng"
  "released (fold (\<lambda>l e. set_hist l (f l e) e) ls eng) = released eng"
  "given (fold (\<lambda>l e. set_hist l (f l e) e) ls eng) = given eng"
  by (induction ls arbitrary: eng) (simp_all add: fun_eq_iff)

section \<open>A small engine for the witnesses\<close>

definition quiet_rules :: "nat \<Rightarrow> (nat, nat ListRule) RuleInfo" where
  "quiet_rules = (\<lambda>_. zero_rule)(2 := zero_rule\<lparr>r_level := 7, r_alert_opts := DO_LOGALERT, r_ignore_time := 60\<rparr>)"

definition quiet_event :: "int \<Rightarrow> Eventinfo" where
  "quiet_event t = zero_event\<lparr>lf_time := t, lf_generated_rule := Some 2,
     lf_decoder_info := (lf_decoder_info zero_event)\<lparr>di_type := OSSEC_ALERT\<rparr>\<rparr>"

definition quiet_cfg :: "nat engine_cfg" where
  "quiet_cfg = \<lparr>exec_match = (\<lambda>m s. m = length s), exec_pcre2 = (\<lambda>_ _. False), exec_regex = (\<lambda>_ _. False),
     OS_PRegex = (\<lambda>_ _. True),
     c_pton = \<lparr>pton4 = (\<lambda>_. None), pton6 = (\<lambda>_. None)\<rparr>, c_open_cdb = (\<lambda>_. None), c_lists = [], order_size = 8,
     beyond_escapes = [], c_ar = \<lparr>cfg_ar = 0, allow_list = None, hostname_allow_list = None\<rparr>,
     execdq = False, cfg_stats = False, stats_rule = None, queue_log = True, queue_archive = True, logall = True,
     logall_json = False, memorysize = 10, max_freq = 0, sid_prev_matched_max = 10\<rparr>"

definition quiet_engine :: "nat engine" where
  "quiet_engine = \<lparr>core = \<lparr>events = (\<lambda>e. quiet_event (int e)), w_rules = quiet_rules, hist = (\<lambda>_. []), elist = [],
     hourly_alerts = 0, ext = \<lparr>fts = small_fts, diffs = no_files\<rparr>\<rparr>, flood = None, acc = empty_acm, hourly = busy_stats,
     sid_node = (\<lambda>_. False), group_nodes = (\<lambda>_. False), next_alert_id = 1, alerts = [], stat_alerts = [],
     alerts_dropped = 0, requests = [], archived = [], archives_dropped = 0, given = [], released = []\<rparr>"

definition calm :: inputs where
  "calm = \<lparr>now = 0, crt_hour = 3, crt_day = 1, alert_accepted = True, archive_accepted = True\<rparr>"

definition quiet_run :: "(inputs \<times> nat) list" where
  "quiet_run = [(calm, 10), (calm, 30), (calm, 100)]"

lemma quiet_times: "list_all (\<lambda>x. lf_time (event_of quiet_engine (snd x)) \<noteq> 0) quiet_run"
  by (simp add: quiet_run_def quiet_engine_def event_of_def quiet_event_def)

end
