(* ===== verification/Ownership.thy ===== *)
theory Ownership
  imports Analyze
begin

text \<open>
  Who owns an event after \<open>analysisd_analyze_event\<close>: the event list, the archive writer, or nobody. An
  event leaves the histories of the rules before it is released. The invariant says how often each
  live event is on each history; the steps of the analysis either leave the lists alone
  (\<open>same_lists\<close>) or are followed one by one.
\<close>

section \<open>The histories hold live events only\<close>

text \<open>How often an event is on a list, by its pointers, its rule and the lists of the rule.\<close>

definition occurrences :: "'m engine \<Rightarrow> nat \<Rightarrow> nat \<Rightarrow> nat" where
  "occurrences eng e l =
     (case lf_generated_rule (event_of eng e) of
        None \<Rightarrow> 0
      | Some r \<Rightarrow>
          (if sid_node eng e \<and> r_sid_prev_matched (rule_of eng r) = Some l then 1 else 0) +
          (if group_nodes eng e then count_list (r_group_prev_matched (rule_of eng r)) l else 0))"

text \<open>The lists of signatures and of groups are different objects.\<close>

definition separate_lists :: "'m engine \<Rightarrow> bool" where
  "separate_lists eng \<longleftrightarrow>
     (\<forall>r q l. r_sid_prev_matched (rule_of eng r) = Some l \<longrightarrow> l \<notin> set (r_group_prev_matched (rule_of eng q)))"

text \<open>The histories hold the live events \<open>E\<close> as often as these know, and nothing else.\<close>

definition hist_ok :: "nat set \<Rightarrow> 'm engine \<Rightarrow> bool" where
  "hist_ok E eng \<longleftrightarrow> separate_lists eng \<and>
     (\<forall>l e. count_list (hist (core eng) l) e = (if e \<in> E then occurrences eng e l else 0)) \<and>
     (\<forall>e. e \<notin> E \<longrightarrow> \<not> sid_node eng e \<and> \<not> group_nodes eng e)"

text \<open>What a step leaves alone that only looks at the events, or works on the event \<open>lf\<close>.\<close>

definition same_lists :: "nat \<Rightarrow> 'm engine \<Rightarrow> 'm engine \<Rightarrow> bool" where
  "same_lists lf eng eng' \<longleftrightarrow>
     hist (core eng') = hist (core eng) \<and> elist (core eng') = elist (core eng) \<and>
     sid_node eng' = sid_node eng \<and> group_nodes eng' = group_nodes eng \<and>
     released eng' = released eng \<and> given eng' = given eng \<and>
     (\<forall>e. lf_list_retained (event_of eng' e) = lf_list_retained (event_of eng e)) \<and>
     (\<forall>e. e \<noteq> lf \<longrightarrow> lf_generated_rule (event_of eng' e) = lf_generated_rule (event_of eng e)) \<and>
     (\<forall>r. r_sid_prev_matched (rule_of eng' r) = r_sid_prev_matched (rule_of eng r) \<and>
        r_group_prev_matched (rule_of eng' r) = r_group_prev_matched (rule_of eng r))"

lemma same_lists_refl [simp]: "same_lists lf eng eng"
  by (simp add: same_lists_def)

lemma same_lists_trans: "same_lists lf a b \<Longrightarrow> same_lists lf b c \<Longrightarrow> same_lists lf a c"
  by (simp add: same_lists_def)

lemma same_lists_event:
  "lf_list_retained (f (event_of eng lf)) = lf_list_retained (event_of eng lf) \<Longrightarrow> same_lists lf eng (set_event lf f eng)"
  by (simp add: same_lists_def)

lemma same_lists_rule:
  "r_sid_prev_matched (g (rule_of eng r)) = r_sid_prev_matched (rule_of eng r) \<Longrightarrow>
   r_group_prev_matched (g (rule_of eng r)) = r_group_prev_matched (rule_of eng r) \<Longrightarrow>
   same_lists lf eng (set_rule r g eng)"
  by (simp add: same_lists_def)

lemma readonly_lists:
  "readonly_rule a = readonly_rule b \<Longrightarrow>
     r_sid_prev_matched a = r_sid_prev_matched b \<and> r_group_prev_matched a = r_group_prev_matched b"
  "readonly_event x = readonly_event y \<Longrightarrow>
     lf_list_retained x = lf_list_retained y \<and> lf_generated_rule x = lf_generated_rule y"
proof -
  have "r_sid_prev_matched (readonly_rule a) = r_sid_prev_matched a"
    "r_group_prev_matched (readonly_rule a) = r_group_prev_matched a" for a :: "('a, 'b) RuleInfo"
    by (simp_all add: readonly_rule_def)
  then show "readonly_rule a = readonly_rule b \<Longrightarrow>
     r_sid_prev_matched a = r_sid_prev_matched b \<and> r_group_prev_matched a = r_group_prev_matched b" by metis
  have "lf_list_retained (readonly_event x) = lf_list_retained x"
    "lf_generated_rule (readonly_event x) = lf_generated_rule x" for x by (simp_all add: readonly_event_def)
  then show "readonly_event x = readonly_event y \<Longrightarrow>
     lf_list_retained x = lf_list_retained y \<and> lf_generated_rule x = lf_generated_rule y" by metis
qed

lemma same_lists_undisturbed:
  assumes "undisturbed (core eng) w"
  shows "same_lists lf eng (eng\<lparr>core := w\<rparr>)"
proof -
  have r: "readonly_rule (w_rules w r) = readonly_rule (w_rules (core eng) r)"
    and e: "readonly_event (events w e) = readonly_event (events (core eng) e)" for r e
    using assms by (simp_all add: undisturbed_def)
  have "hist w = hist (core eng)" "elist w = elist (core eng)" using assms by (simp_all add: undisturbed_def)
  with readonly_lists(1) [OF r] readonly_lists(2) [OF e] show ?thesis
    by (simp add: same_lists_def event_of_def rule_of_def)
qed

lemma same_lists_count: "same_lists lf eng (eng\<lparr>core := count_alert r (core eng)\<rparr>)"
  by (simp add: same_lists_def event_of_def rule_of_def count_alert_def put_rule_def)

lemma same_lists_match:
  assumes "OS_CheckIfRuleMatch env lf n (core eng) = (res, w)"
  shows "same_lists lf eng (eng\<lparr>core := w\<rparr>)"
proof (cases res)
  case None
  with check_outcome(1) [OF assms] show ?thesis by (simp add: outcome_ok_def same_lists_undisturbed)
next
  case (Some r)
  with check_outcome(1) [OF assms] obtain w1 where w1: "undisturbed (core eng) w1" "w = count_alert r w1"
    by (auto simp: outcome_ok_def)
  have "same_lists lf (eng\<lparr>core := w1\<rparr>) (eng\<lparr>core := w\<rparr>)"
    using same_lists_count [of lf "eng\<lparr>core := w1\<rparr>" r] w1(2) by simp
  with same_lists_undisturbed [OF w1(1)] show ?thesis by (rule same_lists_trans)
qed

lemma LastMsg_step_same: "LastMsg_step lf eng = (b, eng') \<Longrightarrow> same_lists lf eng eng'"
  by (auto simp: LastMsg_step_def same_lists_def split: if_splits prod.splits)

lemma fill_event_keeps [simp]:
  "lf_list_retained (fill_event e lf) = lf_list_retained lf" "lf_generated_rule (fill_event e lf) = lf_generated_rule lf"
  by (simp_all add: fill_event_def)

lemma accumulate_step_same: "same_lists lf eng (accumulate_step io lf eng)"
proof (cases "di_accumulate (lf_decoder_info (event_of eng lf)) = 1")
  case True
  obtain lf1 a where A: "Accumulate (now io) (event_of eng lf) (acc eng) = (lf1, a)" by force
  from Accumulate_event [of "now io" "event_of eng lf" "acc eng"] A
  have "lf_list_retained lf1 = lf_list_retained (event_of eng lf)" by auto
  with True A show ?thesis by (simp add: accumulate_step_def same_lists_def)
qed (simp add: accumulate_step_def)

lemma claim_same: "same_lists lf eng (analysisd_claim_alert_id lf eng)"
  by (simp add: analysisd_claim_alert_id_def same_lists_def)

lemma Move_keeps:
  "OS_MoveRuleLastEvents rule dst = (rule1, dst1) \<Longrightarrow>
   r_sid_prev_matched rule1 = r_sid_prev_matched rule \<and> r_group_prev_matched rule1 = r_group_prev_matched rule"
  using readonly_lists(1) [of rule1 rule] readonly_set_last(5) [of rule dst] by simp

lemma snapshot_same:
  assumes "snapshot_rule_last_events dst r eng = (dst1, eng')"
  shows "same_lists lf eng eng'"
proof -
  obtain rule1 d where m: "OS_MoveRuleLastEvents (rule_of eng r) dst = (rule1, d)" by force
  have "same_lists lf eng (set_rule r (\<lambda>_. rule1) eng)"
    using Move_keeps [OF m] by (intro same_lists_rule) auto
  with assms m show ?thesis by (auto simp: snapshot_rule_last_events_def Let_def split: if_splits)
qed

lemma write_alert_same: "same_lists lf eng (write_alert cfg io lf r eng)"
proof (cases "has_bit (r_alert_opts (rule_of eng r)) DO_LOGALERT \<and> queue_log cfg")
  case True
  let ?e1 = "analysisd_claim_alert_id lf eng"
  obtain c e2 where s: "snapshot_rule_last_events (event_of ?e1 lf) r ?e1 = (c, e2)" by force
  have "same_lists lf eng e2" using same_lists_trans [OF claim_same snapshot_same [OF s]] .
  moreover have "same_lists lf e2 (write_alert cfg io lf r eng)"
    using True s by (simp add: write_alert_def Let_def same_lists_def)
  ultimately show ?thesis by (rule same_lists_trans)
next
  case False
  then show ?thesis
    by (auto simp: write_alert_def Let_def analysisd_claim_alert_id_def same_lists_def)
qed

lemma run_responses_same: "same_lists lf eng (run_responses cfg lf r eng)"
  by (auto simp: run_responses_def Let_def analysisd_claim_alert_id_def same_lists_def)

lemma stats_check_same: "same_lists lf eng (stats_check cfg io lf eng)"
proof -
  obtain c st where h: "Check_Hour (crt_hour io) (crt_day io) (hourly eng) = (c, st)" by force
  let ?e1 = "eng\<lparr>hourly := st\<rparr>" and ?e2 = "analysisd_claim_alert_id lf (eng\<lparr>hourly := st\<rparr>)"
  have e1: "same_lists lf eng ?e1" by (simp add: same_lists_def)
  have "same_lists lf eng e3" if "snapshot_rule_last_events x r ?e2 = (y, e3)" for x r y e3
    using same_lists_trans [OF e1 same_lists_trans [OF claim_same snapshot_same [OF that]]] .
  moreover have "same_lists lf e3 (e3\<lparr>stat_alerts := z\<rparr>)" for e3 :: "'a engine" and z
    by (simp add: same_lists_def)
  moreover note same_lists_trans
  ultimately have "same_lists lf eng (e3\<lparr>stat_alerts := z\<rparr>)"
    if "snapshot_rule_last_events x r ?e2 = (y, e3)" for x r y e3 z
    using that by blast
  with e1 h show ?thesis
    by (auto simp: stats_check_def Let_def split: option.splits prod.splits)
qed

lemma ignore_window_same: "ignore_window lf r eng = (b, eng') \<Longrightarrow> same_lists lf eng eng'"
  by (auto simp: ignore_window_def Let_def same_lists_rule split: if_splits)

lemma archive_same:
  "archive cfg io lf eng = (b, eng') \<Longrightarrow> hist (core eng') = hist (core eng) \<and> core eng' = core eng \<and>
     sid_node eng' = sid_node eng \<and> group_nodes eng' = group_nodes eng \<and> released eng' = released eng \<and>
     given eng' = (if b then lf # given eng else given eng) \<and>
     (b \<longrightarrow> \<not> lf_list_retained (event_of eng lf))"
  by (auto simp: archive_def Let_def split: if_splits)

subsection \<open>The invariant, step by step\<close>

lemma hist_okD:
  "hist_ok E eng \<Longrightarrow> count_list (hist (core eng) l) e = (if e \<in> E then occurrences eng e l else 0)"
  "hist_ok E eng \<Longrightarrow> e \<notin> E \<Longrightarrow> \<not> sid_node eng e \<and> \<not> group_nodes eng e"
  "hist_ok E eng \<Longrightarrow> separate_lists eng"
  by (simp_all add: hist_ok_def)

lemma hist_live: "hist_ok E eng \<Longrightarrow> set (hist (core eng) l) \<subseteq> E"
proof
  fix e
  assume H: "hist_ok E eng" and "e \<in> set (hist (core eng) l)"
  then have "count_list (hist (core eng) l) e \<noteq> 0" by (simp add: count_list_0_iff)
  then show "e \<in> E" using hist_okD(1) [OF H, of l e] by (auto split: if_splits)
qed

lemma occurrences_same:
  "same_lists lf eng eng' \<Longrightarrow> e \<noteq> lf \<Longrightarrow> occurrences eng' e l = occurrences eng e l"
  by (simp add: same_lists_def occurrences_def split: option.split)

lemma hist_ok_same: "hist_ok E eng \<Longrightarrow> same_lists lf eng eng' \<Longrightarrow> lf \<notin> E \<Longrightarrow> hist_ok E eng'"
proof -
  assume H: "hist_ok E eng" and S: "same_lists lf eng eng'" and "lf \<notin> E"
  then have "(if e \<in> E then occurrences eng' e l else 0) = (if e \<in> E then occurrences eng e l else 0)" for e l
    using occurrences_same [OF S, of e l] by auto
  moreover have "separate_lists eng' = separate_lists eng" using S by (simp add: separate_lists_def same_lists_def)
  moreover have "hist (core eng') = hist (core eng)" "sid_node eng' = sid_node eng" "group_nodes eng' = group_nodes eng"
    using S by (simp_all add: same_lists_def)
  ultimately show ?thesis using H by (simp add: hist_ok_def)
qed

text \<open>A new event is live before it is on any list.\<close>

lemma hist_ok_insert:
  assumes "hist_ok E eng" "lf \<notin> E"
  shows "hist_ok (insert lf E) eng"
proof -
  have "occurrences eng lf l = 0" for l
    using hist_okD(2) [OF assms] by (simp add: occurrences_def split: option.split)
  with assms show ?thesis by (auto simp: hist_ok_def)
qed

lemma count_remove1: "count_list (remove1 x xs) y = (if x = y then count_list xs y - 1 else count_list xs y)"
  by (induction xs) (auto simp: count_notin)

text \<open>Appending to, and removing from, the lists of the groups.\<close>

lemma fold_append_hist:
  "count_list (hist (core (fold (\<lambda>l e. set_hist l (hist (core e) l @ [lf]) e) ls eng)) k) x =
     count_list (hist (core eng) k) x + (if x = lf then count_list ls k else 0)"
  by (induction ls arbitrary: eng) auto

lemma fold_remove_hist:
  "count_list (hist (core (fold (\<lambda>l e. set_hist l (remove1 lf (hist (core e) l)) e) ls eng)) k) x =
     count_list (hist (core eng) k) x - (if x = lf then count_list ls k else 0)"
  by (induction ls arbitrary: eng) (auto simp: count_remove1)

lemma add_group_ok:
  assumes H: "hist_ok E eng" and lf: "lf \<in> E" "lf_generated_rule (event_of eng lf) = Some r" "\<not> group_nodes eng lf"
  shows "hist_ok E (add_group_history lf r eng)"
proof (cases "r_group_prev_matched (rule_of eng r) = []")
  case False
  let ?eng' = "add_group_history lf r eng" and ?ls = "r_group_prev_matched (rule_of eng r)"
  have e: "?eng' = fold (\<lambda>l e. set_hist l (hist (core e) l @ [lf]) e) ?ls
      (eng\<lparr>group_nodes := (group_nodes eng)(lf := True)\<rparr>)"
    using False by (simp add: add_group_history_def Let_def)
  have o: "occurrences ?eng' x l = occurrences eng x l + (if x = lf then count_list ?ls l else 0)" for x l
    using lf by (auto simp: occurrences_def e split: option.split)
  have c: "count_list (hist (core ?eng') l) x = count_list (hist (core eng) l) x + (if x = lf then count_list ?ls l else 0)"
    for l x by (simp add: e fold_append_hist)
  have "separate_lists ?eng'" using hist_okD(3) [OF H] by (simp add: e separate_lists_def)
  moreover have "\<not> sid_node ?eng' x \<and> \<not> group_nodes ?eng' x" if "x \<notin> E" for x
    using hist_okD(2) [OF H that] that lf(1) by (auto simp: e)
  ultimately show ?thesis using hist_okD(1) [OF H] lf(1) by (auto simp: hist_ok_def o c)
qed (use H in \<open>simp add: add_group_history_def\<close>)

lemma add_sid_ok:
  assumes H: "hist_ok E eng" and lf: "lf \<in> E" "lf_generated_rule (event_of eng lf) = Some r" "\<not> sid_node eng lf"
    and m: "1 < sid_prev_matched_max cfg"
  shows "hist_ok E (add_sid_history cfg lf r eng)"
proof (cases "r_sid_prev_matched (rule_of eng r)")
  case (Some l)
  let ?eng' = "add_sid_history cfg lf r eng" and ?h = "hist (core eng) l"
  obtain gone xs where a: "list_add (sid_prev_matched_max cfg) ?h lf = (gone, xs)" by force
  note S = hist_okD(3) [OF H]
  have e: "?eng' = (set_hist l xs eng)\<lparr>sid_node := (fold (\<lambda>g s. s(g := False)) gone (sid_node eng))(lf := True)\<rparr>"
    using Some a by (simp add: add_sid_history_def Let_def)
  have lf0: "count_list ?h lf = 0"
    using hist_okD(1) [OF H, of l lf] lf S Some by (auto simp: occurrences_def separate_lists_def count_list_0_iff)
  have H': "hist (core ?eng') = (hist (core eng))(l := xs)" by (simp add: e)
  have G: "group_nodes ?eng' = group_nodes eng" "event_of ?eng' = event_of eng" "rule_of ?eng' = rule_of eng"
    by (simp_all add: e fun_eq_iff)
  have "gone = [] \<and> xs = ?h @ [lf] \<or> (\<exists>g ys. ?h = g # ys \<and> gone = [g] \<and> xs = ys @ [lf])"
    using a m by (cases ?h) (auto simp: list_add_def split: if_splits)
  then show ?thesis
  proof (elim disjE exE conjE)
    assume g: "gone = []" "xs = ?h @ [lf]"
    have "occurrences ?eng' x k = occurrences eng x k + (if x = lf \<and> k = l then 1 else 0)" for x k
      using lf Some g by (auto simp: occurrences_def G e split: option.split)
    moreover have "count_list (hist (core ?eng') k) x = count_list (hist (core eng) k) x + (if x = lf \<and> k = l then 1 else 0)" for x k
      by (simp add: H' g)
    ultimately show ?thesis using H lf(1) by (auto simp: hist_ok_def G separate_lists_def e g)
  next
    fix g ys
    assume g: "?h = g # ys" "gone = [g]" "xs = ys @ [lf]"
    have ne: "g \<noteq> lf" using lf0 g(1) by auto
    have "g \<in> E" using hist_live [OF H, of l] g(1) by auto
    with hist_okD(1) [OF H, of l g] g(1) have "occurrences eng g l \<noteq> 0" by auto
    then obtain q where q: "lf_generated_rule (event_of eng g) = Some q" "sid_node eng g"
      "r_sid_prev_matched (rule_of eng q) = Some l"
      using S Some by (auto simp: occurrences_def separate_lists_def count_list_0_iff split: option.splits if_splits)
    have "occurrences ?eng' x k + (if x = g \<and> k = l then 1 else 0) =
        occurrences eng x k + (if x = lf \<and> k = l then 1 else 0)" for x k
      using lf Some g ne q by (auto simp: occurrences_def G e split: option.split)
    moreover have "count_list (hist (core ?eng') k) x + (if x = g \<and> k = l then 1 else 0) =
        count_list (hist (core eng) k) x + (if x = lf \<and> k = l then 1 else 0)" for x k
      using g by (simp add: H')
    ultimately have "count_list (hist (core ?eng') k) x = (if x \<in> E then occurrences ?eng' x k else 0)" for x k
      using hist_okD(1) [OF H, of k x] \<open>g \<in> E\<close> lf(1) by (smt (verit) add_right_cancel)
    then show ?thesis using H lf(1) by (auto simp: hist_ok_def G separate_lists_def e g)
  qed
qed (use H in \<open>simp add: add_sid_history_def\<close>)

text \<open>What freeing an event leaves alone, and what it does to the lists.\<close>

lemma unlink_keeps [simp]:
  "event_of (unlink_sid lf eng) = event_of eng" "rule_of (unlink_sid lf eng) = rule_of eng"
  "event_of (unlink_groups lf eng) = event_of eng" "rule_of (unlink_groups lf eng) = rule_of eng"
  "elist (core (unlink_sid lf eng)) = elist (core eng)" "elist (core (unlink_groups lf eng)) = elist (core eng)"
  "released (unlink_sid lf eng) = released eng" "released (unlink_groups lf eng) = released eng"
  "given (unlink_sid lf eng) = given eng" "given (unlink_groups lf eng) = given eng"
  "sid_node (unlink_sid lf eng) = (sid_node eng)(lf := False)" "group_nodes (unlink_sid lf eng) = group_nodes eng"
  "group_nodes (unlink_groups lf eng) = (group_nodes eng)(lf := False)" "sid_node (unlink_groups lf eng) = sid_node eng"
  by (auto simp: unlink_sid_def unlink_groups_def fun_eq_iff split: option.splits)

lemma Free_keeps [simp]:
  "event_of (Free_Eventinfo lf eng) = event_of eng" "rule_of (Free_Eventinfo lf eng) = rule_of eng"
  "elist (core (Free_Eventinfo lf eng)) = elist (core eng)" "given (Free_Eventinfo lf eng) = given eng"
  "released (Free_Eventinfo lf eng) = lf # released eng"
  "sid_node (Free_Eventinfo lf eng) = (sid_node eng)(lf := False)"
  "group_nodes (Free_Eventinfo lf eng) = (group_nodes eng)(lf := False)"
  by (simp_all add: Free_Eventinfo_def Let_def)

lemma unlink_sid_count:
  "count_list (hist (core (unlink_sid lf eng)) l) x = count_list (hist (core eng) l) x -
     (if x = lf \<and> sid_node eng lf \<and> (\<exists>r. lf_generated_rule (event_of eng lf) = Some r \<and>
         r_sid_prev_matched (rule_of eng r) = Some l) then 1 else 0)"
  by (auto simp: unlink_sid_def count_remove1 split: option.splits)

lemma unlink_groups_count:
  "count_list (hist (core (unlink_groups lf eng)) l) x = count_list (hist (core eng) l) x -
     (case lf_generated_rule (event_of eng lf) of
        None \<Rightarrow> 0
      | Some r \<Rightarrow> if x = lf \<and> group_nodes eng lf then count_list (r_group_prev_matched (rule_of eng r)) l else 0)"
  by (auto simp: unlink_groups_def fold_remove_hist split: option.splits)

lemma Free_ok:
  assumes H: "hist_ok E eng"
  shows "hist_ok (E - {lf}) (Free_Eventinfo lf eng)"
proof -
  let ?eng' = "Free_Eventinfo lf eng"
  have c: "count_list (hist (core ?eng') l) x = count_list (hist (core eng) l) x - (if x = lf then occurrences eng lf l else 0)"
    for l x
    by (auto simp: Free_Eventinfo_def Let_def unlink_groups_count unlink_sid_count occurrences_def split: option.split)
  have o: "occurrences ?eng' x l = occurrences eng x l" if "x \<noteq> lf" for x l
    using that by (simp add: occurrences_def split: option.split)
  have "count_list (hist (core ?eng') l) x = (if x \<in> E - {lf} then occurrences ?eng' x l else 0)" for x l
    using hist_okD(1) [OF H, of l x] o [of x l] hist_okD(2) [OF H, of lf] by (cases "x = lf") (auto simp: c)
  moreover have "separate_lists ?eng'" using hist_okD(3) [OF H] by (simp add: separate_lists_def)
  ultimately show ?thesis using hist_okD(2) [OF H] by (auto simp: hist_ok_def)
qed

lemma fold_Free:
  "hist_ok E eng \<Longrightarrow> hist_ok (E - set gone) (fold Free_Eventinfo gone eng) \<and>
   event_of (fold Free_Eventinfo gone eng) = event_of eng \<and>
   elist (core (fold Free_Eventinfo gone eng)) = elist (core eng) \<and>
   rule_of (fold Free_Eventinfo gone eng) = rule_of eng \<and>
   given (fold Free_Eventinfo gone eng) = given eng \<and>
   released (fold Free_Eventinfo gone eng) = rev gone @ released eng"
proof (induction gone arbitrary: E eng)
  case (Cons g gone)
  have d: "E - {g} - set gone = E - set (g # gone)" by auto
  from Cons.IH [OF Free_ok [OF Cons.prems, of g]] show ?case unfolding d by simp
qed simp

text \<open>
  The events between runs: those of the event list are live, marked as kept, and every event has
  one owner, the list, the archive writer or nobody any more.
\<close>

definition owners :: "'m engine \<Rightarrow> nat list" where
  "owners eng = elist (core eng) @ released eng @ given eng"

definition engine_ok :: "'m engine \<Rightarrow> bool" where
  "engine_ok eng \<longleftrightarrow> hist_ok (set (elist (core eng))) eng \<and> distinct (owners eng) \<and>
     (\<forall>e\<in>set (elist (core eng)). lf_list_retained (event_of eng e))"

definition unseen :: "nat \<Rightarrow> 'm engine \<Rightarrow> bool" where
  "unseen lf eng \<longleftrightarrow> lf \<notin> set (owners eng) \<and> \<not> lf_list_retained (event_of eng lf)"

definition cfg_ok :: "'m engine_cfg \<Rightarrow> bool" where
  "cfg_ok cfg \<longleftrightarrow> 10 \<le> memorysize cfg \<and> 0 \<le> max_freq cfg \<and> 1 < sid_prev_matched_max cfg"

lemma engine_ok_same:
  assumes "engine_ok eng" "same_lists lf eng eng'" "unseen lf eng"
  shows "engine_ok eng' \<and> owners eng' = owners eng \<and> unseen lf eng'"
proof -
  have lf: "lf \<notin> set (elist (core eng))" using assms(3) by (simp add: unseen_def owners_def)
  have E: "elist (core eng') = elist (core eng)" "owners eng' = owners eng"
    using assms(2) by (simp_all add: same_lists_def owners_def)
  have "hist_ok (set (elist (core eng))) eng'"
    using hist_ok_same [OF _ assms(2) lf] assms(1) by (simp add: engine_ok_def)
  moreover have "lf_list_retained (event_of eng' e) = lf_list_retained (event_of eng e)" for e
    using assms(2) by (simp add: same_lists_def)
  ultimately show ?thesis using assms(1,3) E by (simp add: engine_ok_def unseen_def)
qed

text \<open>The outcome for the event: kept in the list, or as it came.\<close>

definition step_ok :: "nat \<Rightarrow> 'm engine \<Rightarrow> 'm engine \<Rightarrow> bool" where
  "step_ok lf eng eng' \<longleftrightarrow> engine_ok eng' \<and>
     (\<forall>e. e \<noteq> lf \<longrightarrow> lf_list_retained (event_of eng' e) = lf_list_retained (event_of eng e)) \<and>
     (unseen lf eng' \<and> mset (owners eng') = mset (owners eng) \<or>
      lf_list_retained (event_of eng' lf) \<and> mset (owners eng') = add_mset lf (mset (owners eng)))"

lemma same_step_ok: "engine_ok eng \<Longrightarrow> unseen lf eng \<Longrightarrow> same_lists lf eng eng' \<Longrightarrow> step_ok lf eng eng'"
  using engine_ok_same [of eng lf eng'] by (auto simp: step_ok_def same_lists_def)

lemma step_ok_after:
  "same_lists lf eng eng1 \<Longrightarrow> engine_ok eng \<Longrightarrow> unseen lf eng \<Longrightarrow> step_ok lf eng1 eng' \<Longrightarrow> step_ok lf eng eng'"
  using engine_ok_same [of eng lf eng1] by (auto simp: step_ok_def same_lists_def)

lemma keeps_newest:
  assumes "10 \<le> m" "0 \<le> mf" "event_trim mf m evs lf xs = (stay, gone)"
  shows "lf \<notin> set gone \<or> lf \<in> set xs"
proof (cases "int (length xs) + 1 > m")
  case True
  let ?old = "\<lambda>y. lf_time (evs lf) - lf_time (evs y) > mf"
  let ?d = "drop 10 (rev (lf # xs))"
  have "10 \<le> length (rev xs)" using True assms(1) by simp
  then have "?d = drop 10 (rev xs) @ [lf]" by simp
  moreover have "\<not> ?old lf" using assms(2) by simp
  ultimately have "dropWhile ?old ?d \<noteq> [] \<and> last (dropWhile ?old ?d) = lf"
    by (auto simp: dropWhile_append)
  then have "stay \<noteq> []" using True assms(3) by (auto simp: event_trim_def Let_def)
  then obtain s ss where "stay = s # ss" by (cases stay) auto
  with event_trim_parts [OF assms(3)] show ?thesis by auto
next
  case False
  with assms(3) show ?thesis by (auto simp: event_trim_def Let_def)
qed

text \<open>The end of a rule that fired: histories, then the event list.\<close>

lemma histories_ok:
  assumes H: "hist_ok E eng" and lf: "lf \<notin> E" "lf_generated_rule (event_of eng lf) = Some r"
    and m: "1 < sid_prev_matched_max cfg"
  shows "hist_ok (insert lf E) (add_group_history lf r (add_sid_history cfg lf r eng))"
proof -
  note n = hist_okD(2) [OF H lf(1)]
  let ?e1 = "add_sid_history cfg lf r eng"
  have "hist_ok (insert lf E) ?e1"
    by (rule add_sid_ok [OF hist_ok_insert [OF H lf(1)] _ lf(2) _ m]) (use n in auto)
  moreover have "event_of ?e1 = event_of eng" "group_nodes ?e1 = group_nodes eng"
    by (auto simp: add_sid_history_def Let_def fun_eq_iff split: option.splits prod.splits)
  ultimately show ?thesis using n lf(2) by (intro add_group_ok) auto
qed

lemma histories_keep:
  "event_of (add_group_history lf r (add_sid_history cfg lf r eng)) = event_of eng \<and>
   elist (core (add_group_history lf r (add_sid_history cfg lf r eng))) = elist (core eng) \<and>
   released (add_group_history lf r (add_sid_history cfg lf r eng)) = released eng \<and>
   given (add_group_history lf r (add_sid_history cfg lf r eng)) = given eng"
  by (auto simp: add_group_history_def add_sid_history_def Let_def fun_eq_iff split: option.splits prod.splits)

lemma OS_AddEvent_ok:
  assumes H: "hist_ok (insert lf (set (elist (core eng)))) eng" and c: "cfg_ok cfg"
    and d: "distinct (owners eng)" "lf \<notin> set (owners eng)"
    and r: "\<forall>e\<in>set (elist (core eng)). lf_list_retained (event_of eng e)"
  shows "engine_ok (OS_AddEvent cfg lf eng) \<and>
    mset (owners (OS_AddEvent cfg lf eng)) = add_mset lf (mset (owners eng)) \<and>
    (\<forall>e. lf_list_retained (event_of (OS_AddEvent cfg lf eng) e) \<longleftrightarrow> e = lf \<or> lf_list_retained (event_of eng e))"
proof -
  obtain stay gone where t: "event_trim (max_freq cfg) (memorysize cfg) (events (core eng)) lf (elist (core eng)) = (stay, gone)"
    by force
  note P = event_trim_parts [OF t]
  let ?e1 = "set_event lf (\<lambda>e. e\<lparr>lf_list_retained := True\<rparr>) eng"
  let ?e2 = "?e1\<lparr>core := (core ?e1)\<lparr>elist := stay\<rparr>\<rparr>"
  have e2: "OS_AddEvent cfg lf eng = fold Free_Eventinfo gone ?e2"
    using t unfolding OS_AddEvent_def by (simp only: Let_def prod.case)
  have ev: "event_of ?e2 = (event_of eng)(lf := (event_of eng lf)\<lparr>lf_list_retained := True\<rparr>)" "rule_of ?e2 = rule_of eng"
    by (auto simp: event_of_def rule_of_def set_event_def put_event_def)
  have "occurrences ?e2 x l = occurrences eng x l" for x l
    by (simp add: occurrences_def ev split: option.split)
  with H have "hist_ok (insert lf (set (elist (core eng)))) ?e2" by (simp add: hist_ok_def separate_lists_def ev)
  note F = fold_Free [OF this, of gone]
  have E: "insert lf (set (elist (core eng))) = set stay \<union> set gone" using arg_cong [OF P, of set] by auto
  have D: "distinct (stay @ gone)" using d P by (simp add: owners_def)
  have "lf \<notin> set gone" using keeps_newest [OF _ _ t] c d(2) by (auto simp: cfg_ok_def owners_def)
  let ?eng' = "OS_AddEvent cfg lf eng"
  have O: "elist (core ?eng') = stay" "released ?eng' = rev gone @ released eng" "given ?eng' = given eng"
    "event_of ?eng' = event_of ?e2" using F by (simp_all add: e2)
  have "insert lf (set (elist (core eng))) - set gone = set stay" using E D by auto
  then have "hist_ok (set stay) ?eng'" using F by (simp add: e2)
  moreover have M: "mset (owners ?eng') = add_mset lf (mset (owners eng))"
    using arg_cong [OF P, of mset] by (simp add: owners_def O)
  moreover have "distinct (owners ?eng')"
  proof -
    have "mset (owners ?eng') = mset (lf # owners eng)" using M by simp
    then have "distinct (owners ?eng') = distinct (lf # owners eng)" by (rule mset_eq_imp_distinct_iff)
    then show ?thesis using d by simp
  qed
  moreover have R: "lf_list_retained (event_of ?eng' e) \<longleftrightarrow> e = lf \<or> lf_list_retained (event_of eng e)" for e
    by (simp add: O ev)
  moreover have "\<forall>e\<in>set stay. lf_list_retained (event_of ?eng' e)"
    using R r E by blast
  ultimately show ?thesis by (simp add: engine_ok_def O)
qed

lemma fire_ok:
  assumes e: "engine_ok eng" and u: "unseen lf eng" and c: "cfg_ok cfg"
  shows "step_ok lf eng (fire cfg io lf r eng)"
proof (cases "r_level (rule_of eng r) = 0")
  case True
  with same_step_ok [OF e u, of eng] show ?thesis by (simp add: fire_def)
next
  case False
  obtain skip eng1 where w: "ignore_window lf r eng = (skip, eng1)" by force
  note S1 = ignore_window_same [OF w]
  let ?e2 = "set_event lf (\<lambda>e. e\<lparr>lf_generated_rule := Some r\<rparr>) eng1"
  have S2: "same_lists lf eng ?e2" by (rule same_lists_trans [OF S1 same_lists_event]) simp
  let ?ign = "r_ckignore (rule_of ?e2 r) \<noteq> 0 \<and> IGnore (rule_of ?e2 r) (event_of ?e2 lf) (fts (ext (core ?e2)))"
  let ?e3 = "if r_ignore (rule_of ?e2 r) \<noteq> 0 then set_fts (AddtoIGnore (rule_of ?e2 r) (event_of ?e2 lf)) ?e2 else ?e2"
  let ?e5 = "run_responses cfg lf r (write_alert cfg io lf r ?e3)"
  have S3: "same_lists lf ?e2 ?e3 \<and> event_of ?e3 lf = event_of ?e2 lf" by (simp add: same_lists_def)
  have S5: "same_lists lf eng ?e5"
    using same_lists_trans [OF S2 same_lists_trans [OF conjunct1 [OF S3] same_lists_trans [OF write_alert_same run_responses_same]]] .
  have g5: "lf_generated_rule (event_of ?e5 lf) = Some r"
    by (simp add: run_responses_def write_alert_def snapshot_rule_last_events_def analysisd_claim_alert_id_def Let_def
        split: prod.split)
  consider "skip" | "\<not> skip" "?ign" | "\<not> skip" "\<not> ?ign" by blast
  then show ?thesis
  proof cases
    case 1
    with False w have "fire cfg io lf r eng = eng1" by (simp add: fire_def)
    with same_step_ok [OF e u S1] show ?thesis by simp
  next
    case 2
    with False w have f: "fire cfg io lf r eng = set_event lf (\<lambda>e. e\<lparr>lf_generated_rule := None\<rparr>) ?e2"
      by (simp add: fire_def Let_def)
    have "same_lists lf eng (fire cfg io lf r eng)" unfolding f by (rule same_lists_trans [OF S2 same_lists_event]) simp
    with same_step_ok [OF e u] show ?thesis by blast
  next
    case 3
    have "fire cfg io lf r eng = OS_AddEvent cfg lf (add_group_history lf r (add_sid_history cfg lf r ?e5))"
      using 3 False w unfolding fire_def by (simp only: Let_def prod.case if_False)
    with S5 g5 obtain e5 where f: "fire cfg io lf r eng =
        OS_AddEvent cfg lf (add_group_history lf r (add_sid_history cfg lf r e5))"
      and S: "same_lists lf eng e5" and g: "lf_generated_rule (event_of e5 lf) = Some r" by blast
    define e6 where "e6 = add_group_history lf r (add_sid_history cfg lf r e5)"
    note E5 = engine_ok_same [OF e S u]
    have K: "event_of e6 = event_of e5" "owners e6 = owners e5" "elist (core e6) = elist (core e5)"
      using histories_keep [of lf r cfg e5] by (simp_all add: owners_def e6_def)
    have "lf \<notin> set (elist (core e5))" using E5 by (simp add: unseen_def owners_def)
    from histories_ok [OF _ this g] c E5
    have "hist_ok (insert lf (set (elist (core e6)))) e6" unfolding K by (simp add: engine_ok_def cfg_ok_def e6_def)
    moreover have "distinct (owners e6)" "lf \<notin> set (owners e6)" "\<forall>x\<in>set (elist (core e6)). lf_list_retained (event_of e6 x)"
      using E5 K by (auto simp: engine_ok_def unseen_def)
    moreover note OS_AddEvent_ok [of lf e6 cfg]
    ultimately have A: "engine_ok (OS_AddEvent cfg lf e6) \<and> mset (owners (OS_AddEvent cfg lf e6)) = add_mset lf (mset (owners e5)) \<and>
      (\<forall>e. lf_list_retained (event_of (OS_AddEvent cfg lf e6) e) \<longleftrightarrow> e = lf \<or> lf_list_retained (event_of e5 e))"
      using c K by simp
    have "lf_list_retained (event_of e5 x) = lf_list_retained (event_of eng x)" for x
      using S by (simp add: same_lists_def)
    with A E5 show ?thesis unfolding f e6_def [symmetric] step_ok_def by simp
  qed
qed

lemma rules_loop_ok:
  "engine_ok eng \<Longrightarrow> unseen lf eng \<Longrightarrow> cfg_ok cfg \<Longrightarrow> rules_loop cfg io lf ns eng = (ends, eng') \<Longrightarrow>
   step_ok lf eng eng'"
proof (induction ns arbitrary: eng)
  case Nil
  then show ?case using same_step_ok [of eng lf eng] by simp
next
  case (Cons n ns)
  note F = fire_ok [OF Cons.prems(1-3), of io]
  note I = same_step_ok [OF Cons.prems(1,2), of eng, simplified]
  obtain res w where m: "OS_CheckIfRuleMatch (rule_env cfg io) lf n (core eng) = (res, w)" by force
  note S = same_lists_match [OF m]
  note E1 = engine_ok_same [OF Cons.prems(1) S Cons.prems(2)]
  have A: "step_ok lf (eng\<lparr>core := w\<rparr>) e \<Longrightarrow> step_ok lf eng e" for e
    using step_ok_after [OF S Cons.prems(1,2)] .
  consider "di_type (lf_decoder_info (event_of eng lf)) = OSSEC_ALERT"
    | "di_type (lf_decoder_info (event_of eng lf)) \<noteq> OSSEC_ALERT"
      "r_category (rule_of eng (ruleinfo n)) \<noteq> di_type (lf_decoder_info (event_of eng lf))"
    | "di_type (lf_decoder_info (event_of eng lf)) \<noteq> OSSEC_ALERT"
      "r_category (rule_of eng (ruleinfo n)) = di_type (lf_decoder_info (event_of eng lf))" by blast
  then show ?case
  proof cases
    case 1
    with Cons.prems(4) F I show ?thesis by (cases "lf_generated_rule (event_of eng lf)") auto
  next
    case 2
    with Cons.prems Cons.IH [of eng] show ?thesis by simp
  next
    case 3
    show ?thesis
    proof (cases res)
      case None
      with 3 m Cons.prems(4) have "rules_loop cfg io lf ns (eng\<lparr>core := w\<rparr>) = (ends, eng')" by simp
      from A [OF Cons.IH [OF _ _ Cons.prems(3) this]] E1 show ?thesis by blast
    next
      case (Some r)
      with 3 m Cons.prems(4) have "eng' = fire cfg io lf r (eng\<lparr>core := w\<rparr>)" by simp
      with A [OF fire_ok [OF _ _ Cons.prems(3)]] E1 show ?thesis by blast
    qed
  qed
qed

lemma archive_ok:
  assumes "step_ok lf eng0 eng" "archive cfg io lf eng = (b, eng')"
  shows "engine_ok eng' \<and> event_of eng' = event_of eng \<and>
    (if b then unseen lf eng \<and> owners eng' = elist (core eng) @ released eng @ lf # given eng
     else owners eng' = owners eng)"
proof -
  note A = archive_same [OF assms(2)]
  have ev: "event_of eng' = event_of eng" "rule_of eng' = rule_of eng" using A by (simp_all add: event_of_def rule_of_def fun_eq_iff)
  have "occurrences eng' x l = occurrences eng x l" for x l
    using A by (simp add: occurrences_def ev split: option.split)
  then have "hist_ok (set (elist (core eng'))) eng'"
    using assms(1) A ev by (simp add: step_ok_def engine_ok_def hist_ok_def separate_lists_def)
  moreover have "b \<longrightarrow> unseen lf eng" using A assms(1) by (auto simp: step_ok_def)
  moreover have "owners eng' = (if b then elist (core eng) @ released eng @ lf # given eng else owners eng)"
    using A by (simp add: owners_def)
  ultimately show ?thesis using assms(1) A ev
    by (auto simp: step_ok_def engine_ok_def unseen_def owners_def)
qed

text \<open>After \<open>process_event\<close>: in order, with the event owned once.\<close>

lemma process_event_ok:
  assumes e: "engine_ok eng" and u: "unseen lf eng" and c: "cfg_ok cfg"
  shows "engine_ok (process_event cfg nodes (io, lf) eng) \<and>
    mset (owners (process_event cfg nodes (io, lf) eng)) = add_mset lf (mset (owners eng)) \<and>
    (\<forall>x. x \<noteq> lf \<longrightarrow> lf_list_retained (event_of (process_event cfg nodes (io, lf) eng) x) = lf_list_retained (event_of eng x))"
proof -
  have fin: "engine_ok (analysisd_finish_event lf e1) \<and> mset (owners (analysisd_finish_event lf e1)) = add_mset lf (mset (owners eng)) \<and>
      event_of (analysisd_finish_event lf e1) = event_of e1"
    if s: "step_ok lf eng e1" for e1
  proof (cases "lf_list_retained (event_of e1 lf)")
    case True
    with s show ?thesis by (auto simp: step_ok_def analysisd_finish_event_def unseen_def)
  next
    case False
    with s have u1: "unseen lf e1" "mset (owners e1) = mset (owners eng)" "engine_ok e1" by (auto simp: step_ok_def)
    then have lf: "lf \<notin> set (elist (core e1))" by (simp add: unseen_def owners_def)
    have "hist_ok (set (elist (core e1)) - {lf}) (Free_Eventinfo lf e1)" using u1(3) by (intro Free_ok) (simp add: engine_ok_def)
    with lf u1 False show ?thesis
      by (auto simp: analysisd_finish_event_def engine_ok_def owners_def unseen_def)
  qed
  obtain fl eng1 where l: "LastMsg_step lf eng = (fl, eng1)" by force
  note S1 = LastMsg_step_same [OF l]
  let ?e2 = "stats_check cfg io lf (accumulate_step io lf eng1)"
  have S2: "same_lists lf eng ?e2"
    by (rule same_lists_trans [OF S1 same_lists_trans [OF accumulate_step_same stats_check_same]])
  obtain ends eng3 where r: "rules_loop cfg io lf nodes ?e2 = (ends, eng3)" by force
  note E2 = engine_ok_same [OF e S2 u]
  have S3: "step_ok lf eng eng3"
    using step_ok_after [OF S2 e u rules_loop_ok [OF _ _ c r]] E2 by blast
  consider "fl" | "\<not> fl" "ends" | "\<not> fl" "\<not> ends" by blast
  then show ?thesis
  proof cases
    case 1
    then have p: "process_event cfg nodes (io, lf) eng = analysisd_finish_event lf eng1"
      by (simp add: process_event_def analysisd_analyze_event_def l)
    from fin [OF same_step_ok [OF e u S1]] S1 show ?thesis unfolding p by (simp add: same_lists_def)
  next
    case 2
    then have p: "process_event cfg nodes (io, lf) eng = analysisd_finish_event lf eng3"
      by (simp add: process_event_def analysisd_analyze_event_def l r)
    from fin [OF S3] S3 show ?thesis unfolding p by (simp add: step_ok_def)
  next
    case 3
    obtain b eng4 where a: "archive cfg io lf eng3 = (b, eng4)" by force
    note A = archive_ok [OF S3 a]
    have p: "process_event cfg nodes (io, lf) eng = (if b then eng4 else analysisd_finish_event lf eng4)"
      using 3 by (simp add: process_event_def analysisd_analyze_event_def l r a)
    show ?thesis
    proof (cases b)
      case True
      with A S3 show ?thesis unfolding p by (auto simp: step_ok_def owners_def unseen_def)
    next
      case False
      with A S3 have "step_ok lf eng eng4" by (auto simp: step_ok_def unseen_def)
      from fin [OF this] False A S3 show ?thesis unfolding p by (simp add: step_ok_def)
    qed
  qed
qed

text \<open>
  C1. Every analysed event has one owner. However the events run, with their floods, suppressed
  alerts, trimmed lists and refused archives: afterwards each of them is once in the event list,
  released, or handed to the archive writer, none is released twice or released while listed,
  and the histories of the rules hold events of the event list only, so no search follows a
  pointer to a released event.
\<close>

theorem analysis_owns_once:
  assumes "engine_ok eng" "cfg_ok cfg" "list_all (\<lambda>x. unseen (snd x) eng) xs" "distinct (map snd xs)"
    and "eng' = fold (process_event cfg nodes) xs eng"
  shows "distinct (owners eng') \<and> mset (owners eng') = mset (owners eng) + mset (map snd xs) \<and>
    set (hist (core eng') l) \<subseteq> set (elist (core eng')) \<and> engine_ok eng'"
proof -
  have "engine_ok eng \<Longrightarrow> list_all (\<lambda>x. unseen (snd x) eng) xs \<Longrightarrow> distinct (map snd xs) \<Longrightarrow>
    engine_ok (fold (process_event cfg nodes) xs eng) \<and>
    mset (owners (fold (process_event cfg nodes) xs eng)) = mset (owners eng) + mset (map snd xs)"
    for xs
  proof (induction xs arbitrary: eng)
    case (Cons x xs)
    obtain io lf where x: "x = (io, lf)" by force
    have u: "unseen lf eng" using Cons.prems(2) x by simp
    note P = process_event_ok [OF Cons.prems(1) u assms(2), of nodes io]
    let ?e1 = "process_event cfg nodes (io, lf) eng"
    have o: "set (owners ?e1) = insert lf (set (owners eng))"
      using arg_cong [OF conjunct1 [OF conjunct2 [OF P]], of set_mset] by simp
    have "list_all (\<lambda>y. unseen (snd y) ?e1) xs"
      unfolding list_all_iff
    proof
      fix y assume y: "y \<in> set xs"
      then have "snd y \<noteq> lf" using Cons.prems(3) x by force
      moreover have "unseen (snd y) eng" using Cons.prems(2) y by (simp add: list_all_iff)
      ultimately show "unseen (snd y) ?e1" using P o by (simp add: unseen_def)
    qed
    with Cons.IH [of ?e1] Cons.prems(3) P x show ?case by simp
  qed simp
  with assms have "engine_ok eng'" "mset (owners eng') = mset (owners eng) + mset (map snd xs)" by simp_all
  moreover from this have "set (hist (core eng') l) \<subseteq> set (elist (core eng'))"
    by (intro hist_live) (simp add: engine_ok_def)
  ultimately show ?thesis by (simp add: engine_ok_def)
qed

section \<open>The witness\<close>

lemma quiet_ok: "engine_ok quiet_engine" "cfg_ok quiet_cfg"
  "list_all (\<lambda>x. unseen (snd x) quiet_engine) quiet_run"
  by (simp_all add: engine_ok_def hist_ok_def separate_lists_def owners_def cfg_ok_def quiet_cfg_def quiet_engine_def
      rule_of_def quiet_rules_def zero_rule_def unseen_def event_of_def quiet_event_def zero_event_def quiet_run_def)

theorem analysis_owns_once_witness:
  "mset (owners (fold (process_event quiet_cfg [RuleNode 2 []]) quiet_run quiet_engine)) = {#10, 30, 100#}"
  using analysis_owns_once [OF quiet_ok _ refl, of "[RuleNode 2 []]"]
  by (simp add: quiet_run_def owners_def quiet_engine_def)

end
