(* ===== verification/Alerts.thy ===== *)
theory Alerts
  imports Analyze
begin

text \<open>
  What the alerts of a run look like: who deserves one, how far apart those of a rule with an
  \<open>ignore\<close> time are, and how they are numbered.
\<close>

section \<open>The alerts\<close>

text \<open>What of a rule and of an event the alerts depend on.\<close>

definition alert_part :: "('m, 'l) RuleInfo \<Rightarrow> int \<times> 16 word \<times> int \<times> int" where
  "alert_part ri = (r_level ri, r_alert_opts ri, r_ignore_time ri, r_time_ignored ri)"

definition same_alerts :: "'m engine \<Rightarrow> 'm engine \<Rightarrow> bool" where
  "same_alerts eng eng' \<longleftrightarrow> alerts eng' = alerts eng \<and> next_alert_id eng \<le> next_alert_id eng' \<and>
     (\<forall>e. lf_time (event_of eng' e) = lf_time (event_of eng e)) \<and>
     (\<forall>r. alert_part (rule_of eng' r) = alert_part (rule_of eng r))"

lemma same_alerts_refl [simp]: "same_alerts eng eng"
  by (simp add: same_alerts_def)

lemma same_alerts_trans: "same_alerts a b \<Longrightarrow> same_alerts b c \<Longrightarrow> same_alerts a c"
  by (simp add: same_alerts_def)

lemma set_alerts [simp]:
  "alerts (set_event lf f eng) = alerts eng" "next_alert_id (set_event lf f eng) = next_alert_id eng"
  "alerts (set_rule r g eng) = alerts eng" "next_alert_id (set_rule r g eng) = next_alert_id eng"
  "alerts (set_hist l xs eng) = alerts eng" "next_alert_id (set_hist l xs eng) = next_alert_id eng"
  "alerts (set_fts h eng) = alerts eng" "next_alert_id (set_fts h eng) = next_alert_id eng"
  by (simp_all add: set_event_def set_rule_def set_hist_def set_fts_def)

lemma fold_set_hist_alerts [simp]:
  "alerts (fold (\<lambda>l e. set_hist l (f l e) e) ls eng) = alerts eng"
  "next_alert_id (fold (\<lambda>l e. set_hist l (f l e) e) ls eng) = next_alert_id eng"
  by (induction ls arbitrary: eng) simp_all

lemma same_alerts_event:
  "lf_time (f (event_of eng lf)) = lf_time (event_of eng lf) \<Longrightarrow> same_alerts eng (set_event lf f eng)"
  by (simp add: same_alerts_def)

lemma alert_part_readonly:
  "readonly_rule a = readonly_rule b \<Longrightarrow> alert_part a = alert_part b"
  "readonly_event x = readonly_event y \<Longrightarrow> lf_time x = lf_time y"
proof -
  have "alert_part (readonly_rule a) = alert_part a" for a :: "('a, 'b) RuleInfo"
    by (simp add: alert_part_def readonly_rule_def)
  then show "readonly_rule a = readonly_rule b \<Longrightarrow> alert_part a = alert_part b" by metis
  have "lf_time (readonly_event x) = lf_time x" for x by (simp add: readonly_event_def)
  then show "readonly_event x = readonly_event y \<Longrightarrow> lf_time x = lf_time y" by metis
qed

lemma same_alerts_match:
  assumes "OS_CheckIfRuleMatch env lf n (core eng) = (res, w)"
  shows "same_alerts eng (eng\<lparr>core := w\<rparr>)"
proof -
  obtain w1 where u: "undisturbed (core eng) w1" and w: "w = w1 \<or> (\<exists>r. w = count_alert r w1)"
    using check_outcome(1) [OF assms] by (cases res) (auto simp: outcome_ok_def)
  have "readonly_rule (w_rules w1 r) = readonly_rule (w_rules (core eng) r)"
    "readonly_event (events w1 e) = readonly_event (events (core eng) e)" for r e
    using u by (simp_all add: undisturbed_def)
  then have A: "alert_part (w_rules w1 r) = alert_part (w_rules (core eng) r)"
    "lf_time (events w1 e) = lf_time (events (core eng) e)" for r e using alert_part_readonly by blast+
  show ?thesis using w
  proof
    assume "w = w1"
    with A show ?thesis by (simp add: same_alerts_def event_of_def rule_of_def)
  next
    assume "\<exists>r. w = count_alert r w1"
    then obtain q where q: "w = count_alert q w1" ..
    have "alert_part (w_rules w r) = alert_part (w_rules w1 r)" "events w e = events w1 e" for r e
      by (simp_all add: q count_alert_def put_rule_def alert_part_def)
    with A show ?thesis by (simp add: same_alerts_def event_of_def rule_of_def)
  qed
qed

lemma LastMsg_step_alerts: "LastMsg_step lf eng = (b, eng') \<Longrightarrow> same_alerts eng eng'"
  by (auto simp: LastMsg_step_def same_alerts_def split: if_splits prod.splits)

lemma accumulate_step_alerts: "same_alerts eng (accumulate_step io lf eng)"
proof (cases "di_accumulate (lf_decoder_info (event_of eng lf)) = 1")
  case True
  obtain lf1 a where A: "Accumulate (now io) (event_of eng lf) (acc eng) = (lf1, a)" by force
  from Accumulate_event [of "now io" "event_of eng lf" "acc eng"] A
  have "lf_time lf1 = lf_time (event_of eng lf)" by (auto simp: fill_event_def)
  with True A show ?thesis by (simp add: accumulate_step_def same_alerts_def)
qed (simp add: accumulate_step_def)

lemma claim_alerts: "same_alerts eng (analysisd_claim_alert_id lf eng)"
  by (simp add: analysisd_claim_alert_id_def same_alerts_def)

lemma snapshot_alerts:
  assumes "snapshot_rule_last_events dst r eng = (dst1, eng')"
  shows "same_alerts eng eng' \<and> lf_time dst1 = lf_time dst \<and> lf_generated_rule dst1 = lf_generated_rule dst \<and>
    lf_alert_id dst1 = lf_alert_id dst \<and> next_alert_id eng' = next_alert_id eng"
proof -
  obtain rule1 d where m: "OS_MoveRuleLastEvents (rule_of eng r) dst = (rule1, d)" by force
  have "readonly_rule rule1 = readonly_rule (rule_of eng r)" using readonly_set_last(5) [of "rule_of eng r" dst] m by simp
  then have "alert_part rule1 = alert_part (rule_of eng r)" by (rule alert_part_readonly)
  then have "same_alerts eng (set_rule r (\<lambda>_. rule1) eng)" by (simp add: same_alerts_def)
  moreover have "lf_time d = lf_time dst" "lf_generated_rule d = lf_generated_rule dst" "lf_alert_id d = lf_alert_id dst"
    using m by (auto simp: OS_MoveRuleLastEvents_def Let_def split: option.splits if_splits)
  ultimately show ?thesis using assms m
    by (auto simp: snapshot_rule_last_events_def Let_def split: if_splits)
qed

lemma run_responses_alerts: "same_alerts eng (run_responses cfg lf r eng)"
  by (auto simp: run_responses_def Let_def analysisd_claim_alert_id_def same_alerts_def)

lemma stats_check_alerts: "same_alerts eng (stats_check cfg io lf eng)"
proof -
  obtain c st where h: "Check_Hour (crt_hour io) (crt_day io) (hourly eng) = (c, st)" by force
  let ?e1 = "eng\<lparr>hourly := st\<rparr>" and ?e2 = "analysisd_claim_alert_id lf (eng\<lparr>hourly := st\<rparr>)"
  have e1: "same_alerts eng ?e1" by (simp add: same_alerts_def)
  have "same_alerts eng (e3\<lparr>stat_alerts := z\<rparr>)" if "snapshot_rule_last_events x r ?e2 = (y, e3)" for x r y e3 z
  proof -
    have "same_alerts eng e3"
      using same_alerts_trans [OF e1 same_alerts_trans [OF claim_alerts conjunct1 [OF snapshot_alerts [OF that]]]] .
    then show ?thesis by (simp add: same_alerts_def)
  qed
  with e1 h show ?thesis
    by (auto simp: stats_check_def Let_def split: option.splits prod.splits)
qed

lemma histories_alerts: "same_alerts eng (add_group_history lf r (add_sid_history cfg lf r eng))"
  by (auto simp: add_group_history_def add_sid_history_def Let_def same_alerts_def split: option.splits prod.splits)

lemma Free_alerts: "same_alerts eng (Free_Eventinfo lf eng)"
  by (auto simp: Free_Eventinfo_def Let_def same_alerts_def unlink_sid_def unlink_groups_def split: option.splits)

lemma fold_Free_alerts: "same_alerts eng (fold Free_Eventinfo gone eng)"
proof (induction gone arbitrary: eng)
  case (Cons g gone)
  from same_alerts_trans [OF Free_alerts Cons.IH] show ?case by simp
qed simp

lemma OS_AddEvent_alerts: "same_alerts eng (OS_AddEvent cfg lf eng)"
proof -
  obtain stay gone where t: "event_trim (max_freq cfg) (memorysize cfg) (events (core eng)) lf (elist (core eng)) = (stay, gone)"
    by force
  let ?e1 = "set_event lf (\<lambda>e. e\<lparr>lf_list_retained := True\<rparr>) eng"
  have "same_alerts eng (?e1\<lparr>core := (core ?e1)\<lparr>elist := stay\<rparr>\<rparr>)"
    by (simp add: same_alerts_def event_of_def rule_of_def set_event_def put_event_def)
  from same_alerts_trans [OF this fold_Free_alerts [of _ gone]] t show ?thesis
    unfolding OS_AddEvent_def by (simp only: Let_def prod.case)
qed

lemma archive_alerts: "archive cfg io lf eng = (b, eng') \<Longrightarrow> same_alerts eng eng'"
  by (auto simp: archive_def Let_def same_alerts_def split: if_splits)

lemma finish_alerts: "same_alerts eng (analysisd_finish_event lf eng)"
  using Free_alerts [of eng lf] by (simp add: analysisd_finish_event_def)

text \<open>
  Where the alerts stand: each carries a rule that asks for it, those of a rule with a window are a
  window apart and none is later than the start of the running window, and the identifiers grow.
\<close>

definition deserved :: "'m engine \<Rightarrow> Eventinfo \<Rightarrow> bool" where
  "deserved eng a \<longleftrightarrow>
     (case lf_generated_rule a of
        None \<Rightarrow> False
      | Some r \<Rightarrow> r_level (rule_of eng r) \<noteq> 0 \<and> has_bit (r_alert_opts (rule_of eng r)) DO_LOGALERT)"

definition apart :: "'m engine \<Rightarrow> Eventinfo \<Rightarrow> Eventinfo \<Rightarrow> bool" where
  "apart eng a b \<longleftrightarrow>
     (\<forall>r. lf_generated_rule a = Some r \<and> lf_generated_rule b = Some r \<and> 0 < r_ignore_time (rule_of eng r) \<longrightarrow>
        lf_time a + r_ignore_time (rule_of eng r) \<le> lf_time b)"

definition alerts_ok :: "'m engine_cfg \<Rightarrow> 'm engine \<Rightarrow> bool" where
  "alerts_ok cfg eng \<longleftrightarrow>
     list_all (deserved eng) (alerts eng) \<and> sorted_wrt (apart eng) (alerts eng) \<and>
     (\<forall>r. 0 < r_ignore_time (rule_of eng r) \<longrightarrow>
        list_all (\<lambda>a. lf_generated_rule a = Some r \<longrightarrow>
          r_time_ignored (rule_of eng r) \<noteq> 0 \<and> lf_time a \<le> r_time_ignored (rule_of eng r)) (alerts eng)) \<and>
     (queue_log cfg \<longrightarrow> sorted_wrt (<) (map lf_alert_id (alerts eng)) \<and>
        list_all (\<lambda>a. lf_alert_id a < next_alert_id eng) (alerts eng))"

lemma alert_partD:
  "alert_part a = alert_part b \<Longrightarrow> r_level a = r_level b \<and> r_alert_opts a = r_alert_opts b \<and>
     r_ignore_time a = r_ignore_time b \<and> r_time_ignored a = r_time_ignored b"
  by (simp add: alert_part_def)

lemma same_alertsD:
  assumes "same_alerts eng eng'"
  shows "r_level (rule_of eng' r) = r_level (rule_of eng r)" "r_alert_opts (rule_of eng' r) = r_alert_opts (rule_of eng r)"
    "r_ignore_time (rule_of eng' r) = r_ignore_time (rule_of eng r)"
    "r_time_ignored (rule_of eng' r) = r_time_ignored (rule_of eng r)"
    "lf_time (event_of eng' e) = lf_time (event_of eng e)" "alerts eng' = alerts eng"
    "next_alert_id eng \<le> next_alert_id eng'"
  using assms alert_partD [of "rule_of eng' r" "rule_of eng r"] by (simp_all add: same_alerts_def)

lemma alerts_ok_same: "alerts_ok cfg eng \<Longrightarrow> same_alerts eng eng' \<Longrightarrow> alerts_ok cfg eng'"
proof -
  assume A: "alerts_ok cfg eng" and S: "same_alerts eng eng'"
  note D = same_alertsD [OF S]
  have "deserved eng' = deserved eng" by (simp add: fun_eq_iff deserved_def D split: option.split)
  moreover have "apart eng' = apart eng" by (simp add: fun_eq_iff apart_def D)
  ultimately show ?thesis using A D(7) by (auto simp: alerts_ok_def D(1-6) list_all_iff)
qed

text \<open>The rule may speak now: its window starts at the event, and the earlier alerts are older than it.\<close>

definition may_alert :: "nat \<Rightarrow> nat \<Rightarrow> 'm engine \<Rightarrow> bool" where
  "may_alert lf r eng \<longleftrightarrow> r_level (rule_of eng r) \<noteq> 0 \<and>
     (0 < r_ignore_time (rule_of eng r) \<longrightarrow>
        lf_time (event_of eng lf) \<noteq> 0 \<and> r_time_ignored (rule_of eng r) = lf_time (event_of eng lf) \<and>
        list_all (\<lambda>a. lf_generated_rule a = Some r \<longrightarrow>
          lf_time a + r_ignore_time (rule_of eng r) \<le> lf_time (event_of eng lf)) (alerts eng))"

lemma may_alert_same: "may_alert lf r eng \<Longrightarrow> same_alerts eng eng' \<Longrightarrow> may_alert lf r eng'"
  by (simp add: may_alert_def same_alertsD)

lemma ignore_window_alerts:
  assumes w: "ignore_window lf r eng = (b, eng')" and A: "alerts_ok cfg eng" and t: "lf_time (event_of eng lf) \<noteq> 0"
  shows "alerts_ok cfg eng' \<and> (\<not> b \<and> r_level (rule_of eng r) \<noteq> 0 \<longrightarrow> may_alert lf r eng') \<and>
    alerts eng' = alerts eng \<and> next_alert_id eng' = next_alert_id eng \<and> event_of eng' = event_of eng \<and>
    (\<forall>q. r_level (rule_of eng' q) = r_level (rule_of eng q) \<and> r_alert_opts (rule_of eng' q) = r_alert_opts (rule_of eng q) \<and>
       r_ignore_time (rule_of eng' q) = r_ignore_time (rule_of eng q))"
proof -
  let ?t = "lf_time (event_of eng lf)" and ?T = "r_ignore_time (rule_of eng r)" and ?i = "r_time_ignored (rule_of eng r)"
  let ?e = "set_rule r (\<lambda>x. x\<lparr>r_time_ignored := ?t\<rparr>) eng"
  have stat: "r_level (rule_of ?e q) = r_level (rule_of eng q)" "r_alert_opts (rule_of ?e q) = r_alert_opts (rule_of eng q)"
    "r_ignore_time (rule_of ?e q) = r_ignore_time (rule_of eng q)" for q by simp_all
  have des: "deserved ?e = deserved eng" "apart ?e = apart eng"
    by (simp_all only: fun_eq_iff deserved_def apart_def stat simp_thms)
  have old: "lf_time a + ?T \<le> ?t" if "a \<in> set (alerts eng)" "lf_generated_rule a = Some r" "0 < ?T" "?i \<noteq> 0 \<longrightarrow> ?T \<le> ?t - ?i" for a
  proof -
    have "?i \<noteq> 0 \<and> lf_time a \<le> ?i" using A that(1-3) by (simp add: alerts_ok_def list_all_iff)
    with that(4) show ?thesis by linarith
  qed
  have ok: "alerts_ok cfg ?e \<and> (r_level (rule_of eng r) \<noteq> 0 \<longrightarrow> may_alert lf r ?e)" if "?i \<noteq> 0 \<longrightarrow> ?T \<le> ?t - ?i"
  proof -
    have "list_all (\<lambda>a. lf_generated_rule a = Some r \<longrightarrow> lf_time a + ?T \<le> ?t) (alerts eng)" if "0 < ?T"
      using old \<open>?i \<noteq> 0 \<longrightarrow> ?T \<le> ?t - ?i\<close> that by (simp add: list_all_iff)
    moreover from this have "0 < ?T \<longrightarrow> list_all (\<lambda>a. lf_generated_rule a = Some r \<longrightarrow> lf_time a \<le> ?t) (alerts eng)"
      by (force simp: list_all_iff)
    ultimately show ?thesis using A t by (simp add: alerts_ok_def may_alert_def des list_all_iff)
  qed
  show ?thesis using w ok A t
    by (auto simp: ignore_window_def Let_def may_alert_def split: if_splits)
qed

text \<open>One alert more, or none, and the rest as it was.\<close>

definition one_alert :: "'m engine_cfg \<Rightarrow> nat \<Rightarrow> 'm engine \<Rightarrow> 'm engine \<Rightarrow> bool" where
  "one_alert cfg lf eng eng' \<longleftrightarrow> same_alerts eng eng' \<or>
     (\<exists>a. alerts eng' = alerts eng @ [a] \<and> same_alerts eng (eng'\<lparr>alerts := alerts eng\<rparr>) \<and>
        lf_time a = lf_time (event_of eng lf) \<and> lf_generated_rule a = lf_generated_rule (event_of eng lf) \<and>
        (queue_log cfg \<longrightarrow> lf_alert_id a = next_alert_id eng \<and> next_alert_id eng < next_alert_id eng'))"

lemma write_alert_one:
  assumes "has_bit (r_alert_opts (rule_of eng r)) DO_LOGALERT"
  shows "one_alert cfg lf eng (write_alert cfg io lf r eng)"
proof (cases "queue_log cfg")
  case True
  let ?e1 = "analysisd_claim_alert_id lf eng"
  obtain c e2 where s: "snapshot_rule_last_events (event_of ?e1 lf) r ?e1 = (c, e2)" by force
  note S = snapshot_alerts [OF s]
  have "lf_time c = lf_time (event_of eng lf)" "lf_generated_rule c = lf_generated_rule (event_of eng lf)"
    "lf_alert_id c = next_alert_id eng" "next_alert_id eng < next_alert_id e2"
    using S by (simp_all add: analysisd_claim_alert_id_def)
  moreover have E: "same_alerts eng e2" using same_alerts_trans [OF claim_alerts conjunct1 [OF S]] .
  moreover have "same_alerts eng (e2\<lparr>alerts := alerts e2 @ [c], alerts := alerts eng\<rparr>)"
    "same_alerts eng (e2\<lparr>alerts_dropped := k\<rparr>)" for k
    using E by (simp_all add: same_alerts_def)
  moreover have "alerts e2 = alerts eng" using E by (simp add: same_alerts_def)
  ultimately show ?thesis using True s assms by (simp add: write_alert_def one_alert_def)
next
  case False
  let ?e1 = "if lf_alert_id (event_of eng lf) = 0 then analysisd_claim_alert_id lf eng else eng"
  have E: "same_alerts eng ?e1" using claim_alerts [of eng lf] by simp
  then have "same_alerts eng (?e1\<lparr>alerts := x, alerts := alerts eng\<rparr>)" for x by (simp add: same_alerts_def)
  moreover have "lf_generated_rule (event_of ?e1 lf) = lf_generated_rule (event_of eng lf)"
    by (simp add: analysisd_claim_alert_id_def)
  moreover have "write_alert cfg io lf r eng = ?e1\<lparr>alerts := alerts ?e1 @ [event_of ?e1 lf]\<rparr>"
    using False assms by (simp add: write_alert_def Let_def)
  ultimately show ?thesis using False E same_alertsD [OF E] unfolding one_alert_def
    by (metis engine.select_convs(8) engine.surjective engine.update_convs(8))
qed

lemma alerts_ok_one:
  assumes A: "alerts_ok cfg eng" and M: "may_alert lf r eng" and o: "one_alert cfg lf eng eng'"
    and g: "lf_generated_rule (event_of eng lf) = Some r" and L: "has_bit (r_alert_opts (rule_of eng r)) DO_LOGALERT"
  shows "alerts_ok cfg eng'"
proof (cases "same_alerts eng eng'")
  case False
  let ?e = "eng'\<lparr>alerts := alerts eng\<rparr>"
  obtain a where a: "alerts eng' = alerts eng @ [a]" "same_alerts eng ?e" "lf_time a = lf_time (event_of eng lf)"
    "lf_generated_rule a = Some r" "queue_log cfg \<longrightarrow> lf_alert_id a = next_alert_id eng \<and> next_alert_id eng < next_alert_id eng'"
    using o False g by (auto simp: one_alert_def)
  have rules: "rule_of eng' = rule_of ?e" by simp
  note D = same_alertsD [OF a(2)]
  have des: "deserved eng' = deserved ?e" "apart eng' = apart ?e"
    by (simp_all only: fun_eq_iff deserved_def apart_def rules simp_thms)
  have ok: "alerts_ok cfg ?e" using alerts_ok_same [OF A a(2)] .
  have "deserved eng' a" using M L by (simp add: deserved_def a rules D(1,2) may_alert_def del: update_simps)
  moreover have "list_all (\<lambda>b. apart eng' b a) (alerts eng)"
    using M by (auto simp: list_all_iff apart_def a rules D(3) may_alert_def simp del: update_simps)
  moreover have "0 < r_ignore_time (rule_of eng' r) \<longrightarrow> r_time_ignored (rule_of eng' r) \<noteq> 0 \<and> lf_time a \<le> r_time_ignored (rule_of eng' r)"
    using M by (simp add: rules D(3,4) may_alert_def a del: update_simps)
  ultimately show ?thesis using ok A a(5)
    by (auto simp: alerts_ok_def a(1,4) des sorted_wrt_append list_all_iff)
qed (rule alerts_ok_same [OF A])

text \<open>Through the whole handling of a rule that fired, the loop and the event.\<close>

definition alert_step :: "'m engine_cfg \<Rightarrow> 'm engine \<Rightarrow> 'm engine \<Rightarrow> bool" where
  "alert_step cfg eng eng' \<longleftrightarrow> alerts_ok cfg eng' \<and>
     length (alerts eng') \<le> length (alerts eng) + 1 \<and>
     (\<forall>e. lf_time (event_of eng' e) = lf_time (event_of eng e)) \<and>
     (\<forall>q. r_level (rule_of eng' q) = r_level (rule_of eng q) \<and> r_alert_opts (rule_of eng' q) = r_alert_opts (rule_of eng q) \<and>
       r_ignore_time (rule_of eng' q) = r_ignore_time (rule_of eng q))"

lemma same_alert_step: "alerts_ok cfg eng \<Longrightarrow> same_alerts eng eng' \<Longrightarrow> alert_step cfg eng eng'"
  using alerts_ok_same [of cfg eng eng'] by (simp add: alert_step_def same_alertsD)

lemma alert_step_same: "alert_step cfg a b \<Longrightarrow> same_alerts b c \<Longrightarrow> alert_step cfg a c"
  using alerts_ok_same [of cfg b c] by (simp add: alert_step_def same_alertsD)

lemma same_alert_step_trans: "same_alerts a b \<Longrightarrow> alert_step cfg b c \<Longrightarrow> alert_step cfg a c"
  by (simp add: alert_step_def same_alertsD)

lemma one_alert_step:
  assumes "alerts_ok cfg eng" "may_alert lf r eng" "lf_generated_rule (event_of eng lf) = Some r"
  shows "alert_step cfg eng (write_alert cfg io lf r eng)"
proof (cases "has_bit (r_alert_opts (rule_of eng r)) DO_LOGALERT")
  case True
  note o = write_alert_one [OF True, of cfg lf io]
  note ok = alerts_ok_one [OF assms(1,2) o assms(3) True]
  show ?thesis
  proof (cases "same_alerts eng (write_alert cfg io lf r eng)")
    case False
    with o obtain a where a: "alerts (write_alert cfg io lf r eng) = alerts eng @ [a]"
      "same_alerts eng ((write_alert cfg io lf r eng)\<lparr>alerts := alerts eng\<rparr>)" by (auto simp: one_alert_def)
    from same_alertsD [OF a(2)] ok a(1) show ?thesis by (simp add: alert_step_def)
  qed (rule same_alert_step [OF assms(1)])
qed (simp add: write_alert_def same_alert_step assms(1))

lemma fire_alerts:
  assumes A: "alerts_ok cfg eng" and t: "lf_time (event_of eng lf) \<noteq> 0"
  shows "alert_step cfg eng (fire cfg io lf r eng)"
proof (cases "r_level (rule_of eng r) = 0")
  case True
  with same_alert_step [OF A same_alerts_refl] show ?thesis by (simp add: fire_def)
next
  case lvl: False
  obtain b eng1 where w: "ignore_window lf r eng = (b, eng1)" by force
  note W = ignore_window_alerts [OF w A t]
  then have s1: "alert_step cfg eng eng1" by (simp add: alert_step_def)
  show ?thesis
  proof (cases b)
    case True
    with s1 lvl w show ?thesis by (simp add: fire_def)
  next
    case False
    let ?e2 = "set_event lf (\<lambda>e. e\<lparr>lf_generated_rule := Some r\<rparr>) eng1"
    have E2: "same_alerts eng1 ?e2" by (simp add: same_alerts_event)
    have fin: "alert_step cfg eng e" if "alert_step cfg eng1 e" for e
      using that W by (simp add: alert_step_def)
    show ?thesis
    proof (cases "r_ckignore (rule_of ?e2 r) \<noteq> 0 \<and> IGnore (rule_of ?e2 r) (event_of ?e2 lf) (fts (ext (core ?e2)))")
      case True
      let ?e3 = "set_event lf (\<lambda>e. e\<lparr>lf_generated_rule := None\<rparr>) ?e2"
      have "same_alerts ?e2 ?e3" by (simp add: same_alerts_def)
      with E2 have "alert_step cfg eng ?e3" using alert_step_same [OF s1 same_alerts_trans] by blast
      with True lvl w False show ?thesis by (simp add: fire_def Let_def del: engine_simps)
    next
      case ign: False
      define e3 where "e3 = (if r_ignore (rule_of ?e2 r) \<noteq> 0 then set_fts (AddtoIGnore (rule_of ?e2 r) (event_of ?e2 lf)) ?e2 else ?e2)"
      have E3: "same_alerts eng1 e3" by (simp add: e3_def same_alerts_def)
      have "lf_generated_rule (event_of e3 lf) = Some r" by (simp add: e3_def)
      moreover have "may_alert lf r e3" using may_alert_same [OF _ E3] W False lvl by simp
      ultimately have s4: "alert_step cfg e3 (write_alert cfg io lf r e3)"
        using one_alert_step alerts_ok_same [OF _ E3] W by blast
      have "same_alerts (write_alert cfg io lf r e3) (OS_AddEvent cfg lf (add_group_history lf r (add_sid_history cfg lf r
          (run_responses cfg lf r (write_alert cfg io lf r e3)))))"
        by (rule same_alerts_trans [OF run_responses_alerts same_alerts_trans [OF histories_alerts OS_AddEvent_alerts]])
      from fin [OF alert_step_same [OF same_alert_step_trans [OF E3 s4] this]]
      show ?thesis by (simp only: fire_def e3_def lvl w False ign Let_def prod.case if_False)
    qed
  qed
qed

lemma rules_loop_alerts:
  "alerts_ok cfg eng \<Longrightarrow> lf_time (event_of eng lf) \<noteq> 0 \<Longrightarrow> rules_loop cfg io lf nodes eng = (b, eng') \<Longrightarrow>
   alert_step cfg eng eng'"
proof (induction cfg io lf nodes eng rule: rules_loop.induct)
  case (1 cfg io lf eng)
  then show ?case by (simp add: same_alert_step)
next
  case (2 cfg io lf n ns eng)
  obtain res w where m: "OS_CheckIfRuleMatch (rule_env cfg io) lf n (core eng) = (res, w)" by force
  let ?e1 = "eng\<lparr>core := w\<rparr>"
  have S: "same_alerts eng ?e1" using same_alerts_match [OF m] .
  have ok: "alerts_ok cfg ?e1" "lf_time (event_of ?e1 lf) \<noteq> 0"
    using alerts_ok_same [OF 2(3) S] same_alertsD(5) [OF S] 2(4) by auto
  consider "di_type (lf_decoder_info (event_of eng lf)) = OSSEC_ALERT"
    | "di_type (lf_decoder_info (event_of eng lf)) \<noteq> OSSEC_ALERT" "r_category (rule_of eng (ruleinfo n)) \<noteq> di_type (lf_decoder_info (event_of eng lf))"
    | "di_type (lf_decoder_info (event_of eng lf)) \<noteq> OSSEC_ALERT" "r_category (rule_of eng (ruleinfo n)) = di_type (lf_decoder_info (event_of eng lf))"
    by blast
  then show ?case
  proof cases
    case 1
    with 2(5) fire_alerts [OF 2(3,4)] same_alert_step [OF 2(3) same_alerts_refl] show ?thesis
      by (auto split: option.splits)
  next
    case 2
    with "2.IH"(1) "2.prems" show ?thesis by simp
  next
    case 3
    show ?thesis
    proof (cases res)
      case None
      then have "rules_loop cfg io lf ns ?e1 = (b, eng')" using 3 2(5) m by simp
      with 2(2) 3 ok m None have "alert_step cfg ?e1 eng'" by (metis fst_conv snd_conv)
      with S show ?thesis by (rule same_alert_step_trans)
    next
      case (Some r)
      then have "eng' = fire cfg io lf r ?e1" using 3 2(5) m by simp
      with fire_alerts [OF ok] S same_alert_step_trans show ?thesis by blast
    qed
  qed
qed

lemma archive_event: "archive cfg io lf eng = (b, eng') \<Longrightarrow> event_of eng' = event_of eng"
  by (auto simp: archive_def Let_def split: if_splits)

lemma process_event_alerts:
  assumes A: "alerts_ok cfg eng" and t: "lf_time (event_of eng lf) \<noteq> 0"
  shows "alert_step cfg eng (process_event cfg nodes (io, lf) eng)"
proof -
  obtain fl eng1 where l: "LastMsg_step lf eng = (fl, eng1)" by force
  note S1 = LastMsg_step_alerts [OF l]
  let ?e2 = "stats_check cfg io lf (accumulate_step io lf eng1)"
  have S2: "same_alerts eng ?e2"
    by (rule same_alerts_trans [OF S1 same_alerts_trans [OF accumulate_step_alerts stats_check_alerts]])
  obtain ends eng3 where r: "rules_loop cfg io lf nodes ?e2 = (ends, eng3)" by force
  have "lf_time (event_of ?e2 lf) \<noteq> 0" using t S2 by (simp add: same_alertsD(5))
  from same_alert_step_trans [OF S2 rules_loop_alerts [OF alerts_ok_same [OF A S2] this r]]
  have S3: "alert_step cfg eng eng3" .
  obtain b eng4 where a: "archive cfg io lf eng3 = (b, eng4)" by force
  have "process_event cfg nodes (io, lf) eng \<in>
      {analysisd_finish_event lf eng1, analysisd_finish_event lf eng3, eng4, analysisd_finish_event lf eng4}"
    by (simp add: process_event_def analysisd_analyze_event_def l r a)
  moreover have "alert_step cfg eng (analysisd_finish_event lf eng1)"
    using same_alert_step [OF A same_alerts_trans [OF S1 finish_alerts]] .
  moreover have "alert_step cfg eng eng4" "alert_step cfg eng (analysisd_finish_event lf eng3)"
    "alert_step cfg eng (analysisd_finish_event lf eng4)"
    using alert_step_same [OF S3 archive_alerts [OF a]] alert_step_same [OF S3 finish_alerts]
      alert_step_same [OF alert_step_same [OF S3 archive_alerts [OF a]] finish_alerts] by blast+
  ultimately show ?thesis by auto
qed

text \<open>A run from an engine without alerts.\<close>

definition alert_run :: "'m engine_cfg \<Rightarrow> nat \<Rightarrow> 'm engine \<Rightarrow> 'm engine \<Rightarrow> bool" where
  "alert_run cfg k eng eng' \<longleftrightarrow> alerts_ok cfg eng' \<and> length (alerts eng') \<le> length (alerts eng) + k \<and>
     (\<forall>q. r_level (rule_of eng' q) = r_level (rule_of eng q) \<and> r_alert_opts (rule_of eng' q) = r_alert_opts (rule_of eng q) \<and>
       r_ignore_time (rule_of eng' q) = r_ignore_time (rule_of eng q))"

lemma process_events_alerts:
  "alerts_ok cfg eng \<Longrightarrow> list_all (\<lambda>x. lf_time (event_of eng (snd x)) \<noteq> 0) xs \<Longrightarrow>
   alert_run cfg (length xs) eng (fold (process_event cfg nodes) xs eng)"
proof (induction xs arbitrary: eng)
  case (Cons x xs)
  obtain io lf where x: "x = (io, lf)" by force
  let ?e1 = "process_event cfg nodes (io, lf) eng"
  have S: "alert_step cfg eng ?e1" using Cons.prems x by (intro process_event_alerts) simp_all
  then have "list_all (\<lambda>x. lf_time (event_of ?e1 (snd x)) \<noteq> 0) xs" "alerts_ok cfg ?e1"
    using Cons.prems(2) by (simp_all add: alert_step_def)
  from Cons.IH [OF this(2,1)] S show ?case by (simp add: x alert_run_def alert_step_def)
qed (simp add: alert_run_def)

lemma no_alerts_ok: "alerts eng = [] \<Longrightarrow> alerts_ok cfg eng"
  by (simp add: alerts_ok_def)

text \<open>
  C2. A rule with an \<open>ignore\<close> time of its own is quiet for that time after an alert: over any run
  of events, flood window, statistics, histories and refused queues included, two alerts of the
  rule are at least \<open>ignore_time\<close> seconds apart by the times of their events.
\<close>

theorem alerts_respect_ignore_time:
  assumes "alerts eng = []" "list_all (\<lambda>x. lf_time (event_of eng (snd x)) \<noteq> 0) xs"
    and "eng' = fold (process_event cfg nodes) xs eng" "0 < r_ignore_time (rule_of eng r)"
  shows "sorted_wrt (\<lambda>a b. lf_time a + r_ignore_time (rule_of eng r) \<le> lf_time b)
    (filter (\<lambda>a. lf_generated_rule a = Some r) (alerts eng'))"
proof -
  have R: "alert_run cfg (length xs) eng eng'"
    using process_events_alerts [OF no_alerts_ok [OF assms(1)] assms(2)] assms(3) by simp
  then have "sorted_wrt (apart eng') (filter (\<lambda>a. lf_generated_rule a = Some r) (alerts eng'))"
    using sorted_wrt_filter by (auto simp: alert_run_def alerts_ok_def)
  moreover have "lf_time a + r_ignore_time (rule_of eng r) \<le> lf_time b"
    if "apart eng' a b" "lf_generated_rule a = Some r" "lf_generated_rule b = Some r" for a b
    using that assms(4) R by (simp add: apart_def alert_run_def)
  ultimately show ?thesis by (elim sorted_wrt_mono_rel [rotated]) auto
qed


section \<open>Witnesses\<close>

theorem alerts_respect_ignore_time_witness:
  "sorted_wrt (\<lambda>a b. lf_time a + 60 \<le> lf_time b)
    (filter (\<lambda>a. lf_generated_rule a = Some 2) (alerts (fold (process_event quiet_cfg [RuleNode 2 []]) quiet_run quiet_engine)))"
  using alerts_respect_ignore_time [OF _ quiet_times refl, of 2 quiet_cfg "[RuleNode 2 []]"]
  by (simp add: quiet_engine_def rule_of_def quiet_rules_def)


end
