(* ===== verification/Fifo.thy ===== *)
theory Fifo
  imports Main
begin

text \<open>
  The contract two components share: a first-in first-out queue, as \<^verbatim>\<open>shared/queue_op.c\<close> (the ring
  between the threads of the pipeline) and \<^verbatim>\<open>os_maild/sms_queue.c\<close> (the pending SMS messages)
  provide it. An enqueue may be refused; a dequeue of an empty queue returns nothing.
\<close>

datatype 'd fifo_op = Enq 'd | Deq

text \<open>A client's sequence of calls: what was accepted, what came out, and the queue it leaves.\<close>

fun run_ops :: "('q \<Rightarrow> 'd \<Rightarrow> bool \<times> 'q) \<Rightarrow> ('q \<Rightarrow> 'd option \<times> 'q) \<Rightarrow> 'd fifo_op list \<Rightarrow> 'q
    \<Rightarrow> 'd list \<times> 'd list \<times> 'q" where
  "run_ops enq deq [] q = ([], [], q)"
| "run_ops enq deq (Enq d # ops) q =
     (let (ok, q1) = enq q d; (ins, outs, q2) = run_ops enq deq ops q1
      in ((if ok then d # ins else ins), outs, q2))"
| "run_ops enq deq (Deq # ops) q =
     (let (r, q1) = deq q; (ins, outs, q2) = run_ops enq deq ops q1
      in (ins, (case r of None \<Rightarrow> outs | Some d \<Rightarrow> d # outs), q2))"

text \<open>Dequeue until nothing comes: \<^term>\<open>None\<close> when that never happens.\<close>

partial_function (option) drain ::
    "('q \<Rightarrow> 'd option \<times> 'q) \<Rightarrow> 'q \<Rightarrow> ('d list \<times> 'q) option" where
  "drain deq q =
     (case deq q of
        (None, q1) \<Rightarrow> Some ([], q1)
      | (Some d, q1) \<Rightarrow> Option.bind (drain deq q1) (\<lambda>(ds, q2). Some (d # ds, q2)))"

locale fifo_queue =
  fixes invar :: "'q \<Rightarrow> bool"
    and contents :: "'q \<Rightarrow> 'd list"
    and enq :: "'q \<Rightarrow> 'd \<Rightarrow> bool \<times> 'q"
    and deq :: "'q \<Rightarrow> 'd option \<times> 'q"
  assumes enq_law: "invar q \<Longrightarrow> enq q d = (ok, q') \<Longrightarrow>
      invar q' \<and> contents q' = contents q @ (if ok then [d] else [])"
    and deq_law: "invar q \<Longrightarrow> deq q = (r, q') \<Longrightarrow>
      invar q' \<and> (case contents q of [] \<Rightarrow> r = None \<and> contents q' = []
                  | d # ds \<Rightarrow> r = Some d \<and> contents q' = ds)"
begin

lemma run_ops_fifo:
  "invar q \<Longrightarrow> run_ops enq deq ops q = (ins, outs, q') \<Longrightarrow>
   invar q' \<and> contents q @ ins = outs @ contents q'"
proof (induction ops arbitrary: q ins outs)
  case (Cons x ops)
  show ?case
  proof (cases x)
    case (Enq d)
    obtain ok q1 where e: "enq q d = (ok, q1)" by force
    obtain i o' where r: "run_ops enq deq ops q1 = (i, o', q')"
      using Cons.prems(2) Enq e by (auto split: prod.splits)
    note E = enq_law [OF Cons.prems(1) e]
    from Cons.IH [OF _ r] E Cons.prems(2) Enq e r show ?thesis by (auto split: if_splits)
  next
    case Deq
    obtain v q1 where d: "deq q = (v, q1)" by force
    obtain i o' where r: "run_ops enq deq ops q1 = (i, o', q')"
      using Cons.prems(2) Deq d by (auto split: prod.splits)
    note D = deq_law [OF Cons.prems(1) d]
    from Cons.IH [OF _ r] D Cons.prems(2) Deq d r show ?thesis
      by (auto split: list.splits)
  qed
qed simp

lemma drain_all: "invar q \<Longrightarrow> \<exists>q'. drain deq q = Some (contents q, q') \<and> invar q' \<and> contents q' = []"
proof (induction "contents q" arbitrary: q)
  case Nil
  obtain r q1 where d: "deq q = (r, q1)" by force
  from deq_law [OF Nil.prems d] Nil.hyps [symmetric] d show ?case
    by (simp add: drain.simps)
next
  case (Cons x xs)
  obtain r q1 where d: "deq q = (r, q1)" by force
  from deq_law [OF Cons.prems d] Cons.hyps(2) [symmetric]
  have D: "invar q1" "r = Some x" "contents q1 = xs" by simp_all
  from Cons.hyps(1) [OF D(3) [symmetric] D(1)] D(2,3) Cons.hyps(2) [symmetric] d show ?case
    by (auto simp: drain.simps [of deq q])
qed

end

end
