(* ===== verification/Ring_Queue.thy ===== *)
theory Ring_Queue
  imports Fifo
begin

text \<open>
  \<^verbatim>\<open>shared/queue_op.c\<close>: the bounded ring of pointers that links the threads of the analysis
  pipeline. The record is the structure of \<^verbatim>\<open>headers/queue_op.h\<close> without the mutex and the two
  condition variables, which the thread system of the second half supplies: every public function
  is a critical section, and what a thread does between taking and releasing the mutex is one
  step. A NULL pointer is \<^term>\<open>None\<close>; a slot that was never written holds whatever the allocator
  left there, the argument \<open>junk\<close> of \<open>os_queue_init\<close>.
\<close>

section \<open>The ring\<close>

record 'd os_queue =
  data :: "'d option list"
  begin_ix :: nat
  end_ix :: nat
  ring_size :: nat
  elements :: nat
  shutdown :: bool

definition os_queue_init :: "(nat \<Rightarrow> 'd option) \<Rightarrow> nat \<Rightarrow> 'd os_queue option" where
  "os_queue_init junk n =
     (if n < 2 then None
      else Some \<lparr>data = map junk [0..<n], begin_ix = 0, end_ix = 0, ring_size = n, elements = 0,
                 shutdown = False\<rparr>)"

definition os_queue_shutdown :: "'d os_queue \<Rightarrow> 'd os_queue" where
  "os_queue_shutdown q = q\<lparr>shutdown := True\<rparr>"

definition os_queue_full :: "'d os_queue \<Rightarrow> bool" where
  "os_queue_full q \<longleftrightarrow> (begin_ix q + 1) mod ring_size q = end_ix q"

definition os_queue_empty :: "'d os_queue \<Rightarrow> bool" where
  "os_queue_empty q \<longleftrightarrow> begin_ix q = end_ix q"

definition os_queue_elements :: "'d os_queue option \<Rightarrow> nat" where
  "os_queue_elements queue = (case queue of None \<Rightarrow> 0 | Some q \<Rightarrow> elements q)"

text \<open>The counter is \<open>unsigned int\<close>.\<close>

definition os_queue_push :: "'d os_queue \<Rightarrow> 'd option \<Rightarrow> int \<times> 'd os_queue" where
  "os_queue_push q d =
     (if os_queue_full q then (-1, q)
      else (0, q\<lparr>data := (data q)[begin_ix q := d],
                 begin_ix := (begin_ix q + 1) mod ring_size q,
                 elements := (elements q + 1) mod 2 ^ 32\<rparr>))"

definition os_queue_pop :: "'d os_queue \<Rightarrow> 'd option \<times> 'd os_queue" where
  "os_queue_pop q =
     (if os_queue_empty q then (None, q)
      else (data q ! end_ix q,
            q\<lparr>end_ix := (end_ix q + 1) mod ring_size q,
              elements := (elements q + (2 ^ 32 - 1)) mod 2 ^ 32\<rparr>))"

definition os_queue_push_ex :: "'d os_queue \<Rightarrow> 'd option \<Rightarrow> int \<times> 'd os_queue" where
  "os_queue_push_ex q d =
     (if d = None then (-1, q) else if shutdown q then (-1, q) else os_queue_push q d)"

text \<open>
  The functions that may wait: one passage of the loop with the mutex held ends in a wait on a
  condition variable, which releases the mutex, or in a return.
\<close>

datatype ('r, 'q) passage = Wait | Return 'r 'q

definition os_queue_push_ex_block :: "'d os_queue \<Rightarrow> 'd option \<Rightarrow> (int, 'd os_queue) passage" where
  "os_queue_push_ex_block q d =
     (if d = None then Return (-1) q
      else if \<not> shutdown q \<and> os_queue_full q then Wait
      else if shutdown q then Return (-1) q
      else let (r, q') = os_queue_push q d in Return r q')"

text \<open>The timed variant gives up when the wait ends with an error, the timeout among them.\<close>

definition os_queue_push_ex_timedwait ::
    "bool \<Rightarrow> 'd os_queue \<Rightarrow> 'd option \<Rightarrow> (int, 'd os_queue) passage" where
  "os_queue_push_ex_timedwait timed_out q d =
     (if d = None then Return (-1) q
      else if timed_out then Return (-1) q
      else if \<not> shutdown q \<and> os_queue_full q then Wait
      else if shutdown q then Return (-1) q
      else let (r, q') = os_queue_push q d in Return r q')"

definition os_queue_pop_ex :: "'d os_queue \<Rightarrow> ('d option, 'd os_queue) passage" where
  "os_queue_pop_ex q =
     (let (d, q') = os_queue_pop q
      in if d = None \<and> \<not> shutdown q' then Wait else Return d q')"

definition os_queue_pop_ex_timedwait :: "bool \<Rightarrow> 'd os_queue \<Rightarrow> ('d option, 'd os_queue) passage" where
  "os_queue_pop_ex_timedwait timed_out q =
     (if timed_out then Return None q
      else let (d, q') = os_queue_pop q
           in if d = None \<and> \<not> shutdown q' then Wait else Return d q')"

text \<open>What is handed to \<open>freefn\<close>, in order, and the queue left.\<close>

definition os_queue_free_data :: "'d os_queue \<Rightarrow> ('d list \<times> 'd os_queue) option" where
  "os_queue_free_data q = drain os_queue_pop q"

section \<open>Invariant and abstraction\<close>

definition count_of :: "'d os_queue \<Rightarrow> nat" where
  "count_of q = (if end_ix q \<le> begin_ix q then begin_ix q - end_ix q
                 else begin_ix q + ring_size q - end_ix q)"

definition slot :: "'d os_queue \<Rightarrow> nat \<Rightarrow> 'd option" where
  "slot q k = data q ! ((end_ix q + k) mod ring_size q)"

definition contents :: "'d os_queue \<Rightarrow> 'd list" where
  "contents q = map (\<lambda>k. the (slot q k)) [0..<count_of q]"

definition ring_ok :: "'d os_queue \<Rightarrow> bool" where
  "ring_ok q \<longleftrightarrow> 2 \<le> ring_size q \<and> length (data q) = ring_size q \<and>
     begin_ix q < ring_size q \<and> end_ix q < ring_size q \<and>
     elements q = count_of q mod 2 ^ 32 \<and> (\<forall>k<count_of q. slot q k \<noteq> None)"

lemma length_contents [simp]: "length (contents q) = count_of q"
  by (simp add: contents_def)

lemma count_of_bound: "ring_ok q \<Longrightarrow> count_of q < ring_size q"
  by (auto simp: ring_ok_def count_of_def)

lemma mod_once: "x < 2 * n \<Longrightarrow> x mod n = (if x < n then x else x - n)" for x n :: nat
  by (simp add: mod_if [of x] mod_less)

lemma full_iff: "ring_ok q \<Longrightarrow> os_queue_full q \<longleftrightarrow> count_of q + 1 = ring_size q"
  by (auto simp: ring_ok_def os_queue_full_def count_of_def mod_once split: if_splits)

lemma empty_iff: "ring_ok q \<Longrightarrow> os_queue_empty q \<longleftrightarrow> contents q = []"
  by (auto simp: ring_ok_def os_queue_empty_def contents_def count_of_def)

lemma push_count:
  assumes "ring_ok q" "\<not> os_queue_full q"
  shows "count_of (snd (os_queue_push q d)) = count_of q + 1"
  using assms
  by (auto simp: os_queue_push_def ring_ok_def os_queue_full_def count_of_def mod_once
      split: if_splits)

lemma push_slot:
  assumes "ring_ok q" "\<not> os_queue_full q" "k \<le> count_of q"
  shows "slot (snd (os_queue_push q d)) k = (if k = count_of q then d else slot q k)"
proof -
  have "(end_ix q + k) mod ring_size q = begin_ix q \<longleftrightarrow> k = count_of q"
    using assms by (auto simp: ring_ok_def count_of_def mod_once split: if_splits)
  then show ?thesis
    using assms by (auto simp: os_queue_push_def slot_def ring_ok_def)
qed

lemma os_queue_push_fifo:
  assumes "ring_ok q" "\<not> os_queue_full q"
  shows "ring_ok (snd (os_queue_push q (Some d))) \<and>
    contents (snd (os_queue_push q (Some d))) = contents q @ [d]"
proof
  let ?q = "snd (os_queue_push q (Some d))"
  have sz: "ring_size ?q = ring_size q" "length (data ?q) = ring_size q" "end_ix ?q = end_ix q"
    "begin_ix ?q < ring_size q"
    using assms by (auto simp: os_queue_push_def ring_ok_def)
  have "elements ?q = (elements q + 1) mod 2 ^ 32" using assms by (simp add: os_queue_push_def)
  also have "\<dots> = count_of ?q mod 2 ^ 32"
    using assms by (simp only: push_count [OF assms]) (simp add: ring_ok_def mod_Suc_eq)
  finally have "elements ?q = count_of ?q mod 2 ^ 32" .
  moreover have "\<forall>k<count_of ?q. slot ?q k \<noteq> None"
    using assms by (auto simp: push_count push_slot ring_ok_def less_Suc_eq_le)
  ultimately show "ring_ok ?q" using assms sz by (simp add: ring_ok_def)
  show "contents ?q = contents q @ [d]"
    by (simp add: contents_def push_count [OF assms] push_slot [OF assms])
qed

lemma os_queue_pop_fifo:
  assumes "ring_ok q" "\<not> os_queue_empty q"
  shows "ring_ok (snd (os_queue_pop q)) \<and>
    contents q = the (fst (os_queue_pop q)) # contents (snd (os_queue_pop q)) \<and>
    fst (os_queue_pop q) \<noteq> None"
proof -
  let ?q = "snd (os_queue_pop q)"
  have c: "count_of q = Suc (count_of ?q)"
    using assms
    by (auto simp: os_queue_pop_def os_queue_empty_def ring_ok_def count_of_def mod_once
        split: if_splits)
  have s: "slot ?q k = slot q (Suc k)" for k
    using assms by (simp add: os_queue_pop_def slot_def mod_add_left_eq)
  have r: "fst (os_queue_pop q) = slot q 0"
    using assms by (simp add: os_queue_pop_def slot_def ring_ok_def)
  have "elements ?q = (Suc (count_of ?q) mod 2 ^ 32 + (2 ^ 32 - 1)) mod 2 ^ 32"
    using assms c by (simp add: os_queue_pop_def ring_ok_def)
  also have "\<dots> = (count_of ?q + 1 + (2 ^ 32 - 1)) mod 2 ^ 32"
    by (simp only: mod_add_left_eq) simp
  also have "\<dots> = count_of ?q mod 2 ^ 32" by simp
  finally have "elements ?q = count_of ?q mod 2 ^ 32" .
  moreover have "\<forall>k<count_of ?q. slot ?q k \<noteq> None"
    using assms c s by (auto simp: ring_ok_def)
  ultimately have "ring_ok ?q"
    using assms by (auto simp: os_queue_pop_def ring_ok_def)
  moreover have "contents q = the (slot q 0) # contents ?q"
    unfolding contents_def c
    by (simp only: upt_conv_Cons [OF zero_less_Suc] map_Suc_upt [symmetric]) (simp add: s)
  moreover have "slot q 0 \<noteq> None" using assms(1) c by (simp add: ring_ok_def)
  ultimately show ?thesis by (simp add: r)
qed

lemma os_queue_init_ok:
  "os_queue_init junk n = Some q \<Longrightarrow> ring_ok q \<and> contents q = [] \<and> ring_size q = n \<and> \<not> shutdown q"
  by (auto simp: os_queue_init_def ring_ok_def contents_def count_of_def split: if_splits)

section \<open>The ring is a first-in first-out queue\<close>

definition ring_enq :: "'d os_queue \<Rightarrow> 'd \<Rightarrow> bool \<times> 'd os_queue" where
  "ring_enq q d = (let (r, q') = os_queue_push_ex q (Some d) in (r = 0, q'))"

interpretation ring: fifo_queue ring_ok contents ring_enq os_queue_pop
proof
  fix q :: "'a os_queue" and d ok q'
  assume "ring_ok q" "ring_enq q d = (ok, q')"
  then show "ring_ok q' \<and> contents q' = contents q @ (if ok then [d] else [])"
    using os_queue_push_fifo [of q d]
    by (cases "os_queue_full q")
      (auto simp: ring_enq_def os_queue_push_ex_def os_queue_push_def split: if_splits)
next
  fix q :: "'a os_queue" and r q'
  assume "ring_ok q" "os_queue_pop q = (r, q')"
  then show "ring_ok q' \<and> (case contents q of [] \<Rightarrow> r = None \<and> contents q' = []
      | d # ds \<Rightarrow> r = Some d \<and> contents q' = ds)"
    using os_queue_pop_fifo [of q] empty_iff [of q]
    by (cases "os_queue_empty q") (auto simp: os_queue_pop_def)
qed

section \<open>Threads\<close>

text \<open>
  A thread is outside the queue, asleep on a condition variable inside a call, or awake again and
  about to take the mutex; the flag marks the timed calls. \<open>ins\<close> and \<open>outs\<close> record, in order, the
  pointers whose push returned 0 and the pointers handed out.
\<close>

datatype 'd thread =
  Idle | PushSleep bool 'd | PushReady bool 'd | PopSleep bool | PopReady bool

record 'd system =
  ring :: "'d os_queue"
  threads :: "'d thread list"
  ins :: "'d list"
  outs :: "'d list"

fun wake :: "'d thread \<Rightarrow> 'd thread" where
  "wake (PushSleep t d) = PushReady t d"
| "wake (PopSleep t) = PopReady t"
| "wake x = x"

fun push_sleeps :: "'d thread \<Rightarrow> bool" where
  "push_sleeps (PushSleep _ _) = True"
| "push_sleeps _ = False"

fun pop_sleeps :: "'d thread \<Rightarrow> bool" where
  "pop_sleeps (PopSleep _) = True"
| "pop_sleeps _ = False"

fun push_ready :: "'d thread \<Rightarrow> bool" where
  "push_ready (PushReady _ _) = True"
| "push_ready _ = False"

fun pop_ready :: "'d thread \<Rightarrow> bool" where
  "pop_ready (PopReady _) = True"
| "pop_ready _ = False"

text \<open>\<open>pthread_cond_signal\<close>: one of the sleepers wakes, if there is one.\<close>

inductive signalled :: "('d thread \<Rightarrow> bool) \<Rightarrow> 'd thread list \<Rightarrow> 'd thread list \<Rightarrow> bool" for P where
  none: "\<forall>t\<in>set ts. \<not> P t \<Longrightarrow> signalled P ts ts"
| one: "j < length ts \<Longrightarrow> P (ts ! j) \<Longrightarrow> signalled P ts (ts[j := wake (ts ! j)])"

text \<open>The states from which a passage of a push or a pop starts: a new call, or a woken thread.\<close>

definition pushing :: "bool \<Rightarrow> 'd \<Rightarrow> 'd thread \<Rightarrow> bool" where
  "pushing t d x \<longleftrightarrow> x = Idle \<or> x = PushReady t d"

definition popping :: "bool \<Rightarrow> 'd thread \<Rightarrow> bool" where
  "popping t x \<longleftrightarrow> x = Idle \<or> x = PopReady t"

definition push_passage :: "bool \<Rightarrow> 'd os_queue \<Rightarrow> 'd \<Rightarrow> (int, 'd os_queue) passage" where
  "push_passage t q d =
     (if t then os_queue_push_ex_timedwait False q (Some d) else os_queue_push_ex_block q (Some d))"

definition pop_passage :: "bool \<Rightarrow> 'd os_queue \<Rightarrow> ('d option, 'd os_queue) passage" where
  "pop_passage t q = (if t then os_queue_pop_ex_timedwait False q else os_queue_pop_ex q)"

text \<open>
  One step: a passage through a critical section, a wake-up without a signal, a timeout, the
  shutdown with its two broadcasts, or the emptying of a queue that was shut down, the only time
  \<^verbatim>\<open>analysisd/pipeline.c\<close> calls \<open>os_queue_free_data\<close>.
\<close>

inductive step :: "'d system \<Rightarrow> 'd system \<Rightarrow> bool" where
  push_ok: "i < length (threads s) \<Longrightarrow> threads s ! i = Idle \<Longrightarrow>
    os_queue_push_ex (ring s) (Some d) = (0, q) \<Longrightarrow> signalled pop_sleeps (threads s) ts \<Longrightarrow>
    step s (s\<lparr>ring := q, threads := ts, ins := ins s @ [d]\<rparr>)"
| push_fail: "i < length (threads s) \<Longrightarrow> threads s ! i = Idle \<Longrightarrow>
    os_queue_push_ex (ring s) (Some d) = (-1, q) \<Longrightarrow> step s (s\<lparr>ring := q\<rparr>)"
| block_wait: "i < length (threads s) \<Longrightarrow> pushing t d (threads s ! i) \<Longrightarrow>
    push_passage t (ring s) d = Wait \<Longrightarrow>
    step s (s\<lparr>threads := (threads s)[i := PushSleep t d]\<rparr>)"
| block_ok: "i < length (threads s) \<Longrightarrow> pushing t d (threads s ! i) \<Longrightarrow>
    push_passage t (ring s) d = Return 0 q \<Longrightarrow>
    signalled pop_sleeps ((threads s)[i := Idle]) ts \<Longrightarrow>
    step s (s\<lparr>ring := q, threads := ts, ins := ins s @ [d]\<rparr>)"
| block_fail: "i < length (threads s) \<Longrightarrow> pushing t d (threads s ! i) \<Longrightarrow>
    push_passage t (ring s) d = Return (-1) q \<Longrightarrow>
    step s (s\<lparr>ring := q, threads := (threads s)[i := Idle]\<rparr>)"
| pop_wait: "i < length (threads s) \<Longrightarrow> popping t (threads s ! i) \<Longrightarrow>
    pop_passage t (ring s) = Wait \<Longrightarrow> step s (s\<lparr>threads := (threads s)[i := PopSleep t]\<rparr>)"
| pop_ok: "i < length (threads s) \<Longrightarrow> popping t (threads s ! i) \<Longrightarrow>
    pop_passage t (ring s) = Return (Some d) q \<Longrightarrow>
    signalled push_sleeps ((threads s)[i := Idle]) ts \<Longrightarrow>
    step s (s\<lparr>ring := q, threads := ts, outs := outs s @ [d]\<rparr>)"
| pop_none: "i < length (threads s) \<Longrightarrow> popping t (threads s ! i) \<Longrightarrow>
    pop_passage t (ring s) = Return None q \<Longrightarrow>
    step s (s\<lparr>ring := q, threads := (threads s)[i := Idle]\<rparr>)"
| spurious: "i < length (threads s) \<Longrightarrow>
    step s (s\<lparr>threads := (threads s)[i := wake (threads s ! i)]\<rparr>)"
| push_timeout: "i < length (threads s) \<Longrightarrow> threads s ! i = PushSleep True d \<Longrightarrow>
    os_queue_push_ex_timedwait True (ring s) (Some d) = Return r q \<Longrightarrow>
    step s (s\<lparr>ring := q, threads := (threads s)[i := Idle]\<rparr>)"
| pop_timeout: "i < length (threads s) \<Longrightarrow> threads s ! i = PopSleep True \<Longrightarrow>
    os_queue_pop_ex_timedwait True (ring s) = Return r q \<Longrightarrow>
    step s (s\<lparr>ring := q, threads := (threads s)[i := Idle]\<rparr>)"
| stop: "step s (s\<lparr>ring := os_queue_shutdown (ring s), threads := map wake (threads s)\<rparr>)"
| free_data: "shutdown (ring s) \<Longrightarrow> os_queue_free_data (ring s) = Some (ds, q) \<Longrightarrow>
    step s (s\<lparr>ring := q, outs := outs s @ ds\<rparr>)"

inductive reachable :: "nat \<Rightarrow> 'd system \<Rightarrow> bool" for n where
  start: "os_queue_init junk n = Some q \<Longrightarrow>
    reachable n \<lparr>ring = q, threads = replicate k Idle, ins = [], outs = []\<rparr>"
| next_step: "reachable n s \<Longrightarrow> step s s' \<Longrightarrow> reachable n s'"

section \<open>The invariant of the pipeline\<close>

definition cnt :: "('a \<Rightarrow> bool) \<Rightarrow> 'a list \<Rightarrow> nat" where
  "cnt P ts = length (filter P ts)"

lemma cnt_update:
  "i < length ts \<Longrightarrow>
   cnt P (ts[i := x]) + (if P (ts ! i) then 1 else 0) = cnt P ts + (if P x then 1 else 0)"
proof (induction ts arbitrary: i)
  case (Cons y ts)
  then show ?case by (cases i) (auto simp: cnt_def)
qed simp

lemma cnt_0: "cnt P ts = 0 \<longleftrightarrow> (\<forall>t\<in>set ts. \<not> P t)"
  by (simp add: cnt_def filter_empty_conv)

text \<open>The flow of pointers, and what the sleeping threads may count on.\<close>

definition flow_ok :: "nat \<Rightarrow> 'd system \<Rightarrow> bool" where
  "flow_ok n s \<longleftrightarrow> ring_ok (ring s) \<and> ring_size (ring s) = n \<and>
     ins s = outs s @ contents (ring s)"

definition wake_ok :: "'d os_queue \<Rightarrow> 'd thread list \<Rightarrow> bool" where
  "wake_ok q ts \<longleftrightarrow>
     (0 < cnt pop_sleeps ts \<longrightarrow> \<not> shutdown q \<and> count_of q \<le> cnt pop_ready ts) \<and>
     (0 < cnt push_sleeps ts \<longrightarrow> \<not> shutdown q \<and> ring_size q \<le> count_of q + 1 + cnt push_ready ts)"

subsection \<open>What each passage does\<close>

lemma push_Return0:
  "os_queue_push_ex q (Some d) = (0, q') \<Longrightarrow>
   \<not> shutdown q \<and> \<not> os_queue_full q \<and> q' = snd (os_queue_push q (Some d))"
  by (auto simp: os_queue_push_ex_def os_queue_push_def split: if_splits)

lemma push_ReturnE:
  "os_queue_push_ex q (Some d) = (-1, q') \<Longrightarrow> q' = q"
  by (auto simp: os_queue_push_ex_def os_queue_push_def split: if_splits)

lemma passage_Return0:
  "push_passage t q d = Return 0 q' \<Longrightarrow>
   \<not> shutdown q \<and> \<not> os_queue_full q \<and> q' = snd (os_queue_push q (Some d))"
  by (auto simp: push_passage_def os_queue_push_ex_block_def os_queue_push_ex_timedwait_def
      os_queue_push_def split: if_splits)

lemma passage_ReturnE: "push_passage t q d = Return (-1) q' \<Longrightarrow> shutdown q \<and> q' = q"
  by (auto simp: push_passage_def os_queue_push_ex_block_def os_queue_push_ex_timedwait_def
      os_queue_push_def split: if_splits)

lemma passage_Wait: "push_passage t q d = Wait \<Longrightarrow> \<not> shutdown q \<and> os_queue_full q"
  by (auto simp: push_passage_def os_queue_push_ex_block_def os_queue_push_ex_timedwait_def
      os_queue_push_def split: if_splits)

lemma push_keeps [simp]:
  "shutdown (snd (os_queue_push q d)) = shutdown q"
  "ring_size (snd (os_queue_push q d)) = ring_size q"
  by (simp_all add: os_queue_push_def)

lemma pop_keeps [simp]:
  "shutdown (snd (os_queue_pop q)) = shutdown q"
  "ring_size (snd (os_queue_pop q)) = ring_size q"
  by (simp_all add: os_queue_pop_def)

lemma pop_passage_cases:
  assumes "ring_ok q"
  shows "pop_passage t q = Wait \<longleftrightarrow> \<not> shutdown q \<and> os_queue_empty q"
    and "pop_passage t q = Return (Some d) q' \<longleftrightarrow> os_queue_pop q = (Some d, q')"
    and "pop_passage t q = Return None q' \<longleftrightarrow> shutdown q \<and> os_queue_empty q \<and> q' = q"
proof -
  obtain x q1 where p: "os_queue_pop q = (x, q1)" by force
  have e: "x = None \<longleftrightarrow> os_queue_empty q" "os_queue_empty q \<longrightarrow> q1 = q"
  proof -
    have "\<not> os_queue_empty q \<Longrightarrow> fst (os_queue_pop q) \<noteq> None"
      using os_queue_pop_fifo [OF assms] by blast
    moreover have "os_queue_empty q \<Longrightarrow> os_queue_pop q = (None, q)" by (simp add: os_queue_pop_def)
    ultimately show "x = None \<longleftrightarrow> os_queue_empty q" "os_queue_empty q \<longrightarrow> q1 = q"
      using p by force+
  qed
  have k: "shutdown q1 = shutdown q" using pop_keeps(1) [of q] p by simp
  have "pop_passage t q = (if x = None \<and> \<not> shutdown q then Wait else Return x q1)"
    by (simp add: pop_passage_def os_queue_pop_ex_def os_queue_pop_ex_timedwait_def p k)
  with e show "pop_passage t q = Wait \<longleftrightarrow> \<not> shutdown q \<and> os_queue_empty q"
    "pop_passage t q = Return (Some d) q' \<longleftrightarrow> os_queue_pop q = (Some d, q')"
    "pop_passage t q = Return None q' \<longleftrightarrow> shutdown q \<and> os_queue_empty q \<and> q' = q"
    by (auto simp: p)
qed

lemma pop_Some:
  assumes "ring_ok q" "os_queue_pop q = (Some d, q')"
  shows "ring_ok q' \<and> contents q = d # contents q' \<and> count_of q = Suc (count_of q') \<and>
    shutdown q' = shutdown q \<and> ring_size q' = ring_size q"
proof -
  have "\<not> os_queue_empty q" using assms by (auto simp: os_queue_pop_def)
  note F = os_queue_pop_fifo [OF assms(1) this]
  then have c: "contents q = d # contents q'" using assms(2) by simp
  then have "count_of q = Suc (count_of q')" by (metis length_Cons length_contents)
  with F c show ?thesis using assms(2) pop_keeps [of q] by (simp del: pop_keeps)
qed

lemma count_empty: "ring_ok q \<Longrightarrow> os_queue_empty q \<longleftrightarrow> count_of q = 0"
  by (metis empty_iff length_0_conv length_contents)

lemma free_data_all:
  assumes "ring_ok q" "os_queue_free_data q = Some (ds, q')"
  shows "ds = contents q \<and> ring_ok q' \<and> contents q' = []"
  using ring.drain_all [OF assms(1)] assms(2) by (auto simp: os_queue_free_data_def)

lemma drain_keeps:
  "drain os_queue_pop q = Some (ds, q') \<Longrightarrow> shutdown q' = shutdown q \<and> ring_size q' = ring_size q"
proof (induction ds arbitrary: q)
  case (Cons d ds)
  then obtain q1 where "os_queue_pop q = (Some d, q1)" "drain os_queue_pop q1 = Some (ds, q')"
    by (subst (asm) (2) drain.simps)
      (auto split: prod.splits option.splits simp: bind_eq_Some_conv)
  with Cons.IH show ?case using pop_keeps [of q] by (metis snd_conv)
next
  case Nil
  then have "os_queue_pop q = (None, q')"
    by (subst (asm) drain.simps)
      (auto split: prod.splits option.splits simp: bind_eq_Some_conv)
  then show ?case using pop_keeps [of q] by (metis snd_conv)
qed

text \<open>One sleeping thread wakes.\<close>

lemma cnt_wake:
  assumes "j < length ts" "P (ts ! j)" "\<not> P (wake (ts ! j))" "Q (wake (ts ! j))" "\<not> Q (ts ! j)"
    "ts' = ts[j := wake (ts ! j)]"
  shows "cnt P ts = cnt P ts' + 1 \<and> cnt Q ts' = cnt Q ts + 1"
  using cnt_update [OF assms(1), of P "wake (ts ! j)"] cnt_update [OF assms(1), of Q "wake (ts ! j)"]
    assms(2-6) by simp

lemma cnt_same:
  assumes "j < length ts" "P x = P (ts ! j)"
  shows "cnt P (ts[j := x]) = cnt P ts"
  using cnt_update [OF assms(1), of P x] assms(2) by (simp split: if_splits)

lemma signalled_pop:
  assumes "signalled pop_sleeps ts ts'"
  shows "cnt push_sleeps ts' = cnt push_sleeps ts \<and> cnt push_ready ts' = cnt push_ready ts \<and>
    (ts' = ts \<and> cnt pop_sleeps ts = 0 \<or>
     cnt pop_sleeps ts = cnt pop_sleeps ts' + 1 \<and> cnt pop_ready ts' = cnt pop_ready ts + 1)"
  using assms
proof cases
  case (one j)
  then obtain t where "ts ! j = PopSleep t" by (cases "ts ! j") auto
  with one cnt_wake [OF one(2), of pop_sleeps pop_ready ts']
    cnt_same [OF one(2), of push_sleeps "wake (ts ! j)"]
    cnt_same [OF one(2), of push_ready "wake (ts ! j)"] show ?thesis by simp
qed (simp add: cnt_0)

lemma signalled_push:
  assumes "signalled push_sleeps ts ts'"
  shows "cnt pop_sleeps ts' = cnt pop_sleeps ts \<and> cnt pop_ready ts' = cnt pop_ready ts \<and>
    (ts' = ts \<and> cnt push_sleeps ts = 0 \<or>
     cnt push_sleeps ts = cnt push_sleeps ts' + 1 \<and> cnt push_ready ts' = cnt push_ready ts + 1)"
  using assms
proof cases
  case (one j)
  then obtain t d where "ts ! j = PushSleep t d" by (cases "ts ! j") auto
  with one cnt_wake [OF one(2), of push_sleeps push_ready ts']
    cnt_same [OF one(2), of pop_sleeps "wake (ts ! j)"]
    cnt_same [OF one(2), of pop_ready "wake (ts ! j)"] show ?thesis by simp
qed (simp add: cnt_0)

lemma cnt_wake_all [simp]:
  "cnt pop_sleeps (map wake ts) = 0" "cnt push_sleeps (map wake ts) = 0"
proof -
  have "\<not> pop_sleeps (wake t) \<and> \<not> push_sleeps (wake t)" for t :: "'a thread" by (cases t) auto
  then show "cnt pop_sleeps (map wake ts) = 0" "cnt push_sleeps (map wake ts) = 0"
    by (auto simp: cnt_0)
qed

subsection \<open>Preservation\<close>

lemma flow_step: "step s s' \<Longrightarrow> flow_ok n s \<Longrightarrow> flow_ok n s'"
proof (induction rule: step.induct)
  case (push_ok i s d q ts)
  then show ?case using os_queue_push_fifo [of "ring s" d]
    by (auto simp: flow_ok_def dest!: push_Return0)
next
  case (block_ok i s t d q ts)
  then show ?case using os_queue_push_fifo [of "ring s" d]
    by (auto simp: flow_ok_def dest!: passage_Return0)
next
  case (pop_ok i s t d q ts)
  then have r: "ring_ok (ring s)" by (simp add: flow_ok_def)
  with pop_ok have "os_queue_pop (ring s) = (Some d, q)" by (simp add: pop_passage_cases)
  from pop_Some [OF r this] pop_ok show ?case by (simp add: flow_ok_def)
next
  case (free_data s ds q)
  then have r: "ring_ok (ring s)" by (simp add: flow_ok_def)
  from free_data have "drain os_queue_pop (ring s) = Some (ds, q)"
    by (simp add: os_queue_free_data_def)
  from drain_keeps [OF this] free_data_all [OF r] free_data show ?case by (simp add: flow_ok_def)
next
  case stop
  then show ?case
    by (auto simp: flow_ok_def os_queue_shutdown_def ring_ok_def contents_def count_of_def slot_def)
qed (auto simp: flow_ok_def pop_passage_cases os_queue_push_ex_timedwait_def
    os_queue_pop_ex_timedwait_def dest!: push_ReturnE passage_ReturnE)

text \<open>Effect of one thread's change on the four counters.\<close>

lemma cnt_set:
  assumes "i < length ts"
  shows "cnt pop_sleeps (ts[i := x]) + (if pop_sleeps (ts ! i) then 1 else 0) =
      cnt pop_sleeps ts + (if pop_sleeps x then 1 else 0)"
    and "cnt pop_ready (ts[i := x]) + (if pop_ready (ts ! i) then 1 else 0) =
      cnt pop_ready ts + (if pop_ready x then 1 else 0)"
    and "cnt push_sleeps (ts[i := x]) + (if push_sleeps (ts ! i) then 1 else 0) =
      cnt push_sleeps ts + (if push_sleeps x then 1 else 0)"
    and "cnt push_ready (ts[i := x]) + (if push_ready (ts ! i) then 1 else 0) =
      cnt push_ready ts + (if push_ready x then 1 else 0)"
  by (rule cnt_update [OF assms])+

lemma wake_push:
  assumes "ring_ok q" "\<not> shutdown q" "\<not> os_queue_full q" "q' = snd (os_queue_push q (Some d))"
    "i < length ts" "pushing t d (ts ! i)" "signalled pop_sleeps (ts[i := Idle]) ts'" "wake_ok q ts"
  shows "wake_ok q' ts'"
  using cnt_set [OF assms(5), of Idle] signalled_pop [OF assms(7)] push_count [OF assms(1,3), of "Some d"]
    assms(2,4,6,8)
  by (auto simp: wake_ok_def pushing_def)

lemma wake_pop:
  assumes "ring_ok q" "os_queue_pop q = (Some d, q')" "i < length ts" "popping t (ts ! i)"
    "signalled push_sleeps (ts[i := Idle]) ts'" "wake_ok q ts"
  shows "wake_ok q' ts'"
  using cnt_set [OF assms(3), of Idle] signalled_push [OF assms(5)] pop_Some [OF assms(1,2)]
    assms(4,6)
  by (auto simp: wake_ok_def popping_def)

lemma wake_step: "step s s' \<Longrightarrow> flow_ok n s \<Longrightarrow> wake_ok (ring s) (threads s) \<Longrightarrow>
    wake_ok (ring s') (threads s')"
proof (induction rule: step.induct)
  case (push_ok i s d q ts)
  then have "(threads s)[i := Idle] = threads s" by (metis list_update_id)
  with push_ok show ?case using wake_push [of "ring s" q d i "threads s" False ts]
    by (auto simp: flow_ok_def pushing_def dest!: push_Return0)
next
  case (push_fail i s d q)
  then show ?case by (auto dest!: push_ReturnE)
next
  case (block_wait i s t d)
  then show ?case
    using cnt_set [OF block_wait(1), of "PushSleep t d"] full_iff [of "ring s"]
    by (auto simp: wake_ok_def pushing_def flow_ok_def dest!: passage_Wait)
next
  case (block_ok i s t d q ts)
  then show ?case using wake_push [of "ring s" q d i "threads s" t ts]
    by (auto simp: flow_ok_def dest!: passage_Return0)
next
  case (block_fail i s t d q)
  then show ?case using cnt_set [OF block_fail(1), of Idle]
    by (auto simp: wake_ok_def pushing_def dest!: passage_ReturnE)
next
  case (pop_wait i s t)
  then show ?case using cnt_set [OF pop_wait(1), of "PopSleep t"]
    by (auto simp: wake_ok_def popping_def flow_ok_def pop_passage_cases count_empty)
next
  case (pop_ok i s t d q ts)
  then show ?case using wake_pop [of "ring s" d q i "threads s" t ts]
    by (auto simp: flow_ok_def pop_passage_cases)
next
  case (pop_none i s t q)
  then show ?case using cnt_set [OF pop_none(1), of Idle]
    by (auto simp: wake_ok_def popping_def flow_ok_def pop_passage_cases)
next
  case (spurious i s)
  then show ?case using cnt_set [OF spurious(1), of "wake (threads s ! i)"]
    by (cases "threads s ! i") (auto simp: wake_ok_def)
next
  case (push_timeout i s d r q)
  then show ?case using cnt_set [OF push_timeout(1), of Idle]
    by (auto simp: wake_ok_def os_queue_push_ex_timedwait_def)
next
  case (pop_timeout i s r q)
  then show ?case using cnt_set [OF pop_timeout(1), of Idle]
    by (auto simp: wake_ok_def os_queue_pop_ex_timedwait_def)
next
  case (free_data s ds q)
  then show ?case by (auto simp: wake_ok_def)
qed (simp add: wake_ok_def)

lemma cnt_replicate [simp]: "cnt P (replicate k x) = (if P x then k else 0)"
  by (simp add: cnt_def)

lemma reachable_ok: "reachable n s \<Longrightarrow> flow_ok n s \<and> wake_ok (ring s) (threads s)"
proof (induction rule: reachable.induct)
  case (start junk q k)
  then show ?case
    using os_queue_init_ok [OF start] by (auto simp: flow_ok_def wake_ok_def)
next
  case (next_step s s')
  then show ?case using flow_step wake_step by blast
qed

lemma cnt_pos: "0 < cnt P ts \<longleftrightarrow> (\<exists>i<length ts. P (ts ! i))"
  using cnt_0 [of P ts] by (metis gr0I in_set_conv_nth less_numeral_extra(3))

section \<open>Properties\<close>

text \<open>
  C38. Any sequence of \<open>os_queue_push_ex\<close> and pops on a ring is first-in first-out: what was there
  and what was accepted, in that order, is what came out followed by what is left; and
  \<open>os_queue_free_data\<close> returns, handing every remaining pointer to \<open>freefn\<close> exactly once, in order.
\<close>

theorem os_queue_fifo:
  assumes "ring_ok q" "run_ops ring_enq os_queue_pop ops q = (accepted, delivered, q')"
  shows "ring_ok q' \<and> contents q @ accepted = delivered @ contents q' \<and>
    (\<exists>q''. os_queue_free_data q' = Some (contents q', q'') \<and> contents q'' = [])"
  using ring.run_ops_fifo [OF assms] ring.drain_all [of q'] by (auto simp: os_queue_free_data_def)

text \<open>
  C35. With any number of threads pushing, popping, waiting, timing out and waking in any order,
  no pointer is lost, duplicated or reordered: the pointers accepted so far are those handed out
  followed by those in the ring, which never holds more than its size less one, and the counter
  the metrics read is the number of pointers in the ring (modulo its 32 bits).
\<close>

theorem pipeline_no_loss:
  assumes "reachable n s"
  shows "ins s = outs s @ contents (ring s) \<and> length (contents (ring s)) < n \<and>
    os_queue_elements (Some (ring s)) = length (contents (ring s)) mod 2 ^ 32"
proof -
  have "flow_ok n s" using reachable_ok [OF assms] by simp
  then show ?thesis
    using count_of_bound [of "ring s"] by (simp add: flow_ok_def os_queue_elements_def ring_ok_def)
qed


text \<open>
  C37. After \<open>os_queue_shutdown\<close> nobody sleeps and nobody goes to sleep: every blocking push
  returns -1 and every blocking pop returns, with the pointers still queued first.
\<close>

theorem pipeline_shutdown:
  assumes "reachable n s" "shutdown (ring s)"
  shows "(\<forall>x\<in>set (threads s). \<not> push_sleeps x \<and> \<not> pop_sleeps x) \<and>
    push_passage t (ring s) d = Return (-1) (ring s) \<and>
    (\<exists>q. pop_passage t (ring s) =
       Return (if contents (ring s) = [] then None else Some (hd (contents (ring s)))) q)"
proof -
  have R: "ring_ok (ring s)" "wake_ok (ring s) (threads s)"
    using reachable_ok [OF assms(1)] by (simp_all add: flow_ok_def)
  have "cnt push_sleeps (threads s) = 0" "cnt pop_sleeps (threads s) = 0"
    using R(2) assms(2) by (auto simp: wake_ok_def)
  then have "\<forall>x\<in>set (threads s). \<not> push_sleeps x \<and> \<not> pop_sleeps x" by (simp add: cnt_0)
  moreover have "push_passage t (ring s) d = Return (-1) (ring s)"
    using assms(2)
    by (simp add: push_passage_def os_queue_push_ex_block_def os_queue_push_ex_timedwait_def)
  moreover have "\<exists>q. pop_passage t (ring s) =
       Return (if contents (ring s) = [] then None else Some (hd (contents (ring s)))) q"
    using pop_passage_cases(2,3) [OF R(1)] os_queue_pop_fifo [OF R(1)] empty_iff [OF R(1)] assms(2)
    by (cases "os_queue_empty (ring s)") (auto, metis list.sel(1) option.collapse prod.collapse)
  ultimately show ?thesis by blast
qed

subsection \<open>Witnesses\<close>

definition small_ring :: "nat os_queue" where
  "small_ring = \<lparr>data = [None, None, None], begin_ix = 0, end_ix = 0, ring_size = 3, elements = 0,
                 shutdown = False\<rparr>"

lemma small_ring_init: "os_queue_init (\<lambda>_. None) 3 = Some small_ring"
  by (simp add: os_queue_init_def small_ring_def upt_rec)

theorem os_queue_fifo_witness:
  "\<exists>ins outs q'. run_ops ring_enq os_queue_pop [Enq 1, Enq 2, Enq 3, Deq, Enq 4] small_ring =
     (ins, outs, q') \<and> contents small_ring @ ins = outs @ contents q'"
proof -
  have "ring_ok small_ring" using os_queue_init_ok [OF small_ring_init] by simp
  then show ?thesis using os_queue_fifo by (metis prod_cases3)
qed

text \<open>Two consumers sleep, a producer wakes one of them.\<close>

definition small_system :: "nat \<Rightarrow> nat system" where
  "small_system k =
     (let s0 = \<lparr>ring = small_ring, threads = [Idle, Idle, Idle], ins = [], outs = []\<rparr>;
          s1 = s0\<lparr>threads := [PopSleep False, Idle, Idle]\<rparr>;
          s2 = s1\<lparr>threads := [PopSleep False, PopSleep True, Idle]\<rparr>
      in if k = 0 then s0 else if k = 1 then s1 else if k = 2 then s2
         else s2\<lparr>ring := snd (os_queue_push small_ring (Some 7)), ins := [7],
                 threads := [PopReady False, PopSleep True, Idle]\<rparr>)"

lemma small_system_reachable: "reachable 3 (small_system 3)"
proof -
  have R0: "reachable 3 (small_system 0)"
    using reachable.start [OF small_ring_init, of 3] by (simp add: small_system_def eval_nat_numeral)
  have "step (small_system 0) (small_system 1)"
    using step.pop_wait [of 0 "small_system 0" False]
    by (simp add: small_system_def popping_def pop_passage_def os_queue_pop_ex_def
        os_queue_pop_def os_queue_empty_def small_ring_def)
  then have R1: "reachable 3 (small_system 1)" using R0 reachable.next_step by blast
  have "step (small_system 1) (small_system 2)"
    using step.pop_wait [of 1 "small_system 1" True]
    by (simp add: small_system_def popping_def pop_passage_def os_queue_pop_ex_timedwait_def
        os_queue_pop_def os_queue_empty_def small_ring_def)
  then have R2: "reachable 3 (small_system 2)" using R1 reachable.next_step by blast
  have "signalled pop_sleeps (threads (small_system 2)) [PopReady False, PopSleep True, Idle]"
    using signalled.one [of 0 "threads (small_system 2)" pop_sleeps] by (simp add: small_system_def)
  then have "step (small_system 2) (small_system 3)"
    using step.push_ok [of 2 "small_system 2" 7 "snd (os_queue_push small_ring (Some 7))"
        "[PopReady False, PopSleep True, Idle]"]
    by (simp add: small_system_def os_queue_push_ex_def os_queue_push_def os_queue_full_def
        small_ring_def)
  then show ?thesis using R2 reachable.next_step by blast
qed

theorem pipeline_no_loss_witness:
  "ins (small_system 3) = outs (small_system 3) @ contents (ring (small_system 3))"
  using pipeline_no_loss [OF small_system_reachable] by blast


theorem pipeline_shutdown_witness:
  "push_passage True (os_queue_shutdown (ring (small_system 3))) 8 =
     Return (-1) (os_queue_shutdown (ring (small_system 3)))"
  using pipeline_shutdown [OF reachable.next_step [OF small_system_reachable step.stop], of True 8]
  by (simp add: os_queue_shutdown_def)

end
