(* ===== verification/Spec2Isabelle.thy ===== *)
theory Spec2Isabelle
  imports Decode_First Store_Op Clean_Event Enrol Word_Match Ownership Alerts Active_Response Fts Stats Ring_Queue Event_List Rule_Match Correlation
begin

text \<open>
  A verification library for OSSEC HIDS, the host intrusion detection system. All paths below are
  under \<^verbatim>\<open>src/src\<close>.

  \<^bold>\<open>The program.\<close> Agents watch a machine and send what they see to a manager in encrypted datagrams
  (\<^verbatim>\<open>os_crypto\<close>). On the manager the messages go through a pipeline of threads joined by bounded
  queues (\<^verbatim>\<open>shared/queue_op.c\<close>) into the analysis daemon (\<^verbatim>\<open>analysisd\<close>). It decodes each into an event,
  lets it walk the tree of rules, and for the rule that fires updates the memory that later events
  are judged by, writes an alert, requests active responses and archives the event. The rules look
  into lists on disk, the hash tables of the accumulator and of what was seen before, the recent
  events of a rule, a group or of all, and compare words, addresses, times and days.

  \<^bold>\<open>The theories.\<close> Each says at its start which file it models; the manifest gives the lines of every
  definition. From the bottom up:

  \<^item> \<open>Prelude_CStr\<close> has C strings and the functions of the C library that the code calls, with the
  collection of their lemmas; \<open>Prelude_Mem\<close> has buffers that are read and written at positions, where
  an access outside is \<open>None\<close>; \<open>Prelude_Word\<close> has bytes in 32-bit words. \<open>Linked\<close> has the heap of list
  nodes, \<open>Fifo\<close> the contract of a queue as a locale that \<open>List_Op\<close> and \<open>Ring_Queue\<close> interpret.
  \<^item> Containers and strings: \<open>Math_Op\<close> and \<open>Hash_Table\<close> (\<^verbatim>\<open>shared/math_op.c\<close>, \<^verbatim>\<open>hash_op.c\<close>), \<open>List_Op\<close>
  (\<^verbatim>\<open>list_op.c\<close>), \<open>Store_Op\<close> (\<^verbatim>\<open>store_op.c\<close>), \<open>Ring_Queue\<close> (\<^verbatim>\<open>queue_op.c\<close>), \<open>String_Op\<close>, \<open>File_Op\<close> and \<open>Validate\<close> (\<^verbatim>\<open>string_op.c\<close>,
  \<^verbatim>\<open>file_op.c\<close>, \<^verbatim>\<open>validate_op.c\<close>), \<open>Str_Utils\<close> and \<open>Word_Match\<close> (\<^verbatim>\<open>os_regex\<close>).
  \<^item> Cryptography: \<open>Md5\<close>, \<open>Blowfish\<close> with its tables in \<open>Blowfish_Pi\<close>.
  \<^item> The channel: \<open>Rids\<close> (the counter files), \<open>Sec_Msgs\<close> (\<^verbatim>\<open>msgs.c\<close>, \<^verbatim>\<open>aes_op.c\<close>, \<^verbatim>\<open>os_zlib.c\<close>), \<open>Keys\<close>
  (\<^verbatim>\<open>keys.c\<close>), and what they promise together in \<open>Sec_Channel\<close> and \<open>Replay\<close>.
  \<^item> Enrolment: \<open>Agent_Keys\<close> and \<open>Key_Admin\<close> administer the key file (\<^verbatim>\<open>addagent/validate.c\<close>), \<open>Enrol\<close>
  has the request, its handling and the answer (\<^verbatim>\<open>os_auth/auth_conn.c\<close>, \<^verbatim>\<open>main-client.c\<close>).
  \<^item> Decoding: \<open>Clean_Event\<close> takes a message apart (\<^verbatim>\<open>analysisd/cleanevent.c\<close>); \<open>Decoders\<close> has the decoder
  tree and \<open>DecodeEvent\<close> (\<^verbatim>\<open>decoders/decoders_list.c\<close>, \<^verbatim>\<open>decoder.c\<close>), \<open>Decode_Xml\<close> reads the decoder files
  (\<^verbatim>\<open>decode-xml.c\<close>), \<open>Decode_Load\<close> starts the daemon with them; \<open>Decode_Safe\<close> and \<open>Decode_First\<close> hold
  what is proved of them together.
  \<^item> The memory of the engine: \<open>Analysis_Types\<close> (events, rules, decoders), \<open>Event_List\<close>
  (\<^verbatim>\<open>eventinfo_list.c\<close>), \<open>Correlation\<close> (the searches of \<^verbatim>\<open>eventinfo.c\<close>), \<open>Fts\<close>, \<open>Stats\<close>,
  \<open>Accumulator\<close>, \<open>Lists\<close>, \<open>Do_Diff\<close>, \<open>Compiled_Rules\<close>.
  \<^item> The rules: \<open>Rules_List\<close> builds the tree (\<^verbatim>\<open>rules_list.c\<close>), \<open>Rule_Match\<close> walks it
  (\<open>OS_CheckIfRuleMatch\<close> of \<^verbatim>\<open>analysisd.c\<close>).
  \<^item> The analysis of one event: \<open>Analyze\<close> (\<^verbatim>\<open>analysisd_stages.c\<close>) composes all of these;
  \<open>Active_Response\<close> has the requests (\<^verbatim>\<open>alerts/exec.c\<close>, \<^verbatim>\<open>shared/ar_expect.c\<close>). \<open>Ownership\<close> and \<open>Alerts\<close> hold
  what is proved of whole runs.

  \<^bold>\<open>How code became HOL.\<close> A structure is a record, an enumeration a datatype, an \<^verbatim>\<open>unsigned int\<close> a word
  of 32 bits where its overflow matters. State is passed explicitly; nodes that the code links and
  unlinks live in an explicit heap of nodes, where aliasing matters. A function that can fail
  returns an option or a sum; a process that exits is a value. A loop is a recursive function with
  a proved measure: no definition takes fuel. Library functions that are not part of the repository
  (PCRE2, OpenSSL, zlib, inet\_pton, the system calls) are parameters with named hypotheses about
  their documented behaviour, and every hypothesis has an instance in a witness.

  \<^bold>\<open>What is shown.\<close> Containers implement their abstract types, with the exact behaviour of every
  operation in the corners; the ring loses nothing, wakes everybody and drains at shutdown under
  any interleaving of its threads. MD5 over pieces is MD5 of the whole, Blowfish decrypts what it
  encrypted. A secure message crosses unchanged for both ciphers, fits every buffer, a frame that
  does not authenticate has no effect, and no message is accepted twice over any sequence of
  datagrams, messages and reloads of the keys. The tree of rules keeps its order through every way
  of adding a rule; a rule fires exactly if its conditions hold and no child does. The searches of
  the composite rules answer as their specification over the history says. The pre-decoder
  stays inside of its buffers on every message and reads syslog lines as they are meant; decoders
  of an accepted configuration never follow a NULL pointer, and the first decoder that matches
  decides. The number of an agent is never given twice, and server and agent agree on the key that
  enrolment makes. An event is owned exactly once after analysis, alerts respect the ignore time and are deserved. Requests to the
  executor carry no injected argument, and merged files cannot escape their directory.

  \<^bold>\<open>Not modelled.\<close> Wrappers of PCRE2, of sockets and of the file system have no logic of their own;
  neither have the output formats. Also left out: the datagram handling of
  \<^verbatim>\<open>remoted\<close>, the XML reader (\<^verbatim>\<open>os_xml\<close>), the reading of the rule files (\<^verbatim>\<open>analysisd/rules.c\<close>), the file
  integrity decoder, the mail queue (\<^verbatim>\<open>os_maild\<close>) and the readers of logs. The locks are left out where one thread
  owns the data; where several do (\<open>Ring_Queue\<close>), a step is what runs under the lock.
\<close>

end
